(* ===== verification/Prelude.thy ===== *)
theory Prelude
  imports Main "HOL-Library.Word"
begin

unbundle bit_operations_syntax

text \<open>
  Shared vocabulary of the development: the machine integers of the C sources, the constants of
  \<^verbatim>\<open>kernel/mm/common.h\<close>, and the generic facts on words, lists and pointer-linked lists that the
  component theories use.  An address is a 64-bit word and the null pointer is \<open>0\<close>.
\<close>

type_synonym u8 = "8 word"
type_synonym u16 = "16 word"
type_synonym u32 = "32 word"
type_synonym u64 = "64 word"
type_synonym addr = "64 word"

named_theorems heap_simps \<open>rewriting of split heaps under pointer updates\<close>

subsection \<open>First and last element of a list of addresses, null when empty\<close>

definition hd0 :: "addr list \<Rightarrow> addr" where
  "hd0 xs = (case xs of [] \<Rightarrow> 0 | x # _ \<Rightarrow> x)"

definition last0 :: "addr list \<Rightarrow> addr" where
  "last0 xs = (if xs = [] then 0 else last xs)"

lemma hd0_simps [simp]: "hd0 [] = 0" "hd0 (x # xs) = x"
  by (simp_all add: hd0_def)

lemma last0_simps [simp]: "last0 [] = 0" "last0 [x] = x" "last0 (x # y # xs) = last0 (y # xs)"
  "last0 (xs @ [x]) = x"
  by (simp_all add: last0_def)

lemma hd0_append: "hd0 (xs @ ys) = (if xs = [] then hd0 ys else hd0 xs)"
  by (cases xs) auto

lemma last0_append: "last0 (xs @ ys) = (if ys = [] then last0 xs else last0 ys)"
  by (simp add: last0_def)

lemma last0_Cons: "last0 (x # xs) = (if xs = [] then x else last0 xs)"
  by (simp add: last0_def)

lemma hd0_eq_0: "0 \<notin> set xs \<Longrightarrow> hd0 xs = 0 \<longleftrightarrow> xs = []"
  by (cases xs) auto

lemma last0_eq_0: "0 \<notin> set xs \<Longrightarrow> last0 xs = 0 \<longleftrightarrow> xs = []"
  by (metis last0_def last_in_set)

lemma last0_in_set: "xs \<noteq> [] \<Longrightarrow> last0 xs \<in> set xs"
  by (simp add: last0_def)

lemma hd0_in_set: "xs \<noteq> [] \<Longrightarrow> hd0 xs \<in> set xs"
  by (cases xs) auto

subsection \<open>Loops whose body may fail\<close>

text \<open>
  \<open>iter f xs s\<close> runs the body \<open>f\<close> of a counting loop for the values \<open>xs\<close> of the loop variable; \<open>None\<close> is a
  body that panics or does not return.
\<close>

fun iter :: "('s \<Rightarrow> 'a \<Rightarrow> 's option) \<Rightarrow> 'a list \<Rightarrow> 's \<Rightarrow> 's option" where
  "iter f [] s = Some s"
| "iter f (x # xs) s = Option.bind (f s x) (iter f xs)"

lemma iter_append: "iter f (xs @ ys) s = Option.bind (iter f xs s) (iter f ys)"
  by (induction xs arbitrary: s) (auto split: Option.bind_split)

lemma iter_inv:
  assumes "I xs s" and "\<And>x xs s. I (x # xs) s \<Longrightarrow> \<exists>s'. f s x = Some s' \<and> I xs s'"
  shows "\<exists>s'. iter f xs s = Some s' \<and> I [] s'"
  using assms(1)
proof (induction xs arbitrary: s)
  case (Cons x xs)
  then show ?case using assms(2) [of x xs s] by fastforce
qed simp

subsection \<open>Increment and decrement without wrap-around\<close>

lemma unat_inc: "unat (a + 1) = unat a + 1" if "(a :: u64) \<noteq> -1"
proof -
  have "unat (-1 :: u64) = 0xFFFFFFFFFFFFFFFF" by (simp add: unsigned_minus_1_eq_mask mask_eq_exp_minus_1)
  then have "unat a \<noteq> 0xFFFFFFFFFFFFFFFF" using that by (metis word_unat_eq_iff)
  moreover have "unat a < 2 ^ 64" using unsigned_less [of a] by simp
  ultimately show ?thesis by (simp add: unat_word_ariths)
qed

lemma unat_dec: "(b :: u64) \<noteq> 0 \<Longrightarrow> unat (b - 1) = unat b - 1"
  by (simp add: unat_eq_0 unat_sub word_le_nat_alt Suc_leI unat_gt_0)

lemma word_inc_le: "(a :: u64) \<noteq> -1 \<Longrightarrow> a + 1 \<le> x \<longleftrightarrow> a < x"
  by (simp add: word_le_nat_alt word_less_nat_alt unat_inc Suc_le_eq)

lemma word_le_dec: "(b :: u64) \<noteq> 0 \<Longrightarrow> x \<le> b - 1 \<longleftrightarrow> x < b"
  using unat_gt_0 [of b] by (auto simp: word_le_nat_alt word_less_nat_alt unat_dec)

subsection \<open>Byte-addressed memory, little-endian\<close>

type_synonym bytes = "addr \<Rightarrow> u8"

definition rd16 :: "bytes \<Rightarrow> addr \<Rightarrow> u16" where
  "rd16 m a = ucast (m a) OR push_bit 8 (ucast (m (a + 1)))"

definition rd32 :: "bytes \<Rightarrow> addr \<Rightarrow> u32" where
  "rd32 m a = ucast (rd16 m a) OR push_bit 16 (ucast (rd16 m (a + 2)))"

definition rd64 :: "bytes \<Rightarrow> addr \<Rightarrow> u64" where
  "rd64 m a = ucast (rd32 m a) OR push_bit 32 (ucast (rd32 m (a + 4)))"

end
