(* ===== verification/Klist.thy ===== *)
theory Klist
  imports Prelude "HOL-Library.Multiset"
begin

text \<open>
  The intrusive doubly linked list of \<^verbatim>\<open>kernel/util/list.c\<close>.  The links of all nodes form a split
  heap (one function per pointer field of \<^verbatim>\<open>list_node_t\<close>); a list is a \<^verbatim>\<open>list_t\<close> record.  The
  predicate \<open>dll\<close> relates the two to the list of node addresses.
\<close>

section \<open>Data and operations\<close>

record nodes =
  n_next :: "addr \<Rightarrow> addr"
  n_prev :: "addr \<Rightarrow> addr"

record list_t =
  l_head :: addr
  l_tail :: addr
  l_size :: int

definition set_next :: "nodes \<Rightarrow> addr \<Rightarrow> addr \<Rightarrow> nodes" where
  "set_next m p q = m\<lparr>n_next := (n_next m)(p := q)\<rparr>"

definition set_prev :: "nodes \<Rightarrow> addr \<Rightarrow> addr \<Rightarrow> nodes" where
  "set_prev m p q = m\<lparr>n_prev := (n_prev m)(p := q)\<rparr>"

definition LIST_EMPTY :: list_t where
  "LIST_EMPTY = \<lparr>l_head = 0, l_tail = 0, l_size = 0\<rparr>"

definition list_init :: "list_t \<Rightarrow> list_t" where
  "list_init l = l\<lparr>l_head := 0, l_tail := 0, l_size := 0\<rparr>"

definition list_insert_before :: "nodes \<Rightarrow> list_t \<Rightarrow> addr \<Rightarrow> addr \<Rightarrow> nodes \<times> list_t" where
  "list_insert_before m l node new =
     (let m = set_prev m new (n_prev m node);
          m = set_next m new node;
          (m, l) = (if n_prev m node = 0 then (m, l\<lparr>l_head := new\<rparr>)
                    else (set_next m (n_prev m node) new, l));
          m = set_prev m node new
      in (m, l\<lparr>l_size := l_size l + 1\<rparr>))"

definition list_insert_after :: "nodes \<Rightarrow> list_t \<Rightarrow> addr \<Rightarrow> addr \<Rightarrow> nodes \<times> list_t" where
  "list_insert_after m l node new =
     (let m = set_prev m new node;
          m = set_next m new (n_next m node);
          (m, l) = (if n_next m node = 0 then (m, l\<lparr>l_tail := new\<rparr>)
                    else (set_prev m (n_next m node) new, l));
          m = set_next m node new
      in (m, l\<lparr>l_size := l_size l + 1\<rparr>))"

text \<open>A failed \<^verbatim>\<open>assert\<close> panics the kernel: the result is \<open>None\<close>.\<close>

definition list_add_head :: "nodes \<Rightarrow> list_t \<Rightarrow> addr \<Rightarrow> (nodes \<times> list_t) option" where
  "list_add_head m l node =
     (if l_head l = 0 then
        (if l_tail l = 0 then
           (let l = l\<lparr>l_head := node, l_tail := node\<rparr>;
                m = set_prev (set_next m node 0) node 0
            in Some (m, l\<lparr>l_size := l_size l + 1\<rparr>))
         else None)
      else Some (list_insert_before m l (l_head l) node))"

definition list_add_tail :: "nodes \<Rightarrow> list_t \<Rightarrow> addr \<Rightarrow> (nodes \<times> list_t) option" where
  "list_add_tail m l node =
     (if l_tail l = 0 then list_add_head m l node
      else Some (list_insert_after m l (l_tail l) node))"

definition list_remove :: "nodes \<Rightarrow> list_t \<Rightarrow> addr \<Rightarrow> nodes \<times> list_t" where
  "list_remove m l node =
     (let (m, l) = (if n_prev m node = 0 then (m, l\<lparr>l_head := n_next m node\<rparr>)
                    else (set_next m (n_prev m node) (n_next m node), l));
          (m, l) = (if n_next m node = 0 then (m, l\<lparr>l_tail := n_prev m node\<rparr>)
                    else (set_prev m (n_next m node) (n_prev m node), l))
      in (m, l\<lparr>l_size := l_size l - 1\<rparr>))"

text \<open>
  Sorting.  The loops of \<^verbatim>\<open>split\<close> and \<^verbatim>\<open>merge\<close> follow pointers and end only on acyclic lists, so
  they are partial: \<open>None\<close> is a run that never returns.
\<close>

partial_function (option) split_loop :: "nodes \<Rightarrow> addr \<Rightarrow> addr \<Rightarrow> addr option" where
  "split_loop m slow fast =
     (if fast = 0 then Some slow
      else (let fast = n_next m fast in
            if fast = 0 then split_loop m slow fast
            else split_loop m (n_next m slow) (n_next m fast)))"

definition split :: "nodes \<Rightarrow> addr \<Rightarrow> (nodes \<times> addr) option" where
  "split m head =
     (case split_loop m head (n_next m head) of
        None \<Rightarrow> None
      | Some slow \<Rightarrow> (let midpoint = n_next m slow in Some (set_next m slow 0, midpoint)))"

partial_function (option) merge_loop ::
  "(addr \<Rightarrow> addr \<Rightarrow> int) \<Rightarrow> nodes \<Rightarrow> addr \<Rightarrow> addr \<Rightarrow> addr \<Rightarrow> addr \<Rightarrow> (nodes \<times> addr \<times> addr) option"
where
  "merge_loop cmp m left right head tail =
     (if left = 0 \<and> right = 0 then Some (m, head, tail)
      else (let (ptr, left, right) =
                  (if left = 0 then (right, left, n_next m right)
                   else if right = 0 then (left, n_next m left, right)
                   else if cmp left right \<ge> 0 then (right, left, n_next m right)
                   else (left, n_next m left, right));
                (m, head) = (if head = 0 then (m, ptr) else (set_next m tail ptr, head));
                m = set_prev m ptr tail
            in merge_loop cmp m left right head ptr))"

definition merge :: "(addr \<Rightarrow> addr \<Rightarrow> int) \<Rightarrow> nodes \<Rightarrow> addr \<Rightarrow> addr \<Rightarrow> (nodes \<times> addr \<times> addr) option" where
  "merge cmp m left right = merge_loop cmp m left right 0 0"

partial_function (option) mergesort ::
  "(addr \<Rightarrow> addr \<Rightarrow> int) \<Rightarrow> nodes \<Rightarrow> addr \<Rightarrow> (nodes \<times> addr \<times> addr) option"
where
  "mergesort cmp m head =
     (if head = 0 then Some (m, head, 0)
      else if n_next m head = 0 then Some (m, head, n_next m head)
      else Option.bind (split m head) (\<lambda>(m, midpoint).
           Option.bind (mergesort cmp m head) (\<lambda>(m, lhead, ltail).
           Option.bind (mergesort cmp m midpoint) (\<lambda>(m, rhead, rtail).
           merge cmp m lhead rhead))))"

definition list_sort :: "(addr \<Rightarrow> addr \<Rightarrow> int) \<Rightarrow> nodes \<Rightarrow> list_t \<Rightarrow> (nodes \<times> list_t) option" where
  "list_sort cmp m l =
     (case mergesort cmp m (l_head l) of
        None \<Rightarrow> None
      | Some (m, head, tail) \<Rightarrow> Some (m, l\<lparr>l_head := head, l_tail := tail\<rparr>))"

text \<open>
  The loop of the macro \<^verbatim>\<open>list_for_each\<close>: the successor of a node is read (by \<open>nextf\<close>) before the body
  runs.  The body panics (\<open>None\<close>), leaves the loop with a value (\<open>Inl\<close>) or continues with a new state.
\<close>

partial_function (option) list_for_each_loop ::
  "('s \<Rightarrow> addr \<Rightarrow> addr) \<Rightarrow> (addr \<Rightarrow> 's \<Rightarrow> ('r + 's) option) \<Rightarrow> addr \<Rightarrow> addr \<Rightarrow> 's \<Rightarrow> ('r + 's) option"
where
  "list_for_each_loop nextf body node nxt s =
     (if node = 0 then Some (Inr s)
      else Option.bind (body node s) (\<lambda>r. case r of
          Inl v \<Rightarrow> Some (Inl v)
        | Inr s \<Rightarrow> list_for_each_loop nextf body nxt (if nxt = 0 then 0 else nextf s nxt) s))"

definition list_for_each ::
  "('s \<Rightarrow> addr \<Rightarrow> addr) \<Rightarrow> (addr \<Rightarrow> 's \<Rightarrow> ('r + 's) option) \<Rightarrow> addr \<Rightarrow> 's \<Rightarrow> ('r + 's) option"
where
  "list_for_each nextf body head s =
     list_for_each_loop nextf body head (if head = 0 then 0 else nextf s head) s"

section \<open>The list a heap represents\<close>

definition hdn :: "addr list \<Rightarrow> addr \<Rightarrow> addr" where
  "hdn xs n = (case xs of [] \<Rightarrow> n | x # _ \<Rightarrow> x)"

definition lastn :: "addr \<Rightarrow> addr list \<Rightarrow> addr" where
  "lastn p xs = (if xs = [] then p else last xs)"

lemma hdn_simps [simp]: "hdn [] n = n" "hdn (x # xs) n = x" "hdn (xs @ ys) n = hdn xs (hdn ys n)"
  by (simp_all add: hdn_def split: list.split)

lemma lastn_simps [simp]: "lastn p [] = p" "lastn p (x # xs) = lastn x xs"
  "lastn p (xs @ ys) = lastn (lastn p xs) ys"
  by (simp_all add: lastn_def)

lemma hdn_0 [simp]: "hdn xs 0 = hd0 xs"
  by (simp add: hdn_def hd0_def)

lemma lastn_0 [simp]: "lastn 0 xs = last0 xs"
  by (simp add: lastn_def last0_def)

text \<open>
  \<open>dls m p xs n\<close>: the nodes \<open>xs\<close> are linked in this order in both directions, the first node's
  predecessor is \<open>p\<close> and the last node's successor is \<open>n\<close>.
\<close>

fun dls :: "nodes \<Rightarrow> addr \<Rightarrow> addr list \<Rightarrow> addr \<Rightarrow> bool" where
  "dls m p [] n = True"
| "dls m p (x # xs) n = (n_prev m x = p \<and> n_next m x = hdn xs n \<and> dls m x xs n)"

definition dll :: "nodes \<Rightarrow> list_t \<Rightarrow> addr list \<Rightarrow> bool" where
  "dll m l xs \<longleftrightarrow> distinct xs \<and> 0 \<notin> set xs \<and> l_head l = hd0 xs \<and> l_tail l = last0 xs
     \<and> l_size l = int (length xs) \<and> dls m 0 xs 0"

text \<open>Two heaps agree outside a set of nodes.\<close>

definition agree_off :: "addr set \<Rightarrow> nodes \<Rightarrow> nodes \<Rightarrow> bool" where
  "agree_off S m m' \<longleftrightarrow> (\<forall>y. y \<notin> S \<longrightarrow> n_next m' y = n_next m y \<and> n_prev m' y = n_prev m y)"

lemma set_next_simps [simp, heap_simps]:
  "n_next (set_next m p q) = (n_next m)(p := q)" "n_prev (set_next m p q) = n_prev m"
  by (simp_all add: set_next_def)

lemma set_prev_simps [simp, heap_simps]:
  "n_prev (set_prev m p q) = (n_prev m)(p := q)" "n_next (set_prev m p q) = n_next m"
  by (simp_all add: set_prev_def)

lemma dls_append [simp]: "dls m p (xs @ ys) n \<longleftrightarrow> dls m p xs (hdn ys n) \<and> dls m (lastn p xs) ys n"
  by (induction xs arbitrary: p) auto

lemma dls_set_next [simp]: "x \<notin> set xs \<Longrightarrow> dls (set_next m x y) p xs n = dls m p xs n"
  by (induction xs arbitrary: p) auto

lemma dls_set_prev [simp]: "x \<notin> set xs \<Longrightarrow> dls (set_prev m x y) p xs n = dls m p xs n"
  by (induction xs arbitrary: p) auto

lemma dls_agree: "agree_off S m m' \<Longrightarrow> set xs \<inter> S = {} \<Longrightarrow> dls m' p xs n = dls m p xs n"
  by (induction xs arbitrary: p) (auto simp: agree_off_def)

lemma dls_set_first: "x \<notin> set xs \<Longrightarrow> dls m p (x # xs) n \<Longrightarrow> dls (set_prev m x q) q (x # xs) n"
  by simp

lemma dls_set_last:
  "x \<notin> set xs \<Longrightarrow> dls m p (xs @ [x]) n \<Longrightarrow> dls (set_next m x n') p (xs @ [x]) n'"
  by simp

lemma dll_frame: "dll m l xs \<Longrightarrow> agree_off S m m' \<Longrightarrow> set xs \<inter> S = {} \<Longrightarrow> dll m' l xs"
  by (simp add: dll_def dls_agree)

lemma dll_empty [simp]: "dll m LIST_EMPTY []"
  by (simp add: dll_def LIST_EMPTY_def)

lemma dll_list_init: "dll m (list_init l) []"
  by (simp add: dll_def list_init_def)

lemma dll_Nil_iff: "dll m l xs \<Longrightarrow> l_head l = 0 \<longleftrightarrow> xs = []" "dll m l xs \<Longrightarrow> l_tail l = 0 \<longleftrightarrow> xs = []"
  by (auto simp: dll_def hd0_eq_0 last0_eq_0)

lemma list_add_head_ok:
  assumes "dll m l xs" and "x \<noteq> 0" and "x \<notin> set xs"
  shows "\<exists>m' l'. list_add_head m l x = Some (m', l') \<and> dll m' l' (x # xs)
    \<and> agree_off (insert x (set xs)) m m'"
proof (cases xs)
  case Nil
  with assms show ?thesis
    by (auto simp: list_add_head_def dll_def agree_off_def Let_def)
next
  case (Cons y ys)
  with assms show ?thesis
    by (auto simp: list_add_head_def list_insert_before_def dll_def agree_off_def Let_def)
qed

lemma list_insert_after_ok:
  assumes "list_insert_after m l y x = (m', l')"
    and "dll m l (as @ y # bs)" and "x \<noteq> 0" and "x \<notin> set (as @ y # bs)"
  shows "dll m' l' (as @ y # x # bs) \<and> agree_off (insert x (set (as @ y # bs))) m m'"
  using assms
  by (cases bs) (auto simp: list_insert_after_def dll_def agree_off_def Let_def last0_append hd0_append)

lemma list_insert_before_ok:
  assumes "list_insert_before m l y x = (m', l')"
    and "dll m l (as @ y # bs)" and "x \<noteq> 0" and "x \<notin> set (as @ y # bs)"
  shows "dll m' l' (as @ x # y # bs) \<and> agree_off (insert x (set (as @ y # bs))) m m'"
  using assms
  by (cases as rule: rev_cases)
    (auto simp: list_insert_before_def dll_def agree_off_def Let_def last0_append hd0_append)

lemma list_remove_ok:
  assumes "list_remove m l y = (m', l')" and "dll m l (as @ y # bs)"
  shows "dll m' l' (as @ bs) \<and> agree_off (set (as @ bs)) m m'"
  using assms
  by (cases as rule: rev_cases; cases bs)
    (auto simp: list_remove_def dll_def agree_off_def Let_def last0_append hd0_append)

lemma list_add_tail_ok:
  assumes "dll m l xs" and "x \<noteq> 0" and "x \<notin> set xs"
  shows "\<exists>m' l'. list_add_tail m l x = Some (m', l') \<and> dll m' l' (xs @ [x])
    \<and> agree_off (insert x (set xs)) m m'"
proof (cases xs rule: rev_cases)
  case Nil
  with assms list_add_head_ok [OF assms] show ?thesis
    by (simp add: list_add_tail_def dll_Nil_iff)
next
  case (snoc ys y)
  obtain m' l' where ins: "list_insert_after m l y x = (m', l')" by fastforce
  have "l_tail l = y" "y \<noteq> 0" using assms snoc by (auto simp: dll_def)
  with ins list_insert_after_ok [OF ins, of ys "[]"] assms snoc show ?thesis
    by (simp add: list_add_tail_def)
qed

section \<open>Loops over lists\<close>

fun lfold :: "(addr \<Rightarrow> 's \<Rightarrow> ('r + 's) option) \<Rightarrow> addr list \<Rightarrow> 's \<Rightarrow> ('r + 's) option" where
  "lfold body [] s = Some (Inr s)"
| "lfold body (x # xs) s = Option.bind (body x s) (\<lambda>r. case r of
       Inl v \<Rightarrow> Some (Inl v) | Inr s \<Rightarrow> lfold body xs s)"

text \<open>
  The rule for such loops: an invariant \<open>P\<close> of the nodes still to be visited and the state, which gives
  the link of the next node and which one run of the body keeps.
\<close>

lemma list_for_each_lfold:
  assumes links: "\<And>x ys s. P (x # ys) s \<Longrightarrow> x \<noteq> 0 \<and> nextf s x = hd0 ys"
    and step: "\<And>x ys s s'. P (x # ys) s \<Longrightarrow> body x s = Some (Inr s') \<Longrightarrow> P ys s'"
    and init: "P xs s"
  shows "list_for_each nextf body (hd0 xs) s = lfold body xs s"
proof -
  have "list_for_each_loop nextf body (hd0 xs) (if hd0 xs = 0 then 0 else nextf s (hd0 xs)) s
      = lfold body xs s" using init
  proof (induction xs arbitrary: s)
    case Nil
    show ?case by (simp add: list_for_each_loop.simps)
  next
    case (Cons x xs)
    have x: "x \<noteq> 0" "nextf s x = hd0 xs" using links [OF Cons.prems] by auto
    have "list_for_each_loop nextf body (hd0 xs) (if hd0 xs = 0 then 0 else nextf s' (hd0 xs)) s'
        = lfold body xs s'" if "body x s = Some (Inr s')" for s'
      using Cons.IH [OF step [OF Cons.prems that]] .
    then show ?case
      using x by (subst list_for_each_loop.simps) (auto split: sum.split intro!: Option.bind_cong)
  qed
  then show ?thesis by (simp add: list_for_each_def)
qed

section \<open>The interface of the lists\<close>

text \<open>
  The contract of an intrusive list that its clients use.  \<open>repr h l xs\<close> says that list \<open>l\<close> of heap \<open>h\<close>
  holds the nodes \<open>xs\<close>; every operation keeps the lists it does not touch.
\<close>

locale node_list =
  fixes repr :: "'h \<Rightarrow> 'l \<Rightarrow> addr list \<Rightarrow> bool"
    and add_head :: "'h \<Rightarrow> 'l \<Rightarrow> addr \<Rightarrow> ('h \<times> 'l) option"
    and add_tail :: "'h \<Rightarrow> 'l \<Rightarrow> addr \<Rightarrow> ('h \<times> 'l) option"
    and remove :: "'h \<Rightarrow> 'l \<Rightarrow> addr \<Rightarrow> 'h \<times> 'l"
    and head :: "'l \<Rightarrow> addr"
    and nextn :: "'h \<Rightarrow> addr \<Rightarrow> addr"
  assumes repr_distinct: "repr h l xs \<Longrightarrow> distinct xs \<and> 0 \<notin> set xs"
    and head_law: "repr h l xs \<Longrightarrow> head l = hd0 xs"
    and next_law: "repr h l (as @ x # bs) \<Longrightarrow> nextn h x = hd0 bs"
    and add_head_law: "repr h l xs \<Longrightarrow> x \<noteq> 0 \<Longrightarrow> x \<notin> set xs \<Longrightarrow>
      \<exists>h' l'. add_head h l x = Some (h', l') \<and> repr h' l' (x # xs) \<and>
        (\<forall>k ys. repr h k ys \<longrightarrow> set ys \<inter> insert x (set xs) = {} \<longrightarrow> repr h' k ys)"
    and add_tail_law: "repr h l xs \<Longrightarrow> x \<noteq> 0 \<Longrightarrow> x \<notin> set xs \<Longrightarrow>
      \<exists>h' l'. add_tail h l x = Some (h', l') \<and> repr h' l' (xs @ [x]) \<and>
        (\<forall>k ys. repr h k ys \<longrightarrow> set ys \<inter> insert x (set xs) = {} \<longrightarrow> repr h' k ys)"
    and remove_law: "repr h l (as @ x # bs) \<Longrightarrow> remove h l x = (h', l') \<Longrightarrow>
      repr h' l' (as @ bs) \<and> (\<forall>k ys. repr h k ys \<longrightarrow> set ys \<inter> set (as @ x # bs) = {} \<longrightarrow> repr h' k ys)"
begin

lemma repr_split:
  assumes "repr h l xs" "x \<in> set xs"
  shows "\<exists>as bs. xs = as @ x # bs \<and> x \<notin> set as \<and> x \<notin> set bs \<and> remove1 x xs = as @ bs"
proof -
  obtain as bs where "xs = as @ x # bs" "x \<notin> set as" using split_list_first [OF assms(2)] by blast
  with repr_distinct [OF assms(1)] show ?thesis by (auto simp: remove1_append)
qed

lemma remove1_repr:
  assumes "repr h l xs" "x \<in> set xs" "remove h l x = (h', l')"
  shows "repr h' l' (remove1 x xs)"
    and "repr h k ys \<Longrightarrow> set ys \<inter> set xs = {} \<Longrightarrow> repr h' k ys"
  using repr_split [OF assms(1,2)] remove_law [of h l _ x _ h' l'] assms by auto

text \<open>Moving a node from one list to the end of another one.\<close>

lemma move_tail:
  assumes "repr h l xs" "x \<in> set xs" "repr h k ys" "set xs \<inter> set ys = {}"
  shows "\<exists>h' l' h'' k'. remove h l x = (h', l') \<and> add_tail h' k x = Some (h'', k')
    \<and> repr h'' l' (remove1 x xs) \<and> repr h'' k' (ys @ [x])"
proof -
  obtain h' l' where r: "remove h l x = (h', l')" by fastforce
  have l: "repr h' l' (remove1 x xs)" and k: "repr h' k ys"
    using remove1_repr [OF assms(1,2) r] assms(3,4) by auto
  have x: "x \<noteq> 0" "x \<notin> set ys" using repr_distinct assms by (metis, blast)
  obtain h'' k' where a: "add_tail h' k x = Some (h'', k')" "repr h'' k' (ys @ [x])"
    "\<forall>j zs. repr h' j zs \<longrightarrow> set zs \<inter> insert x (set ys) = {} \<longrightarrow> repr h'' j zs"
    using add_tail_law [OF k x] by blast
  have "x \<notin> set (remove1 x xs)" using repr_distinct [OF assms(1)] by simp
  with a l assms(4) have "repr h'' l' (remove1 x xs)"
    using set_remove1_subset [of x xs] by blast
  with r a show ?thesis by blast
qed

text \<open>Moving the first node to the end: one turn of a round robin.\<close>

lemma rotate_head:
  assumes "repr h l (x # xs)"
  shows "\<exists>h' l' h'' l''. remove h l (head l) = (h', l') \<and> add_tail h' l' x = Some (h'', l'')
    \<and> repr h'' l'' (rotate1 (x # xs))"
proof -
  obtain h' l' where r: "remove h l x = (h', l')" by fastforce
  have "repr h' l' xs" using remove_law [of h l "[]" x xs] assms r by simp
  with add_tail_law [of h' l' xs x] r repr_distinct [OF assms] head_law [OF assms] show ?thesis by auto
qed

text \<open>A loop over a list whose body does not change the links visits the nodes in order.\<close>

lemma for_each_lfold:
  assumes "repr h l xs" "nextf s = nextn h"
    and "\<And>x s s'. x \<in> set xs \<Longrightarrow> nextf s = nextn h \<Longrightarrow> body x s = Some (Inr s') \<Longrightarrow> nextf s' = nextn h"
  shows "list_for_each nextf body (head l) s = lfold body xs s"
  unfolding head_law [OF assms(1)]
proof (rule list_for_each_lfold [where P = "\<lambda>ys s. nextf s = nextn h \<and> (\<exists>as. xs = as @ ys)"])
  show "x \<noteq> 0 \<and> nextf s x = hd0 ys" if "nextf s = nextn h \<and> (\<exists>as. xs = as @ x # ys)" for x ys s
    using that next_law [of h l _ x ys] assms(1) repr_distinct [OF assms(1)] by auto
  show "nextf s' = nextn h \<and> (\<exists>as. xs = as @ ys)"
    if "nextf s = nextn h \<and> (\<exists>as. xs = as @ x # ys)" "body x s = Some (Inr s')" for x ys s s'
    using that assms(3) [of x s s'] by (metis append.assoc append_Cons append_Nil in_set_conv_decomp)
qed (use assms(2) in auto)

end

interpretation kl: node_list dll list_add_head list_add_tail list_remove l_head n_next
proof
  show "dll h l xs \<Longrightarrow> distinct xs \<and> 0 \<notin> set xs" for h l xs by (simp add: dll_def)
  show "dll h l xs \<Longrightarrow> l_head l = hd0 xs" for h l xs by (simp add: dll_def)
  show "dll h l (as @ x # bs) \<Longrightarrow> n_next h x = hd0 bs" for h l as x bs by (simp add: dll_def)
  show "\<exists>h' l'. list_add_head h l x = Some (h', l') \<and> dll h' l' (x # xs) \<and>
        (\<forall>k ys. dll h k ys \<longrightarrow> set ys \<inter> insert x (set xs) = {} \<longrightarrow> dll h' k ys)"
    if "dll h l xs" "x \<noteq> 0" "x \<notin> set xs" for h l xs x
    using list_add_head_ok [OF that] dll_frame by blast
  show "\<exists>h' l'. list_add_tail h l x = Some (h', l') \<and> dll h' l' (xs @ [x]) \<and>
        (\<forall>k ys. dll h k ys \<longrightarrow> set ys \<inter> insert x (set xs) = {} \<longrightarrow> dll h' k ys)"
    if "dll h l xs" "x \<noteq> 0" "x \<notin> set xs" for h l xs x
    using list_add_tail_ok [OF that] dll_frame by blast
  show "dll h' l' (as @ bs) \<and> (\<forall>k ys. dll h k ys \<longrightarrow> set ys \<inter> set (as @ x # bs) = {} \<longrightarrow> dll h' k ys)"
    if "dll h l (as @ x # bs)" "list_remove h l x = (h', l')" for h l as x bs h' l'
    using list_remove_ok [OF that(2,1)] dll_frame by (auto 0 3)
qed

section \<open>Properties\<close>

text \<open>
  C5.  The list operations of \<^verbatim>\<open>kernel/util/list.c\<close> implement sequences.  On a well-formed list with the
  nodes \<open>xs\<close> and a fresh node \<open>x\<close>, adding at the head or at the tail never fails its assertion and gives
  a well-formed list with the nodes \<open>x # xs\<close> or \<open>xs @ [x]\<close>; removing any node \<open>y\<close> of the list, or
  inserting next to it, gives a well-formed list with exactly that change.  No operation changes a
  link of a node that is neither in the list nor the new node.
\<close>

theorem list_operations_refine_sequences:
  assumes "dll m l xs" and "x \<noteq> 0" and "x \<notin> set xs"
  shows "(\<exists>m' l'. list_add_head m l x = Some (m', l') \<and> dll m' l' (x # xs) \<and> agree_off (insert x (set xs)) m m')
    \<and> (\<exists>m' l'. list_add_tail m l x = Some (m', l') \<and> dll m' l' (xs @ [x]) \<and> agree_off (insert x (set xs)) m m')
    \<and> (\<forall>as y bs. xs = as @ y # bs \<longrightarrow>
         (\<exists>m' l'. list_remove m l y = (m', l') \<and> dll m' l' (as @ bs) \<and> agree_off (set (as @ bs)) m m')
       \<and> (\<exists>m' l'. list_insert_before m l y x = (m', l') \<and> dll m' l' (as @ x # y # bs)
             \<and> agree_off (insert x (set xs)) m m')
       \<and> (\<exists>m' l'. list_insert_after m l y x = (m', l') \<and> dll m' l' (as @ y # x # bs)
             \<and> agree_off (insert x (set xs)) m m'))"
proof (intro conjI allI impI)
  fix as y bs assume xs: "xs = as @ y # bs"
  note d = assms [unfolded xs]
  show "\<exists>m' l'. list_remove m l y = (m', l') \<and> dll m' l' (as @ bs) \<and> agree_off (set (as @ bs)) m m'"
    using list_remove_ok [OF _ d(1)] by (metis surj_pair)
  show "\<exists>m' l'. list_insert_before m l y x = (m', l') \<and> dll m' l' (as @ x # y # bs)
      \<and> agree_off (insert x (set xs)) m m'"
    using list_insert_before_ok [OF _ d] xs by (metis surj_pair)
  show "\<exists>m' l'. list_insert_after m l y x = (m', l') \<and> dll m' l' (as @ y # x # bs)
      \<and> agree_off (insert x (set xs)) m m'"
    using list_insert_after_ok [OF _ d] xs by (metis surj_pair)
qed (rule list_add_head_ok [OF assms] list_add_tail_ok [OF assms])+

theorem list_operations_refine_sequences_witness:
  "\<exists>m l m' l'. dll m l [16, 32] \<and> list_add_tail m l 48 = Some (m', l') \<and> dll m' l' [16, 32, 48]"
proof -
  let ?m = "\<lparr>n_next = (\<lambda>_. 0)(16 := 32), n_prev = (\<lambda>_. 0)(32 := 16)\<rparr>"
  let ?l = "\<lparr>l_head = 16, l_tail = 32, l_size = 2\<rparr>"
  have "dll ?m ?l [16, 32]" by (simp add: dll_def)
  with list_operations_refine_sequences [of ?m ?l "[16, 32]" 48] show ?thesis by fastforce
qed

end
