(* ===== verification/Klist_Sort.thy ===== *)
theory Klist_Sort
  imports Klist
begin

text \<open>
  Correctness of \<^verbatim>\<open>list_sort\<close> (\<^verbatim>\<open>kernel/util/list.c\<close>): the pointer-level merge sort computes the
  list-level \<open>lmsort\<close>, which permutes its argument and orders it by the keys that the comparison
  function compares.
\<close>

fun fls :: "nodes \<Rightarrow> addr list \<Rightarrow> addr \<Rightarrow> bool" where
  "fls m [] n = True"
| "fls m (x # xs) n = (n_next m x = hdn xs n \<and> fls m xs n)"

fun lmerge :: "(addr \<Rightarrow> addr \<Rightarrow> int) \<Rightarrow> addr list \<Rightarrow> addr list \<Rightarrow> addr list" where
  "lmerge cmp [] ys = ys"
| "lmerge cmp (x # xs) [] = x # xs"
| "lmerge cmp (x # xs) (y # ys) =
     (if cmp x y \<ge> 0 then y # lmerge cmp (x # xs) ys else x # lmerge cmp xs (y # ys))"

fun lmsort :: "(addr \<Rightarrow> addr \<Rightarrow> int) \<Rightarrow> addr list \<Rightarrow> addr list" where
  "lmsort cmp xs =
     (if length xs \<le> 1 then xs
      else lmerge cmp (lmsort cmp (take ((length xs + 1) div 2) xs))
                      (lmsort cmp (drop ((length xs + 1) div 2) xs)))"

declare lmsort.simps [simp del]

lemma fls_append [simp]: "fls m (xs @ ys) n \<longleftrightarrow> fls m xs (hdn ys n) \<and> fls m ys n"
  by (induction xs) auto

lemma fls_set_next [simp]: "x \<notin> set xs \<Longrightarrow> fls (set_next m x y) xs n = fls m xs n"
  by (induction xs) auto

lemma fls_set_prev [simp]: "fls (set_prev m x y) xs n = fls m xs n"
  by (induction xs) auto

lemma fls_last: "x \<notin> set xs \<Longrightarrow> fls m xs x \<Longrightarrow> fls (set_next m x n) xs x"
  by simp

lemma dls_fls: "dls m p xs n \<Longrightarrow> fls m xs n"
  by (induction xs arbitrary: p) auto

lemma fls_agree: "agree_off S m m' \<Longrightarrow> set xs \<inter> S = {} \<Longrightarrow> fls m' xs n = fls m xs n"
  by (induction xs) (auto simp: agree_off_def)

lemma agree_off_refl [simp]: "agree_off S m m"
  by (simp add: agree_off_def)

lemma agree_off_trans: "agree_off S m m' \<Longrightarrow> agree_off T m' m'' \<Longrightarrow> S \<union> T \<subseteq> U \<Longrightarrow> agree_off U m m''"
  unfolding agree_off_def by (metis UnCI subsetD)

lemma split_loop_ok:
  assumes "fls m (slow # zs) 0" and "fls m ys 0" and "0 \<notin> set ys" and "length ys \<le> length zs"
  shows "split_loop m slow (hd0 ys) = Some ((slow # zs) ! (length ys div 2))"
  using assms
proof (induction ys arbitrary: slow zs rule: induct_list012)
  case 1
  show ?case by (simp add: split_loop.simps)
next
  case (2 y)
  then show ?case by (simp add: split_loop.simps)
next
  case (3 a b ys)
  then obtain z zs' where zs: "zs = z # zs'" by (cases zs) auto
  from 3 zs have "split_loop m z (hd0 ys) = Some ((z # zs') ! (length ys div 2))"
    by (intro "3.IH") auto
  with 3 zs show ?case by (simp add: split_loop.simps [of m slow a])
qed

lemma split_ok:
  assumes "fls m xs 0" and "0 \<notin> set xs" and "distinct xs" and "2 \<le> length xs"
    and k: "k = (length xs + 1) div 2"
  shows "\<exists>m'. split m (hd0 xs) = Some (m', hd0 (drop k xs)) \<and> fls m' (take k xs) 0
    \<and> fls m' (drop k xs) 0 \<and> agree_off (set xs) m m'"
proof -
  have i: "k - 1 < length xs" using assms(4) k by linarith
  define as s bs where "as = take (k - 1) xs" and "s = xs ! (k - 1)" and "bs = drop k xs"
  have k1: "Suc (k - 1) = k" using assms(4) k by linarith
  have sp: "xs = as @ s # bs"
    using id_take_nth_drop [OF i] by (simp only: as_def s_def bs_def k1)
  have tk: "take k xs = as @ [s]"
    using take_Suc_conv_app_nth [OF i] by (simp only: as_def s_def k1)
  obtain y ys where ys: "xs = y # ys" using assms(4) by (cases xs) auto
  have loop: "split_loop m (hd0 xs) (n_next m (hd0 xs)) = Some s"
    using split_loop_ok [of m y ys ys] assms by (simp add: ys s_def)
  have dr: "drop k xs = bs" by (simp add: bs_def)
  have sp': "split m (hd0 xs) = Some (set_next m s 0, n_next m s)"
    by (simp add: split_def loop Let_def)
  show ?thesis
    using assms(1,3) unfolding sp' tk dr by (auto simp: sp agree_off_def fls_last)
qed

lemma lmerge_mset [simp]: "mset (lmerge cmp xs ys) = mset xs + mset ys"
  by (induction cmp xs ys rule: lmerge.induct) auto

lemma lmerge_set [simp]: "set (lmerge cmp xs ys) = set xs \<union> set ys"
  by (induction cmp xs ys rule: lmerge.induct) auto

text \<open>One round of the merge loop: node \<open>p\<close> is appended to the nodes \<open>acc\<close> merged so far.\<close>

definition link :: "nodes \<Rightarrow> addr list \<Rightarrow> addr \<Rightarrow> nodes" where
  "link m acc p = set_prev (if acc = [] then m else set_next m (last0 acc) p) p (last0 acc)"

lemma link_dls:
  assumes "dls m 0 acc n" "p \<notin> set acc" "p \<noteq> 0" "distinct acc"
  shows "dls (link m acc p) 0 (acc @ [p]) (n_next m p)"
  using assms by (cases acc rule: rev_cases) (auto simp: link_def)

lemma link_next: "z \<notin> set acc \<Longrightarrow> n_next (link m acc p) z = n_next m z"
  by (auto simp: link_def last0_def)

lemma link_fls: "set xs \<inter> set acc = {} \<Longrightarrow> fls (link m acc p) xs n = fls m xs n"
  by (induction xs) (auto simp: link_next)

lemma link_agree: "agree_off (insert p (set acc)) m (link m acc p)"
  by (auto simp: link_def agree_off_def last0_def)

lemma merge_loop_end: "merge_loop cmp m 0 0 h t = Some (m, h, t)"
  by (simp add: merge_loop.simps)

lemma merge_loop_step:
  assumes "(l = 0 \<and> r \<noteq> 0) \<or> (l \<noteq> 0 \<and> r \<noteq> 0 \<and> cmp l r \<ge> 0)" "0 \<notin> set acc"
  shows "merge_loop cmp m l r (hd0 acc) (last0 acc)
    = merge_loop cmp (link m acc r) l (n_next m r) (hd0 (acc @ [r])) r"
  using assms by (cases acc) (auto simp: merge_loop.simps [of cmp m l r] link_def)

lemma merge_loop_step':
  assumes "(l \<noteq> 0 \<and> r = 0) \<or> (l \<noteq> 0 \<and> r \<noteq> 0 \<and> \<not> cmp l r \<ge> 0)" "0 \<notin> set acc"
  shows "merge_loop cmp m l r (hd0 acc) (last0 acc)
    = merge_loop cmp (link m acc l) (n_next m l) r (hd0 (acc @ [l])) l"
  using assms by (cases acc) (auto simp: merge_loop.simps [of cmp m l r] link_def)

definition merge_pre :: "nodes \<Rightarrow> addr list \<Rightarrow> addr list \<Rightarrow> addr list \<Rightarrow> bool" where
  "merge_pre m acc xs ys \<longleftrightarrow> fls m xs 0 \<and> fls m ys 0 \<and> dls m 0 acc (n_next m (last0 acc))
     \<and> (xs = [] \<and> ys = [] \<and> acc \<noteq> [] \<longrightarrow> n_next m (last0 acc) = 0)
     \<and> distinct (acc @ xs @ ys) \<and> 0 \<notin> set (acc @ xs @ ys)"

lemma merge_pre_step:
  "merge_pre m acc xs (y # ys) \<Longrightarrow> merge_pre (link m acc y) (acc @ [y]) xs ys"
  using link_dls [of m acc "n_next m (last0 acc)" y]
  by (auto simp: merge_pre_def link_fls link_next Int_Un_distrib Int_commute)

lemma merge_pre_step':
  "merge_pre m acc (x # xs) ys \<Longrightarrow> merge_pre (link m acc x) (acc @ [x]) xs ys"
  using link_dls [of m acc "n_next m (last0 acc)" x]
  by (auto simp: merge_pre_def link_fls link_next Int_Un_distrib Int_commute)

lemma merge_loop_ok:
  assumes "merge_pre m acc xs ys"
  shows "\<exists>m'. merge_loop cmp m (hd0 xs) (hd0 ys) (hd0 acc) (last0 acc)
      = Some (m', hd0 (acc @ lmerge cmp xs ys), last0 (acc @ lmerge cmp xs ys))
    \<and> dls m' 0 (acc @ lmerge cmp xs ys) 0 \<and> agree_off (set (acc @ xs @ ys)) m m'"
  using assms
proof (induction "length xs + length ys" arbitrary: xs ys m acc)
  case 0
  then show ?case by (cases "acc = []") (auto simp: merge_pre_def merge_loop_end)
next
  case (Suc n)
  have nz: "0 \<notin> set (acc @ xs @ ys)" using Suc.prems by (simp add: merge_pre_def)
  consider (R) y ys' where "ys = y # ys'" "xs = [] \<or> (xs \<noteq> [] \<and> cmp (hd0 xs) y \<ge> 0)"
    | (L) x xs' where "xs = x # xs'" "ys = [] \<or> (ys \<noteq> [] \<and> \<not> cmp x (hd0 ys) \<ge> 0)"
    using Suc.hyps(2) by (cases xs; cases ys) force+
  then show ?case
  proof cases
    case R
    have pre: "merge_pre (link m acc y) (acc @ [y]) xs ys'"
      using Suc.prems R by (simp add: merge_pre_step)
    have ml: "lmerge cmp xs ys = y # lmerge cmp xs ys'" using R by (cases xs) auto
    have nx: "n_next m y = hd0 ys'" using Suc.prems R by (simp add: merge_pre_def)
    have st: "merge_loop cmp m (hd0 xs) (hd0 ys) (hd0 acc) (last0 acc)
      = merge_loop cmp (link m acc y) (hd0 xs) (hd0 ys') (hd0 (acc @ [y])) (last0 (acc @ [y]))"
      using R nz merge_loop_step [of "hd0 xs" y cmp acc m] by (cases xs) (auto simp: nx)
    have "n = length xs + length ys'" using Suc.hyps(2) R by simp
    from Suc.hyps(1) [OF this pre] show ?thesis
      unfolding st ml using R by (auto intro: agree_off_trans [OF link_agree])
  next
    case L
    have pre: "merge_pre (link m acc x) (acc @ [x]) xs' ys"
      using Suc.prems L by (simp add: merge_pre_step')
    have ml: "lmerge cmp xs ys = x # lmerge cmp xs' ys" using L by (cases ys; cases xs') auto
    have nx: "n_next m x = hd0 xs'" using Suc.prems L by (simp add: merge_pre_def)
    have st: "merge_loop cmp m (hd0 xs) (hd0 ys) (hd0 acc) (last0 acc)
      = merge_loop cmp (link m acc x) (hd0 xs') (hd0 ys) (hd0 (acc @ [x])) (last0 (acc @ [x]))"
      using L nz merge_loop_step' [of x "hd0 ys" cmp acc m] by (cases ys) (auto simp: nx)
    have "n = length xs' + length ys" using Suc.hyps(2) L by simp
    from Suc.hyps(1) [OF this pre] show ?thesis
      unfolding st ml using L by (auto intro: agree_off_trans [OF link_agree])
  qed
qed

lemma lmsort_short: "length xs \<le> 1 \<Longrightarrow> lmsort cmp xs = xs"
  by (simp add: lmsort.simps)

lemma lmsort_long: "2 \<le> length xs \<Longrightarrow> k = (length xs + 1) div 2 \<Longrightarrow>
    lmsort cmp xs = lmerge cmp (lmsort cmp (take k xs)) (lmsort cmp (drop k xs))"
  by (subst lmsort.simps) simp

lemma mset_lmsort [simp]: "mset (lmsort cmp xs) = mset xs"
proof (induction xs rule: length_induct)
  case (1 xs)
  show ?case
  proof (cases "length xs \<le> 1")
    case False
    define k where "k = (length xs + 1) div 2"
    have "k < length xs" "0 < k" using False by (auto simp: k_def)
    then have "mset (lmsort cmp (take k xs)) = mset (take k xs)" "mset (lmsort cmp (drop k xs)) = mset (drop k xs)"
      using 1 by simp_all
    then show ?thesis
      using False by (simp add: lmsort_long [OF _ k_def] flip: mset_append)
  qed (simp add: lmsort_short)
qed

lemma lmsort_facts [simp]: "set (lmsort cmp xs) = set xs" "length (lmsort cmp xs) = length xs"
    "distinct (lmsort cmp xs) = distinct xs"
  using mset_lmsort [of cmp xs] by (metis mset_eq_setD, metis mset_eq_length, metis mset_eq_imp_distinct_iff)

lemma mergesort_ok:
  assumes "fls m xs 0" "distinct xs" "0 \<notin> set xs"
  shows "\<exists>m' t. mergesort cmp m (hd0 xs) = Some (m', hd0 (lmsort cmp xs), t)
    \<and> fls m' (lmsort cmp xs) 0 \<and> agree_off (set xs) m m'
    \<and> (if 2 \<le> length xs then dls m' 0 (lmsort cmp xs) 0 \<and> t = last0 (lmsort cmp xs)
       else m' = m \<and> t = 0)"
  using assms
proof (induction xs arbitrary: m rule: length_induct)
  case (1 xs)
  show ?case
  proof (cases "2 \<le> length xs")
    case False
    then have "length xs \<le> 1" by simp
    then consider "xs = []" | x where "xs = [x]" by (cases xs) auto
    then show ?thesis
    proof cases
      case 1
      then show ?thesis by (simp add: mergesort.simps lmsort_short)
    next
      case (2 x)
      then show ?thesis using "1.prems" by (simp add: mergesort.simps lmsort_short)
    qed
  next
    case True
    define k where "k = (length xs + 1) div 2"
    let ?a = "take k xs" and ?b = "drop k xs"
    have k: "k < length xs" "0 < k" using True by (auto simp: k_def)
    have lb: "length ?b < length xs" unfolding length_drop using k by linarith
    have hd: "hd0 ?a = hd0 xs" using k by (cases xs; cases k) auto
    have dj: "set ?a \<inter> set ?b = {}" using 1 set_take_disj_set_drop_if_distinct by blast
    have sub: "set ?a \<union> set ?b = set xs" by (metis append_take_drop_id set_append)
    obtain m1 where m1: "split m (hd0 xs) = Some (m1, hd0 ?b)" "fls m1 ?a 0" "fls m1 ?b 0"
        "agree_off (set xs) m m1"
      using split_ok [OF _ _ _ True k_def] 1 by blast
    have nz: "0 \<notin> set ?a" "0 \<notin> set ?b" using sub "1.prems"(3) by auto
    obtain m2 t2 where m2: "mergesort cmp m1 (hd0 ?a) = Some (m2, hd0 (lmsort cmp ?a), t2)"
        "fls m2 (lmsort cmp ?a) 0" "agree_off (set ?a) m1 m2"
      using "1.IH" [rule_format, of ?a m1] "1.prems" m1 k nz by auto
    have "fls m2 ?b 0" using fls_agree [OF m2(3)] m1 dj by (simp add: Int_commute)
    then obtain m3 t3 where m3: "mergesort cmp m2 (hd0 ?b) = Some (m3, hd0 (lmsort cmp ?b), t3)"
        "fls m3 (lmsort cmp ?b) 0" "agree_off (set ?b) m2 m3"
      using "1.IH" [rule_format, of ?b m2, OF lb] "1.prems" k nz by auto
    have "fls m3 (lmsort cmp ?a) 0" using fls_agree [OF m3(3)] m2 dj by simp
    then have "merge_pre m3 [] (lmsort cmp ?a) (lmsort cmp ?b)"
      using m3 1 dj nz by (simp add: merge_pre_def)
    from merge_loop_ok [OF this, of cmp] obtain m4 where
      m4: "merge cmp m3 (hd0 (lmsort cmp ?a)) (hd0 (lmsort cmp ?b))
             = Some (m4, hd0 (lmsort cmp xs), last0 (lmsort cmp xs))"
          "dls m4 0 (lmsort cmp xs) 0" "agree_off (set xs) m3 m4"
      using sub by (auto simp: merge_def lmsort_long [OF True k_def])
    have "hd0 xs \<noteq> 0" "n_next m (hd0 xs) \<noteq> 0"
      using 1 True by (cases xs; cases "tl xs"; auto)+
    then have "mergesort cmp m (hd0 xs) = Some (m4, hd0 (lmsort cmp xs), last0 (lmsort cmp xs))"
      using m1 m2 m3 m4 by (subst mergesort.simps) (simp add: hd)
    moreover have "agree_off (set xs) m m4"
      using m1(4) m2(3) m3(3) m4(3) sub unfolding agree_off_def by (metis UnCI)
    ultimately show ?thesis using m4 True dls_fls by auto
  qed
qed

lemma list_sort_ok:
  assumes "dll m l xs" and "length xs \<noteq> 1"
  shows "\<exists>m' l'. list_sort cmp m l = Some (m', l') \<and> dll m' l' (lmsort cmp xs) \<and> agree_off (set xs) m m'"
proof -
  have d: "fls m xs 0" "distinct xs" "0 \<notin> set xs" "l_head l = hd0 xs" "l_size l = int (length xs)"
    using assms dls_fls by (auto simp: dll_def)
  obtain m' t where s: "mergesort cmp m (hd0 xs) = Some (m', hd0 (lmsort cmp xs), t)"
      "agree_off (set xs) m m'"
      "if 2 \<le> length xs then dls m' 0 (lmsort cmp xs) 0 \<and> t = last0 (lmsort cmp xs) else m' = m \<and> t = 0"
    using mergesort_ok [OF d(1,2,3), of cmp] by blast
  have "xs = [] \<or> 2 \<le> length xs" using assms(2) by (cases xs; cases "tl xs") auto
  then have "t = last0 (lmsort cmp xs)" "dls m' 0 (lmsort cmp xs) 0"
    using s(3) by (auto simp: lmsort_short)
  with s d show ?thesis by (auto simp: list_sort_def dll_def)
qed

lemma list_sort_singleton: "dll m l [x] \<Longrightarrow> list_sort cmp m l = Some (m, l\<lparr>l_tail := 0\<rparr>)"
  by (simp add: list_sort_def dll_def mergesort.simps)

text \<open>
  The contract of a comparison function: it compares the keys of the two nodes.  The nodes of a
  sorted list are in ascending order of their keys.
\<close>

locale comparator =
  fixes cmp :: "addr \<Rightarrow> addr \<Rightarrow> int" and key :: "addr \<Rightarrow> 'k::linorder"
  assumes cmp_key: "cmp a b \<ge> 0 \<longleftrightarrow> key b \<le> key a"
begin

lemma lmerge_sorted:
  "sorted (map key xs) \<Longrightarrow> sorted (map key ys) \<Longrightarrow> sorted (map key (lmerge cmp xs ys))"
proof (induction cmp \<equiv> cmp xs ys rule: lmerge.induct)
  case (3 x xs y ys)
  then show ?case using cmp_key [of x y] by (auto simp: not_le)
qed simp_all

lemma lmsort_sorted: "sorted (map key (lmsort cmp xs))"
proof (induction xs rule: length_induct)
  case (1 xs)
  show ?case
  proof (cases "length xs \<le> 1")
    case True
    then show ?thesis by (cases xs) (auto simp: lmsort_short)
  next
    case False
    define k where "k = (length xs + 1) div 2"
    have "length (take k xs) < length xs" "length (drop k xs) < length xs"
      unfolding length_take length_drop using False by (auto simp: k_def)
    with 1 False show ?thesis
      by (simp add: lmsort_long [OF _ k_def] lmerge_sorted)
  qed
qed

end

section \<open>Properties\<close>

text \<open>
  C6.  Sorting.  For a comparison function that compares the keys of the nodes, \<^verbatim>\<open>list_sort\<close> on a well-formed
  list (with no node or at least two) ends and gives a well-formed list with the same nodes in ascending
  order of their keys; the links of all other nodes are unchanged.
\<close>

theorem list_sort_correct:
  fixes key :: "addr \<Rightarrow> 'k::linorder"
  assumes "dll m l xs" "length xs \<noteq> 1" and "\<And>a b. cmp a b \<ge> 0 \<longleftrightarrow> key b \<le> key a"
  shows "\<exists>m' l' ys. list_sort cmp m l = Some (m', l') \<and> dll m' l' ys \<and> mset ys = mset xs \<and> sorted (map key ys)
    \<and> agree_off (set xs) m m'"
  using list_sort_ok [OF assms(1,2), of cmp] comparator.lmsort_sorted [OF comparator.intro, of cmp key xs] assms(3)
    mset_lmsort [of cmp xs] by blast

theorem list_sort_correct_witness:
  "\<exists>m l m' l' ys. dll m l [32, 16] \<and> list_sort (\<lambda>a b. uint a - uint b) m l = Some (m', l')
     \<and> dll m' l' ys \<and> mset ys = {#16, 32#} \<and> sorted (map uint ys)"
proof -
  let ?m = "\<lparr>n_next = (\<lambda>_. 0)(32 := 16), n_prev = (\<lambda>_. 0)(16 := 32)\<rparr>"
  let ?l = "\<lparr>l_head = 32, l_tail = 16, l_size = 2\<rparr>"
  have d: "dll ?m ?l [32, 16]" by (simp add: dll_def)
  have "\<exists>m' l' ys. list_sort (\<lambda>a b. uint a - uint b) ?m ?l = Some (m', l') \<and> dll m' l' ys
      \<and> mset ys = mset [32, 16] \<and> sorted (map uint ys) \<and> agree_off (set [32, 16]) ?m m'"
    by (rule list_sort_correct [OF d]) simp_all
  moreover have "mset [32, 16] = {#16, 32 :: addr#}" by (simp add: add_mset_commute)
  ultimately show ?thesis using d by metis
qed

text \<open>
  C9.  Sorting a list with one node loses its tail.  \<^verbatim>\<open>mergesort\<close> returns the successor of a single node as the
  tail of the list, which is null: after \<^verbatim>\<open>list_sort\<close> the list is no longer well-formed, and the next
  \<^verbatim>\<open>list_add_tail\<close> puts its node in front of the list.
\<close>

theorem list_sort_loses_tail:
  assumes "dll m l [x]" "y \<noteq> 0" "y \<noteq> x"
  shows "\<exists>l'. list_sort cmp m l = Some (m, l') \<and> l_tail l' = 0 \<and> (\<forall>xs. \<not> dll m l' xs)
    \<and> (\<exists>m' l''. list_add_tail m l' y = Some (m', l'') \<and> l_head l'' = y \<and> n_next m' y = x)"
proof -
  have x: "x \<noteq> 0" "l_head l = x" "n_prev m x = 0" using assms(1) by (auto simp: dll_def)
  have "\<not> dll m (l\<lparr>l_tail := 0\<rparr>) xs" for xs
    using x by (auto simp: dll_def hd0_eq_0 dest: last0_eq_0)
  moreover have "\<exists>m' l''. list_add_tail m (l\<lparr>l_tail := 0\<rparr>) y = Some (m', l'') \<and> l_head l'' = y \<and> n_next m' y = x"
    using x assms(2,3) by (simp add: list_add_tail_def list_add_head_def list_insert_before_def Let_def)
  ultimately show ?thesis using list_sort_singleton [OF assms(1)] by simp
qed

theorem list_sort_loses_tail_witness:
  "\<exists>l'. list_sort (\<lambda>_ _. 0) \<lparr>n_next = \<lambda>_. 0, n_prev = \<lambda>_. 0\<rparr> \<lparr>l_head = 16, l_tail = 16, l_size = 1\<rparr>
      = Some (\<lparr>n_next = \<lambda>_. 0, n_prev = \<lambda>_. 0\<rparr>, l') \<and> l_tail l' = 0"
  using list_sort_loses_tail [of "\<lparr>n_next = \<lambda>_. 0, n_prev = \<lambda>_. 0\<rparr>" "\<lparr>l_head = 16, l_tail = 16, l_size = 1\<rparr>" 16 32 "\<lambda>_ _. 0"]
  by (auto simp: dll_def)

end
