(* ===== verification/MmCommon.thy ===== *)
theory MmCommon
  imports Prelude
begin

text \<open>
  The constants of \<^verbatim>\<open>kernel/mm/common.h\<close> and the alignment macros of \<^verbatim>\<open>kernel/mm/align.h\<close>, with the
  facts that make the macros round to the next page boundary.
\<close>

definition VM_USER_END :: u64 where "VM_USER_END = 0x00007FFFFFFFFFFF"
definition VM_HIGHER_HALF :: u64 where "VM_HIGHER_HALF = 0xFFFF800000000000"
definition VM_KERNEL_IMAGE :: u64 where "VM_KERNEL_IMAGE = 0xFFFFFFFF80000000"
definition PAGE_TABLE_ENTRY_COUNT :: nat where "PAGE_TABLE_ENTRY_COUNT = 512"
definition FRAME_SIZE :: u64 where "FRAME_SIZE = 4096"
definition FRAME_SIZE_2M :: u64 where "FRAME_SIZE_2M = 512 * FRAME_SIZE"
definition FRAME_SIZE_1G :: u64 where "FRAME_SIZE_1G = 512 * FRAME_SIZE_2M"
definition FRAME_SIZE_512G :: u64 where "FRAME_SIZE_512G = 512 * FRAME_SIZE_1G"

abbreviation (input) SIZE_4K :: nat where "SIZE_4K \<equiv> 0"
abbreviation (input) SIZE_2M :: nat where "SIZE_2M \<equiv> 1"
abbreviation (input) SIZE_1G :: nat where "SIZE_1G \<equiv> 2"
abbreviation (input) SIZE_COUNT :: nat where "SIZE_COUNT \<equiv> 3"

definition VM_R :: u64 where "VM_R = 0x1"
definition VM_W :: u64 where "VM_W = 0x2"
definition VM_X :: u64 where "VM_X = 0x4"

definition PG_PRESENT :: u64 where "PG_PRESENT = 0x1"
definition PG_WRITABLE :: u64 where "PG_WRITABLE = 0x2"
definition PG_USER :: u64 where "PG_USER = 0x4"
definition PG_BIG :: u64 where "PG_BIG = 0x80"
definition PG_NO_EXEC :: u64 where "PG_NO_EXEC = 0x8000000000000000"
definition PG_ADDR_MASK :: u64 where "PG_ADDR_MASK = 0xFFFFFFFFFF000"

definition PAGE_ALIGN :: "u64 \<Rightarrow> u64" where
  "PAGE_ALIGN x = (x + 0xFFF) AND 0xFFFFFFFFFFFFF000"
definition PAGE_ALIGN_REVERSE :: "u64 \<Rightarrow> u64" where
  "PAGE_ALIGN_REVERSE x = x AND 0xFFFFFFFFFFFFF000"
definition PAGE_ALIGN_2M :: "u64 \<Rightarrow> u64" where
  "PAGE_ALIGN_2M x = (x + 0x1FFFFF) AND 0xFFFFFFFFFFE00000"
definition PAGE_ALIGN_REVERSE_2M :: "u64 \<Rightarrow> u64" where
  "PAGE_ALIGN_REVERSE_2M x = x AND 0xFFFFFFFFFFE00000"
definition PAGE_ALIGN_1G :: "u64 \<Rightarrow> u64" where
  "PAGE_ALIGN_1G x = (x + 0x3FFFFFFF) AND 0xFFFFFFFFC0000000"
definition PAGE_ALIGN_REVERSE_1G :: "u64 \<Rightarrow> u64" where
  "PAGE_ALIGN_REVERSE_1G x = x AND 0xFFFFFFFFC0000000"

lemma frame_sizes [simp]: "FRAME_SIZE = 0x1000" "FRAME_SIZE_2M = 0x200000" "FRAME_SIZE_1G = 0x40000000"
    "FRAME_SIZE_512G = 0x8000000000"
  by (simp_all add: FRAME_SIZE_def FRAME_SIZE_2M_def FRAME_SIZE_1G_def FRAME_SIZE_512G_def)

text \<open>Masking off the low \<open>k\<close> bits rounds down to a multiple of \<open>2 ^ k\<close>.\<close>

lemma and_not_mask: "x AND NOT (mask k) = x - take_bit k (x :: 'a::len word)"
proof -
  have "x AND NOT (mask k) = push_bit k (drop_bit k x)"
    by (rule bit_word_eqI) (auto simp: bit_simps)
  then show ?thesis by (metis add_diff_cancel_right' bits_ident)
qed

lemma unat_take_bit: "unat (take_bit k x :: 'a::len word) = unat x mod 2 ^ k"
  by (simp only: unsigned_take_bit_eq) (simp only: take_bit_eq_mod)

lemma unat_and_not_mask: "unat (x AND NOT (mask k) :: 'a::len word) = unat x - unat x mod 2 ^ k"
proof -
  have "take_bit k x \<le> x" by (simp add: word_le_nat_alt unat_take_bit)
  then show ?thesis by (simp add: and_not_mask unat_sub unat_take_bit)
qed

lemma page_masks:
  "0xFFFFFFFFFFFFF000 = NOT (mask 12 :: u64)" "0xFFFFFFFFFFE00000 = NOT (mask 21 :: u64)"
  "0xFFFFFFFFC0000000 = NOT (mask 30 :: u64)"
  by (simp_all add: mask_eq_exp_minus_1)

lemma unat_page_align_reverse:
  "unat (PAGE_ALIGN_REVERSE x) = unat x - unat x mod 0x1000"
  "unat (PAGE_ALIGN_REVERSE_2M x) = unat x - unat x mod 0x200000"
  "unat (PAGE_ALIGN_REVERSE_1G x) = unat x - unat x mod 0x40000000"
  unfolding PAGE_ALIGN_REVERSE_def PAGE_ALIGN_REVERSE_2M_def PAGE_ALIGN_REVERSE_1G_def page_masks
    unat_and_not_mask by simp_all

text \<open>A page address: the bits outside the address mask of a page table entry are zero.\<close>

lemma page_addr_iff: "a AND PG_ADDR_MASK = a \<longleftrightarrow> unat a mod 0x1000 = 0 \<and> unat a < 2 ^ 52"
proof -
  have m: "PG_ADDR_MASK = mask 52 AND NOT (mask 12)"
    by (simp add: PG_ADDR_MASK_def mask_eq_exp_minus_1)
  have "a AND PG_ADDR_MASK = a \<longleftrightarrow> take_bit 52 a = a \<and> take_bit 12 a = 0"
    unfolding m take_bit_eq_mask bit_eq_iff by (auto simp: bit_simps)
  also have "\<dots> \<longleftrightarrow> unat a mod 2 ^ 12 = 0 \<and> unat a < 2 ^ 52"
    unfolding word_unat_eq_iff unat_take_bit by (auto simp: mod_eq_self_iff_div_eq_0 div_eq_0_iff)
  finally show ?thesis by simp
qed

lemma page_addr_flags:
  assumes "a AND PG_ADDR_MASK = a" and "f AND PG_ADDR_MASK = 0"
  shows "(a OR f) AND PG_ADDR_MASK = a"
  using assms by (simp add: bit.conj_disj_distrib2)

end
