(* ===== verification/Pmm.thy ===== *)
theory Pmm
  imports MmCommon
begin

text \<open>
  The physical memory manager of \<^verbatim>\<open>kernel/mm/pmm.c\<close>: nine stacks of free frames (one per frame size and
  memory zone), kept in linked stack pages, and a sorted list of frames reserved for stack pages.

  The state holds the entries of the page table that maps the management data (\<^verbatim>\<open>pmmPml1Table\<close>) and the
  contents of physical pages seen as stack pages; \<^verbatim>\<open>pmmData[i]\<close> is the page entry \<open>i\<close> points to.  The lock
  serialises the public operations, so each is one step.  \<^verbatim>\<open>_pmm_alloc\<close>, \<^verbatim>\<open>_pmm_free\<close> and
  \<^verbatim>\<open>_pmm_try_reserve_as_stack_page\<close> call each other; their depth is bounded by the first argument, and
  \<open>None\<close> is a run that exceeds it.
\<close>

section \<open>Data\<close>

abbreviation (input) ZONE_DMA :: nat where "ZONE_DMA \<equiv> 0"
abbreviation (input) ZONE_DMA32 :: nat where "ZONE_DMA32 \<equiv> 1"
abbreviation (input) ZONE_STD :: nat where "ZONE_STD \<equiv> 2"
abbreviation (input) ZONE_COUNT :: nat where "ZONE_COUNT \<equiv> 3"

definition ZONE_LIMIT_DMA :: u64 where "ZONE_LIMIT_DMA = 0xFFFFFF"
definition ZONE_LIMIT_DMA32 :: u64 where "ZONE_LIMIT_DMA32 = 0xFFFFFFFF"

definition STACK_COUNT :: nat where "STACK_COUNT = ZONE_COUNT * SIZE_COUNT"
definition PMM_AUX_PAGES_COUNT :: nat where "PMM_AUX_PAGES_COUNT = 64"
definition PMM_STACK_PAGE_SIZE :: u64 where "PMM_STACK_PAGE_SIZE = of_nat (PAGE_TABLE_ENTRY_COUNT - 2)"

definition SZ_TO_IDX :: "nat \<Rightarrow> nat \<Rightarrow> nat" where
  "SZ_TO_IDX s z = s * ZONE_COUNT + z"

record pmm_stack_page_t =
  sp_next :: u64
  sp_count :: u64
  sp_frames :: "nat \<Rightarrow> u64"

record pmm =
  pmmPml1Table :: "nat \<Rightarrow> u64"
  phys :: "u64 \<Rightarrow> pmm_stack_page_t"
  stackPageListInitialized :: bool
  total4kPages :: u64
  enable1gPages :: bool
  enable2mPages :: bool

definition pmmPage :: "pmm \<Rightarrow> nat \<Rightarrow> u64" where
  "pmmPage s i = pmmPml1Table s i AND PG_ADDR_MASK"

definition pmmData :: "pmm \<Rightarrow> nat \<Rightarrow> pmm_stack_page_t" where
  "pmmData s i = phys s (pmmPage s i)"

definition set_pmmData :: "nat \<Rightarrow> (pmm_stack_page_t \<Rightarrow> pmm_stack_page_t) \<Rightarrow> pmm \<Rightarrow> pmm" where
  "set_pmmData i f s = s\<lparr>phys := (phys s)(pmmPage s i := f (pmmData s i))\<rparr>"

section \<open>Operations\<close>

definition get_zone_str :: "nat \<Rightarrow> string option" where
  "get_zone_str zone =
     (if zone = ZONE_DMA then Some ''DMA    ''
      else if zone = ZONE_DMA32 then Some ''DMA32''
      else if zone = ZONE_STD then Some ''STD    '' else None)"

definition get_size_str :: "nat \<Rightarrow> string option" where
  "get_size_str sz =
     (if sz = SIZE_4K then Some ''4K''
      else if sz = SIZE_2M then Some ''2M''
      else if sz = SIZE_1G then Some ''1G'' else None)"

definition get_zone :: "nat \<Rightarrow> u64 \<Rightarrow> nat" where
  "get_zone sz addr =
     (let addr = (if sz = SIZE_4K then addr + (FRAME_SIZE - 1)
                  else if sz = SIZE_2M then addr + (FRAME_SIZE_2M - 1)
                  else if sz = SIZE_1G then addr + (FRAME_SIZE_1G - 1)
                  else addr)
      in if addr \<le> ZONE_LIMIT_DMA then ZONE_DMA
         else if addr \<le> ZONE_LIMIT_DMA32 then ZONE_DMA32
         else ZONE_STD)"

definition stack_switch :: "nat \<Rightarrow> nat \<Rightarrow> u64 \<Rightarrow> pmm \<Rightarrow> pmm \<times> u64" where
  "stack_switch sz zone addr s =
     (let idx = SZ_TO_IDX sz zone;
          oldAddr = pmmPml1Table s idx AND PG_ADDR_MASK
      in (s\<lparr>pmmPml1Table := (pmmPml1Table s)(idx := addr OR PG_PRESENT OR PG_WRITABLE OR PG_NO_EXEC)\<rparr>,
          oldAddr))"

text \<open>The two loops of \<^verbatim>\<open>_pmm_try_reserve_as_stack_page\<close>: the insertion point and the move.\<close>

function insertion_index :: "(nat \<Rightarrow> u64) \<Rightarrow> u64 \<Rightarrow> nat \<Rightarrow> nat \<Rightarrow> nat" where
  "insertion_index frames addr count index =
     (if index < count then
        (if frames index < addr then index else insertion_index frames addr count (index + 1))
      else index)"
  by auto
termination by (relation "measure (\<lambda>(_, _, count, index). count - index)") auto

declare insertion_index.simps [simp del]

definition move_up :: "nat \<Rightarrow> nat \<Rightarrow> (nat \<Rightarrow> u64) \<Rightarrow> nat \<Rightarrow> u64" where
  "move_up index count frames = fold (\<lambda>i fr. fr(i + 1 := fr i)) (rev [index..<count]) frames"

definition reserve_insert :: "u64 \<Rightarrow> pmm \<Rightarrow> pmm" where
  "reserve_insert addr s = set_pmmData STACK_COUNT (\<lambda>l.
     (let count = unat (sp_count l);
          index = insertion_index (sp_frames l) addr count 0;
          frames = (move_up index count (sp_frames l))(index := addr)
      in l\<lparr>sp_frames := frames, sp_count := sp_count l + 1\<rparr>)) s"

definition pmm_acquire_stack_page :: "pmm \<Rightarrow> pmm \<times> u64" where
  "pmm_acquire_stack_page s =
     (let l = pmmData s STACK_COUNT in
      if sp_count l > 0 then
        (let highestAddress = sp_frames l 0;
             frames = fold (\<lambda>i fr. fr(i - 1 := fr i)) [1..<unat (sp_count l)] (sp_frames l)
         in (set_pmmData STACK_COUNT (\<lambda>l. l\<lparr>sp_frames := frames, sp_count := sp_count l - 1\<rparr>) s,
             highestAddress))
      else (s, 0))"

text \<open>Storing an address on the top page of a stack, and making a page the new top of a stack.\<close>

definition stack_store :: "nat \<Rightarrow> u64 \<Rightarrow> pmm \<Rightarrow> pmm" where
  "stack_store idx addr s = set_pmmData idx (\<lambda>p.
     p\<lparr>sp_frames := (sp_frames p)(unat (sp_count p) := addr), sp_count := sp_count p + 1\<rparr>) s"

definition stack_new_top :: "nat \<Rightarrow> nat \<Rightarrow> nat \<Rightarrow> u64 \<Rightarrow> pmm \<Rightarrow> pmm" where
  "stack_new_top idx sz zone addr s =
     (let (s, old) = stack_switch sz zone addr s
      in set_pmmData idx (\<lambda>p. p\<lparr>sp_next := old, sp_count := 0\<rparr>) s)"

text \<open>The offsets \<open>inc, 2 * inc, \<dots>\<close> of the blocks after the first one in a block that is split in 512.\<close>

definition split_offsets :: "u64 \<Rightarrow> u64 list" where
  "split_offsets inc = map (\<lambda>i. of_nat i * inc) [1..<512]"

fun pmm_try_reserve_as_stack_page :: "nat \<Rightarrow> u64 \<Rightarrow> pmm \<Rightarrow> (pmm \<times> bool) option"
  and pmm_alloc' :: "nat \<Rightarrow> nat \<Rightarrow> nat \<Rightarrow> nat \<Rightarrow> pmm \<Rightarrow> (pmm \<times> u64 \<times> nat) option"
  and pmm_free' :: "nat \<Rightarrow> nat \<Rightarrow> nat \<Rightarrow> u64 \<Rightarrow> pmm \<Rightarrow> pmm option"
where
  "pmm_try_reserve_as_stack_page 0 addr s = None"
| "pmm_try_reserve_as_stack_page (Suc n) addr s =
     (if \<not> stackPageListInitialized s then Some (s, False)
      else
        let l = pmmData s STACK_COUNT in
        if sp_count l = PMM_STACK_PAGE_SIZE then
          (let lowest = sp_frames l (unat (sp_count l - 1)) in
           if lowest < addr then
             (let s = set_pmmData STACK_COUNT (\<lambda>l. l\<lparr>sp_count := sp_count l - 1\<rparr>) s;
                  s = reserve_insert addr s
              in if lowest \<noteq> 0 then
                   map_option (\<lambda>s. (s, True)) (pmm_free' n SIZE_4K (get_zone SIZE_4K lowest) lowest s)
                 else Some (s, True))
           else Some (s, False))
        else Some (reserve_insert addr s, True))"
| "pmm_alloc' 0 sz zone maxZone s = None"
| "pmm_alloc' (Suc n) sz zone maxZone s =
     (let idx = SZ_TO_IDX sz zone;
          top = pmmData s idx
      in if sp_count top \<noteq> 0 then
           (let s = set_pmmData idx (\<lambda>p. p\<lparr>sp_count := sp_count p - 1\<rparr>) s
            in Some (s, sp_frames (pmmData s idx) (unat (sp_count (pmmData s idx))), zone))
         else if sp_next top \<noteq> 0 then
           (let (s, addr) = stack_switch sz zone (sp_next top) s in
            Option.bind (pmm_try_reserve_as_stack_page n addr s) (\<lambda>(s, reserved).
              if reserved then pmm_alloc' n sz zone zone s
              else
                (let stack_zone = get_zone SIZE_4K addr in
                 if sz = SIZE_4K \<and> stack_zone \<le> zone then Some (s, addr, stack_zone)
                 else Option.bind (pmm_free' n SIZE_4K stack_zone addr s) (\<lambda>s.
                        pmm_alloc' n sz zone zone s))))
         else if zone > ZONE_DMA then pmm_alloc' n sz (zone - 1) maxZone s
         else if sz = SIZE_2M then
           Option.bind (pmm_alloc' n SIZE_1G maxZone maxZone s) (\<lambda>(s, addr, allocZone).
             if addr \<noteq> 0 then
               Option.bind (iter (\<lambda>s off. pmm_free' n SIZE_2M allocZone (addr + off) s)
                 (split_offsets FRAME_SIZE_2M) s) (\<lambda>s. Some (s, addr, allocZone))
             else Some (s, 0, 0))
         else if sz = SIZE_4K then
           Option.bind (pmm_alloc' n SIZE_2M maxZone maxZone s) (\<lambda>(s, addr, allocZone).
             if addr \<noteq> 0 then
               Option.bind (iter (\<lambda>s off. pmm_free' n SIZE_4K allocZone (addr + off) s)
                 (split_offsets FRAME_SIZE) s) (\<lambda>s. Some (s, addr, allocZone))
             else Some (s, 0, 0))
         else Some (s, 0, 0))"
| "pmm_free' 0 sz zone addr s = None"
| "pmm_free' (Suc n) sz zone addr s =
     Option.bind (if sz = SIZE_4K then pmm_try_reserve_as_stack_page n addr s else Some (s, False))
       (\<lambda>(s, reserved).
     let idx = SZ_TO_IDX sz zone in
     if reserved then Some s
     else if sp_count (pmmData s idx) \<noteq> PMM_STACK_PAGE_SIZE then Some (stack_store idx addr s)
     else if sz = SIZE_4K \<and> zone = ZONE_STD then Some (stack_new_top idx sz zone addr s)
     else
       (let (s, new_addr) = pmm_acquire_stack_page s in
        Option.bind (if new_addr = 0 then
            map_option (\<lambda>(s, a, _). (s, a)) (pmm_alloc' n SIZE_4K ZONE_STD ZONE_STD s)
          else Some (s, new_addr)) (\<lambda>(s, new_addr).
        if new_addr \<noteq> 0 then Some (stack_store idx addr (stack_new_top idx sz zone new_addr s))
        else if sz = SIZE_4K then Some (stack_new_top idx sz zone addr s)
        else if sz = SIZE_2M then
          iter (\<lambda>s off. pmm_free' n SIZE_4K (get_zone SIZE_4K (addr + off)) (addr + off) s)
            (split_offsets FRAME_SIZE) (stack_new_top idx SIZE_4K zone addr s)
        else if sz = SIZE_1G then
          Option.bind (iter (\<lambda>s off. pmm_free' n SIZE_4K (get_zone SIZE_4K (addr + off)) (addr + off) s)
              (split_offsets FRAME_SIZE) (stack_new_top idx SIZE_4K zone addr s))
            (iter (\<lambda>s off. pmm_free' n SIZE_2M (get_zone SIZE_2M (addr + off)) (addr + off) s)
              (split_offsets FRAME_SIZE_2M))
        else Some s)))"

declare pmm_try_reserve_as_stack_page.simps [simp del] pmm_alloc'.simps [simp del] pmm_free'.simps [simp del]

text \<open>The depth bound of the public operations; \<open>PmmAlloc\<close> shows that it always suffices.\<close>

definition PMM_DEPTH :: nat where "PMM_DEPTH = 64"

definition pmm_allocsz :: "nat \<Rightarrow> nat \<Rightarrow> pmm \<Rightarrow> (pmm \<times> u64) option" where
  "pmm_allocsz sz zone s =
     map_option (\<lambda>(s, addr, _). (s, addr)) (pmm_alloc' PMM_DEPTH sz zone zone s)"

definition pmm_alloc :: "pmm \<Rightarrow> (pmm \<times> u64) option" where
  "pmm_alloc s = pmm_allocsz SIZE_4K ZONE_STD s"

definition pmm_allocs :: "nat \<Rightarrow> pmm \<Rightarrow> (pmm \<times> u64) option" where
  "pmm_allocs sz s = pmm_allocsz sz ZONE_STD s"

definition pmm_allocz :: "nat \<Rightarrow> pmm \<Rightarrow> (pmm \<times> u64) option" where
  "pmm_allocz zone s = pmm_allocsz SIZE_4K zone s"

definition pmm_frees :: "nat \<Rightarrow> u64 \<Rightarrow> pmm \<Rightarrow> pmm option" where
  "pmm_frees sz addr s = pmm_free' PMM_DEPTH sz (get_zone sz addr) addr s"

definition pmm_free :: "u64 \<Rightarrow> pmm \<Rightarrow> pmm option" where
  "pmm_free addr s = pmm_frees SIZE_4K addr s"

end
