(* ===== verification/PmmRep.thy ===== *)
theory PmmRep
  imports Pmm "HOL-Library.Multiset"
begin

text \<open>
  What a state of the physical memory manager represents: nine stacks of pages with their free blocks, the
  descending list of reserved frames, and the multiset of all 4 KiB frames the manager owns.  The lemmas
  give the effect of every primitive step (store, take, change of the top page, reserve, acquire).
\<close>

section \<open>Blocks of memory\<close>

text \<open>
  A block of size \<open>sz\<close> is a naturally aligned range of \<open>512 ^ sz\<close> frames of 4 KiB below \<open>2 ^ 52\<close>; \<open>fr sz a\<close>
  is the multiset of the numbers of its 4 KiB frames.
\<close>

definition block_ok :: "nat \<Rightarrow> u64 \<Rightarrow> bool" where
  "block_ok sz a \<longleftrightarrow> a \<noteq> 0 \<and> unat a mod (4096 * 512 ^ sz) = 0 \<and> unat a + 4096 * 512 ^ sz \<le> 2 ^ 52"

definition fr :: "nat \<Rightarrow> u64 \<Rightarrow> nat multiset" where
  "fr sz a = mset [unat a div 4096 ..< unat a div 4096 + 512 ^ sz]"

definition nodup :: "nat multiset \<Rightarrow> bool" where
  "nodup X \<longleftrightarrow> (\<forall>x. count X x \<le> 1)"

lemma nodup_subset: "nodup Y \<Longrightarrow> X \<subseteq># Y \<Longrightarrow> nodup X"
  unfolding nodup_def by (meson le_trans mset_subset_eq_count)

lemma nodup_left: "nodup (X + Y) \<Longrightarrow> nodup X"
  by (rule nodup_subset) auto

lemma nodup_right: "nodup (X + Y) \<Longrightarrow> nodup Y"
  by (rule nodup_subset) auto

lemma fr_4K: "fr 0 a = {#unat a div 4096#}"
  by (simp add: fr_def)

section \<open>The state as nine stacks of pages and a reserved list\<close>

type_synonym pages = "(u64 \<times> u64 list) list"

record pview =
  stk :: "nat \<Rightarrow> pages"
  rsv :: "u64 list"
  rpage :: u64

fun pchain :: "pmm \<Rightarrow> pages \<Rightarrow> bool" where
  "pchain s [] = True"
| "pchain s ((p, fs) # ps) =
     (sp_count (phys s p) = of_nat (length fs) \<and> (\<forall>j<length fs. sp_frames (phys s p) j = fs ! j)
      \<and> sp_next (phys s p) = (case ps of [] \<Rightarrow> 0 | q # _ \<Rightarrow> fst q) \<and> pchain s ps)"

definition stack_rep :: "pmm \<Rightarrow> nat \<Rightarrow> pages \<Rightarrow> bool" where
  "stack_rep s i ps \<longleftrightarrow> ps \<noteq> [] \<and> pmmPage s i = fst (hd ps) \<and> pchain s ps"

definition rsv_rep :: "pmm \<Rightarrow> u64 list \<Rightarrow> u64 \<Rightarrow> bool" where
  "rsv_rep s rs rp \<longleftrightarrow> pmmPage s 9 = rp \<and> sp_count (phys s rp) = of_nat (length rs)
     \<and> (\<forall>j<length rs. sp_frames (phys s rp) j = rs ! j)"

definition pmm_rep :: "pmm \<Rightarrow> pview \<Rightarrow> bool" where
  "pmm_rep s v \<longleftrightarrow> (\<forall>i<9. stack_rep s i (stk v i)) \<and> rsv_rep s (rsv v) (rpage v)"

definition smem :: "nat \<Rightarrow> pages \<Rightarrow> nat multiset" where
  "smem i ps = (\<Sum>(p, fs)\<leftarrow>ps. fr 0 p + (\<Sum>f\<leftarrow>fs. fr (i div 3) f))"

text \<open>All the memory the manager owns: the free blocks, the reserved frames and its own pages.\<close>

definition pmem :: "pview \<Rightarrow> nat multiset" where
  "pmem v = (\<Sum>i\<in>{..<9}. smem i (stk v i)) + (\<Sum>r\<leftarrow>rsv v. fr 0 r) + fr 0 (rpage v)"

definition stack_ok :: "nat \<Rightarrow> pages \<Rightarrow> bool" where
  "stack_ok i ps \<longleftrightarrow> (\<forall>(p, fs)\<in>set ps. block_ok 0 p \<and> length fs \<le> 510
       \<and> (\<forall>f\<in>set fs. block_ok (i div 3) f \<and> get_zone (i div 3) f \<le> i mod 3))
     \<and> (\<forall>(p, fs)\<in>set (tl ps). fs \<noteq> [])"

definition rsv_ok :: "u64 list \<Rightarrow> bool" where
  "rsv_ok rs \<longleftrightarrow> length rs \<le> 510 \<and> sorted_wrt (>) rs \<and> (\<forall>r\<in>set rs. block_ok 0 r)"

definition pmm_inv :: "pview \<Rightarrow> bool" where
  "pmm_inv v \<longleftrightarrow> (\<forall>i<9. stack_ok i (stk v i)) \<and> rsv_ok (rsv v) \<and> block_ok 0 (rpage v) \<and> nodup (pmem v)"

definition pmm_wf :: "pmm \<Rightarrow> pview \<Rightarrow> bool" where
  "pmm_wf s v \<longleftrightarrow> pmm_rep s v \<and> pmm_inv v \<and> (\<not> stackPageListInitialized s \<longrightarrow> rsv v = [])"

abbreviation set_stk :: "nat \<Rightarrow> pages \<Rightarrow> pview \<Rightarrow> pview" where
  "set_stk i ps v \<equiv> v\<lparr>stk := (stk v)(i := ps)\<rparr>"

lemma smem_simps [simp]: "smem i [] = {#}"
  "smem i ((p, fs) # ps) = fr 0 p + (\<Sum>f\<leftarrow>fs. fr (i div 3) f) + smem i ps"
  by (simp_all add: smem_def)

lemma mem_stk: "i < 9 \<Longrightarrow> \<exists>R. \<forall>ps. pmem (set_stk i ps v) = R + smem i ps"
proof (intro exI allI)
  fix ps assume i: "i < 9"
  have "(\<Sum>j\<in>{..<9}. smem j (((stk v)(i := ps)) j)) = smem i ps + (\<Sum>j\<in>{..<9} - {i}. smem j (stk v j))"
    using i by (subst sum.remove [of _ i]) (auto intro!: sum.cong)
  then show "pmem (set_stk i ps v)
      = ((\<Sum>j\<in>{..<9} - {i}. smem j (stk v j)) + (\<Sum>r\<leftarrow>rsv v. fr 0 r) + fr 0 (rpage v)) + smem i ps"
    by (simp add: pmem_def)
qed

lemma mem_change:
  assumes "i < 9" "smem i ps = smem i (stk v i) + X"
  shows "pmem (set_stk i ps v) = pmem v + X"
proof -
  obtain R where R: "\<And>ps. pmem (set_stk i ps v) = R + smem i ps" using mem_stk [OF assms(1), of v] by blast
  have "pmem v = R + smem i (stk v i)" using R [of "stk v i"] by simp
  with R [of ps] assms(2) show ?thesis by (simp add: ac_simps)
qed

lemma mem_change':
  assumes "i < 9" "smem i (stk v i) = smem i ps + X"
  shows "pmem v = pmem (set_stk i ps v) + X"
  using mem_change [of i "stk v i" "set_stk i ps v" X] assms by simp

lemma mem_res: "pmem (v\<lparr>rsv := rs\<rparr>) + (\<Sum>r\<leftarrow>rsv v. fr 0 r) = pmem v + (\<Sum>r\<leftarrow>rs. fr 0 r)"
  by (simp add: pmem_def ac_simps)

text \<open>The pages of the manager are distinct.\<close>

definition other_pages :: "pview \<Rightarrow> nat \<Rightarrow> u64 set" where
  "other_pages v i = (\<Union>j\<in>{..<9} - {i}. fst ` set (stk v j)) \<union> {rpage v}"

lemma page_in_smem: "(p, fs) \<in> set ps \<Longrightarrow> unat p div 4096 \<in># smem i ps"
  by (induction ps) (auto simp: fr_4K)

lemma page_count: "p \<in> fst ` set ps \<Longrightarrow> 1 \<le> count (smem i ps) (unat p div 4096)"
  using page_in_smem [of p _ ps i] unfolding count_greater_eq_one_iff by fastforce

lemma stack_pages_distinct:
  assumes "nodup (smem i ps)" shows "distinct (map fst ps)"
  using assms
proof (induction ps)
  case (Cons a ps)
  obtain p fs where a: "a = (p, fs)" by (cases a)
  have "p \<notin> fst ` set ps"
  proof
    assume "p \<in> fst ` set ps"
    then have "count (smem i (a # ps)) (unat p div 4096) \<ge> 2"
      using page_count [OF \<open>p \<in> fst ` set ps\<close>, of i] unfolding a smem_simps fr_4K by (simp only: count_union count_single refl if_True)
    with Cons.prems show False by (auto simp: nodup_def dest!: spec [of _ "unat p div 4096"])
  qed
  moreover have "distinct (map fst ps)"
    using Cons.prems unfolding a smem_simps by (rule Cons.IH [OF nodup_right])
  ultimately show ?case by (simp add: a)
qed simp

lemma others_disjoint:
  assumes "nodup (pmem v)" "i < 9" shows "fst ` set (stk v i) \<inter> other_pages v i = {}"
proof (rule ccontr)
  assume "fst ` set (stk v i) \<inter> other_pages v i \<noteq> {}"
  then obtain p where p: "p \<in> fst ` set (stk v i)" "p \<in> other_pages v i" by blast
  let ?k = "unat p div 4096"
  have 1: "count (smem i (stk v i)) ?k \<ge> 1" using page_count [OF p(1)] .
  have m: "pmem v = smem i (stk v i) + (\<Sum>j\<in>{..<9} - {i}. smem j (stk v j)) + (\<Sum>r\<leftarrow>rsv v. fr 0 r) + fr 0 (rpage v)"
    using assms(2) by (simp add: pmem_def sum.remove [of "{..<9}" i])
  have "count (pmem v) ?k \<ge> 2"
  proof (cases "p = rpage v")
    case True
    then show ?thesis using 1 unfolding m by (simp add: Suc_le_eq fr_4K del: count_greater_zero_iff)
  next
    case False
    then obtain j where j: "j < 9" "j \<noteq> i" "p \<in> fst ` set (stk v j)" using p(2) by (auto simp: other_pages_def)
    have "count (smem j (stk v j)) ?k \<ge> 1" using page_count [OF j(3)] .
    also have "count (smem j (stk v j)) ?k \<le> count (\<Sum>j\<in>{..<9} - {i}. smem j (stk v j)) ?k"
      unfolding count_sum by (rule member_le_sum) (use j in auto)
    finally show ?thesis using 1 unfolding m by (simp only: count_union)
  qed
  with assms(1) show False by (auto simp: nodup_def dest!: spec [of _ ?k])
qed

lemma fresh_page:
  assumes "nodup (pmem v + fr 0 a)" "i < 9" shows "a \<notin> fst ` set (stk v i)" "a \<notin> other_pages v i"
proof -
  have n: "count (pmem v) (unat a div 4096) = 0"
    using assms(1) by (auto simp: nodup_def fr_4K dest: spec [of _ "unat a div 4096"])
  have sub: "count (smem j (stk v j)) x \<le> count (pmem v) x" if "j < 9" for j x
    using that by (simp add: pmem_def sum.remove [of "{..<9}" j])
  have st: "a \<notin> fst ` set (stk v j)" if "j < 9" for j
    using n sub [OF that, of "unat a div 4096"] page_count [of a "stk v j" j] by linarith
  show "a \<notin> fst ` set (stk v i)" using st [OF assms(2)] .
  have "a \<noteq> rpage v" using n by (auto simp: pmem_def fr_4K)
  with st show "a \<notin> other_pages v i" by (auto simp: other_pages_def)
qed

section \<open>The primitive steps on the representation\<close>

lemma unat_small [simp]: "n \<le> 1024 \<Longrightarrow> unat (of_nat n :: u64) = n"
  by (simp add: unsigned_of_nat take_bit_nat_eq_self)

lemma of_nat_small_eq [simp]: "m \<le> 1024 \<Longrightarrow> n \<le> 1024 \<Longrightarrow> (of_nat m :: u64) = of_nat n \<longleftrightarrow> m = n"
  by (metis unat_small)

lemma page_size [simp]: "PMM_STACK_PAGE_SIZE = of_nat 510"
  by (simp add: PMM_STACK_PAGE_SIZE_def PAGE_TABLE_ENTRY_COUNT_def)

lemma block_page_addr: "block_ok 0 a \<Longrightarrow> a AND PG_ADDR_MASK = a"
  unfolding block_ok_def page_addr_iff by auto

lemma chain_cong: "(\<And>p. p \<in> fst ` set ps \<Longrightarrow> phys s' p = phys s p) \<Longrightarrow> pchain s' ps = pchain s ps"
  by (induction ps) auto

lemma rep_change:
  assumes "pmm_rep s v" "i < 9" "stack_rep s' i ps" "\<And>j. j \<le> 9 \<Longrightarrow> j \<noteq> i \<Longrightarrow> pmmPage s' j = pmmPage s j"
    and "\<And>q. q \<in> other_pages v i \<Longrightarrow> phys s' q = phys s q"
  shows "pmm_rep s' (set_stk i ps v)"
proof -
  have "stack_rep s' j (stk v j)" if "j < 9" "j \<noteq> i" for j
    using assms(1,4,5) that chain_cong [of "stk v j" s' s] by (auto simp: pmm_rep_def stack_rep_def other_pages_def)
  moreover have "rsv_rep s' (rsv v) (rpage v)"
    using assms(1,2,4,5) by (auto simp: pmm_rep_def rsv_rep_def other_pages_def)
  ultimately show ?thesis using assms(3) by (auto simp: pmm_rep_def)
qed

lemma pmm_wf_change:
  assumes "pmm_wf s v" "i < 9" "stack_rep s' i ps" "\<And>j. j \<le> 9 \<Longrightarrow> j \<noteq> i \<Longrightarrow> pmmPage s' j = pmmPage s j"
    and "\<And>q. q \<in> other_pages v i \<Longrightarrow> phys s' q = phys s q"
    and "stack_ok i ps" "nodup (pmem (set_stk i ps v))"
    and "stackPageListInitialized s' = stackPageListInitialized s"
  shows "pmm_wf s' (set_stk i ps v)"
  using assms rep_change [of s v i s' ps] by (auto simp: pmm_wf_def pmm_inv_def)

lemma set_pmmData_simps [simp]:
  "pmmPage (set_pmmData i f s) j = pmmPage s j"
  "phys (set_pmmData i f s) = (phys s)(pmmPage s i := f (pmmData s i))"
  "stackPageListInitialized (set_pmmData i f s) = stackPageListInitialized s"
  by (simp_all add: set_pmmData_def pmmPage_def)

lemma pmmData_set: "pmmData (set_pmmData i f s) i = f (pmmData s i)"
  by (simp add: pmmData_def [of "set_pmmData i f s"])

lemma pmm_wf_stackD:
  assumes "pmm_wf s v" "i < 9"
  obtains p fs ps where "stk v i = (p, fs) # ps" "pmmPage s i = p" "stack_ok i ((p, fs) # ps)"
    "p \<notin> fst ` set ps" "p \<notin> other_pages v i" "pchain s ((p, fs) # ps)" "length fs \<le> 510"
    "sp_count (pmmData s i) = of_nat (length fs)"
    "sp_next (pmmData s i) = (case ps of [] \<Rightarrow> 0 | q # _ \<Rightarrow> fst q)"
proof -
  have r: "stack_rep s i (stk v i)" "stack_ok i (stk v i)" "nodup (pmem v)"
    using assms by (auto simp: pmm_wf_def pmm_rep_def pmm_inv_def)
  then obtain p fs ps where e: "stk v i = (p, fs) # ps" by (cases "stk v i") (auto simp: stack_rep_def)
  have "nodup (smem i (stk v i))"
    using mem_stk [OF assms(2), of v] r(3) nodup_right by (metis fun_upd_triv pview.surjective pview.update_convs(1))
  then have "distinct (map fst (stk v i))" by (rule stack_pages_distinct)
  then have "p \<notin> fst ` set ps" by (simp add: e)
  moreover have "p \<notin> other_pages v i" using others_disjoint [OF r(3) assms(2)] by (auto simp: e)
  ultimately show ?thesis using that [OF e] r
    by (auto simp: e stack_rep_def pmmData_def stack_ok_def)
qed

lemma pmm_wf_set_top:
  assumes w: "pmm_wf s v" "i < 9" "stk v i = (p, fs) # ps"
    and f: "sp_next (f (pmmData s i)) = sp_next (pmmData s i)"
      "sp_count (f (pmmData s i)) = of_nat (length fs')"
      "\<And>j. j < length fs' \<Longrightarrow> sp_frames (f (pmmData s i)) j = fs' ! j"
    and ok: "stack_ok i ((p, fs') # ps)" "nodup (pmem (set_stk i ((p, fs') # ps) v))"
  shows "pmm_wf (set_pmmData i f s) (set_stk i ((p, fs') # ps) v)"
proof -
  obtain p': "pmmPage s i = p" "p \<notin> fst ` set ps" "p \<notin> other_pages v i" "pchain s ((p, fs) # ps)"
    using pmm_wf_stackD [OF w(1,2)] w(3) by auto
  have c: "pchain (set_pmmData i f s) ps = pchain s ps"
    by (rule chain_cong) (use p' in force)
  have "stack_rep (set_pmmData i f s) i ((p, fs') # ps)"
    using p' f c by (auto simp: stack_rep_def pmmData_def)
  then show ?thesis
    using p' by (intro pmm_wf_change [OF w(1,2)]) (auto simp: ok)
qed

lemma stack_ok_top: "stack_ok i ((p, fs) # ps) \<Longrightarrow> length fs' \<le> 510 \<Longrightarrow>
    (\<And>f. f \<in> set fs' \<Longrightarrow> f \<notin> set fs \<Longrightarrow> block_ok (i div 3) f \<and> get_zone (i div 3) f \<le> i mod 3)
    \<Longrightarrow> stack_ok i ((p, fs') # ps)"
  by (auto simp: stack_ok_def)

text \<open>Storing an address on a ptop page with room.\<close>

lemma stack_store_ok:
  assumes "pmm_wf s v" "i < 9" "stk v i = (p, fs) # ps" "length fs < 510"
    and "block_ok (i div 3) a" "get_zone (i div 3) a \<le> i mod 3" "nodup (pmem v + fr (i div 3) a)"
  shows "pmm_wf (stack_store i a s) (set_stk i ((p, fs @ [a]) # ps) v)"
    and "pmem (set_stk i ((p, fs @ [a]) # ps) v) = pmem v + fr (i div 3) a"
proof -
  obtain c: "sp_count (pmmData s i) = of_nat (length fs)" and ok: "stack_ok i ((p, fs) # ps)"
    and ch: "pchain s ((p, fs) # ps)" "pmmPage s i = p"
    using pmm_wf_stackD [OF assms(1,2)] assms(3) by auto
  show m: "pmem (set_stk i ((p, fs @ [a]) # ps) v) = pmem v + fr (i div 3) a"
    by (rule mem_change) (simp_all add: assms)
  show "pmm_wf (stack_store i a s) (set_stk i ((p, fs @ [a]) # ps) v)"
    unfolding stack_store_def
    by (rule pmm_wf_set_top [OF assms(1-3)])
      (use c ok ch assms m in \<open>auto simp: nth_append pmmData_def intro: stack_ok_top\<close>)
qed

text \<open>Taking the last address of a ptop page.\<close>

lemma stack_pop_ok:
  assumes "pmm_wf s v" "i < 9" "stk v i = (p, fs @ [a]) # ps"
    and s': "s' = set_pmmData i (\<lambda>p. p\<lparr>sp_count := sp_count p - 1\<rparr>) s"
  shows "sp_count (pmmData s i) \<noteq> 0" "sp_frames (pmmData s' i) (unat (sp_count (pmmData s' i))) = a"
    and "pmm_wf s' (set_stk i ((p, fs) # ps) v)" "pmem v = pmem (set_stk i ((p, fs) # ps) v) + fr (i div 3) a"
    and "block_ok (i div 3) a" "get_zone (i div 3) a \<le> i mod 3"
proof -
  obtain c: "sp_count (pmmData s i) = of_nat (Suc (length fs))" and ok: "stack_ok i ((p, fs @ [a]) # ps)"
    and ch: "pchain s ((p, fs @ [a]) # ps)" "pmmPage s i = p" and l: "Suc (length fs) \<le> 510"
    using pmm_wf_stackD [OF assms(1,2)] assms(3) by auto
  show "sp_count (pmmData s i) \<noteq> 0" unfolding c using l of_nat_small_eq [of "Suc (length fs)" 0] by simp
  have c': "sp_count (pmmData s' i) = of_nat (length fs)" "sp_frames (pmmData s' i) = sp_frames (pmmData s i)"
    by (simp_all add: s' pmmData_set c)
  show "sp_frames (pmmData s' i) (unat (sp_count (pmmData s' i))) = a"
    using ch l by (simp add: c') (simp add: pmmData_def nth_append)
  show m: "pmem v = pmem (set_stk i ((p, fs) # ps) v) + fr (i div 3) a"
    by (rule mem_change') (simp_all add: assms)
  have d: "nodup (pmem v)" using assms(1) by (simp add: pmm_wf_def pmm_inv_def)
  show "pmm_wf s' (set_stk i ((p, fs) # ps) v)"
    unfolding s'
    by (rule pmm_wf_set_top [OF assms(1-3)])
      (use c ok ch l d m in \<open>auto simp: nth_append pmmData_def intro: stack_ok_top nodup_left\<close>)
  show "block_ok (i div 3) a" "get_zone (i div 3) a \<le> i mod 3" using ok by (auto simp: stack_ok_def)
qed

text \<open>Dropping an empty ptop page.\<close>

lemma idx_simps:
  assumes "sz < 3" "zone < 3"
  shows "SZ_TO_IDX sz zone < 9" "SZ_TO_IDX sz zone div 3 = sz" "SZ_TO_IDX sz zone mod 3 = zone"
  using assms by (auto simp: SZ_TO_IDX_def)

lemma stack_switch_simps:
  assumes "stack_switch sz zone a s = (s', old)" "i = SZ_TO_IDX sz zone"
  shows "old = pmmPage s i" "phys s' = phys s" "j \<noteq> i \<Longrightarrow> pmmPage s' j = pmmPage s j"
    "stackPageListInitialized s' = stackPageListInitialized s"
    "a AND PG_ADDR_MASK = a \<Longrightarrow> pmmPage s' i = a"
proof -
  have "(PG_PRESENT OR PG_WRITABLE OR PG_NO_EXEC) AND PG_ADDR_MASK = 0"
    by (simp add: PG_PRESENT_def PG_WRITABLE_def PG_NO_EXEC_def PG_ADDR_MASK_def)
  then have "(a OR (PG_PRESENT OR PG_WRITABLE OR PG_NO_EXEC)) AND PG_ADDR_MASK = a"
    if "a AND PG_ADDR_MASK = a" using page_addr_flags that by blast
  then show "old = pmmPage s i" "phys s' = phys s" "j \<noteq> i \<Longrightarrow> pmmPage s' j = pmmPage s j"
    "stackPageListInitialized s' = stackPageListInitialized s"
    "a AND PG_ADDR_MASK = a \<Longrightarrow> pmmPage s' i = a"
    using assms by (auto simp: stack_switch_def Let_def pmmPage_def or.assoc)
qed

lemma switch_down_ok:
  assumes "pmm_wf s v" "sz < 3" "zone < 3" "i = SZ_TO_IDX sz zone" "stk v i = (p, []) # (q, gs) # ps"
    and sw: "stack_switch sz zone (sp_next (pmmData s i)) s = (s', old)"
  shows "sp_count (pmmData s i) = 0" "sp_next (pmmData s i) \<noteq> 0" "old = p"
    and "pmm_wf s' (set_stk i ((q, gs) # ps) v)" "pmem v = pmem (set_stk i ((q, gs) # ps) v) + fr 0 p"
    and "block_ok 0 p" "gs \<noteq> []" "stackPageListInitialized s' = stackPageListInitialized s"
proof -
  have i: "i < 9" using assms by (simp add: idx_simps)
  obtain ok: "stack_ok i ((p, []) # (q, gs) # ps)" and ch: "pchain s ((p, []) # (q, gs) # ps)"
    and pg: "pmmPage s i = p" and nx: "sp_count (pmmData s i) = 0" "sp_next (pmmData s i) = q"
    using pmm_wf_stackD [OF assms(1) i] assms(5) by auto
  then show "sp_count (pmmData s i) = 0" "sp_next (pmmData s i) \<noteq> 0" "block_ok 0 p" "gs \<noteq> []"
    by (auto simp: stack_ok_def block_ok_def)
  note sws = stack_switch_simps [OF sw assms(4)]
  show "old = p" "stackPageListInitialized s' = stackPageListInitialized s" using sws pg by auto
  show m: "pmem v = pmem (set_stk i ((q, gs) # ps) v) + fr 0 p"
    by (rule mem_change') (simp_all add: assms(5) i)
  have q: "block_ok 0 q" using ok by (auto simp: stack_ok_def)
  have "pchain s' ((q, gs) # ps)" using ch sws(2) chain_cong [of "(q, gs) # ps" s' s] by auto
  then have "stack_rep s' i ((q, gs) # ps)"
    using sws(5) block_page_addr [OF q] by (simp add: stack_rep_def nx)
  moreover have "stack_ok i ((q, gs) # ps)" using ok by (auto simp: stack_ok_def)
  moreover have "nodup (pmem v)" using assms(1) by (simp add: pmm_wf_def pmm_inv_def)
  ultimately show "pmm_wf s' (set_stk i ((q, gs) # ps) v)"
    using sws m by (intro pmm_wf_change [OF assms(1) i]) (auto intro: nodup_left)
qed

text \<open>Making a fresh page the new ptop of a stack whose ptop page is not empty.\<close>

lemma new_top_ok:
  assumes "pmm_wf s v" "sz < 3" "zone < 3" "i = SZ_TO_IDX sz zone" "stk v i = (p, fs) # ps" "fs \<noteq> []"
    and a: "block_ok 0 a" "nodup (pmem v + fr 0 a)"
  shows "pmm_wf (stack_new_top i sz zone a s) (set_stk i ((a, []) # (p, fs) # ps) v)"
    and "pmem (set_stk i ((a, []) # (p, fs) # ps) v) = pmem v + fr 0 a"
proof -
  have i: "i < 9" using assms by (simp add: idx_simps)
  obtain s1 old where sw: "stack_switch sz zone a s = (s1, old)" by fastforce
  note sws = stack_switch_simps [OF sw assms(4)]
  let ?s = "stack_new_top i sz zone a s"
  have e: "?s = set_pmmData i (\<lambda>p. p\<lparr>sp_next := old, sp_count := 0\<rparr>) s1"
    by (simp add: stack_new_top_def sw)
  obtain ok: "stack_ok i ((p, fs) # ps)" and ch: "pchain s ((p, fs) # ps)" and pg: "pmmPage s i = p"
    using pmm_wf_stackD [OF assms(1) i] assms(5) by auto
  have fresh: "a \<notin> fst ` set (stk v i)" "a \<notin> other_pages v i" using fresh_page [OF a(2) i] by auto
  have pa: "pmmPage s1 i = a" using sws(5) block_page_addr [OF a(1)] by simp
  have ph: "phys ?s = (phys s)(a := (phys s a)\<lparr>sp_next := p, sp_count := 0\<rparr>)"
    using sws(1,2) pa pg by (simp add: e pmmData_def)
  have pa': "pmmPage ?s i = a" using pa by (simp add: e)
  have "pchain ?s ((p, fs) # ps) = pchain s ((p, fs) # ps)"
    by (rule chain_cong) (use fresh assms(5) ph in auto)
  then have "stack_rep ?s i ((a, []) # (p, fs) # ps)"
    using ch pa' by (simp add: stack_rep_def ph)
  moreover have "stack_ok i ((a, []) # (p, fs) # ps)" using ok a(1) assms(6) by (auto simp: stack_ok_def)
  moreover show m: "pmem (set_stk i ((a, []) # (p, fs) # ps) v) = pmem v + fr 0 a"
    by (rule mem_change) (simp_all add: assms(5) i)
  ultimately show "pmm_wf ?s (set_stk i ((a, []) # (p, fs) # ps) v)"
    using sws fresh pa a(2) by (intro pmm_wf_change [OF assms(1) i]) (auto simp: e ph)
qed

section \<open>The list of reserved frames\<close>

lemma STACK_COUNT_9 [simp]: "STACK_COUNT = 9"
  by (simp add: STACK_COUNT_def)

lemma pmm_wf_res_change:
  assumes "pmm_wf s v" "stackPageListInitialized s"
    and "sp_count (f (pmmData s 9)) = of_nat (length rs)"
    and "\<And>j. j < length rs \<Longrightarrow> sp_frames (f (pmmData s 9)) j = rs ! j"
    and "rsv_ok rs" "nodup (pmem (v\<lparr>rsv := rs\<rparr>))"
  shows "pmm_wf (set_pmmData 9 f s) (v\<lparr>rsv := rs\<rparr>)"
proof -
  have r: "rsv_rep s (rsv v) (rpage v)" using assms(1) by (simp add: pmm_wf_def pmm_rep_def)
  then have p: "pmmPage s 9 = rpage v" by (simp add: rsv_rep_def)
  have "stack_rep (set_pmmData 9 f s) i (stk v i)" if "i < 9" for i
  proof -
    have "rpage v \<notin> fst ` set (stk v i)"
      using assms(1) that others_disjoint [of v i] by (auto simp: pmm_wf_def pmm_inv_def other_pages_def)
    then have "pchain (set_pmmData 9 f s) (stk v i) = pchain s (stk v i)"
      by (intro chain_cong) (force simp: p)
    then show ?thesis using assms(1) that by (auto simp: pmm_wf_def pmm_rep_def stack_rep_def)
  qed
  then show ?thesis
    using assms by (auto simp: pmm_wf_def pmm_rep_def rsv_rep_def pmm_inv_def p)
qed

lemma pmm_wf_resD:
  assumes "pmm_wf s v"
  shows "sp_count (pmmData s 9) = of_nat (length (rsv v))" "length (rsv v) \<le> 510"
    "j < length (rsv v) \<Longrightarrow> sp_frames (pmmData s 9) j = rsv v ! j" "rsv_ok (rsv v)"
    "r \<in> set (rsv v) \<Longrightarrow> block_ok 0 r" "sorted_wrt (>) (rsv v)"
  using assms by (auto simp: pmm_wf_def pmm_rep_def rsv_rep_def pmm_inv_def rsv_ok_def pmmData_def)

text \<open>The place of an address in a descending list.\<close>

definition insert_desc :: "u64 \<Rightarrow> u64 list \<Rightarrow> u64 list" where
  "insert_desc a rs = takeWhile (\<lambda>x. \<not> x < a) rs @ a # dropWhile (\<lambda>x. \<not> x < a) rs"

lemma insert_desc_mset [simp]: "mset (insert_desc a rs) = add_mset a (mset rs)"
  by (metis insert_desc_def mset_append mset.simps(2) takeWhile_dropWhile_id union_mset_add_mset_right)

lemma insert_desc_facts [simp]: "length (insert_desc a rs) = Suc (length rs)"
    "set (insert_desc a rs) = insert a (set rs)"
  using insert_desc_mset [of a rs] by (metis size_mset size_add_mset, metis set_mset_mset set_mset_add_mset_insert)

lemma insert_desc_Cons: "insert_desc a [] = [a]"
    "insert_desc a (r # rs) = (if r < a then a # r # rs else r # insert_desc a rs)"
  by (simp_all add: insert_desc_def)

lemma insert_desc_sorted:
  "sorted_wrt (>) rs \<Longrightarrow> a \<notin> set rs \<Longrightarrow> sorted_wrt (>) (insert_desc a rs)"
  by (induction rs) (auto simp: insert_desc_Cons not_less)

lemma insertion_index_eq:
  assumes "\<And>j. j < length rs \<Longrightarrow> g j = rs ! j" "i \<le> length rs"
  shows "insertion_index g a (length rs) i = i + length (takeWhile (\<lambda>x. \<not> x < a) (drop i rs))"
  using assms(2)
proof (induction "length rs - i" arbitrary: i)
  case (Suc n)
  then have "i < length rs" by simp
  then have d: "drop i rs = rs ! i # drop (Suc i) rs" by (simp add: Cons_nth_drop_Suc)
  have "insertion_index g a (length rs) (Suc i) = Suc i + length (takeWhile (\<lambda>x. \<not> x < a) (drop (Suc i) rs))"
    using Suc by (intro Suc.hyps) auto
  then show ?case
    using assms(1) [of i] \<open>i < length rs\<close> by (subst insertion_index.simps) (simp add: d)
qed (simp add: insertion_index.simps)

lemma move_up_eq: "i \<le> n \<Longrightarrow> move_up i n g j = (if i < j \<and> j \<le> n then g (j - 1) else g j)"
proof (induction n arbitrary: g)
  case (Suc n)
  show ?case
  proof (cases "i = Suc n")
    case False
    then have "move_up i (Suc n) g = move_up i n (g(n + 1 := g n))"
      using Suc.prems by (simp add: move_up_def)
    with Suc False show ?thesis by auto
  qed (auto simp: move_up_def)
qed (auto simp: move_up_def)

lemma move_down_eq:
  "fold (\<lambda>i g. g(i - 1 := g i)) [1..<n] g j = (if j + 1 < n then g (j + 1) else g (j :: nat))"
  by (induction n arbitrary: j) auto

lemma reserve_insert_ok:
  assumes "pmm_wf s v" "stackPageListInitialized s" "length (rsv v) < 510" "block_ok 0 a" "nodup (pmem v + fr 0 a)"
  shows "pmm_wf (reserve_insert a s) (v\<lparr>rsv := insert_desc a (rsv v)\<rparr>)"
    and "pmem (v\<lparr>rsv := insert_desc a (rsv v)\<rparr>) = pmem v + fr 0 a"
proof -
  let ?rs = "rsv v" and ?l = "pmmData s 9"
  note r = pmm_wf_resD [OF assms(1)]
  let ?k = "length (takeWhile (\<lambda>x. \<not> x < a) ?rs)"
  have k: "?k \<le> length ?rs" by (rule length_takeWhile_le)
  have ix: "insertion_index (sp_frames ?l) a (length ?rs) 0 = ?k"
    using insertion_index_eq [of ?rs "sp_frames ?l" 0 a] r(3) by simp
  have nth: "((move_up ?k (length ?rs) (sp_frames ?l))(?k := a)) j = insert_desc a ?rs ! j"
    if "j < Suc (length ?rs)" for j
    using that k r(3) by (auto simp: move_up_eq insert_desc_def nth_append takeWhile_nth nth_Cons' dropWhile_eq_drop)
  show m: "pmem (v\<lparr>rsv := insert_desc a (rsv v)\<rparr>) = pmem v + fr 0 a"
    using mem_res [of "insert_desc a (rsv v)" v] by (simp flip: sum_mset_sum_list)
  have "a \<notin> set ?rs"
  proof
    assume "a \<in> set ?rs"
    then have "1 \<le> count (\<Sum>r\<leftarrow>?rs. fr 0 r) (unat a div 4096)"
      by (force simp: fr_4K Suc_le_eq sum_list_map_remove1 [of a])
    then have "2 \<le> count (pmem v + fr 0 a) (unat a div 4096)" by (simp add: pmem_def fr_4K Suc_le_eq)
    with assms(5) show False by (auto simp: nodup_def dest!: spec [of _ "unat a div 4096"])
  qed
  then have ok: "rsv_ok (insert_desc a ?rs)"
    using r(2,4) assms(3,4) insert_desc_sorted by (auto simp: rsv_ok_def)
  have c: "unat (sp_count ?l) = length ?rs" using r(1,2) by simp
  show "pmm_wf (reserve_insert a s) (v\<lparr>rsv := insert_desc a (rsv v)\<rparr>)"
    unfolding reserve_insert_def STACK_COUNT_9
  proof (rule pmm_wf_res_change [OF assms(1,2) _ _ ok])
    show "nodup (pmem (v\<lparr>rsv := insert_desc a ?rs\<rparr>))" unfolding m by (rule assms(5))
  qed (use nth in \<open>simp_all add: Let_def c ix\<close>, simp add: r(1))
qed

lemma acquire_ok:
  assumes "pmm_wf s v"
  shows "rsv v = [] \<Longrightarrow> pmm_acquire_stack_page s = (s, 0)"
    and "rsv v = a # rs \<Longrightarrow> \<exists>s'. pmm_acquire_stack_page s = (s', a) \<and> pmm_wf s' (v\<lparr>rsv := rs\<rparr>)
      \<and> pmem v = pmem (v\<lparr>rsv := rs\<rparr>) + fr 0 a \<and> block_ok 0 a
      \<and> stackPageListInitialized s' = stackPageListInitialized s"
proof -
  note r = pmm_wf_resD [OF assms]
  show "pmm_acquire_stack_page s = (s, 0)" if "rsv v = []"
    using r(1) that by (simp add: pmm_acquire_stack_page_def)
  show "\<exists>s'. pmm_acquire_stack_page s = (s', a) \<and> pmm_wf s' (v\<lparr>rsv := rs\<rparr>)
      \<and> pmem v = pmem (v\<lparr>rsv := rs\<rparr>) + fr 0 a \<and> block_ok 0 a
      \<and> stackPageListInitialized s' = stackPageListInitialized s" if e: "rsv v = a # rs"
  proof -
    have c: "sp_count (pmmData s 9) = of_nat (Suc (length rs))" "Suc (length rs) \<le> 510" using r(1,2) e by simp_all
    then have u: "unat (sp_count (pmmData s 9)) = Suc (length rs)" by (simp only: unat_small)
    then have pos: "sp_count (pmmData s 9) > 0" by (simp add: word_less_nat_alt)
    have i: "stackPageListInitialized s" using assms e by (auto simp: pmm_wf_def)
    have m: "pmem v = pmem (v\<lparr>rsv := rs\<rparr>) + fr 0 a"
      using mem_res [of rs v] by (simp add: e)
    let ?g = "fold (\<lambda>i g. g(i - 1 := g i)) [1..<Suc (length rs)] (sp_frames (pmmData s 9))"
    let ?f = "\<lambda>l. l\<lparr>sp_frames := ?g, sp_count := sp_count l - 1\<rparr>"
    have "pmm_acquire_stack_page s = (set_pmmData 9 ?f s, a)"
      using pos r(3) [of 0] by (simp only: pmm_acquire_stack_page_def STACK_COUNT_9 Let_def u if_True) (simp add: e)
    moreover have "pmm_wf (set_pmmData 9 ?f s) (v\<lparr>rsv := rs\<rparr>)"
    proof (rule pmm_wf_res_change [OF assms i])
      show "nodup (pmem (v\<lparr>rsv := rs\<rparr>))" using assms m nodup_left by (auto simp: pmm_wf_def pmm_inv_def)
      show "rsv_ok rs" using r(4) e by (auto simp: rsv_ok_def)
      show "sp_count (?f (pmmData s 9)) = of_nat (length rs)" using c by simp
      show "sp_frames (?f (pmmData s 9)) j = rs ! j" if "j < length rs" for j
        using that r(3) [of "Suc j"] e by (simp add: move_down_eq [unfolded One_nat_def] del: upt_Suc)
    qed
    ultimately show ?thesis using m r(5) [of a] e by auto
  qed
qed

lemma drop_lowest_ok:
  assumes "pmm_wf s v" "rsv v = rs @ [e]"
  shows "pmm_wf (set_pmmData 9 (\<lambda>l. l\<lparr>sp_count := sp_count l - 1\<rparr>) s) (v\<lparr>rsv := rs\<rparr>)"
    and "pmem v = pmem (v\<lparr>rsv := rs\<rparr>) + fr 0 e" "block_ok 0 e"
    and "sp_frames (pmmData s 9) (unat (sp_count (pmmData s 9) - 1)) = e"
proof -
  note r = pmm_wf_resD [OF assms(1)]
  have c: "sp_count (pmmData s 9) - 1 = of_nat (length rs)" "length rs < 510" using r(1,2) assms(2) by simp_all
  show m: "pmem v = pmem (v\<lparr>rsv := rs\<rparr>) + fr 0 e"
    using mem_res [of rs v] by (simp add: assms(2))
  show "block_ok 0 e" using r(5) assms(2) by simp
  show "sp_frames (pmmData s 9) (unat (sp_count (pmmData s 9) - 1)) = e"
    using r(3) [of "length rs"] c by (simp add: assms(2))
  have i: "stackPageListInitialized s" using assms by (auto simp: pmm_wf_def)
  show "pmm_wf (set_pmmData 9 (\<lambda>l. l\<lparr>sp_count := sp_count l - 1\<rparr>) s) (v\<lparr>rsv := rs\<rparr>)"
  proof (rule pmm_wf_res_change [OF assms(1) i])
    show "nodup (pmem (v\<lparr>rsv := rs\<rparr>))" using assms(1) m nodup_left by (auto simp: pmm_wf_def pmm_inv_def)
    show "rsv_ok rs" using r(4) assms(2) by (auto simp: rsv_ok_def sorted_wrt_append)
  qed (use c r(3) assms(2) in \<open>auto simp: nth_append\<close>)
qed

section \<open>Splitting a block\<close>

lemma mset_ranges: "mset [k..<k + n * m] = (\<Sum>i\<leftarrow>[0..<n]. mset [k + i * m..<k + i * m + m])"
proof (induction n)
  case (Suc n)
  have e: "k + Suc n * m = (k + n * m) + m" by simp
  have "[k..<k + Suc n * m] = [k..<k + n * m] @ [k + n * m..<k + n * m + m]"
    unfolding e by (rule upt_add_eq_append) simp
  then show ?case using Suc by simp
qed simp

definition unit_bytes :: "nat \<Rightarrow> nat" where
  "unit_bytes sz = 4096 * 512 ^ sz"

lemma unit_offset:
  assumes a: "block_ok (Suc sz) a" and i: "i < 512" and inc: "unat inc = unit_bytes sz"
  shows "unat (a + of_nat i * inc) = unat a + i * unit_bytes sz"
proof -
  have le: "unat a + 512 * unit_bytes sz \<le> 0x10000000000000" using a by (simp add: block_ok_def unit_bytes_def)
  have b: "i * unit_bytes sz \<le> 512 * unit_bytes sz" using i by simp
  have c: "i * unit_bytes sz mod 0x10000000000000000 = i * unit_bytes sz" using le b by (intro mod_less) linarith
  then have "unat (of_nat i * inc) = i * unit_bytes sz"
    using i inc by (simp add: unat_word_ariths unsigned_of_nat take_bit_nat_eq_self)
  moreover have "(unat a + i * unit_bytes sz) mod 0x10000000000000000 = unat a + i * unit_bytes sz"
    using le b by (intro mod_less) linarith
  ultimately show ?thesis by (simp add: unat_word_ariths(1))
qed

lemma block_split:
  assumes a: "block_ok (Suc sz) a" and inc: "unat inc = unit_bytes sz"
  shows "fr (Suc sz) a = fr sz a + (\<Sum>off\<leftarrow>split_offsets inc. fr sz (a + off))"
    and "block_ok sz a" and "\<And>off. off \<in> set (split_offsets inc) \<Longrightarrow> block_ok sz (a + off)"
proof -
  let ?u = "unit_bytes sz" and ?m = "512 ^ sz :: nat"
  have al: "unat a mod (512 * ?u) = 0" "unat a \<noteq> 0" "unat a + 512 * ?u \<le> 0x10000000000000"
    using a by (auto simp: block_ok_def unit_bytes_def unat_eq_0)
  have fi: "fr sz (a + of_nat i * inc) = mset [unat a div 4096 + i * ?m..<unat a div 4096 + i * ?m + ?m]"
    if "i < 512" for i
  proof -
    have "unat (a + of_nat i * inc) = unat a + (i * ?m) * 4096"
      using unit_offset [OF a that inc] by (simp add: unit_bytes_def)
    then have "unat (a + of_nat i * inc) div 4096 = unat a div 4096 + i * ?m"
      by (simp only: div_mult_self1)
    then show ?thesis by (simp only: fr_def)
  qed
  have "fr (Suc sz) a = (\<Sum>i\<leftarrow>[0..<512]. fr sz (a + of_nat i * inc))"
    unfolding fr_def [of "Suc sz"] power_Suc mset_ranges
    by (rule arg_cong [of _ _ sum_list], rule map_cong) (simp_all add: fi del: upt_rec_numeral)
  also have "[0..<512] = 0 # [1..<512]" by (rule upt_rec [THEN trans]) simp
  finally show "fr (Suc sz) a = fr sz a + (\<Sum>off\<leftarrow>split_offsets inc. fr sz (a + off))"
    by (simp add: split_offsets_def comp_def del: upt_rec_numeral)
  have bi: "block_ok sz (a + of_nat i * inc)" if "i < 512" for i
  proof -
    have u: "unat (a + of_nat i * inc) = unat a + i * ?u" by (rule unit_offset [OF a that inc])
    have "?u dvd unat a" using al(1) by (metis dvd_mult dvd_refl dvd_trans mod_0_imp_dvd mult.commute)
    then have "(unat a + i * ?u) mod ?u = 0" by auto
    moreover have "i * ?u + ?u \<le> 512 * ?u" using that by (metis Suc_leI add.commute mult_Suc mult_le_mono1)
    then have "unat a + i * ?u + ?u \<le> 0x10000000000000" using al(3) by linarith
    moreover have "a + of_nat i * inc \<noteq> 0" using u al(2) by (metis add_is_0 unat_0)
    ultimately show ?thesis
      by (simp add: block_ok_def u del: mod_mult_self3 flip: unit_bytes_def)
  qed
  show "block_ok sz a" using bi [of 0] by simp
  show "\<And>off. off \<in> set (split_offsets inc) \<Longrightarrow> block_ok sz (a + off)"
    using bi by (auto simp: split_offsets_def)
qed

lemma get_zone_unat:
  assumes "sz < 3" "block_ok sz a"
  shows "get_zone sz a = (if unat a + unit_bytes sz \<le> 0x1000000 then 0 else if unat a + unit_bytes sz \<le> 0x100000000 then 1 else 2)"
proof -
  have b: "unat a + unit_bytes sz \<le> 2 ^ 52" "unit_bytes sz \<ge> 1" using assms(2) by (auto simp: block_ok_def unit_bytes_def)
  have e: "unit_bytes 0 = 0x1000" "unit_bytes (Suc 0) = 0x200000" "unit_bytes 2 = 0x40000000" by (simp_all add: unit_bytes_def)
  consider "sz = 0" | "sz = 1" | "sz = 2" using assms(1) by linarith
  then show ?thesis
    using b by cases (simp_all add: get_zone_def ZONE_LIMIT_DMA_def ZONE_LIMIT_DMA32_def e word_le_nat_alt unat_word_ariths Let_def)
qed

lemma get_zone_le: "get_zone sz a \<le> 2"
  by (simp add: get_zone_def Let_def)

lemma get_zone_split:
  assumes "sz < 2" and a: "block_ok (Suc sz) a" and inc: "unat inc = unit_bytes sz"
    and "off \<in> insert 0 (set (split_offsets inc))"
  shows "get_zone sz (a + off) \<le> get_zone (Suc sz) a"
proof -
  obtain i where i: "i < 512" "off = of_nat i * inc"
    using assms(4) by (auto simp: split_offsets_def) (metis mult_zero_left of_nat_0 zero_less_numeral)
  have u: "unat (a + off) = unat a + i * unit_bytes sz" unfolding i by (rule unit_offset [OF a i(1) inc])
  have "i * unit_bytes sz + unit_bytes sz \<le> 512 * unit_bytes sz"
    using i(1) by (metis Suc_leI add.commute mult_Suc mult_le_mono1)
  then have "unat (a + off) + unit_bytes sz \<le> unat a + unit_bytes (Suc sz)"
    unfolding u by (simp add: unit_bytes_def)
  moreover have "block_ok sz (a + off)" using assms(4) block_split(2,3) [OF a inc] by auto
  ultimately show ?thesis
    using assms(1) a by (simp add: get_zone_unat)
qed

lemma frame_units: "unat FRAME_SIZE = unit_bytes 0" "unat FRAME_SIZE_2M = unit_bytes 1"
  by (simp_all add: unit_bytes_def)

end
