(* ===== verification/PmmAlloc.thy ===== *)
theory PmmAlloc
  imports PmmRep
begin

text \<open>
  Correctness of \<^verbatim>\<open>_pmm_alloc\<close>, \<^verbatim>\<open>_pmm_free\<close> and \<^verbatim>\<open>_pmm_try_reserve_as_stack_page\<close>.  The three call each other; the
  lemmas follow the order in which their calls nest, so that each comes with a depth that suffices: 4 KiB
  frames before and after the reserved list is set up, then 2 MiB and 1 GiB blocks, then splitting.
\<close>

section \<open>Allocation and release\<close>

definition gives :: "pmm \<Rightarrow> pview \<Rightarrow> nat multiset \<Rightarrow> pmm \<Rightarrow> pview \<Rightarrow> bool" where
  "gives s v X s' v' \<longleftrightarrow> pmm_wf s' v' \<and> pmem v' = pmem v + X
     \<and> stackPageListInitialized s' = stackPageListInitialized s"

definition takes :: "pmm \<Rightarrow> pview \<Rightarrow> nat multiset \<Rightarrow> pmm \<Rightarrow> pview \<Rightarrow> bool" where
  "takes s v X s' v' \<longleftrightarrow> pmm_wf s' v' \<and> pmem v = pmem v' + X
     \<and> stackPageListInitialized s' = stackPageListInitialized s"

abbreviation ptop :: "pview \<Rightarrow> nat \<Rightarrow> u64 list" where
  "ptop v i \<equiv> snd (hd (stk v i))"

definition keeps :: "nat set \<Rightarrow> pview \<Rightarrow> pview \<Rightarrow> bool" where
  "keeps F v v' \<longleftrightarrow> (\<forall>j\<in>F. stk v' j = stk v j)"

lemma keeps_refl [simp]: "keeps F v v"
  by (simp add: keeps_def)

lemma keeps_trans: "keeps F v v' \<Longrightarrow> keeps G v' v'' \<Longrightarrow> H \<subseteq> F \<inter> G \<Longrightarrow> keeps H v v''"
  unfolding keeps_def by (metis IntD1 IntD2 subsetD)

lemma keeps_mono: "keeps F v v' \<Longrightarrow> H \<subseteq> F \<Longrightarrow> keeps H v v'"
  unfolding keeps_def by blast

lemma gives_pmm_wf: "gives s v X s' v' \<Longrightarrow> pmm_wf s' v'"
  and takes_pmm_wf: "takes s v X s' v' \<Longrightarrow> pmm_wf s' v'"
  by (simp_all add: gives_def takes_def)

lemma pmm_wf_nodup: "pmm_wf s v \<Longrightarrow> nodup (pmem v)"
  by (simp add: pmm_wf_def pmm_inv_def)

text \<open>What remains of \<^verbatim>\<open>_pmm_free\<close> once the address was not reserved as a stack page.\<close>

definition free_rest :: "nat \<Rightarrow> nat \<Rightarrow> nat \<Rightarrow> u64 \<Rightarrow> pmm \<Rightarrow> pmm option" where
  "free_rest n sz zone addr s =
     (let idx = SZ_TO_IDX sz zone in
      if sp_count (pmmData s idx) \<noteq> PMM_STACK_PAGE_SIZE then Some (stack_store idx addr s)
      else if sz = 0 \<and> zone = 2 then Some (stack_new_top idx sz zone addr s)
      else
       (let (s, new_addr) = pmm_acquire_stack_page s in
        Option.bind (if new_addr = 0 then map_option (\<lambda>(s, a, _). (s, a)) (pmm_alloc' n 0 2 2 s)
          else Some (s, new_addr)) (\<lambda>(s, new_addr).
        if new_addr \<noteq> 0 then Some (stack_store idx addr (stack_new_top idx sz zone new_addr s))
        else if sz = 0 then Some (stack_new_top idx sz zone addr s)
        else if sz = 1 then
          iter (\<lambda>s off. pmm_free' n 0 (get_zone 0 (addr + off)) (addr + off) s)
            (split_offsets FRAME_SIZE) (stack_new_top idx 0 zone addr s)
        else if sz = 2 then
          Option.bind (iter (\<lambda>s off. pmm_free' n 0 (get_zone 0 (addr + off)) (addr + off) s)
              (split_offsets FRAME_SIZE) (stack_new_top idx 0 zone addr s))
            (iter (\<lambda>s off. pmm_free' n 1 (get_zone 1 (addr + off)) (addr + off) s)
              (split_offsets FRAME_SIZE_2M))
        else Some s)))"

lemma pmm_free'_Suc:
  "pmm_free' (Suc n) sz zone addr s =
     Option.bind (if sz = 0 then pmm_try_reserve_as_stack_page n addr s else Some (s, False))
       (\<lambda>(s, reserved). if reserved then Some s else free_rest n sz zone addr s)"
  unfolding pmm_free'.simps free_rest_def Let_def by (rule refl)

lemma stack_new_top_init [simp]:
  "stackPageListInitialized (stack_new_top i sz zone a s) = stackPageListInitialized s"
  by (simp add: stack_new_top_def stack_switch_def Let_def)

lemma stack_store_init [simp]: "stackPageListInitialized (stack_store i a s) = stackPageListInitialized s"
  by (simp add: stack_store_def)

lemma reserve_insert_init [simp]: "stackPageListInitialized (reserve_insert a s) = stackPageListInitialized s"
  by (simp add: reserve_insert_def)

lemma new_top_store_ok:
  assumes "pmm_wf s v" "sz < 3" "zone < 3" "i = SZ_TO_IDX sz zone" "ptop v i \<noteq> []"
    and "block_ok 0 b" "block_ok sz a" "get_zone sz a \<le> zone" "nodup (pmem v + fr 0 b + fr sz a)"
  shows "gives s v (fr 0 b + fr sz a) (stack_store i a (stack_new_top i sz zone b s))
    (set_stk i ((b, [a]) # stk v i) v)"
proof -
  have i: "i < 9" "i div 3 = sz" "i mod 3 = zone" using assms by (simp_all add: idx_simps)
  obtain p fs ps where st: "stk v i = (p, fs) # ps" using pmm_wf_stackD [OF assms(1) i(1)] by metis
  note nt = new_top_ok [OF assms(1-4) st _ assms(6)]
  have fs: "fs \<noteq> []" using assms(5) st by simp
  have d: "nodup (pmem v + fr 0 b)" using assms(9) by (rule nodup_left)
  let ?v = "set_stk i ((b, []) # (p, fs) # ps) v"
  have "pmm_wf (stack_store i a (stack_new_top i sz zone b s)) (set_stk i ((b, [] @ [a]) # (p, fs) # ps) ?v)
      \<and> pmem (set_stk i ((b, [] @ [a]) # (p, fs) # ps) ?v) = pmem ?v + fr (i div 3) a"
    using stack_store_ok [OF nt(1) [OF fs d] i(1), of b "[]" "(p, fs) # ps" a] nt(2) [OF fs d] assms(7-9) i
    by simp
  then show ?thesis using nt(2) [OF fs d] st i by (simp add: gives_def add.assoc)
qed

lemma free_rest_ok:
  assumes w: "pmm_wf s v" and i: "sz < 3" "zone < 3" "i = SZ_TO_IDX sz zone"
    and a: "block_ok sz a" "get_zone sz a \<le> zone" "nodup (pmem v + fr sz a)"
    and al: "length (ptop v i) = 510 \<Longrightarrow> rsv v = [] \<Longrightarrow> \<not> (sz = 0 \<and> zone = 2) \<Longrightarrow>
      \<exists>s1 b z v1. pmm_alloc' n 0 2 2 s = Some (s1, b, z) \<and> block_ok 0 b
        \<and> takes s v (fr 0 b) s1 v1 \<and> keeps F v v1 \<and> ptop v1 i \<noteq> []"
  shows "\<exists>s' v'. free_rest n sz zone a s = Some s' \<and> gives s v (fr sz a) s' v' \<and> keeps (F - {i}) v v'
    \<and> (ptop v' i \<noteq> [] \<or> sz = 0 \<and> zone = 2 \<and> stk v' i = (a, []) # stk v i \<and> rsv v' = rsv v)"
proof -
  have i9: "i < 9" "i div 3 = sz" "i mod 3 = zone" using i by (simp_all add: idx_simps)
  obtain p fs ps where st: "stk v i = (p, fs) # ps" and c: "sp_count (pmmData s i) = of_nat (length fs)"
    and l: "length fs \<le> 510" using pmm_wf_stackD [OF w i9(1)] by metis
  have full: "sp_count (pmmData s i) = PMM_STACK_PAGE_SIZE \<longleftrightarrow> length fs = 510"
    using l by (simp add: c of_nat_small_eq [of "length fs" 510, simplified])
  show ?thesis
  proof (cases "length fs = 510")
    case False
    then have "free_rest n sz zone a s = Some (stack_store i a s)"
      using full by (simp add: free_rest_def Let_def i(3) del: page_size)
    moreover have "gives s v (fr sz a) (stack_store i a s) (set_stk i ((p, fs @ [a]) # ps) v)"
      using stack_store_ok [OF w i9(1) st] a l False i9 by (simp add: gives_def)
    ultimately show ?thesis by (intro exI conjI) (auto simp: keeps_def split: if_splits)
  next
    case True
    then have ne: "ptop v i \<noteq> []" using st by auto
    show ?thesis
    proof (cases "sz = 0 \<and> zone = 2")
      case std: True
      then have "free_rest n sz zone a s = Some (stack_new_top i sz zone a s)"
        using full True by (simp add: free_rest_def Let_def i(3) del: page_size)
      moreover have "gives s v (fr sz a) (stack_new_top i sz zone a s) (set_stk i ((a, []) # (p, fs) # ps) v)"
        using new_top_ok [OF w i st] ne st a std by (simp add: gives_def)
      ultimately show ?thesis by (intro exI conjI) (auto simp: keeps_def std st split: if_splits)
    next
      case False
      note fr = free_rest_def Let_def i(3) [symmetric] full True False
      show ?thesis
      proof (cases "rsv v")
        case Nil
        obtain s1 b z v1 where al1: "pmm_alloc' n 0 2 2 s = Some (s1, b, z)" "block_ok 0 b"
          "takes s v (fr 0 b) s1 v1" "keeps F v v1" "ptop v1 i \<noteq> []"
          using al st True False Nil by auto
        have w1: "pmm_wf s1 v1" and m1: "pmem v = pmem v1 + fr 0 b" using al1(3) by (auto simp: takes_def)
        have "b \<noteq> 0" using al1(2) by (simp add: block_ok_def)
        then have "free_rest n sz zone a s = Some (stack_store i a (stack_new_top i sz zone b s1))"
          using acquire_ok(1) [OF w Nil] al1(1) False unfolding fr by auto
        moreover have "gives s1 v1 (fr 0 b + fr sz a) (stack_store i a (stack_new_top i sz zone b s1))
            (set_stk i ((b, [a]) # stk v1 i) v1)"
          using a by (intro new_top_store_ok [OF w1 i al1(5) al1(2)]) (simp_all add: m1)
        ultimately show ?thesis
          using al1(3,4) by (intro exI conjI) (auto simp: keeps_def gives_def takes_def add.assoc split: if_splits)
      next
        case (Cons r rs)
        obtain s1 where s1: "pmm_acquire_stack_page s = (s1, r)" "pmm_wf s1 (v\<lparr>rsv := rs\<rparr>)"
          "pmem v = pmem (v\<lparr>rsv := rs\<rparr>) + fr 0 r" "block_ok 0 r"
          "stackPageListInitialized s1 = stackPageListInitialized s"
          using acquire_ok(2) [OF w Cons] by blast
        have "r \<noteq> 0" using s1(4) by (simp add: block_ok_def)
        then have "free_rest n sz zone a s = Some (stack_store i a (stack_new_top i sz zone r s1))"
          using s1(1) False unfolding fr by auto
        moreover have "gives s1 (v\<lparr>rsv := rs\<rparr>) (fr 0 r + fr sz a) (stack_store i a (stack_new_top i sz zone r s1))
            (set_stk i ((r, [a]) # stk v i) (v\<lparr>rsv := rs\<rparr>))"
          using a ne new_top_store_ok [OF s1(2) i, of r a] s1(3,4) by simp
        ultimately show ?thesis
          using s1(3,5) by (intro exI conjI) (auto simp: keeps_def gives_def add.assoc split: if_splits)
      qed
    qed
  qed
qed

subsection \<open>Reserving a frame as a future stack page\<close>

lemma try_reserve_uninit:
  "\<not> stackPageListInitialized s \<Longrightarrow> pmm_try_reserve_as_stack_page (Suc n) a s = Some (s, False)"
  by (simp add: pmm_try_reserve_as_stack_page.simps)

lemma res_full_iff: "pmm_wf s v \<Longrightarrow> sp_count (pmmData s 9) = PMM_STACK_PAGE_SIZE \<longleftrightarrow> length (rsv v) = 510"
  using pmm_wf_resD(1,2) [of s v] by (simp add: of_nat_small_eq [of _ 510, simplified])

lemma try_reserve_low:
  assumes "pmm_wf s v" "stackPageListInitialized s" "length (rsv v) = 510" "\<not> last (rsv v) < a"
  shows "pmm_try_reserve_as_stack_page (Suc n) a s = Some (s, False)"
proof -
  obtain rs e where rs: "rsv v = rs @ [e]" using assms(3) by (cases "rsv v" rule: rev_cases) auto
  then have "\<not> e < a" using assms(4) by simp
  then show ?thesis
    using assms(2,3) drop_lowest_ok(4) [OF assms(1) rs] res_full_iff [OF assms(1)]
    by (simp add: pmm_try_reserve_as_stack_page.simps Let_def del: page_size)
qed

lemma try_reserve_ok:
  assumes w: "pmm_wf s v" "stackPageListInitialized s" "block_ok 0 a" "nodup (pmem v + fr 0 a)"
    and nl: "\<not> (length (rsv v) = 510 \<and> \<not> last (rsv v) < a)"
  shows "\<exists>s' v'. pmm_try_reserve_as_stack_page (Suc (Suc (Suc n))) a s = Some (s', True)
    \<and> gives s v (fr 0 a) s' v' \<and> keeps {3..<9} v v'
    \<and> (\<forall>j<9. ptop v j \<noteq> [] \<longrightarrow> ptop v' j \<noteq> []
       \<or> j = 2 \<and> (\<exists>e. stk v' 2 = (e, []) # stk v 2 \<and> length (rsv v') = 510 \<and> \<not> last (rsv v') < e))"
proof (cases "length (rsv v) = 510")
  case False
  then have "length (rsv v) < 510" using pmm_wf_resD(2) [OF w(1)] by simp
  note ins = reserve_insert_ok [OF w(1,2) this w(3,4)]
  have "pmm_try_reserve_as_stack_page (Suc (Suc (Suc n))) a s = Some (reserve_insert a s, True)"
    using False w(2) res_full_iff [OF w(1)]
    by (simp add: pmm_try_reserve_as_stack_page.simps Let_def del: page_size)
  then show ?thesis using ins by (intro exI conjI) (auto simp: gives_def keeps_def)
next
  case True
  then obtain rs e where rs: "rsv v = rs @ [e]" by (cases "rsv v" rule: rev_cases) auto
  have ea: "e < a" and l: "length rs = 509" using nl True rs by auto
  let ?s1 = "set_pmmData 9 (\<lambda>l. l\<lparr>sp_count := sp_count l - 1\<rparr>) s" and ?v1 = "v\<lparr>rsv := rs\<rparr>"
  note dl = drop_lowest_ok [OF w(1) rs]
  have "nodup (pmem ?v1 + fr 0 a)"
    using w(4) unfolding dl(2) by (rule nodup_subset) simp
  then have ins: "pmm_wf (reserve_insert a ?s1) (?v1\<lparr>rsv := insert_desc a rs\<rparr>)"
      "pmem (?v1\<lparr>rsv := insert_desc a rs\<rparr>) = pmem ?v1 + fr 0 a"
    using reserve_insert_ok [OF dl(1) _ _ w(3)] w(2) l by simp_all
  let ?s2 = "reserve_insert a ?s1" and ?v2 = "v\<lparr>rsv := insert_desc a rs\<rparr>"
  have "x > e" if "x \<in> set rs" for x
    using pmm_wf_resD(6) [OF w(1)] that rs by (simp add: sorted_wrt_append)
  then have gt: "\<not> last (insert_desc a rs) < e"
    using ea last_in_set [of "insert_desc a rs"] by (metis insert_desc_facts length_0_conv insert_iff nat.distinct(1) not_less_iff_gr_or_eq)
  then have tr: "pmm_try_reserve_as_stack_page (Suc n) e ?s2 = Some (?s2, False)"
    using try_reserve_low [OF ins(1)] w(2) l by simp
  have d2: "nodup (pmem ?v2 + fr 0 e)" using w(4) ins(2) dl(2) by (simp add: ac_simps)
  let ?z = "get_zone 0 e"
  have nn: "rsv ?v2 \<noteq> []" by (simp flip: length_0_conv)
  have z: "?z < 3" using get_zone_le [of 0 e] by simp
  obtain s3 v3 where fr: "free_rest (Suc n) 0 ?z e ?s2 = Some s3" "gives ?s2 ?v2 (fr 0 e) s3 v3"
    "keeps (UNIV - {SZ_TO_IDX 0 ?z}) ?v2 v3"
    "ptop v3 (SZ_TO_IDX 0 ?z) \<noteq> [] \<or> 0 = (0::nat) \<and> ?z = 2 \<and> stk v3 (SZ_TO_IDX 0 ?z) = (e, []) # stk ?v2 (SZ_TO_IDX 0 ?z) \<and> rsv v3 = rsv ?v2"
    using free_rest_ok [of ?s2 ?v2 0 ?z "SZ_TO_IDX 0 ?z" e "Suc n" UNIV] ins z dl(3) d2 nn by auto
  have e0: "e \<noteq> 0" using dl(3) by (simp add: block_ok_def)
  have "pmm_free' (Suc (Suc n)) 0 ?z e ?s2 = Some s3"
    using tr fr(1) by (simp add: pmm_free'_Suc)
  then have "pmm_try_reserve_as_stack_page (Suc (Suc (Suc n))) a s = Some (s3, True)"
    using w(2) True dl(4) ea e0 res_full_iff [OF w(1)]
    by (simp add: pmm_try_reserve_as_stack_page.simps Let_def del: page_size)
  moreover have "gives s v (fr 0 a) s3 v3"
    using fr(2) ins(2) dl(2) by (simp add: gives_def ac_simps)
  moreover have "keeps {3..<9} v v3" using fr(3) z by (auto simp: keeps_def SZ_TO_IDX_def)
  moreover have "ptop v3 j \<noteq> [] \<or> j = 2 \<and> (\<exists>e. stk v3 2 = (e, []) # stk v 2 \<and> length (rsv v3) = 510 \<and> \<not> last (rsv v3) < e)"
    if "j < 9" "ptop v j \<noteq> []" for j
    using fr(3,4) gt l that by (cases "j = SZ_TO_IDX 0 ?z") (auto simp: keeps_def SZ_TO_IDX_def)
  ultimately show ?thesis by blast
qed

subsection \<open>One allocation step\<close>

definition obtained :: "pmm \<Rightarrow> pview \<Rightarrow> nat \<Rightarrow> nat \<Rightarrow> pmm \<Rightarrow> pview \<Rightarrow> u64 \<Rightarrow> nat \<Rightarrow> bool" where
  "obtained s v sz Z s' v' a z \<longleftrightarrow> takes s v (fr sz a) s' v' \<and> block_ok sz a \<and> get_zone sz a \<le> z \<and> z \<le> Z"

definition sempty :: "pview \<Rightarrow> nat \<Rightarrow> bool" where
  "sempty v i \<longleftrightarrow> ptop v i = [] \<and> tl (stk v i) = []"

lemma keeps_upd [simp]: "i \<notin> F \<Longrightarrow> keeps F v (set_stk i ps v)"
  by (auto simp: keeps_def)

lemma alloc_pop:
  assumes "pmm_wf s v" "sz < 3" "zone < 3" "i = SZ_TO_IDX sz zone" "ptop v i \<noteq> []"
  shows "\<exists>s' v' a. pmm_alloc' (Suc n) sz zone mz s = Some (s', a, zone) \<and> obtained s v sz zone s' v' a zone
    \<and> keeps (UNIV - {i}) v v' \<and> length (ptop v' i) = length (ptop v i) - 1"
proof -
  have i: "i < 9" "i div 3 = sz" "i mod 3 = zone" using assms by (simp_all add: idx_simps)
  obtain p fs' ps where st': "stk v i = (p, fs') # ps" using pmm_wf_stackD [OF assms(1) i(1)] by metis
  then obtain fs a where st: "stk v i = (p, fs @ [a]) # ps" using assms(5) by (cases fs' rule: rev_cases) auto
  note pop = stack_pop_ok [OF assms(1) i(1) st refl]
  let ?s = "set_pmmData i (\<lambda>p. p\<lparr>sp_count := sp_count p - 1\<rparr>) s"
  have "pmm_alloc' (Suc n) sz zone mz s = Some (?s, a, zone)"
    using pop(1,2) by (simp add: pmm_alloc'.simps Let_def flip: assms(4))
  moreover have "obtained s v sz zone ?s (set_stk i ((p, fs) # ps) v) a zone"
    using pop i by (simp add: obtained_def takes_def)
  ultimately show ?thesis by (intro exI conjI) (auto simp: st)
qed

lemma alloc_descend:
  assumes "pmm_wf s v" "sz < 3" "zone < 3" "sempty v (SZ_TO_IDX sz zone)" "zone > 0"
  shows "pmm_alloc' (Suc n) sz zone mz s = pmm_alloc' n sz (zone - 1) mz s"
proof -
  have i: "SZ_TO_IDX sz zone < 9" using assms by (simp add: idx_simps)
  have "sp_count (pmmData s (SZ_TO_IDX sz zone)) = 0" "sp_next (pmmData s (SZ_TO_IDX sz zone)) = 0"
    by (rule pmm_wf_stackD [OF assms(1) i], use assms(4) in \<open>simp add: sempty_def\<close>)+
  then show ?thesis using assms(5) by (simp add: pmm_alloc'.simps Let_def)
qed

lemma alloc_descend_to:
  assumes "pmm_wf s v" "sz < 3" "zone < 3" "z \<le> zone" "\<And>z'. z < z' \<Longrightarrow> z' \<le> zone \<Longrightarrow> sempty v (SZ_TO_IDX sz z')"
    and "zone - z \<le> n"
  shows "pmm_alloc' n sz zone mz s = pmm_alloc' (n - (zone - z)) sz z mz s"
  using assms(3-6)
proof (induction zone arbitrary: n)
  case (Suc zone)
  show ?case
  proof (cases "z = Suc zone")
    case False
    then obtain m where n: "n = Suc m" using Suc.prems by (cases n) auto
    have "pmm_alloc' n sz (Suc zone) mz s = pmm_alloc' m sz zone mz s"
      unfolding n using alloc_descend [OF assms(1,2) Suc.prems(1), of m mz] Suc.prems False by simp
    also have "\<dots> = pmm_alloc' (m - (zone - z)) sz z mz s"
      using Suc.prems False n by (intro Suc.IH) auto
    finally show ?thesis using Suc.prems False by (simp add: n Suc_diff_le)
  qed simp
qed simp

lemma switch_got:
  assumes "pmm_wf s v" "sz < 3" "zone < 3" "i = SZ_TO_IDX sz zone" "stk v i = (p, []) # (q, gs) # ps"
  obtains s1 where "pmm_wf s1 (set_stk i ((q, gs) # ps) v)" "pmem v = pmem (set_stk i ((q, gs) # ps) v) + fr 0 p"
    "block_ok 0 p" "gs \<noteq> []" "stackPageListInitialized s1 = stackPageListInitialized s"
    "\<And>n mz. pmm_alloc' (Suc n) sz zone mz s =
       Option.bind (pmm_try_reserve_as_stack_page n p s1) (\<lambda>(s, reserved).
         if reserved then pmm_alloc' n sz zone zone s
         else if sz = 0 \<and> get_zone 0 p \<le> zone then Some (s, p, get_zone 0 p)
         else Option.bind (pmm_free' n 0 (get_zone 0 p) p s) (\<lambda>s. pmm_alloc' n sz zone zone s))"
proof -
  obtain s1 old where sw: "stack_switch sz zone (sp_next (pmmData s i)) s = (s1, old)" by fastforce
  note d = switch_down_ok [OF assms sw]
  show ?thesis
    by (rule that [OF d(4,5,6,7,8)])
      (use d(1,2,3) sw in \<open>simp add: pmm_alloc'.simps Let_def cong: if_cong flip: assms(4)\<close>)
qed

text \<open>
  Allocation from the first stack on the way that is not empty.  The hypothesis is about the release of
  an exhausted stack page that can neither be reserved nor returned.
\<close>

lemma alloc_here:
  assumes w: "pmm_wf s v" and i: "sz < 3" "zone < 3" "i = SZ_TO_IDX sz zone" and ne: "\<not> sempty v i"
    and n: "n = Suc (Suc (Suc (Suc m)))"
    and fre: "\<And>s1 v1 p. \<not> (sz = 0 \<and> get_zone 0 p \<le> zone) \<Longrightarrow> pmm_wf s1 v1 \<Longrightarrow> block_ok 0 p \<Longrightarrow>
      stackPageListInitialized s1 = stackPageListInitialized s \<Longrightarrow>
      nodup (pmem v1 + fr 0 p) \<Longrightarrow> pmm_try_reserve_as_stack_page n p s1 = Some (s1, False) \<Longrightarrow>
      \<exists>s2 v2. pmm_free' n 0 (get_zone 0 p) p s1 = Some s2 \<and> gives s1 v1 (fr 0 p) s2 v2
        \<and> stk v2 i = stk v1 i \<and> keeps F v1 v2"
    and F: "stackPageListInitialized s \<Longrightarrow> F \<subseteq> {3..<9}"
  shows "\<exists>s' v' a z. pmm_alloc' (Suc n) sz zone mz s = Some (s', a, z) \<and> obtained s v sz zone s' v' a z
    \<and> keeps (F - {i}) v v' \<and> (length (ptop v i) = 510 \<longrightarrow> ptop v' i \<noteq> [])"
proof -
  have i9: "i < 9" using i by (simp add: idx_simps)
  obtain p fs ps' where st0: "stk v i = (p, fs) # ps'" using pmm_wf_stackD [OF w i9] by metis
  show ?thesis
  proof (cases "fs = []")
    case False
    obtain s' v' a where "pmm_alloc' (Suc n) sz zone mz s = Some (s', a, zone)" "obtained s v sz zone s' v' a zone"
        "keeps (UNIV - {i}) v v'" "length (ptop v' i) = length (ptop v i) - 1"
      using alloc_pop [OF w i, of n mz] st0 False by auto
    then show ?thesis by (intro exI conjI) (auto intro: keeps_mono)
  next
    case True
    then obtain q gs ps where st: "stk v i = (p, []) # (q, gs) # ps"
      using ne st0 by (cases ps') (auto simp: sempty_def)
    obtain s1 where s1: "pmm_wf s1 (set_stk i ((q, gs) # ps) v)" "pmem v = pmem (set_stk i ((q, gs) # ps) v) + fr 0 p"
      "block_ok 0 p" "gs \<noteq> []" "stackPageListInitialized s1 = stackPageListInitialized s"
      and eq: "\<And>n mz. pmm_alloc' (Suc n) sz zone mz s =
       Option.bind (pmm_try_reserve_as_stack_page n p s1) (\<lambda>(s, reserved).
         if reserved then pmm_alloc' n sz zone zone s
         else if sz = 0 \<and> get_zone 0 p \<le> zone then Some (s, p, get_zone 0 p)
         else Option.bind (pmm_free' n 0 (get_zone 0 p) p s) (\<lambda>s. pmm_alloc' n sz zone zone s))"
      by (rule switch_got [OF w i st]) (rule that)
    let ?v1 = "set_stk i ((q, gs) # ps) v"
    have top0: "length (ptop v i) \<noteq> 510" using st by simp
    have d1: "nodup (pmem ?v1 + fr 0 p)" using pmm_wf_nodup [OF w] s1(2) by simp
    have k1: "keeps (UNIV - {i}) v ?v1" by (auto simp: keeps_def)
    consider (no) "pmm_try_reserve_as_stack_page n p s1 = Some (s1, False)"
      | (yes) "stackPageListInitialized s1" "\<not> (length (rsv ?v1) = 510 \<and> \<not> last (rsv ?v1) < p)"
      using try_reserve_uninit try_reserve_low [OF s1(1)] unfolding n by blast
    then show ?thesis
    proof cases
      case no
      show ?thesis
      proof (cases "sz = 0 \<and> get_zone 0 p \<le> zone")
        case True
        then have "pmm_alloc' (Suc n) sz zone mz s = Some (s1, p, get_zone 0 p)" unfolding eq no by simp
        moreover have "obtained s v sz zone s1 ?v1 p (get_zone 0 p)"
          using s1 True by (simp add: obtained_def takes_def)
        ultimately show ?thesis using k1 top0 by (intro exI conjI) (auto intro: keeps_mono)
      next
        case False
        obtain s2 v2 where s2: "pmm_free' n 0 (get_zone 0 p) p s1 = Some s2" "gives s1 ?v1 (fr 0 p) s2 v2"
          "stk v2 i = stk ?v1 i" "keeps F ?v1 v2"
          using fre [OF False s1(1,3,5) d1 no] by blast
        have ne2: "ptop v2 i \<noteq> []" using s2(3) s1(4) by simp
        obtain s3 v3 a where s3: "pmm_alloc' n sz zone zone s2 = Some (s3, a, zone)" "obtained s2 v2 sz zone s3 v3 a zone"
          "keeps (UNIV - {i}) v2 v3"
          using alloc_pop [OF gives_pmm_wf [OF s2(2)] i ne2] unfolding n by blast
        have "pmm_alloc' (Suc n) sz zone mz s = Some (s3, a, zone)"
          using False by (auto simp: eq no s2(1) s3(1))
        moreover have "obtained s v sz zone s3 v3 a zone"
          using s2(2) s3(2) s1(2,5) by (auto simp: obtained_def takes_def gives_def)
        moreover have "keeps (F - {i}) v v3"
          using k1 s2(4) s3(3) by (auto simp: keeps_def)
        ultimately show ?thesis using top0 by blast
      qed
    next
      case yes
      obtain s2 v2 where s2: "pmm_try_reserve_as_stack_page n p s1 = Some (s2, True)" "gives s1 ?v1 (fr 0 p) s2 v2"
        "keeps {3..<9} ?v1 v2"
        "ptop v2 i \<noteq> [] \<or> i = 2 \<and> (\<exists>e. stk v2 2 = (e, []) # stk ?v1 2 \<and> length (rsv v2) = 510 \<and> \<not> last (rsv v2) < e)"
        using try_reserve_ok [OF s1(1) yes(1) s1(3) d1 yes(2)] s1(4) i9 unfolding n by fastforce
      have F': "F \<subseteq> {3..<9}" using F yes(1) s1(5) by simp
      have eq2: "pmm_alloc' (Suc n) sz zone mz s = pmm_alloc' n sz zone zone s2" by (simp add: eq s2(1))
      have "\<exists>s3 v3 a z. pmm_alloc' n sz zone zone s2 = Some (s3, a, z) \<and> obtained s2 v2 sz zone s3 v3 a z
        \<and> keeps (UNIV - {i}) v2 v3"
      proof (cases "ptop v2 i \<noteq> []")
        case True
        from alloc_pop [OF gives_pmm_wf [OF s2(2)] i True] show ?thesis unfolding n by blast
      next
        case False
        then obtain e where e: "stk v2 2 = (e, []) # (q, gs) # ps" "length (rsv v2) = 510" "\<not> last (rsv v2) < e" "i = 2"
          using s2(4) by auto
        have z: "sz = 0" "zone = 2" using e(4) i unfolding SZ_TO_IDX_def by presburger+
        obtain s3 where s3: "pmm_wf s3 (set_stk i ((q, gs) # ps) v2)" "pmem v2 = pmem (set_stk i ((q, gs) # ps) v2) + fr 0 e"
          "block_ok 0 e" "gs \<noteq> []" "stackPageListInitialized s3 = stackPageListInitialized s2"
          and eq3: "\<And>n mz. pmm_alloc' (Suc n) sz zone mz s2 =
           Option.bind (pmm_try_reserve_as_stack_page n e s3) (\<lambda>(s, reserved).
             if reserved then pmm_alloc' n sz zone zone s
             else if sz = 0 \<and> get_zone 0 e \<le> zone then Some (s, e, get_zone 0 e)
             else Option.bind (pmm_free' n 0 (get_zone 0 e) e s) (\<lambda>s. pmm_alloc' n sz zone zone s))"
          by (rule switch_got [OF gives_pmm_wf [OF s2(2)] i, of e q gs ps]) (use e(1,4) in simp, rule that)
        have "stackPageListInitialized s3" using s3(5) s2(2) yes(1) by (simp add: gives_def)
        then have "pmm_try_reserve_as_stack_page (Suc (Suc (Suc m))) e s3 = Some (s3, False)"
          using try_reserve_low [OF s3(1)] e(2,3) by simp
        then have "pmm_alloc' n sz zone zone s2 = Some (s3, e, get_zone 0 e)"
          unfolding n eq3 using z get_zone_le [of 0 e] by simp
        moreover have "obtained s2 v2 sz zone s3 (set_stk i ((q, gs) # ps) v2) e (get_zone 0 e)"
          using s3 z get_zone_le [of 0 e] by (simp add: obtained_def takes_def)
        ultimately show ?thesis by (intro exI conjI) auto
      qed
      then obtain s3 v3 a z where s3: "pmm_alloc' n sz zone zone s2 = Some (s3, a, z)" "obtained s2 v2 sz zone s3 v3 a z"
        "keeps (UNIV - {i}) v2 v3" by blast
      have "obtained s v sz zone s3 v3 a z"
        using s3(2) s2(2) s1(2,5) by (auto simp: obtained_def takes_def gives_def)
      moreover have "keeps (F - {i}) v v3"
        unfolding keeps_def
      proof
        fix j assume "j \<in> F - {i}"
        with F' have "j \<in> {3..<9}" "j \<noteq> i" by auto
        with s2(3) s3(3) show "stk v3 j = stk v j" by (simp add: keeps_def)
      qed
      ultimately show ?thesis using top0 eq2 s3(1) by auto
    qed
  qed
qed

subsection \<open>4 KiB frames before the reserved list is set up\<close>

lemma last_nonempty:
  "z0 \<le> Z \<Longrightarrow> \<not> P z0 \<Longrightarrow> \<exists>z. z0 \<le> z \<and> z \<le> Z \<and> \<not> P z \<and> (\<forall>z'. z < z' \<and> z' \<le> (Z::nat) \<longrightarrow> P z')"
proof (induction Z)
  case (Suc Z)
  show ?case
  proof (cases "P (Suc Z)")
    case True
    then have "z0 \<le> Z" using Suc.prems by (metis le_SucE)
    from Suc.IH [OF this Suc.prems(2)] True show ?thesis by (metis le_SucE le_SucI)
  qed (use Suc.prems in auto)
qed auto

lemma SZ_TO_IDX_0 [simp]: "SZ_TO_IDX 0 z = z"
  by (simp add: SZ_TO_IDX_def)

definition AU :: "nat \<Rightarrow> bool" where
  "AU z \<longleftrightarrow> (\<forall>s v n Z mz. pmm_wf s v \<longrightarrow> \<not> stackPageListInitialized s \<longrightarrow> z \<le> Z \<longrightarrow> Z < 3 \<longrightarrow> \<not> sempty v z
     \<longrightarrow> (\<forall>z'. z < z' \<and> z' \<le> Z \<longrightarrow> sempty v z') \<longrightarrow> 10 * (3 - z) \<le> n
     \<longrightarrow> (\<exists>s' v' a y. pmm_alloc' n 0 Z mz s = Some (s', a, y) \<and> obtained s v 0 z s' v' a y
          \<and> keeps ({..<z} \<union> {3..<9}) v v' \<and> (length (ptop v z) = 510 \<longrightarrow> ptop v' z \<noteq> [])))"

definition BU :: "nat \<Rightarrow> bool" where
  "BU zone \<longleftrightarrow> (\<forall>s v n a. pmm_wf s v \<longrightarrow> \<not> stackPageListInitialized s \<longrightarrow> block_ok 0 a \<longrightarrow> get_zone 0 a \<le> zone
     \<longrightarrow> nodup (pmem v + fr 0 a) \<longrightarrow> 10 * (3 - zone) + 1 \<le> n
     \<longrightarrow> (\<exists>s' v'. pmm_free' n 0 zone a s = Some s' \<and> gives s v (fr 0 a) s' v'
          \<and> keeps ({..<zone} \<union> {3..<9}) v v'))"

lemma BU_if:
  assumes z: "zone < 3" and AU: "\<And>z. zone \<le> z \<Longrightarrow> z < 3 \<Longrightarrow> AU z"
  shows "BU zone"
  unfolding BU_def
proof (intro allI impI)
  fix s v n a
  assume w: "pmm_wf s v" "\<not> stackPageListInitialized s"
    and a: "block_ok 0 a" "get_zone 0 a \<le> zone" "nodup (pmem v + fr 0 a)" and n: "10 * (3 - zone) + 1 \<le> n"
  let ?F = "{..<zone} \<union> {3..<9}"
  have z2: "zone \<le> 2" using z by simp
  obtain m where m: "n = Suc (Suc m)" using n z by (cases n rule: nat.exhaust; cases "n - 1") auto
  have "\<exists>s' v'. free_rest (Suc m) 0 zone a s = Some s' \<and> gives s v (fr 0 a) s' v' \<and> keeps (?F - {zone}) v v'
    \<and> (ptop v' zone \<noteq> [] \<or> 0 = (0::nat) \<and> zone = 2 \<and> stk v' zone = (a, []) # stk v zone \<and> rsv v' = rsv v)"
  proof (rule free_rest_ok [OF w(1) _ z _ a])
    assume full: "length (ptop v zone) = 510"
    then have "\<not> sempty v zone" by (auto simp: sempty_def)
    then obtain z' where z': "zone \<le> z'" "z' \<le> 2" "\<not> sempty v z'" "\<forall>y. z' < y \<and> y \<le> 2 \<longrightarrow> sempty v y"
      using last_nonempty [of zone 2 "sempty v"] z2 by blast
    have "10 * (3 - z') \<le> Suc m" using z' n m by linarith
    then obtain s1 v1 b y where A: "pmm_alloc' (Suc m) 0 2 2 s = Some (s1, b, y)" "obtained s v 0 z' s1 v1 b y"
      "keeps ({..<z'} \<union> {3..<9}) v v1" "length (ptop v z') = 510 \<longrightarrow> ptop v1 z' \<noteq> []"
      using AU [OF z'(1)] w z' unfolding AU_def by (metis lessI less_Suc_eq_le numeral_2_eq_2 numeral_3_eq_3)
    have "ptop v1 zone \<noteq> []"
      using A(3,4) full z'(1) by (cases "zone = z'") (auto simp: keeps_def)
    then show "\<exists>s1 b z v1. pmm_alloc' (Suc m) 0 2 2 s = Some (s1, b, z) \<and> block_ok 0 b
        \<and> takes s v (fr 0 b) s1 v1 \<and> keeps ?F v v1 \<and> ptop v1 zone \<noteq> []"
      using A z'(1) by (intro exI conjI) (auto simp: obtained_def intro: keeps_mono)
  qed simp_all
  then obtain s' v' where "free_rest (Suc m) 0 zone a s = Some s'" "gives s v (fr 0 a) s' v'" "keeps (?F - {zone}) v v'"
    by blast
  then show "\<exists>s' v'. pmm_free' n 0 zone a s = Some s' \<and> gives s v (fr 0 a) s' v' \<and> keeps ?F v v'"
    using z by (intro exI conjI) (auto simp: m pmm_free'_Suc try_reserve_uninit [OF w(2)] elim: keeps_mono)
qed

lemma AU_if:
  assumes z: "z < 3" and BU: "\<And>y. z < y \<Longrightarrow> y < 3 \<Longrightarrow> BU y"
  shows "AU z"
  unfolding AU_def
proof (intro allI impI)
  fix s v n Z mz
  assume w: "pmm_wf s v" "\<not> stackPageListInitialized s" and Z: "z \<le> Z" "Z < 3" and ne: "\<not> sempty v z"
    and e: "\<forall>z'. z < z' \<and> z' \<le> Z \<longrightarrow> sempty v z'" and n: "10 * (3 - z) \<le> n"
  let ?F = "{..<z} \<union> {3..<9}"
  define m where "m = n - (Z - z) - 5"
  have m: "n - (Z - z) = Suc (Suc (Suc (Suc (Suc m))))" and k: "10 * (3 - z) - 3 \<le> Suc (Suc (Suc (Suc m)))"
    using n Z by (auto simp: m_def)
  have de: "pmm_alloc' n 0 Z mz s = pmm_alloc' (Suc (Suc (Suc (Suc (Suc m))))) 0 z mz s"
    using alloc_descend_to [OF w(1), of 0 Z z n mz] Z e n by (simp add: m)
  have "\<exists>s' v' a y. pmm_alloc' (Suc (Suc (Suc (Suc (Suc m))))) 0 z mz s = Some (s', a, y) \<and> obtained s v 0 z s' v' a y
      \<and> keeps (?F - {z}) v v' \<and> (length (ptop v z) = 510 \<longrightarrow> ptop v' z \<noteq> [])"
  proof (rule alloc_here [OF w(1) _ z _ ne refl])
    fix s1 v1 p
    assume p: "\<not> (0 = (0::nat) \<and> get_zone 0 p \<le> z)" "pmm_wf s1 v1" "block_ok 0 p"
      "stackPageListInitialized s1 = stackPageListInitialized s" "nodup (pmem v1 + fr 0 p)"
    let ?y = "get_zone 0 p"
    have y: "z < ?y" "?y < 3" using p(1) get_zone_le [of 0 p] by auto
    have "10 * (3 - ?y) + 1 \<le> Suc (Suc (Suc (Suc m)))" using y k by linarith
    then obtain s2 v2 where "pmm_free' (Suc (Suc (Suc (Suc m)))) 0 ?y p s1 = Some s2" "gives s1 v1 (fr 0 p) s2 v2"
      "keeps ({..<?y} \<union> {3..<9}) v1 v2"
      using BU [OF y] p w(2) unfolding BU_def by blast
    moreover from this have "stk v2 z = stk v1 z" "keeps ?F v1 v2" using y by (auto simp: keeps_def)
    ultimately show "\<exists>s2 v2. pmm_free' (Suc (Suc (Suc (Suc m)))) 0 ?y p s1 = Some s2 \<and> gives s1 v1 (fr 0 p) s2 v2
        \<and> stk v2 z = stk v1 z \<and> keeps ?F v1 v2" by blast
  qed (use w(2) in simp_all)
  then show "\<exists>s' v' a y. pmm_alloc' n 0 Z mz s = Some (s', a, y) \<and> obtained s v 0 z s' v' a y
      \<and> keeps ?F v v' \<and> (length (ptop v z) = 510 \<longrightarrow> ptop v' z \<noteq> [])"
    using z unfolding de by (auto elim: keeps_mono)
qed

lemma BU_AU: "z < 3 \<Longrightarrow> BU z \<and> AU z"
proof (induction "3 - z" arbitrary: z rule: less_induct)
  case less
  have ih: "BU y \<and> AU y" if "z < y" "y < 3" for y
    using less.hyps [of y] that by simp
  then have "AU z" using AU_if [OF less.prems] by blast
  then have "AU y" if "z \<le> y" "y < 3" for y using ih that by (cases "y = z") auto
  with BU_if [OF less.prems] \<open>AU z\<close> show ?case by blast
qed

subsection \<open>4 KiB frames\<close>

lemma Suc4: "4 \<le> n \<Longrightarrow> \<exists>m. n = Suc (Suc (Suc (Suc m)))"
  by (rule exI [of _ "n - 4"]) simp

lemma try_false_low:
  assumes "pmm_wf s v" "stackPageListInitialized s" "block_ok 0 p" "nodup (pmem v + fr 0 p)"
    and "pmm_try_reserve_as_stack_page (Suc (Suc (Suc n))) p s = Some (s', False)"
  shows "length (rsv v) = 510 \<and> \<not> last (rsv v) < p"
  using try_reserve_ok [OF assms(1-4), of n] assms(5) by (metis (no_types) Pair_inject option.inject)

lemma got_mono: "obtained s v sz z s' v' a y \<Longrightarrow> z \<le> Z \<Longrightarrow> obtained s v sz Z s' v' a y"
  by (auto simp: obtained_def)

lemma free_4K_init:
  assumes w: "pmm_wf s v" "stackPageListInitialized s" and z: "zone < 3"
    and a: "block_ok 0 a" "get_zone 0 a \<le> zone" "nodup (pmem v + fr 0 a)" and n: "4 \<le> n"
  shows "\<exists>s' v'. pmm_free' n 0 zone a s = Some s' \<and> gives s v (fr 0 a) s' v' \<and> keeps {3..<9} v v'
    \<and> (length (rsv v) = 510 \<and> \<not> last (rsv v) < a \<longrightarrow> keeps (UNIV - {zone}) v v')"
proof -
  obtain m where m: "n = Suc (Suc (Suc (Suc m)))" using Suc4 [OF n] by blast
  show ?thesis
  proof (cases "length (rsv v) = 510 \<and> \<not> last (rsv v) < a")
    case True
    then have "rsv v \<noteq> []" by auto
    then obtain s' v' where "free_rest (Suc (Suc (Suc m))) 0 zone a s = Some s'" "gives s v (fr 0 a) s' v'"
      "keeps (UNIV - {zone}) v v'"
      using free_rest_ok [OF w(1) _ z _ a, of zone "Suc (Suc (Suc m))" UNIV] by auto
    moreover have "keeps {3..<9} v v'" by (rule keeps_mono [OF \<open>keeps (UNIV - {zone}) v v'\<close>]) (use z in auto)
    ultimately show ?thesis
      using try_reserve_low [OF w] True unfolding m pmm_free'_Suc by auto
  next
    case False
    obtain s' v' where "pmm_try_reserve_as_stack_page (Suc (Suc (Suc m))) a s = Some (s', True)"
      "gives s v (fr 0 a) s' v'" "keeps {3..<9} v v'"
      using try_reserve_ok [OF w a(1,3) False] by blast
    then show ?thesis using False unfolding m pmm_free'_Suc by auto
  qed
qed

lemma free_4K:
  assumes w: "pmm_wf s v" and z: "zone < 3"
    and a: "block_ok 0 a" "get_zone 0 a \<le> zone" "nodup (pmem v + fr 0 a)" and n: "31 \<le> n"
  shows "\<exists>s' v'. pmm_free' n 0 zone a s = Some s' \<and> gives s v (fr 0 a) s' v' \<and> keeps {3..<9} v v'"
proof (cases "stackPageListInitialized s")
  case True
  have "4 \<le> n" using n by simp
  from free_4K_init [OF w True z a this] show ?thesis by blast
next
  case False
  have "10 * (3 - zone) + 1 \<le> n" using n by linarith
  then obtain s' v' where "pmm_free' n 0 zone a s = Some s'" "gives s v (fr 0 a) s' v'"
    "keeps ({..<zone} \<union> {3..<9}) v v'"
    using BU_AU [OF z] w False a unfolding BU_def by blast
  moreover have "keeps {3..<9} v v'" by (rule keeps_mono [OF \<open>keeps ({..<zone} \<union> {3..<9}) v v'\<close>]) auto
  ultimately show ?thesis by blast
qed

lemma alloc_4K:
  assumes w: "pmm_wf s v" and Z: "z0 \<le> Z" "Z < 3" "\<not> sempty v z0" and n: "30 \<le> n"
  shows "\<exists>s' v' a y. pmm_alloc' n 0 Z mz s = Some (s', a, y) \<and> obtained s v 0 Z s' v' a y \<and> keeps {3..<9} v v'"
proof -
  obtain z where z: "z \<le> Z" "\<not> sempty v z" "\<forall>z'. z < z' \<and> z' \<le> Z \<longrightarrow> sempty v z'"
    using last_nonempty [of z0 Z "sempty v"] Z by blast
  show ?thesis
  proof (cases "stackPageListInitialized s")
    case False
    have z3: "z < 3" "10 * (3 - z) \<le> n" using z Z n by linarith+
    obtain s' v' a y where A: "pmm_alloc' n 0 Z mz s = Some (s', a, y)" "obtained s v 0 z s' v' a y"
        "keeps ({..<z} \<union> {3..<9}) v v'"
      using BU_AU [OF z3(1), THEN conjunct2, unfolded AU_def, rule_format, OF w False z(1) Z(2) z(2) _ z3(2)] z(3) by blast
    moreover have "keeps {3..<9} v v'" by (rule keeps_mono [OF A(3)]) auto
    ultimately show ?thesis using got_mono [OF A(2) z(1)] by blast
  next
    case True
    have z3: "z < 3" using z Z by simp
    define m where "m = n - (Z - z) - 5"
    have m: "n - (Z - z) = Suc (Suc (Suc (Suc (Suc m))))" using n Z by (auto simp: m_def)
    have de: "pmm_alloc' n 0 Z mz s = pmm_alloc' (Suc (Suc (Suc (Suc (Suc m))))) 0 z mz s"
      using alloc_descend_to [OF w, of 0 Z z n mz] Z z n by (simp add: m)
    have "\<exists>s' v' a y. pmm_alloc' (Suc (Suc (Suc (Suc (Suc m))))) 0 z mz s = Some (s', a, y) \<and> obtained s v 0 z s' v' a y
        \<and> keeps ({3..<9} - {z}) v v' \<and> (length (ptop v z) = 510 \<longrightarrow> ptop v' z \<noteq> [])"
    proof (rule alloc_here [OF w _ z3 _ z(2) refl])
      fix s1 v1 p
      assume p: "\<not> (0 = (0::nat) \<and> get_zone 0 p \<le> z)" "pmm_wf s1 v1" "block_ok 0 p"
        "stackPageListInitialized s1 = stackPageListInitialized s" "nodup (pmem v1 + fr 0 p)"
        "pmm_try_reserve_as_stack_page (Suc (Suc (Suc (Suc m)))) p s1 = Some (s1, False)"
      have i1: "stackPageListInitialized s1" using True p(4) by simp
      have lo: "length (rsv v1) = 510 \<and> \<not> last (rsv v1) < p"
        by (rule try_false_low [OF p(2) i1 p(3,5,6)])
      have y: "get_zone 0 p < 3" "z \<noteq> get_zone 0 p" using p(1) get_zone_le [of 0 p] by auto
      have "4 \<le> Suc (Suc (Suc (Suc m)))" by simp
      from free_4K_init [OF p(2) i1 y(1) p(3) order.refl p(5) this] lo
      obtain s2 v2 where "pmm_free' (Suc (Suc (Suc (Suc m)))) 0 (get_zone 0 p) p s1 = Some s2"
        "gives s1 v1 (fr 0 p) s2 v2" "keeps {3..<9} v1 v2" "keeps (UNIV - {get_zone 0 p}) v1 v2" by blast
      moreover from this y(2) have "stk v2 z = stk v1 z" by (simp add: keeps_def)
      ultimately show "\<exists>s2 v2. pmm_free' (Suc (Suc (Suc (Suc m)))) 0 (get_zone 0 p) p s1 = Some s2
          \<and> gives s1 v1 (fr 0 p) s2 v2 \<and> stk v2 z = stk v1 z \<and> keeps {3..<9} v1 v2" by blast
    qed (simp_all add: z3)
    then obtain s' v' a y where A: "pmm_alloc' n 0 Z mz s = Some (s', a, y)" "obtained s v 0 z s' v' a y"
        "keeps ({3..<9} - {z}) v v'" unfolding de by blast
    moreover have "keeps {3..<9} v v'" by (rule keeps_mono [OF A(3)]) (use z3 in auto)
    ultimately show ?thesis using got_mono [OF A(2) z(1)] by blast
  qed
qed

subsection \<open>Larger frames\<close>

lemma alloc_large:
  assumes w: "pmm_wf s v" and sz: "sz = 1 \<or> sz = 2" and Z: "z0 \<le> Z" "Z < 3" "\<not> sempty v (SZ_TO_IDX sz z0)" and n: "35 \<le> n"
  shows "\<exists>s' v' a y. pmm_alloc' n sz Z mz s = Some (s', a, y) \<and> obtained s v sz Z s' v' a y
    \<and> keeps {j. 3 \<le> j \<and> j < 9 \<and> j div 3 \<noteq> sz} v v'
    \<and> (\<forall>j. 3 \<le> j \<and> j < 9 \<and> length (ptop v j) = 510 \<longrightarrow> ptop v' j \<noteq> [])"
proof -
  obtain z where z: "z \<le> Z" "\<not> sempty v (SZ_TO_IDX sz z)" "\<forall>z'. z < z' \<and> z' \<le> Z \<longrightarrow> sempty v (SZ_TO_IDX sz z')"
    using last_nonempty [of z0 Z "\<lambda>z. sempty v (SZ_TO_IDX sz z)"] Z by blast
  have z3: "z < 3" "sz < 3" using z Z sz by auto
  let ?i = "SZ_TO_IDX sz z"
  have i: "?i < 9" "?i div 3 = sz" "3 \<le> ?i" using idx_simps [OF z3(2,1)] sz by (auto simp: SZ_TO_IDX_def)
  define m where "m = n - (Z - z) - 5"
  have m: "n - (Z - z) = Suc (Suc (Suc (Suc (Suc m))))" and k: "31 \<le> Suc (Suc (Suc (Suc m)))"
    using n Z by (auto simp: m_def)
  have de: "pmm_alloc' n sz Z mz s = pmm_alloc' (Suc (Suc (Suc (Suc (Suc m))))) sz z mz s"
    using alloc_descend_to [OF w, of sz Z z n mz] Z z z3 n by (simp add: m)
  have "\<exists>s' v' a y. pmm_alloc' (Suc (Suc (Suc (Suc (Suc m))))) sz z mz s = Some (s', a, y) \<and> obtained s v sz z s' v' a y
      \<and> keeps ({3..<9} - {?i}) v v' \<and> (length (ptop v ?i) = 510 \<longrightarrow> ptop v' ?i \<noteq> [])"
  proof (rule alloc_here [OF w z3(2,1) refl z(2) refl])
    fix s1 v1 p
    assume p: "pmm_wf s1 v1" "block_ok 0 p" "nodup (pmem v1 + fr 0 p)"
    have y: "get_zone 0 p < 3" using get_zone_le [of 0 p] by auto
    from free_4K [OF p(1) y p(2) order.refl p(3) k]
    obtain s2 v2 where "pmm_free' (Suc (Suc (Suc (Suc m)))) 0 (get_zone 0 p) p s1 = Some s2"
      "gives s1 v1 (fr 0 p) s2 v2" "keeps {3..<9} v1 v2" by blast
    moreover from this i have "stk v2 ?i = stk v1 ?i" by (simp add: keeps_def)
    ultimately show "\<exists>s2 v2. pmm_free' (Suc (Suc (Suc (Suc m)))) 0 (get_zone 0 p) p s1 = Some s2
        \<and> gives s1 v1 (fr 0 p) s2 v2 \<and> stk v2 ?i = stk v1 ?i \<and> keeps {3..<9} v1 v2" by blast
  qed simp
  then obtain s' v' a y where A: "pmm_alloc' n sz Z mz s = Some (s', a, y)" "obtained s v sz z s' v' a y"
      "keeps ({3..<9} - {?i}) v v'" "length (ptop v ?i) = 510 \<longrightarrow> ptop v' ?i \<noteq> []" unfolding de by blast
  have "obtained s v sz Z s' v' a y" using A(2) z(1) by (auto simp: obtained_def)
  moreover have "keeps {j. 3 \<le> j \<and> j < 9 \<and> j div 3 \<noteq> sz} v v'" by (rule keeps_mono [OF A(3)]) (use i in auto)
  moreover have "ptop v' j \<noteq> []" if "3 \<le> j" "j < 9" "length (ptop v j) = 510" for j
    using A(3,4) that by (cases "j = ?i") (auto simp: keeps_def)
  ultimately show ?thesis using A(1) by blast
qed

subsection \<open>Splitting on demand\<close>

lemma iter_map: "iter (\<lambda>s x. f s (g x)) xs s = iter f (map g xs) s"
  by (induction xs arbitrary: s) (auto cong: Option.bind_cong)

lemma free_loop:
  assumes f: "\<And>s v a. pmm_wf s v \<Longrightarrow> block_ok sz a \<Longrightarrow> get_zone sz a \<le> zone \<Longrightarrow> nodup (pmem v + fr sz a) \<Longrightarrow>
      \<exists>s' v'. f s a = Some s' \<and> gives s v (fr sz a) s' v' \<and> keeps K v v'"
    and "pmm_wf s v" "\<And>a. a \<in> set as \<Longrightarrow> block_ok sz a \<and> get_zone sz a \<le> zone" "nodup (pmem v + (\<Sum>a\<leftarrow>as. fr sz a))"
  shows "\<exists>s' v'. iter f as s = Some s' \<and> gives s v (\<Sum>a\<leftarrow>as. fr sz a) s' v' \<and> keeps K v v'"
  using assms(2-4)
proof (induction as arbitrary: s v)
  case Nil
  then show ?case by (auto simp: gives_def)
next
  case (Cons a as)
  have "nodup (pmem v + fr sz a)" using Cons.prems(3) by (rule nodup_subset) simp
  then obtain s1 v1 where s1: "f s a = Some s1" "gives s v (fr sz a) s1 v1" "keeps K v v1"
    using f [OF Cons.prems(1), of a] Cons.prems(2) [of a] by auto
  have m1: "pmem v1 = pmem v + fr sz a" using s1(2) by (simp add: gives_def)
  have "nodup (pmem v1 + (\<Sum>a\<leftarrow>as. fr sz a))" using Cons.prems(3) by (simp add: m1 add.assoc)
  then obtain s2 v2 where s2: "iter f as s1 = Some s2" "gives s1 v1 (\<Sum>a\<leftarrow>as. fr sz a) s2 v2" "keeps K v1 v2"
    using Cons.IH [OF gives_pmm_wf [OF s1(2)]] Cons.prems(2) by auto
  have "gives s v (\<Sum>a\<leftarrow>a # as. fr sz a) s2 v2" using s1(2) s2(2) by (simp add: gives_def add.assoc)
  moreover have "keeps K v v2" by (rule keeps_trans [OF s1(3) s2(3)]) simp
  ultimately show ?case using s1(1) s2(1) by auto
qed

definition split_inc :: "nat \<Rightarrow> u64" where
  "split_inc sz = (if sz = 0 then FRAME_SIZE else FRAME_SIZE_2M)"

lemma split_inc_units: "sz < 2 \<Longrightarrow> unat (split_inc sz) = unit_bytes sz"
  using frame_units by (cases sz) (auto simp: split_inc_def)

lemma alloc_empty:
  assumes w: "pmm_wf s v" and sz: "sz < 3" "Z < 3" and e: "\<And>z. z \<le> Z \<Longrightarrow> sempty v (SZ_TO_IDX sz z)" and n: "n = Suc Z + m"
  shows "pmm_alloc' n sz Z mz s =
    (if sz = 2 then Some (s, 0, 0)
     else Option.bind (pmm_alloc' m (Suc sz) mz mz s) (\<lambda>(s, addr, y).
       if addr \<noteq> 0 then Option.bind (iter (\<lambda>s off. pmm_free' m sz y (addr + off) s) (split_offsets (split_inc sz)) s)
           (\<lambda>s. Some (s, addr, y))
       else Some (s, 0, 0)))"
proof -
  have de: "pmm_alloc' n sz Z mz s = pmm_alloc' (Suc m) sz 0 mz s"
    using alloc_descend_to [OF w sz, of 0 n mz] e n by simp
  have c: "sp_count (pmmData s (SZ_TO_IDX sz 0)) = 0" "sp_next (pmmData s (SZ_TO_IDX sz 0)) = 0"
    by (rule pmm_wf_stackD [OF w, of "SZ_TO_IDX sz 0"], use e [of 0] idx_simps [of sz 0] sz in \<open>auto simp: sempty_def\<close>)+
  have "sz = 0 \<or> sz = 1 \<or> sz = 2" using sz(1) by linarith
  then show ?thesis
    unfolding de
    by (elim disjE) (use c in \<open>simp_all add: pmm_alloc'.simps(2) Let_def split_inc_def numeral_2_eq_2 cong: if_cong\<close>)
qed

lemma alloc_split_got:
  assumes w: "pmm_wf s v" and sz: "sz < 2" "Z < 3" and e: "\<And>z. z \<le> Z \<Longrightarrow> sempty v (SZ_TO_IDX sz z)" and n: "n = Suc Z + m"
    and al: "pmm_alloc' m (Suc sz) mz mz s = Some (s1, a, y)" "obtained s v (Suc sz) mz s1 v1 a y"
    and f: "\<And>s v a. pmm_wf s v \<Longrightarrow> block_ok sz a \<Longrightarrow> get_zone sz a \<le> y \<Longrightarrow> nodup (pmem v + fr sz a) \<Longrightarrow>
      \<exists>s' v'. pmm_free' m sz y a s = Some s' \<and> gives s v (fr sz a) s' v' \<and> keeps K v v'"
  shows "\<exists>s' v'. pmm_alloc' n sz Z mz s = Some (s', a, y) \<and> obtained s v sz mz s' v' a y \<and> keeps K v1 v'"
proof -
  let ?offs = "split_offsets (split_inc sz)"
  have g: "pmm_wf s1 v1" "pmem v = pmem v1 + fr (Suc sz) a" "block_ok (Suc sz) a" "get_zone (Suc sz) a \<le> y" "y \<le> mz"
    "stackPageListInitialized s1 = stackPageListInitialized s"
    using al(2) by (auto simp: obtained_def takes_def)
  note inc = split_inc_units [OF sz(1)]
  note bs = block_split [OF g(3) inc]
  have blocks: "block_ok sz x \<and> get_zone sz x \<le> y" if "x \<in> set (map ((+) a) ?offs)" for x
    using that bs(3) get_zone_split [OF sz(1) g(3) inc] g(4) by (auto intro: order_trans)
  have sum: "fr (Suc sz) a = fr sz a + (\<Sum>x\<leftarrow>map ((+) a) ?offs. fr sz x)" using bs(1) by (simp add: comp_def)
  have "nodup (pmem v1 + (\<Sum>x\<leftarrow>map ((+) a) ?offs. fr sz x))"
    by (rule nodup_subset [OF pmm_wf_nodup [OF w]]) (simp add: g(2) sum)
  from free_loop [OF f g(1) blocks this]
  obtain s2 v2 where s2: "iter (\<lambda>s off. pmm_free' m sz y (a + off) s) ?offs s1 = Some s2"
    "gives s1 v1 (\<Sum>x\<leftarrow>map ((+) a) ?offs. fr sz x) s2 v2" "keeps K v1 v2"
    unfolding iter_map [of "\<lambda>s x. pmm_free' m sz y x s" "(+) a"] by blast
  have "a \<noteq> 0" using g(3) by (simp add: block_ok_def)
  then have "pmm_alloc' n sz Z mz s = Some (s2, a, y)"
    using alloc_empty [OF w _ sz(2) e n] sz(1) al(1) s2(1) by simp
  moreover have "get_zone sz a \<le> y" using get_zone_split [OF sz(1) g(3) inc, of 0] g(4) by simp
  then have "obtained s v sz mz s2 v2 a y"
    using s2(2) g bs(2) sum by (simp add: obtained_def takes_def gives_def ac_simps)
  ultimately show ?thesis using s2(3) by blast
qed

lemma idx_12: "SZ_TO_IDX 1 z = 3 + z" "SZ_TO_IDX (Suc 0) z = 3 + z" "SZ_TO_IDX 2 z = 6 + z"
  by (simp_all add: SZ_TO_IDX_def)

definition full_nonempty :: "nat \<Rightarrow> pview \<Rightarrow> pview \<Rightarrow> bool" where
  "full_nonempty k v v' \<longleftrightarrow> (\<forall>j. k \<le> j \<and> j < 9 \<and> length (ptop v j) = 510 \<longrightarrow> ptop v' j \<noteq> [])"

lemma full_nonempty_keeps: "keeps {k..<9} v v' \<Longrightarrow> full_nonempty k v v'"
  by (auto simp: keeps_def full_nonempty_def)

lemma full_nonempty_trans: "full_nonempty k v v1 \<Longrightarrow> keeps {k..<9} v1 v' \<Longrightarrow> full_nonempty k v v'"
  by (auto simp: keeps_def full_nonempty_def)

lemma got_zone_lt: "obtained s v sz mz s1 v1 a y \<Longrightarrow> mz < 3 \<Longrightarrow> y < 3"
  by (simp add: obtained_def)

text \<open>A 4 KiB frame while there is a free block of 4 KiB or 2 MiB.\<close>

lemma alloc_4K_2M:
  assumes w: "pmm_wf s v" and Z: "Z \<le> mz" "mz < 3" and ne: "(\<exists>z\<le>Z. \<not> sempty v z) \<or> (\<exists>z\<le>mz. \<not> sempty v (3 + z))"
    and n: "38 \<le> n"
  shows "\<exists>s' v' a y. pmm_alloc' n 0 Z mz s = Some (s', a, y) \<and> obtained s v 0 mz s' v' a y
    \<and> keeps {6..<9} v v' \<and> full_nonempty 3 v v'"
proof (cases "\<exists>z\<le>Z. \<not> sempty v z")
  case True
  then obtain z0 where z0: "z0 \<le> Z" "\<not> sempty v z0" by blast
  obtain s' v' a y where A: "pmm_alloc' n 0 Z mz s = Some (s', a, y)" "obtained s v 0 Z s' v' a y" "keeps {3..<9} v v'"
    using alloc_4K [OF w z0(1) _ z0(2), of n mz] Z n by auto
  have "keeps {6..<9} v v'" by (rule keeps_mono [OF A(3)]) auto
  with A got_mono [OF A(2) Z(1)] full_nonempty_keeps show ?thesis by blast
next
  case False
  then obtain z0 where z0: "z0 \<le> mz" "\<not> sempty v (SZ_TO_IDX 1 z0)" using ne by (auto simp: idx_12)
  have e: "sempty v (SZ_TO_IDX 0 z)" if "z \<le> Z" for z using False that by simp
  define m where "m = n - Suc Z"
  have m: "n = Suc Z + m" "35 \<le> m" "31 \<le> m" using n Z by (auto simp: m_def)
  have "1 = (1::nat) \<or> 1 = (2::nat)" by simp
  from alloc_large [OF w this z0(1) Z(2) z0(2) m(2), of mz]
  obtain s1 v1 a y where A: "pmm_alloc' m 1 mz mz s = Some (s1, a, y)" "obtained s v 1 mz s1 v1 a y"
    "keeps {j. 3 \<le> j \<and> j < 9 \<and> j div 3 \<noteq> 1} v v1" "full_nonempty 3 v v1"
    unfolding full_nonempty_def by blast
  have Z3: "Z < 3" using Z by simp
  have y: "y < 3" using got_zone_lt [OF A(2) Z(2)] .
  obtain s' v' where B: "pmm_alloc' n 0 Z mz s = Some (s', a, y)" "obtained s v 0 mz s' v' a y" "keeps {3..<9} v1 v'"
    using alloc_split_got [OF w _ Z3 e m(1), of mz s1 a y v1 "{3..<9}"] A(1,2) free_4K [OF _ y _ _ _ m(3)] by auto
  have "keeps {6..<9} v v'" by (rule keeps_trans [OF A(3) B(3)]) auto
  with B full_nonempty_trans [OF A(4) B(3)] show ?thesis by blast
qed

lemma free_2M:
  assumes w: "pmm_wf s v" and z: "zone < 3"
    and a: "block_ok 1 a" "get_zone 1 a \<le> zone" "nodup (pmem v + fr 1 a)" and n: "39 \<le> n"
  shows "\<exists>s' v'. pmm_free' n 1 zone a s = Some s' \<and> gives s v (fr 1 a) s' v' \<and> keeps {6..<9} v v'"
proof -
  obtain m where m: "n = Suc m" "38 \<le> m" using n by (cases n) auto
  have "\<exists>s' v'. free_rest m 1 zone a s = Some s' \<and> gives s v (fr 1 a) s' v' \<and> keeps ({6..<9} - {3 + zone}) v v'
    \<and> (ptop v' (3 + zone) \<noteq> [] \<or> 1 = (0::nat) \<and> zone = 2 \<and> stk v' (3 + zone) = (a, []) # stk v (3 + zone) \<and> rsv v' = rsv v)"
  proof (rule free_rest_ok [OF w _ z _ a])
    assume full: "length (ptop v (3 + zone)) = 510"
    then have "\<exists>z\<le>2. \<not> sempty v (3 + z)" using z by (intro exI [of _ zone]) (auto simp: sempty_def)
    from alloc_4K_2M [OF w order.refl _ disjI2 [OF this] m(2)]
    obtain s1 v1 b y where A: "pmm_alloc' m 0 2 2 s = Some (s1, b, y)" "obtained s v 0 2 s1 v1 b y" "keeps {6..<9} v v1"
      "full_nonempty 3 v v1" by auto
    have "ptop v1 (3 + zone) \<noteq> []" using A(4) full z by (auto simp: full_nonempty_def)
    then show "\<exists>s1 b z v1. pmm_alloc' m 0 2 2 s = Some (s1, b, z) \<and> block_ok 0 b
        \<and> takes s v (fr 0 b) s1 v1 \<and> keeps {6..<9} v v1 \<and> ptop v1 (3 + zone) \<noteq> []"
      using A by (auto simp: obtained_def)
  qed (simp_all add: idx_12)
  then obtain s' v' where "free_rest m 1 zone a s = Some s'" "gives s v (fr 1 a) s' v'" "keeps ({6..<9} - {3 + zone}) v v'"
    by blast
  moreover have "keeps {6..<9} v v'" by (rule keeps_mono [OF \<open>keeps ({6..<9} - {3 + zone}) v v'\<close>]) (use z in auto)
  ultimately show ?thesis by (auto simp: m pmm_free'_Suc)
qed

text \<open>The memory of size \<open>sz\<close> or larger that an allocation may use is exhausted.\<close>

definition exhausted :: "pview \<Rightarrow> nat \<Rightarrow> nat \<Rightarrow> nat \<Rightarrow> bool" where
  "exhausted v sz Z mz \<longleftrightarrow> (\<forall>z\<le>Z. sempty v (SZ_TO_IDX sz z))
     \<and> (\<forall>sz' z. sz < sz' \<and> sz' < 3 \<and> z \<le> mz \<longrightarrow> sempty v (SZ_TO_IDX sz' z))"

definition alloc_result :: "pmm \<Rightarrow> pview \<Rightarrow> nat \<Rightarrow> nat \<Rightarrow> nat \<Rightarrow> (pmm \<times> u64 \<times> nat) option \<Rightarrow> bool" where
  "alloc_result s v sz Z mz r \<longleftrightarrow>
     (\<exists>s' v' a y. r = Some (s', a, y) \<and> obtained s v sz mz s' v' a y \<and> full_nonempty 6 v v')
     \<or> (r = Some (s, 0, 0) \<and> exhausted v sz Z mz)"

lemma alloc_1G:
  assumes w: "pmm_wf s v" and Z: "Z \<le> mz" "mz < 3" and n: "35 \<le> n"
  shows "alloc_result s v 2 Z mz (pmm_alloc' n 2 Z mz s)"
proof (cases "\<exists>z\<le>Z. \<not> sempty v (SZ_TO_IDX 2 z)")
  case True
  then obtain z0 where z0: "z0 \<le> Z" "\<not> sempty v (SZ_TO_IDX 2 z0)" by blast
  have "2 = (1::nat) \<or> 2 = (2::nat)" "Z < 3" using Z by auto
  from alloc_large [OF w this(1) z0(1) this(2) z0(2) n, of mz]
  obtain s1 v1 a y where A: "pmm_alloc' n 2 Z mz s = Some (s1, a, y)" "obtained s v 2 Z s1 v1 a y" "full_nonempty 3 v v1"
    unfolding full_nonempty_def by blast
  moreover have "full_nonempty 6 v v1" using A(3) by (auto simp: full_nonempty_def)
  ultimately show ?thesis using got_mono [OF A(2) Z(1)] unfolding alloc_result_def by blast
next
  case False
  have "pmm_alloc' n 2 Z mz s = Some (s, 0, 0)"
    using alloc_empty [OF w, of 2 Z n "n - Suc Z" mz] False Z n by simp
  then show ?thesis using False by (auto simp: alloc_result_def exhausted_def)
qed

lemma alloc_2M:
  assumes w: "pmm_wf s v" and Z: "Z \<le> mz" "mz < 3" and n: "43 \<le> n"
  shows "alloc_result s v 1 Z mz (pmm_alloc' n 1 Z mz s)"
proof (cases "\<exists>z\<le>Z. \<not> sempty v (SZ_TO_IDX 1 z)")
  case True
  then obtain z0 where z0: "z0 \<le> Z" "\<not> sempty v (SZ_TO_IDX 1 z0)" by blast
  have "1 = (1::nat) \<or> 1 = (2::nat)" "Z < 3" "35 \<le> n" using Z n by auto
  from alloc_large [OF w this(1) z0(1) this(2) z0(2) this(3), of mz]
  obtain s1 v1 a y where A: "pmm_alloc' n 1 Z mz s = Some (s1, a, y)" "obtained s v 1 Z s1 v1 a y" "full_nonempty 3 v v1"
    unfolding full_nonempty_def by blast
  moreover have "full_nonempty 6 v v1" using A(3) by (auto simp: full_nonempty_def)
  ultimately show ?thesis using got_mono [OF A(2) Z(1)] unfolding alloc_result_def by blast
next
  case False
  have e: "sempty v (SZ_TO_IDX 1 z)" if "z \<le> Z" for z using False that by blast
  define m where "m = n - Suc Z"
  have m: "n = Suc Z + m" "39 \<le> m" "35 \<le> m" using n Z by (auto simp: m_def)
  have Z3: "Z < 3" using Z by simp
  from alloc_1G [OF w order.refl Z(2) m(3)] consider
    (a) s1 v1 a y where "pmm_alloc' m 2 mz mz s = Some (s1, a, y)" "obtained s v 2 mz s1 v1 a y" "full_nonempty 6 v v1"
    | (b) "pmm_alloc' m 2 mz mz s = Some (s, 0, 0)" "exhausted v 2 mz mz"
    unfolding alloc_result_def by blast
  then show ?thesis
  proof cases
    case a
    have y: "y < 3" using got_zone_lt [OF a(2) Z(2)] .
    obtain s' v' where B: "pmm_alloc' n 1 Z mz s = Some (s', a, y)" "obtained s v 1 mz s' v' a y" "keeps {6..<9} v1 v'"
      using alloc_split_got [OF w _ Z3 e m(1), of mz s1 a y v1 "{6..<9}"] a(1,2) free_2M [OF _ y _ _ _ m(2)]
      by (auto simp: numeral_2_eq_2)
    with full_nonempty_trans [OF a(3) B(3)] show ?thesis unfolding alloc_result_def by blast
  next
    case b
    have "pmm_alloc' n 1 Z mz s = Some (s, 0, 0)"
      using alloc_empty [OF w _ Z3 e m(1), of mz] b(1) by (simp add: numeral_2_eq_2)
    moreover have "exhausted v 1 Z mz"
      unfolding exhausted_def
    proof (intro conjI allI impI)
      fix sz' z :: nat assume h: "1 < sz' \<and> sz' < 3 \<and> z \<le> mz"
      then have "sz' = 2" by linarith
      with b(2) h show "sempty v (SZ_TO_IDX sz' z)" by (simp add: exhausted_def)
    qed (rule e)
    ultimately show ?thesis by (simp add: alloc_result_def)
  qed
qed

lemma alloc_4K_any:
  assumes w: "pmm_wf s v" and Z: "Z \<le> mz" "mz < 3" and n: "46 \<le> n"
  shows "alloc_result s v 0 Z mz (pmm_alloc' n 0 Z mz s)"
proof (cases "(\<exists>z\<le>Z. \<not> sempty v z) \<or> (\<exists>z\<le>mz. \<not> sempty v (3 + z))")
  case True
  have "38 \<le> n" using n by simp
  from alloc_4K_2M [OF w Z True this] show ?thesis
    unfolding alloc_result_def using full_nonempty_keeps by blast
next
  case False
  then have e: "sempty v (SZ_TO_IDX 0 z)" if "z \<le> Z" for z using that by simp
  have e1: "sempty v (SZ_TO_IDX 1 z)" if "z \<le> mz" for z using that False by (simp add: idx_12)
  define m where "m = n - Suc Z"
  have m: "n = Suc Z + m" "43 \<le> m" "31 \<le> m" using n Z by (auto simp: m_def)
  have Z3: "Z < 3" using Z by simp
  from alloc_2M [OF w order.refl Z(2) m(2)] consider
    (a) s1 v1 a y where "pmm_alloc' m 1 mz mz s = Some (s1, a, y)" "obtained s v 1 mz s1 v1 a y" "full_nonempty 6 v v1"
    | (b) "pmm_alloc' m 1 mz mz s = Some (s, 0, 0)" "exhausted v 1 mz mz"
    unfolding alloc_result_def by blast
  then show ?thesis
  proof cases
    case a
    have y: "y < 3" using got_zone_lt [OF a(2) Z(2)] .
    obtain s' v' where B: "pmm_alloc' n 0 Z mz s = Some (s', a, y)" "obtained s v 0 mz s' v' a y" "keeps {3..<9} v1 v'"
      using alloc_split_got [OF w _ Z3 e m(1), of mz s1 a y v1 "{3..<9}"] a(1,2) free_4K [OF _ y _ _ _ m(3)]
      by auto
    have "keeps {6..<9} v1 v'" by (rule keeps_mono [OF B(3)]) auto
    with B full_nonempty_trans [OF a(3)] show ?thesis unfolding alloc_result_def by blast
  next
    case b
    have "pmm_alloc' n 0 Z mz s = Some (s, 0, 0)"
      using alloc_empty [OF w _ Z3 e m(1), of mz] b(1) by simp
    moreover have "exhausted v 0 Z mz"
      unfolding exhausted_def
    proof (intro conjI allI impI)
      fix sz' z :: nat assume h: "0 < sz' \<and> sz' < 3 \<and> z \<le> mz"
      then have "sz' = 1 \<or> sz' = 2" by linarith
      with b(2) h e1 show "sempty v (SZ_TO_IDX sz' z)" by (auto simp: exhausted_def)
    qed (rule e)
    ultimately show ?thesis by (simp add: alloc_result_def)
  qed
qed

lemma free_1G:
  assumes w: "pmm_wf s v" and z: "zone < 3"
    and a: "block_ok 2 a" "get_zone 2 a \<le> zone" "nodup (pmem v + fr 2 a)" and n: "47 \<le> n"
  shows "\<exists>s' v'. pmm_free' n 2 zone a s = Some s' \<and> gives s v (fr 2 a) s' v'"
proof -
  obtain m where m: "n = Suc m" "46 \<le> m" using n by (cases n) auto
  have "\<exists>s' v'. free_rest m 2 zone a s = Some s' \<and> gives s v (fr 2 a) s' v' \<and> keeps ({} - {6 + zone}) v v'
    \<and> (ptop v' (6 + zone) \<noteq> [] \<or> 2 = (0::nat) \<and> zone = 2 \<and> stk v' (6 + zone) = (a, []) # stk v (6 + zone) \<and> rsv v' = rsv v)"
  proof (rule free_rest_ok [OF w _ z _ a])
    assume full: "length (ptop v (6 + zone)) = 510"
    then have "\<not> sempty v (6 + zone)" by (auto simp: sempty_def)
    moreover have "sempty v (SZ_TO_IDX 2 zone)" if "exhausted v 0 2 2"
      using that z unfolding exhausted_def by auto
    ultimately have "\<not> exhausted v 0 2 2" by (auto simp: idx_12)
    with alloc_4K_any [OF w order.refl _ m(2), of 2]
    obtain s1 v1 b y where A: "pmm_alloc' m 0 2 2 s = Some (s1, b, y)" "obtained s v 0 2 s1 v1 b y" "full_nonempty 6 v v1"
      unfolding alloc_result_def by auto
    have "ptop v1 (6 + zone) \<noteq> []" using A(3) full z by (auto simp: full_nonempty_def)
    then show "\<exists>s1 b z v1. pmm_alloc' m 0 2 2 s = Some (s1, b, z) \<and> block_ok 0 b
        \<and> takes s v (fr 0 b) s1 v1 \<and> keeps {} v v1 \<and> ptop v1 (6 + zone) \<noteq> []"
      using A by (auto simp: obtained_def keeps_def)
  qed (simp_all add: idx_12)
  then show ?thesis by (auto simp: m pmm_free'_Suc)
qed

lemma alloc_any:
  assumes "pmm_wf s v" "sz < 3" "Z < 3" "46 \<le> n"
  shows "alloc_result s v sz Z Z (pmm_alloc' n sz Z Z s)"
proof -
  have n: "35 \<le> n" "43 \<le> n" using assms(4) by auto
  have "sz = 0 \<or> sz = 1 \<or> sz = 2" using assms(2) by linarith
  then show ?thesis
    using alloc_4K_any [OF assms(1) order.refl assms(3,4)] alloc_2M [OF assms(1) order.refl assms(3) n(2)]
      alloc_1G [OF assms(1) order.refl assms(3) n(1)] by auto
qed

lemma free_any:
  assumes w: "pmm_wf s v" "sz < 3" "zone < 3"
    and a: "block_ok sz a" "get_zone sz a \<le> zone" "nodup (pmem v + fr sz a)" and n: "47 \<le> n"
  shows "\<exists>s' v'. pmm_free' n sz zone a s = Some s' \<and> gives s v (fr sz a) s' v'"
proof -
  have "31 \<le> n" "39 \<le> n" using n by auto
  moreover have "sz = 0 \<or> sz = 1 \<or> sz = 2" using w(2) by linarith
  ultimately show ?thesis
    using free_4K [OF w(1,3)] free_2M [OF w(1,3)] free_1G [OF w(1,3)] a n by (metis One_nat_def)
qed

end
