(* ===== verification/PmmIface.thy ===== *)
theory PmmIface
  imports PmmAlloc
begin

text \<open>
  The interface of the physical memory manager and what its clients may rely on.  The contract is a locale
  over an allocator's state, the frames it owns, and its two operations; the public functions of
  \<^verbatim>\<open>kernel/mm/pmm.c\<close> interpret it.  Inside the locale stands the theory of clients: for every sequence
  of allocations and releases the blocks handed out are pairwise disjoint and no frame is lost.
\<close>

section \<open>Contract\<close>

datatype request = Alloc nat nat | Free nat

text \<open>
  A client holds a list of blocks (size and address).  It may ask for a block of any size and zone, and
  release any block that it holds; \<open>None\<close> is a call that does not return.
\<close>

fun serve ::
  "(nat \<Rightarrow> nat \<Rightarrow> 's \<Rightarrow> ('s \<times> u64) option) \<Rightarrow> (nat \<Rightarrow> u64 \<Rightarrow> 's \<Rightarrow> 's option) \<Rightarrow>
   's \<times> (nat \<times> u64) list \<Rightarrow> request \<Rightarrow> ('s \<times> (nat \<times> u64) list) option"
where
  "serve al fre (s, held) (Alloc sz zone) =
     (if sz < 3 \<and> zone < 3 then
        Option.bind (al sz zone s) (\<lambda>(s, a). Some (s, if a = 0 then held else (sz, a) # held))
      else Some (s, held))"
| "serve al fre (s, held) (Free i) =
     (if i < length held then
        Option.bind (fre (fst (held ! i)) (snd (held ! i)) s) (\<lambda>s. Some (s, take i held @ drop (Suc i) held))
      else Some (s, held))"

definition held_frames :: "(nat \<times> u64) list \<Rightarrow> nat multiset" where
  "held_frames held = (\<Sum>(sz, a)\<leftarrow>held. fr sz a)"

lemma held_frames_simps [simp]:
  "held_frames [] = {#}" "held_frames ((sz, a) # held) = fr sz a + held_frames held"
  "held_frames (xs @ ys) = held_frames xs + held_frames ys"
  by (simp_all add: held_frames_def)

text \<open>The allocator owns what is missing to the initial memory \<open>M0\<close> once the held blocks are counted.\<close>

definition client_inv ::
  "('s \<Rightarrow> nat multiset \<Rightarrow> bool) \<Rightarrow> nat multiset \<Rightarrow> 's \<times> (nat \<times> u64) list \<Rightarrow> bool"
where
  "client_inv ok M0 c \<longleftrightarrow> (\<exists>M. ok (fst c) M \<and> M + held_frames (snd c) = M0 \<and> nodup M0
     \<and> (\<forall>(sz, a)\<in>set (snd c). sz < 3 \<and> block_ok sz a))"

lemma held_frames_nth:
  assumes "i < length held" "held ! i = (sz, a)"
  shows "held_frames held = held_frames (take i held @ drop (Suc i) held) + fr sz a"
proof -
  have "held = take i held @ (sz, a) # drop (Suc i) held" using id_take_nth_drop [OF assms(1)] assms(2) by simp
  from arg_cong [OF this, of held_frames] show ?thesis by (simp add: ac_simps)
qed

lemma held_frames_pair:
  assumes "i < j" "j < length held"
  shows "fr (fst (held ! i)) (snd (held ! i)) + fr (fst (held ! j)) (snd (held ! j)) \<subseteq># held_frames held"
proof -
  let ?h = "take j held @ drop (Suc j) held"
  have "i < length ?h" "?h ! i = held ! i" using assms by (auto simp: nth_append)
  then have "fr (fst (held ! i)) (snd (held ! i)) \<subseteq># held_frames ?h"
    using held_frames_nth [of i ?h] by (metis mset_subset_eq_add_right prod.collapse)
  then show ?thesis
    using held_frames_nth [OF assms(2) prod.collapse [symmetric]] by (simp add: subset_mset.add_right_mono)
qed

locale frame_allocator =
  fixes ok :: "'s \<Rightarrow> nat multiset \<Rightarrow> bool"
    and al :: "nat \<Rightarrow> nat \<Rightarrow> 's \<Rightarrow> ('s \<times> u64) option"
    and fre :: "nat \<Rightarrow> u64 \<Rightarrow> 's \<Rightarrow> 's option"
  assumes ok_nodup: "ok s M \<Longrightarrow> nodup M"
    and alloc_law: "ok s M \<Longrightarrow> sz < 3 \<Longrightarrow> zone < 3 \<Longrightarrow>
      \<exists>s' a M'. al sz zone s = Some (s', a) \<and> ok s' M'
        \<and> (if a = 0 then M' = M else M = M' + fr sz a \<and> block_ok sz a \<and> get_zone sz a \<le> zone)"
    and free_law: "ok s M \<Longrightarrow> sz < 3 \<Longrightarrow> block_ok sz a \<Longrightarrow> nodup (M + fr sz a) \<Longrightarrow>
      \<exists>s'. fre sz a s = Some s' \<and> ok s' (M + fr sz a)"
begin

lemma serve_inv:
  assumes "client_inv ok M0 c"
  shows "\<exists>c'. serve al fre c r = Some c' \<and> client_inv ok M0 c'"
proof -
  obtain s held where c: "c = (s, held)" by (cases c)
  obtain M where M: "ok s M" "M + held_frames held = M0" "nodup M0" "\<forall>(sz, a)\<in>set held. sz < 3 \<and> block_ok sz a"
    using assms by (auto simp: client_inv_def c)
  show ?thesis
  proof (cases r)
    case (Alloc sz zone)
    show ?thesis
    proof (cases "sz < 3 \<and> zone < 3")
      case True
      then obtain s' a M' where "al sz zone s = Some (s', a)" "ok s' M'"
        "if a = 0 then M' = M else M = M' + fr sz a \<and> block_ok sz a \<and> get_zone sz a \<le> zone"
        using alloc_law [OF M(1)] by blast
      with M True show ?thesis
        by (auto simp: c Alloc client_inv_def ac_simps split: if_splits)
    qed (use assms in \<open>auto simp: c Alloc\<close>)
  next
    case (Free i)
    show ?thesis
    proof (cases "i < length held")
      case True
      obtain sz a where hi: "held ! i = (sz, a)" by (cases "held ! i")
      let ?h = "take i held @ drop (Suc i) held"
      note hf = held_frames_nth [OF True hi]
      have ok: "sz < 3" "block_ok sz a" using M(4) nth_mem [OF True] by (auto simp: hi)
      have "nodup (M + fr sz a)" by (rule nodup_subset [OF M(3)]) (simp add: hf flip: M(2))
      then obtain s' where s': "fre sz a s = Some s'" "ok s' (M + fr sz a)" using free_law [OF M(1) ok] by blast
      have "M + fr sz a + held_frames ?h = M0" using M(2) hf by (simp add: ac_simps)
      moreover have "\<forall>(sz, a)\<in>set ?h. sz < 3 \<and> block_ok sz a" using M(4) by (auto dest: in_set_takeD in_set_dropD)
      ultimately have "client_inv ok M0 (s', ?h)" using s'(2) M(3) unfolding client_inv_def fst_conv snd_conv by blast
      moreover have "serve al fre c r = Some (s', ?h)" using True s'(1) by (simp add: c Free hi)
      ultimately show ?thesis by blast
    qed (use assms in \<open>auto simp: c Free\<close>)
  qed
qed

text \<open>Every sequence of requests is served, and leaves every frame either free or held exactly once.\<close>

lemma serve_all:
  assumes "ok s M"
  shows "\<exists>s' held. iter (serve al fre) rs (s, []) = Some (s', held) \<and> client_inv ok M (s', held)"
proof -
  have "client_inv ok M (s, [])" using assms ok_nodup by (auto simp: client_inv_def)
  then have "\<exists>c. iter (serve al fre) rs (s, []) = Some c \<and> client_inv ok M c"
    using iter_inv [where I = "\<lambda>_. client_inv ok M" and f = "serve al fre"] serve_inv by blast
  then show ?thesis by auto
qed

lemma held_disjoint:
  assumes "client_inv ok M0 (s, held)" "i < j" "j < length held"
  shows "fr (fst (held ! i)) (snd (held ! i)) \<inter># fr (fst (held ! j)) (snd (held ! j)) = {#}"
proof -
  let ?b = "\<lambda>k. fr (fst (held ! k)) (snd (held ! k))"
  obtain M where "nodup (M + held_frames held)" using assms(1) by (auto simp: client_inv_def)
  then have "nodup (?b i + ?b j)"
    using held_frames_pair [OF assms(2,3)] nodup_right nodup_subset by blast
  then have le: "count (?b i) x + count (?b j) x \<le> 1" for x by (auto simp: nodup_def)
  have "min (count (?b i) x) (count (?b j) x) = 0" for x using le [of x] by linarith
  then show ?thesis by (intro multiset_eqI) simp
qed

end

section \<open>The physical memory manager implements the contract\<close>

definition pmm_ok :: "pmm \<Rightarrow> nat multiset \<Rightarrow> bool" where
  "pmm_ok s M \<longleftrightarrow> (\<exists>v. pmm_wf s v \<and> pmem v = M)"

lemma pmm_allocsz_cases:
  assumes "pmm_wf s v" "sz < 3" "zone < 3"
  shows "(\<exists>s' v' a. pmm_allocsz sz zone s = Some (s', a) \<and> a \<noteq> 0 \<and> pmm_wf s' v' \<and> pmem v = pmem v' + fr sz a
      \<and> block_ok sz a \<and> get_zone sz a \<le> zone)
    \<or> (pmm_allocsz sz zone s = Some (s, 0) \<and> exhausted v sz zone zone)"
  using alloc_any [OF assms, of PMM_DEPTH]
  by (auto simp: pmm_allocsz_def alloc_result_def obtained_def takes_def block_ok_def PMM_DEPTH_def)

lemma pmm_frees_gives:
  assumes "pmm_wf s v" "sz < 3" "block_ok sz a" "nodup (pmem v + fr sz a)"
  shows "\<exists>s' v'. pmm_frees sz a s = Some s' \<and> pmm_wf s' v' \<and> pmem v' = pmem v + fr sz a"
  using free_any [OF assms(1,2) _ assms(3) order.refl assms(4), of PMM_DEPTH] get_zone_le [of sz a]
  by (auto simp: pmm_frees_def gives_def PMM_DEPTH_def)

interpretation pmm_alloc: frame_allocator pmm_ok pmm_allocsz pmm_frees
proof
  show "nodup M" if "pmm_ok s M" for s M
    using that pmm_wf_nodup by (auto simp: pmm_ok_def)
  show "\<exists>s' a M'. pmm_allocsz sz zone s = Some (s', a) \<and> pmm_ok s' M'
      \<and> (if a = 0 then M' = M else M = M' + fr sz a \<and> block_ok sz a \<and> get_zone sz a \<le> zone)"
    if "pmm_ok s M" "sz < 3" "zone < 3" for s M sz zone
    using that pmm_allocsz_cases by (fastforce simp: pmm_ok_def)
  show "\<exists>s'. pmm_frees sz a s = Some s' \<and> pmm_ok s' (M + fr sz a)"
    if "pmm_ok s M" "sz < 3" "block_ok sz a" "nodup (M + fr sz a)" for s M sz a
    using that pmm_frees_gives by (fastforce simp: pmm_ok_def)
qed

section \<open>A concrete state\<close>

text \<open>The management pages lie at 1 MiB and the DMA zone has two free frames of 4 KiB.\<close>

definition example_page :: "nat \<Rightarrow> u64" where
  "example_page i = 0x100000 + of_nat i * 0x1000"

definition pmm_example :: pmm where
  "pmm_example =
     \<lparr>pmmPml1Table = example_page,
      phys = (\<lambda>_. \<lparr>sp_next = 0, sp_count = 0, sp_frames = (\<lambda>_. 0)\<rparr>)
        (0x100000 := \<lparr>sp_next = 0, sp_count = 2, sp_frames = (\<lambda>_. 0)(0 := 0x5000, 1 := 0x6000)\<rparr>),
      stackPageListInitialized = False, total4kPages = 2, enable1gPages = False, enable2mPages = True\<rparr>"

definition pview_example :: pview where
  "pview_example = \<lparr>stk = (\<lambda>i. [(example_page i, if i = 0 then [0x5000, 0x6000] else [])]), rsv = [], rpage = 0x109000\<rparr>"

lemma nodup_mset: "distinct xs \<Longrightarrow> nodup (mset xs)"
  by (simp add: nodup_def distinct_count_atmost_1)

lemma less_9: "(\<forall>i<9. P i) \<longleftrightarrow> P 0 \<and> P 1 \<and> P 2 \<and> P 3 \<and> P 4 \<and> P 5 \<and> P 6 \<and> P 7 \<and> P (8::nat)"
proof -
  have "i < 9 \<longleftrightarrow> i = 0 \<or> i = 1 \<or> i = 2 \<or> i = 3 \<or> i = 4 \<or> i = 5 \<or> i = 6 \<or> i = 7 \<or> i = 8" for i :: nat
    by presburger
  then show ?thesis by (simp only: imp_disjL all_conj_distrib simp_thms)
qed

lemma pmm_example_mem: "pmem pview_example = mset [0x100, 0x101, 0x102, 0x103, 0x104, 0x105, 0x106, 0x107, 0x108, 0x109, 5, 6]"
proof -
  have n: "{..<9} = {0, 1, 2, 3, 4, 5, 6, 7, 8 :: nat}" by auto
  show ?thesis
    by (simp add: pmem_def n pview_example_def example_page_def smem_def fr_4K)
qed

lemma pmm_example_wf: "pmm_wf pmm_example pview_example"
proof -
  have "pmm_rep pmm_example pview_example"
    unfolding pmm_rep_def less_9
    by (simp add: pmm_example_def pview_example_def stack_rep_def rsv_rep_def pmmPage_def example_page_def
        PG_ADDR_MASK_def nth_Cons' less_Suc_eq)
  moreover have "pmm_inv pview_example"
    unfolding pmm_inv_def less_9 pmm_example_mem
    by (intro conjI nodup_mset)
      (simp_all add: pview_example_def stack_ok_def rsv_ok_def block_ok_def example_page_def get_zone_def ZONE_LIMIT_DMA_def)
  ultimately show ?thesis by (simp add: pmm_wf_def pview_example_def)
qed

text \<open>The same pages, and a full top page of the 4 KiB stack of the DMA32 zone.\<close>

definition example_frame :: "nat \<Rightarrow> u64" where
  "example_frame j = 0x2000000 + of_nat j * 0x1000"

definition pmm_example_full :: pmm where
  "pmm_example_full = pmm_example\<lparr>phys := (phys pmm_example)
     (0x101000 := \<lparr>sp_next = 0, sp_count = 510, sp_frames = example_frame\<rparr>)\<rparr>"

definition pview_example_full :: pview where
  "pview_example_full = set_stk 1 [(0x101000, map example_frame [0..<510])] pview_example"

lemma unat_example_frame: "j < 510 \<Longrightarrow> unat (example_frame j) = 0x2000000 + j * 0x1000"
  by (simp add: example_frame_def unat_word_ariths unsigned_of_nat take_bit_nat_eq_self)

lemma pmm_example_full_mem:
  "pmem pview_example_full = mset ([0x100, 0x101, 0x102, 0x103, 0x104, 0x105, 0x106, 0x107, 0x108, 0x109, 5, 6] @ [0x2000..<0x2000 + 510])"
proof -
  have "(\<Sum>f\<leftarrow>map example_frame [0..<510]. fr 0 f) = (\<Sum>j\<leftarrow>[0..<510]. {#0x2000 + j#})"
    unfolding map_map by (rule arg_cong [of _ _ sum_list]) (auto simp: fr_4K unat_example_frame)
  also have "\<dots> = mset (map ((+) 0x2000) [0..<510])"
    by (induction "[0..<510]") auto
  also have "map ((+) 0x2000) [0..<510] = map (\<lambda>i. i + 0x2000) [0..<510]"
    by (rule map_cong) (simp_all del: upt_rec_numeral)
  also have "\<dots> = [0x2000..<0x2000 + 510]"
    using map_add_upt [of "0x2000" 510] by (simp del: upt_rec_numeral)
  finally have sum: "(\<Sum>f\<leftarrow>map example_frame [0..<510]. fr 0 f) = mset [0x2000..<0x2000 + 510]" .
  have "pmem pview_example_full = pmem pview_example + mset [0x2000..<0x2000 + 510]"
    unfolding pview_example_full_def
    by (rule mem_change) (use sum in \<open>simp_all add: pview_example_def example_page_def del: upt_rec_numeral mset_upt\<close>)
  then show ?thesis by (simp only: pmm_example_mem mset_append)
qed

lemma pmm_example_full_wf: "pmm_wf pmm_example_full pview_example_full"
proof -
  have pg: "x = Suc 0" if "x < 9" "example_page x = 0x101000" for x
  proof -
    have "unat (example_page x) = 0x101000" using that(2) by simp
    with that(1) show ?thesis by (simp add: example_page_def unat_word_ariths unsigned_of_nat take_bit_nat_eq_self)
  qed
  have "stack_rep pmm_example_full 1 [(0x101000, map example_frame [0..<510])]"
    by (simp add: stack_rep_def pmm_example_full_def pmm_example_def pmmPage_def example_page_def PG_ADDR_MASK_def
        del: upt_rec_numeral)
  then have "pmm_rep pmm_example_full pview_example_full"
    unfolding pview_example_full_def
    by (rule rep_change [of pmm_example, rotated 2])
      (use pmm_example_wf pg in \<open>auto simp: pmm_wf_def pmm_example_full_def pmmPage_def other_pages_def
        pview_example_def\<close>)
  moreover have "stack_ok 1 [(0x101000, map example_frame [0..<510])]"
  proof -
    have "block_ok 0 (example_frame j) \<and> get_zone 0 (example_frame j) \<le> 1" if "j < 510" for j
    proof -
      have "block_ok 0 (example_frame j)" using that unat_example_frame [OF that] by (auto simp: block_ok_def)
      then show ?thesis using that by (simp add: get_zone_unat unat_example_frame unit_bytes_def)
    qed
    then show ?thesis by (auto simp: stack_ok_def block_ok_def simp del: upt_rec_numeral)
  qed
  moreover have "nodup (pmem pview_example_full)"
    unfolding pmm_example_full_mem by (rule nodup_mset) (simp del: upt_rec_numeral)
  ultimately show ?thesis
    using pmm_example_wf by (auto simp: pmm_wf_def pmm_inv_def pview_example_full_def pmm_example_full_def)
qed

section \<open>Properties\<close>

text \<open>
  C2.  Allocation is total and exact.  In a well-formed state \<^verbatim>\<open>pmm_allocsz\<close> returns for every block size and
  zone: either a naturally aligned block of that size that ends inside the zone and is removed from the
  memory the manager owns, in a state that is well-formed again, or 0, and then the state is unchanged and no
  stack of this or a larger size holds a block in this or a lower zone.  The depth bound of the model is
  never exceeded.
\<close>

theorem pmm_allocsz_correct:
  assumes "pmm_wf s v" "sz < 3" "zone < 3"
  shows "(\<exists>s' v' a. pmm_allocsz sz zone s = Some (s', a) \<and> a \<noteq> 0 \<and> pmm_wf s' v' \<and> pmem v = pmem v' + fr sz a
      \<and> unat a mod (4096 * 512 ^ sz) = 0
      \<and> (zone = ZONE_DMA \<longrightarrow> unat a + 4096 * 512 ^ sz \<le> 2 ^ 24)
      \<and> (zone = ZONE_DMA32 \<longrightarrow> unat a + 4096 * 512 ^ sz \<le> 2 ^ 32))
    \<or> (pmm_allocsz sz zone s = Some (s, 0) \<and> exhausted v sz zone zone)"
proof -
  have "(zone = 0 \<longrightarrow> unat a + 4096 * 512 ^ sz \<le> 2 ^ 24) \<and> (zone = 1 \<longrightarrow> unat a + 4096 * 512 ^ sz \<le> 2 ^ 32)"
    if "block_ok sz a" "get_zone sz a \<le> zone" for a
    using that get_zone_unat [OF assms(2) that(1)] by (auto simp: unit_bytes_def split: if_splits)
  note lim = this
  show ?thesis
    using pmm_allocsz_cases [OF assms]
  proof (elim disjE exE conjE, goal_cases)
    case (1 s' v' a)
    then show ?thesis using lim [of a] by (intro disjI1 exI [of _ s'] exI [of _ v'] exI [of _ a]) (simp add: block_ok_def)
  qed simp
qed

theorem pmm_allocsz_correct_witness:
  "(\<exists>s' v' a. pmm_allocsz 0 0 pmm_example = Some (s', a) \<and> a \<noteq> 0 \<and> pmm_wf s' v'
      \<and> pmem pview_example = pmem v' + fr 0 a)
   \<or> (pmm_allocsz 0 0 pmm_example = Some (pmm_example, 0) \<and> exhausted pview_example 0 0 0)"
  using pmm_allocsz_correct [OF pmm_example_wf, of 0 0] by auto

text \<open>
  C3.  Release is total and exact.  Releasing a block that the manager does not own returns, in a well-formed
  state that owns exactly the additional frames of the block, whatever stack page has to be found for it.
\<close>

theorem pmm_frees_correct:
  assumes "pmm_wf s v" "sz < 3" "block_ok sz a" "nodup (pmem v + fr sz a)"
  shows "\<exists>s' v'. pmm_frees sz a s = Some s' \<and> pmm_wf s' v' \<and> pmem v' = pmem v + fr sz a"
  using assms by (rule pmm_frees_gives)

theorem pmm_frees_correct_witness:
  "\<exists>s' v'. pmm_frees 0 0x7000 pmm_example = Some s' \<and> pmm_wf s' v'
     \<and> pmem v' = mset [7, 0x100, 0x101, 0x102, 0x103, 0x104, 0x105, 0x106, 0x107, 0x108, 0x109, 5, 6]"
proof -
  have "nodup (mset ([7, 0x100, 0x101, 0x102, 0x103, 0x104, 0x105, 0x106, 0x107, 0x108, 0x109, 5, 6] :: nat list))"
    by (rule nodup_mset) simp
  then have "nodup (pmem pview_example + fr 0 0x7000)" by (simp add: pmm_example_mem fr_4K)
  from pmm_frees_correct [OF pmm_example_wf _ _ this] show ?thesis
    by (simp add: pmm_example_mem fr_4K block_ok_def)
qed

text \<open>
  C1.  No double allocation, no leak.  Whatever sequence of requests the clients make (allocate a block of
  any size and zone, release any block they hold), every request returns, the manager stays well-formed, the
  blocks held at any time are pairwise disjoint, and the frames it owns together with the frames of the held
  blocks are always exactly the initial ones.
\<close>

theorem pmm_requests_safe:
  assumes "pmm_wf s v"
  shows "\<exists>s' held v'. iter (serve pmm_allocsz pmm_frees) rs (s, []) = Some (s', held) \<and> pmm_wf s' v'
    \<and> pmem v' + held_frames held = pmem v
    \<and> (\<forall>i j. i < j \<and> j < length held \<longrightarrow>
         fr (fst (held ! i)) (snd (held ! i)) \<inter># fr (fst (held ! j)) (snd (held ! j)) = {#})"
proof -
  have "pmm_ok s (pmem v)" using assms by (auto simp: pmm_ok_def)
  from pmm_alloc.serve_all [OF this] obtain s' held
    where r: "iter (serve pmm_allocsz pmm_frees) rs (s, []) = Some (s', held)" "client_inv pmm_ok (pmem v) (s', held)"
    by blast
  from r(2) obtain v' where "pmm_wf s' v'" "pmem v' + held_frames held = pmem v"
    by (auto simp: client_inv_def pmm_ok_def)
  with r pmm_alloc.held_disjoint [OF r(2)] show ?thesis by blast
qed

theorem pmm_requests_safe_witness:
  "\<exists>s' held v'. iter (serve pmm_allocsz pmm_frees) [Alloc 0 2, Alloc 0 0, Free 1, Alloc 1 2] (pmm_example, []) = Some (s', held)
     \<and> pmm_wf s' v' \<and> pmem v' + held_frames held = pmem pview_example"
  using pmm_requests_safe [OF pmm_example_wf] by blast



end
