(* ===== verification/Multiboot.thy ===== *)
theory Multiboot
  imports MmCommon
begin

text \<open>
  The information structure of the boot loader, \<^verbatim>\<open>kernel/init/multiboot.c\<close> and \<^verbatim>\<open>multiboot.h\<close>: a sequence of
  tags in memory, each with a type and a size, closed by a tag of type 0.
\<close>

section \<open>Data and operations\<close>

definition MULTIBOOT_TAG_TERMINATOR :: u32 where "MULTIBOOT_TAG_TERMINATOR = 0"
definition MULTIBOOT_TAG_CMDLINE :: u32 where "MULTIBOOT_TAG_CMDLINE = 1"
definition MULTIBOOT_TAG_MODULE :: u32 where "MULTIBOOT_TAG_MODULE = 3"
definition MULTIBOOT_TAG_MMAP :: u32 where "MULTIBOOT_TAG_MMAP = 6"

text \<open>The sum is computed in 32 bits before the mask extends it.\<close>

definition MULTIBOOT_ALIGN :: "u32 \<Rightarrow> u64" where
  "MULTIBOOT_ALIGN x = ucast (x + 7) AND 0xFFFFFFFFFFFFFFF8"

definition total_size_of :: "bytes \<Rightarrow> addr \<Rightarrow> u32" where
  "total_size_of m multiboot = rd32 m multiboot"

definition tag_type :: "bytes \<Rightarrow> addr \<Rightarrow> u32" where
  "tag_type m tag = rd32 m tag"

definition tag_size :: "bytes \<Rightarrow> addr \<Rightarrow> u32" where
  "tag_size m tag = rd32 m (tag + 4)"

text \<open>The loop does not end if a tag has size 0: then the result is \<open>None\<close>.\<close>

partial_function (option) tag_loop :: "bytes \<Rightarrow> u32 \<Rightarrow> addr \<Rightarrow> addr \<Rightarrow> addr option" where
  "tag_loop m ty tag_limit tag_addr =
     (if tag_addr < tag_limit then
        (if tag_type m tag_addr = MULTIBOOT_TAG_TERMINATOR then Some 0
         else if tag_type m tag_addr = ty then Some tag_addr
         else tag_loop m ty tag_limit (tag_addr + MULTIBOOT_ALIGN (tag_size m tag_addr)))
      else Some 0)"

definition multiboot_get_after :: "bytes \<Rightarrow> addr \<Rightarrow> addr \<Rightarrow> u32 \<Rightarrow> addr option" where
  "multiboot_get_after m multiboot start ty =
     (let tag_base = multiboot + 4 + 4;
          tag_addr = (if start \<noteq> 0 then start + MULTIBOOT_ALIGN (tag_size m start) else tag_base);
          tag_limit = tag_addr + ucast (total_size_of m multiboot)
      in tag_loop m ty tag_limit tag_addr)"

definition multiboot_get :: "bytes \<Rightarrow> addr \<Rightarrow> u32 \<Rightarrow> addr option" where
  "multiboot_get m multiboot ty = multiboot_get_after m multiboot 0 ty"

section \<open>Searching a sequence of tags\<close>

text \<open>\<open>tags_at m a ts\<close>: at \<open>a\<close> begins a sequence of tags at the addresses \<open>ts\<close>, followed by the terminator.\<close>

fun tags_at :: "bytes \<Rightarrow> addr \<Rightarrow> addr list \<Rightarrow> bool" where
  "tags_at m a [] = (tag_type m a = MULTIBOOT_TAG_TERMINATOR)"
| "tags_at m a (t # ts) = (t = a \<and> tag_type m a \<noteq> MULTIBOOT_TAG_TERMINATOR
     \<and> tags_at m (a + MULTIBOOT_ALIGN (tag_size m a)) ts)"

definition tag_end :: "bytes \<Rightarrow> addr \<Rightarrow> addr list \<Rightarrow> addr" where
  "tag_end m a ts = (if ts = [] then a else last ts + MULTIBOOT_ALIGN (tag_size m (last ts)))"

definition first_of :: "(addr \<Rightarrow> bool) \<Rightarrow> addr list \<Rightarrow> addr" where
  "first_of P ts = (case filter P ts of [] \<Rightarrow> 0 | t # _ \<Rightarrow> t)"

lemma first_of_simps [simp]: "first_of P [] = 0" "first_of P (t # ts) = (if P t then t else first_of P ts)"
  by (simp_all add: first_of_def)

lemma tag_loop_first:
  assumes "tags_at m a ts" "ty \<noteq> MULTIBOOT_TAG_TERMINATOR" "\<And>t. t \<in> set ts \<Longrightarrow> t < limit" "tag_end m a ts < limit"
  shows "tag_loop m ty limit a = Some (first_of (\<lambda>t. tag_type m t = ty) ts)"
  using assms
proof (induction ts arbitrary: a)
  case Nil
  then show ?case by (subst tag_loop.simps) (simp add: tag_end_def)
next
  case (Cons t ts)
  let ?b = "a + MULTIBOOT_ALIGN (tag_size m a)"
  have "tag_loop m ty limit ?b = Some (first_of (\<lambda>t. tag_type m t = ty) ts)"
    if "tag_type m a \<noteq> ty"
    using Cons.prems by (intro Cons.IH) (auto simp: tag_end_def split: if_splits)
  with Cons.prems show ?case by (subst tag_loop.simps) auto
qed

section \<open>Property\<close>

text \<open>
  C8.  Searching the boot information.  If the tags lie one after the other below the limit and end with the
  terminator, \<^verbatim>\<open>multiboot_get\<close> ends and returns the first tag of the wanted type, or null if there is none.
\<close>

theorem multiboot_get_first:
  assumes "tags_at m (mb + 8) ts" "ty \<noteq> MULTIBOOT_TAG_TERMINATOR"
    and "\<forall>t\<in>insert (tag_end m (mb + 8) ts) (set ts). t < mb + 8 + ucast (total_size_of m mb)"
  shows "multiboot_get m mb ty = Some (first_of (\<lambda>t. tag_type m t = ty) ts)"
proof -
  have e: "mb + 4 + 4 = mb + 8" by simp
  show ?thesis
    using tag_loop_first [OF assms(1,2), of "mb + 8 + ucast (total_size_of m mb)"] assms(3)
    unfolding multiboot_get_def multiboot_get_after_def Let_def e by simp
qed

theorem multiboot_get_first_witness:
  "multiboot_get ((\<lambda>_. 0)(0x1000 := 32, 0x1008 := 1, 0x100C := 8, 0x1010 := 6, 0x1014 := 8)) 0x1000 MULTIBOOT_TAG_MMAP
     = Some 0x1010"
  using multiboot_get_first [of "(\<lambda>_. 0)(0x1000 := 32, 0x1008 := 1, 0x100C := 8, 0x1010 := 6, 0x1014 := 8)"
      "0x1000" "[0x1008, 0x1010]" MULTIBOOT_TAG_MMAP]
  by (simp add: tag_type_def tag_size_def total_size_of_def rd32_def rd16_def MULTIBOOT_ALIGN_def
      MULTIBOOT_TAG_TERMINATOR_def MULTIBOOT_TAG_MMAP_def tag_end_def)

end
