(* ===== verification/MmMap.thy ===== *)
theory MmMap
  imports Klist_Sort Multiboot
begin

text \<open>
  The physical memory map of \<^verbatim>\<open>kernel/mm/map.c\<close>: entries taken from the sequential allocator of
  \<^verbatim>\<open>kernel/mm/seq.c\<close> and kept in an intrusive list, made disjoint by \<^verbatim>\<open>mm_map_sanitize\<close> and sorted by address.
  The node is the first field of an entry, so a node and its entry have the same address.
\<close>

section \<open>Data and operations\<close>

abbreviation (input) MULTIBOOT_MMAP_AVAILABLE :: int where "MULTIBOOT_MMAP_AVAILABLE \<equiv> 1"
abbreviation (input) MULTIBOOT_MMAP_RESERVED :: int where "MULTIBOOT_MMAP_RESERVED \<equiv> 2"
abbreviation (input) MULTIBOOT_MMAP_ACPI_RECLAIM :: int where "MULTIBOOT_MMAP_ACPI_RECLAIM \<equiv> 3"
abbreviation (input) MULTIBOOT_MMAP_ACPI_NVS :: int where "MULTIBOOT_MMAP_ACPI_NVS \<equiv> 4"
abbreviation (input) MULTIBOOT_MMAP_BAD :: int where "MULTIBOOT_MMAP_BAD \<equiv> 5"

record mm_map_entry_t =
  me_type :: int
  addr_start :: u64
  addr_end :: u64

record mm_map =
  mm_nodes :: nodes
  entry_list :: list_t
  entry_at :: "addr \<Rightarrow> mm_map_entry_t"
  seq_pool :: addr
  seq_pos :: u64

definition SEQ_SIZE :: u64 where "SEQ_SIZE = 8192"

definition seq_alloc :: "u64 \<Rightarrow> mm_map \<Rightarrow> mm_map \<times> addr" where
  "seq_alloc len s =
     (if seq_pos s + len > SEQ_SIZE then (s, 0)
      else (s\<lparr>seq_pos := seq_pos s + len\<rparr>, seq_pool s + seq_pos s))"

definition mm_map_entry_compare :: "(addr \<Rightarrow> mm_map_entry_t) \<Rightarrow> addr \<Rightarrow> addr \<Rightarrow> int" where
  "mm_map_entry_compare e left right =
     (let left_addr = addr_start (e left); right_addr = addr_start (e right)
      in if left_addr < right_addr then -1 else if left_addr = right_addr then 0 else 1)"

definition mm_map_type_desc :: "int \<Rightarrow> string" where
  "mm_map_type_desc t =
     (if t = MULTIBOOT_MMAP_AVAILABLE then ''available''
      else if t = MULTIBOOT_MMAP_RESERVED then ''reserved''
      else if t = MULTIBOOT_MMAP_ACPI_RECLAIM then ''ACPI reclaimable''
      else if t = MULTIBOOT_MMAP_ACPI_NVS then ''ACPI NVS''
      else if t = MULTIBOOT_MMAP_BAD then ''bad''
      else ''unknown'')"

text \<open>\<open>None\<close> is a panic.  An entry has 40 bytes: two links, the padded type and two addresses.\<close>

definition mm_map_add :: "int \<Rightarrow> u64 \<Rightarrow> u64 \<Rightarrow> mm_map \<Rightarrow> mm_map option" where
  "mm_map_add t a b s =
     (let (s, entry) = seq_alloc 40 s in
      if entry = 0 then None
      else
        (let s = s\<lparr>entry_at := (entry_at s)(entry := \<lparr>me_type = t, addr_start = a, addr_end = b\<rparr>)\<rparr> in
         map_option (\<lambda>(m, l). s\<lparr>mm_nodes := m, entry_list := l\<rparr>)
           (list_add_tail (mm_nodes s) (entry_list s) entry)))"

definition mm_map_remove :: "addr \<Rightarrow> mm_map \<Rightarrow> mm_map" where
  "mm_map_remove entry s =
     (let (m, l) = list_remove (mm_nodes s) (entry_list s) entry in s\<lparr>mm_nodes := m, entry_list := l\<rparr>)"

definition set_start :: "addr \<Rightarrow> u64 \<Rightarrow> mm_map \<Rightarrow> mm_map" where
  "set_start entry a s = s\<lparr>entry_at := (entry_at s)(entry := (entry_at s entry)\<lparr>addr_start := a\<rparr>)\<rparr>"

definition set_end :: "addr \<Rightarrow> u64 \<Rightarrow> mm_map \<Rightarrow> mm_map" where
  "set_end entry b s = s\<lparr>entry_at := (entry_at s)(entry := (entry_at s entry)\<lparr>addr_end := b\<rparr>)\<rparr>"

text \<open>
  The body of the inner loop for two different entries.  \<open>Inr\<close> continues the loop; \<open>Inl\<close> is the jump to
  the next pass, with the new state, or \<open>None\<close> after a panic.
\<close>

definition mm_map_check :: "addr \<Rightarrow> addr \<Rightarrow> mm_map \<Rightarrow> mm_map option + mm_map" where
  "mm_map_check entry inner s =
     (let e = entry_at s entry; i = entry_at s inner in
      if me_type e = me_type i \<and> addr_end e + 1 = addr_start i then
        Inl (Some (mm_map_remove inner (set_end entry (addr_end i) s)))
      else if me_type i \<ge> me_type e then
        (if addr_start e \<ge> addr_start i \<and> addr_end e \<le> addr_end i then
           Inl (Some (mm_map_remove entry s))
         else if addr_start i \<ge> addr_start e \<and> addr_end i \<le> addr_end e then
           Inl (Option.bind
             (if addr_start e \<noteq> addr_start i then mm_map_add (me_type e) (addr_start e) (addr_start i - 1) s
              else Some s) (\<lambda>s. Option.bind
             (if addr_end e \<noteq> addr_end i then mm_map_add (me_type e) (addr_end i + 1) (addr_end e) s
              else Some s) (\<lambda>s. Some (mm_map_remove entry s))))
         else if addr_start e \<ge> addr_start i \<and> addr_start e \<le> addr_end i then
           Inl (Some (set_start entry (addr_end i + 1) s))
         else if addr_end e \<ge> addr_start i \<and> addr_end e \<le> addr_end i then
           Inl (Some (set_end entry (addr_start i - 1) s))
         else Inr s)
      else Inr s)"

definition mm_map_pass :: "mm_map \<Rightarrow> (mm_map option + mm_map) option" where
  "mm_map_pass s =
     list_for_each (n_next \<circ> mm_nodes)
       (\<lambda>entry s. list_for_each (n_next \<circ> mm_nodes)
          (\<lambda>inner s. if entry = inner then Some (Inr s) else Some (mm_map_check entry inner s))
          (l_head (entry_list s)) s)
       (l_head (entry_list s)) s"

text \<open>The outer \<open>None\<close> is a run that does not return, the inner one a panic.\<close>

partial_function (option) mm_map_passes :: "mm_map \<Rightarrow> mm_map option option" where
  "mm_map_passes s = Option.bind (mm_map_pass s) (\<lambda>r. case r of
       Inl None \<Rightarrow> Some None
     | Inl (Some s) \<Rightarrow> mm_map_passes s
     | Inr s \<Rightarrow> Some (Some s))"

definition mm_map_sanitize :: "mm_map \<Rightarrow> mm_map option option" where
  "mm_map_sanitize s = Option.bind (mm_map_passes s) (\<lambda>r. case r of
       None \<Rightarrow> Some None
     | Some s \<Rightarrow> map_option (\<lambda>(m, l). Some (s\<lparr>mm_nodes := m, entry_list := l\<rparr>))
         (list_sort (mm_map_entry_compare (entry_at s)) (mm_nodes s) (entry_list s)))"

section \<open>What the list of entries covers\<close>

definition covers :: "mm_map_entry_t \<Rightarrow> u64 \<Rightarrow> bool" where
  "covers e x \<longleftrightarrow> addr_start e \<le> x \<and> x \<le> addr_end e"

text \<open>\<open>x\<close> is covered by an entry whose type is at least \<open>t\<close>.\<close>

definition cov :: "mm_map_entry_t set \<Rightarrow> int \<Rightarrow> u64 \<Rightarrow> bool" where
  "cov E t x \<longleftrightarrow> (\<exists>e\<in>E. covers e x \<and> t \<le> me_type e)"

definition entry_ok :: "mm_map_entry_t \<Rightarrow> bool" where
  "entry_ok e \<longleftrightarrow> addr_start e \<le> addr_end e \<and> addr_end e \<noteq> -1"

definition mm_map_ok :: "mm_map \<Rightarrow> addr list \<Rightarrow> bool" where
  "mm_map_ok s ns \<longleftrightarrow> dll (mm_nodes s) (entry_list s) ns \<and> seq_pool s \<noteq> 0 \<and> unat (seq_pool s) + 8192 < 2 ^ 64
     \<and> unat (seq_pos s) \<le> 8192
     \<and> (\<forall>n\<in>set ns. unat n < unat (seq_pool s) + unat (seq_pos s) \<and> entry_ok (entry_at s n))"

abbreviation entries :: "mm_map \<Rightarrow> addr list \<Rightarrow> mm_map_entry_t set" where
  "entries s ns \<equiv> entry_at s ` set ns"

definition entry_size :: "mm_map_entry_t \<Rightarrow> nat" where
  "entry_size e = Suc (unat (addr_end e)) - unat (addr_start e)"

definition total_size :: "mm_map \<Rightarrow> addr list \<Rightarrow> nat" where
  "total_size s ns = (\<Sum>n\<in>set ns. entry_size (entry_at s n))"

lemma cov_insert [simp]: "cov (insert e E) t x \<longleftrightarrow> (covers e x \<and> t \<le> me_type e) \<or> cov E t x"
  by (auto simp: cov_def)

lemma entries_insert: "n \<in> set ns \<Longrightarrow> entries s ns = insert (entry_at s n) (entry_at s ` (set ns - {n}))"
  by auto

lemma total_size_insert:
  "n \<in> set ns \<Longrightarrow> total_size s ns = entry_size (entry_at s n) + (\<Sum>k\<in>set ns - {n}. entry_size (entry_at s k))"
  by (simp add: total_size_def sum.remove)

lemma entry_size_pos: "entry_ok e \<Longrightarrow> entry_size e > 0"
  by (auto simp: entry_ok_def entry_size_def word_le_nat_alt)

subsection \<open>The list operations\<close>

lemma mm_map_add_ok:
  assumes ok: "mm_map_ok s ns" and e: "entry_ok \<lparr>me_type = t, addr_start = a, addr_end = b\<rparr>"
    and r: "mm_map_add t a b s = Some s'"
  shows "\<exists>n. n \<notin> set ns \<and> mm_map_ok s' (ns @ [n])
    \<and> entry_at s' = (entry_at s)(n := \<lparr>me_type = t, addr_start = a, addr_end = b\<rparr>)"
proof -
  let ?n = "seq_pool s + seq_pos s"
  have fit: "\<not> seq_pos s + 40 > SEQ_SIZE"
    using r by (auto simp: mm_map_add_def seq_alloc_def split: if_splits)
  have u: "unat (seq_pos s + 40) = unat (seq_pos s) + 40"
    using ok by (simp add: mm_map_ok_def unat_word_ariths)
  have n: "unat ?n = unat (seq_pool s) + unat (seq_pos s)"
    using ok by (simp add: mm_map_ok_def unat_word_ariths)
  have n0: "?n \<noteq> 0" using ok n by (metis add_is_0 mm_map_ok_def unat_0 unat_eq_0)
  have fresh: "?n \<notin> set ns" using ok n by (auto simp: mm_map_ok_def)
  have d: "dll (mm_nodes s) (entry_list s) ns" using ok by (simp add: mm_map_ok_def)
  obtain m l where ml: "list_add_tail (mm_nodes s) (entry_list s) ?n = Some (m, l)" "dll m l (ns @ [?n])"
    using kl.add_tail_law [OF d n0 fresh] by blast
  have s': "s' = s\<lparr>seq_pos := seq_pos s + 40,
      entry_at := (entry_at s)(?n := \<lparr>me_type = t, addr_start = a, addr_end = b\<rparr>), mm_nodes := m, entry_list := l\<rparr>"
    using r fit n0 ml(1) by (simp add: mm_map_add_def seq_alloc_def)
  have "mm_map_ok s' (ns @ [?n])"
    using ok ml(2) e u n fit fresh by (auto simp: mm_map_ok_def s' SEQ_SIZE_def word_less_nat_alt)
  with fresh show ?thesis by (auto simp: s')
qed

lemma mm_map_remove_ok:
  assumes "mm_map_ok s ns" "n \<in> set ns"
  shows "mm_map_ok (mm_map_remove n s) (remove1 n ns)" "entry_at (mm_map_remove n s) = entry_at s"
    "set (remove1 n ns) = set ns - {n}"
proof -
  obtain m l where ml: "list_remove (mm_nodes s) (entry_list s) n = (m, l)" by fastforce
  have d: "dll (mm_nodes s) (entry_list s) ns" using assms by (simp add: mm_map_ok_def)
  show "set (remove1 n ns) = set ns - {n}" using kl.repr_distinct [OF d] by simp
  show "entry_at (mm_map_remove n s) = entry_at s" by (simp add: mm_map_remove_def ml)
  have "dll m l (remove1 n ns)" by (rule kl.remove1_repr(1) [OF d assms(2) ml])
  then show "mm_map_ok (mm_map_remove n s) (remove1 n ns)"
    using assms set_remove1_subset [of n ns] by (auto simp: mm_map_ok_def mm_map_remove_def ml)
qed

lemma mm_map_update_ok:
  assumes "mm_map_ok s ns" "entry_ok e"
  shows "mm_map_ok (s\<lparr>entry_at := (entry_at s)(n := e)\<rparr>) ns"
  using assms by (auto simp: mm_map_ok_def)

subsection \<open>One jump to the next pass\<close>

text \<open>
  A jump keeps the coverage of every address at every level, and makes the map smaller: the total size of
  the entries, or their number.
\<close>

definition smaller :: "mm_map \<Rightarrow> addr list \<Rightarrow> mm_map \<Rightarrow> addr list \<Rightarrow> bool" where
  "smaller s' ns' s ns \<longleftrightarrow> total_size s' ns' < total_size s ns
     \<or> total_size s' ns' = total_size s ns \<and> length ns' < length ns"

definition jump_ok :: "mm_map \<Rightarrow> addr list \<Rightarrow> mm_map \<Rightarrow> addr list \<Rightarrow> bool" where
  "jump_ok s ns s' ns' \<longleftrightarrow> mm_map_ok s' ns' \<and> (\<forall>t x. cov (entries s' ns') t x = cov (entries s ns) t x)
     \<and> smaller s' ns' s ns"

lemma entries_pair:
  assumes "entry \<in> set ns" "inner \<in> set ns" "entry \<noteq> inner"
  shows "entries s ns = insert (entry_at s entry) (insert (entry_at s inner) (entry_at s ` (set ns - {entry, inner})))"
    and "total_size s ns = entry_size (entry_at s entry) + entry_size (entry_at s inner)
      + (\<Sum>n\<in>set ns - {entry, inner}. entry_size (entry_at s n))"
proof -
  have e: "set ns = insert entry (insert inner (set ns - {entry, inner}))" using assms by auto
  show "entries s ns = insert (entry_at s entry) (insert (entry_at s inner) (entry_at s ` (set ns - {entry, inner})))"
    by (subst e) simp
  show "total_size s ns = entry_size (entry_at s entry) + entry_size (entry_at s inner)
      + (\<Sum>n\<in>set ns - {entry, inner}. entry_size (entry_at s n))"
    unfolding total_size_def by (subst e) (use assms(3) in simp)
qed

lemma mm_map_ok_entry: "mm_map_ok s ns \<Longrightarrow> n \<in> set ns \<Longrightarrow> entry_ok (entry_at s n)"
  by (simp add: mm_map_ok_def)

lemma mm_map_ok_distinct: "mm_map_ok s ns \<Longrightarrow> distinct ns"
  by (simp add: mm_map_ok_def dll_def)

lemma jump_coalesce:
  assumes ok: "mm_map_ok s ns" and n: "entry \<in> set ns" "inner \<in> set ns" "entry \<noteq> inner"
    and c: "me_type (entry_at s entry) = me_type (entry_at s inner)"
      "addr_end (entry_at s entry) + 1 = addr_start (entry_at s inner)"
  shows "jump_ok s ns (mm_map_remove inner (set_end entry (addr_end (entry_at s inner)) s)) (remove1 inner ns)"
proof -
  let ?e = "entry_at s entry" and ?i = "entry_at s inner"
  let ?s1 = "set_end entry (addr_end ?i) s"
  have eo: "entry_ok ?e" "entry_ok ?i" using ok n by (auto intro: mm_map_ok_entry)
  have st: "addr_start ?i = addr_end ?e + 1" using c by simp
  have u: "unat (addr_start ?i) = unat (addr_end ?e) + 1"
    unfolding st using eo unat_inc by (simp add: entry_ok_def)
  have e': "entry_ok (?e\<lparr>addr_end := addr_end ?i\<rparr>)"
    using eo u by (simp add: entry_ok_def word_le_nat_alt)
  have ok1: "mm_map_ok ?s1 ns"
    unfolding set_end_def by (rule mm_map_update_ok [OF ok e'])
  note r = mm_map_remove_ok [OF ok1 n(2)]
  have a1: "entry_at ?s1 = (entry_at s)(entry := ?e\<lparr>addr_end := addr_end ?i\<rparr>)" by (simp add: set_end_def)
  have sets: "set ns - {inner} = insert entry (set ns - {entry, inner})" using n by auto
  let ?R = "entry_at s ` (set ns - {entry, inner})"
  have im: "entry_at ?s1 ` (set ns - {inner}) = insert (?e\<lparr>addr_end := addr_end ?i\<rparr>) ?R"
    unfolding sets a1 by auto
  have cv: "covers (?e\<lparr>addr_end := addr_end ?i\<rparr>) x \<longleftrightarrow> covers ?e x \<or> covers ?i x" for x
    using eo u by (auto simp: covers_def entry_ok_def word_le_nat_alt)
  have "entry_size (?e\<lparr>addr_end := addr_end ?i\<rparr>) = entry_size ?e + entry_size ?i"
    using eo u by (simp add: entry_size_def entry_ok_def word_le_nat_alt)
  moreover have "(\<Sum>k\<in>set ns - {entry, inner}. entry_size (entry_at ?s1 k)) = (\<Sum>k\<in>set ns - {entry, inner}. entry_size (entry_at s k))"
    by (rule sum.cong) (auto simp: a1)
  moreover have "total_size (mm_map_remove inner ?s1) (remove1 inner ns)
      = entry_size (?e\<lparr>addr_end := addr_end ?i\<rparr>) + (\<Sum>k\<in>set ns - {entry, inner}. entry_size (entry_at ?s1 k))"
    unfolding total_size_def r(2,3) sets by (simp add: a1)
  ultimately have "total_size (mm_map_remove inner ?s1) (remove1 inner ns) = total_size s ns"
    using entries_pair(2) [OF n, of s] by simp
  moreover have "cov (entries (mm_map_remove inner ?s1) (remove1 inner ns)) t x = cov (entries s ns) t x" for t x
    unfolding r(2,3) im entries_pair(1) [OF n] using cv c(1) by auto
  ultimately show ?thesis
    using r(1) n(2) length_pos_if_in_set [OF n(2)] by (simp add: jump_ok_def smaller_def length_remove1)
qed

lemma jump_drop:
  assumes ok: "mm_map_ok s ns" and n: "entry \<in> set ns" "inner \<in> set ns" "entry \<noteq> inner"
    and c: "me_type (entry_at s entry) \<le> me_type (entry_at s inner)"
      "addr_start (entry_at s inner) \<le> addr_start (entry_at s entry)" "addr_end (entry_at s entry) \<le> addr_end (entry_at s inner)"
  shows "jump_ok s ns (mm_map_remove entry s) (remove1 entry ns)"
proof -
  note r = mm_map_remove_ok [OF ok n(1)]
  have sets: "set ns - {entry} = insert inner (set ns - {entry, inner})" using n by auto
  have "cov (entries (mm_map_remove entry s) (remove1 entry ns)) t x = cov (entries s ns) t x" for t x
    unfolding r(2,3) sets image_insert entries_pair(1) [OF n] using c by (auto simp: covers_def)
  moreover have "total_size (mm_map_remove entry s) (remove1 entry ns) < total_size s ns"
    unfolding total_size_insert [OF n(1)] unfolding total_size_def r(2,3)
    using entry_size_pos [OF mm_map_ok_entry [OF ok n(1)]] by simp
  ultimately show ?thesis using r(1) by (simp add: jump_ok_def smaller_def)
qed

lemma jump_trim:
  assumes ok: "mm_map_ok s ns" and n: "entry \<in> set ns" "inner \<in> set ns" "entry \<noteq> inner"
    and t: "me_type (entry_at s entry) \<le> me_type (entry_at s inner)" "me_type e' = me_type (entry_at s entry)"
    and e': "entry_ok e'" "entry_size e' < entry_size (entry_at s entry)"
    and c: "\<And>x. covers e' x \<Longrightarrow> covers (entry_at s entry) x"
      "\<And>x. covers (entry_at s entry) x \<Longrightarrow> covers e' x \<or> covers (entry_at s inner) x"
  shows "jump_ok s ns (s\<lparr>entry_at := (entry_at s)(entry := e')\<rparr>) ns"
proof -
  let ?s = "s\<lparr>entry_at := (entry_at s)(entry := e')\<rparr>"
  have ok': "mm_map_ok ?s ns" using mm_map_update_ok [OF ok e'(1)] .
  have im: "entries ?s ns = insert e' (insert (entry_at s inner) (entry_at s ` (set ns - {entry, inner})))"
    using n by (subst entries_pair(1) [OF n]) auto
  have "cov (entries ?s ns) t x = cov (entries s ns) t x" for t x
    unfolding im entries_pair(1) [OF n] using c [of x] t n(3) by auto
  moreover have "(\<Sum>k\<in>set ns - {entry}. entry_size (entry_at ?s k)) = (\<Sum>k\<in>set ns - {entry}. entry_size (entry_at s k))"
    by (rule sum.cong) auto
  then have "total_size ?s ns < total_size s ns"
    unfolding total_size_insert [OF n(1)] using e'(2) by simp
  ultimately show ?thesis using ok' by (simp add: jump_ok_def smaller_def)
qed

lemma opt_add_ok:
  assumes ok: "mm_map_ok s ns" and new: "c \<Longrightarrow> entry_ok new" "new = \<lparr>me_type = t, addr_start = a, addr_end = b\<rparr>"
    and r: "(if c then mm_map_add t a b s else Some s) = Some s'" and n: "entry \<in> set ns"
  shows "\<exists>ns'. mm_map_ok s' ns' \<and> entry \<in> set ns' \<and> entry_at s' entry = entry_at s entry
    \<and> entry_at s' ` (set ns' - {entry}) = (if c then {new} else {}) \<union> entry_at s ` (set ns - {entry})
    \<and> total_size s' ns' = total_size s ns + (if c then entry_size new else 0)"
proof (cases c)
  case True
  obtain n' where n': "n' \<notin> set ns" "mm_map_ok s' (ns @ [n'])" "entry_at s' = (entry_at s)(n' := new)"
    using mm_map_add_ok [OF ok, of t a b s'] r new True by auto
  have ne: "n' \<noteq> entry" using n' n by auto
  have "entry_at s' ` (set (ns @ [n']) - {entry}) = {new} \<union> entry_at s ` (set ns - {entry})"
  proof -
    have "set (ns @ [n']) - {entry} = insert n' (set ns - {entry})" using ne by auto
    then show ?thesis using n'(1,3) by auto
  qed
  moreover have "total_size s' (ns @ [n']) = total_size s ns + entry_size new"
  proof -
    have "(\<Sum>k\<in>set ns. entry_size (entry_at s' k)) = (\<Sum>k\<in>set ns. entry_size (entry_at s k))"
      by (rule sum.cong) (use n'(1,3) in auto)
    then show ?thesis using n'(1,3) by (simp add: total_size_def)
  qed
  moreover have "entry_at s' entry = entry_at s entry" using n'(3) ne by simp
  moreover have "entry \<in> set (ns @ [n'])" using n by simp
  ultimately show ?thesis using n'(2) True by (intro exI [of _ "ns @ [n']"]) simp
qed (use r ok n in auto)

lemma jump_split:
  assumes ok: "mm_map_ok s ns" and n: "entry \<in> set ns" "inner \<in> set ns" "entry \<noteq> inner"
    and c: "me_type (entry_at s entry) \<le> me_type (entry_at s inner)"
      "addr_start (entry_at s entry) \<le> addr_start (entry_at s inner)" "addr_end (entry_at s inner) \<le> addr_end (entry_at s entry)"
    and s1: "(if addr_start (entry_at s entry) \<noteq> addr_start (entry_at s inner)
       then mm_map_add (me_type (entry_at s entry)) (addr_start (entry_at s entry)) (addr_start (entry_at s inner) - 1) s
       else Some s) = Some s1"
    and s2: "(if addr_end (entry_at s entry) \<noteq> addr_end (entry_at s inner)
       then mm_map_add (me_type (entry_at s entry)) (addr_end (entry_at s inner) + 1) (addr_end (entry_at s entry)) s1
       else Some s1) = Some s2"
  shows "\<exists>ns'. jump_ok s ns (mm_map_remove entry s2) ns'"
proof -
  let ?e = "entry_at s entry" and ?i = "entry_at s inner"
  let ?l = "\<lparr>me_type = me_type ?e, addr_start = addr_start ?e, addr_end = addr_start ?i - 1\<rparr>"
  let ?r = "\<lparr>me_type = me_type ?e, addr_start = addr_end ?i + 1, addr_end = addr_end ?e\<rparr>"
  let ?cl = "addr_start ?e \<noteq> addr_start ?i" and ?cr = "addr_end ?e \<noteq> addr_end ?i"
  have eo: "entry_ok ?e" "entry_ok ?i" using ok n by (auto intro: mm_map_ok_entry)
  have ul: "unat (addr_start ?i - 1) = unat (addr_start ?i) - 1 \<and> unat (addr_start ?e) < unat (addr_start ?i)" if ?cl
    using that c(2) unat_dec [of "addr_start ?i"] by (auto simp: word_le_nat_alt word_unat_eq_iff)
  have ur: "unat (addr_end ?i + 1) = unat (addr_end ?i) + 1 \<and> unat (addr_end ?i) < unat (addr_end ?e)" if ?cr
    using that c(3) unat_inc [of "addr_end ?i"] eo by (auto simp: word_le_nat_alt word_unat_eq_iff entry_ok_def)
  have b: "unat (addr_start ?i) \<le> unat (addr_end ?i)" "unat (addr_start ?e) \<le> unat (addr_start ?i)"
      "unat (addr_end ?i) \<le> unat (addr_end ?e)" "addr_end ?e \<noteq> -1" "addr_end ?i \<noteq> -1"
    using eo c by (auto simp: entry_ok_def word_le_nat_alt)
  have lo: "entry_ok ?l" if ?cl
  proof -
    have "unat (addr_start ?i - 1) < unat (addr_end ?e)" using ul [OF that] b by linarith
    then have "addr_start ?i - 1 \<noteq> -1" using unsigned_less [of "addr_end ?e", where 'a = nat]
      by (auto simp: unsigned_minus_1_eq_mask mask_eq_exp_minus_1)
    then show ?thesis using ul [OF that] by (auto simp: entry_ok_def word_le_nat_alt)
  qed
  have ro: "entry_ok ?r" if ?cr using ur [OF that] b by (simp add: entry_ok_def word_le_nat_alt)
  obtain ns1 where 1: "mm_map_ok s1 ns1" "entry \<in> set ns1" "entry_at s1 entry = ?e"
    "entry_at s1 ` (set ns1 - {entry}) = (if ?cl then {?l} else {}) \<union> entry_at s ` (set ns - {entry})"
    "total_size s1 ns1 = total_size s ns + (if ?cl then entry_size ?l else 0)"
    using opt_add_ok [OF ok lo refl s1 n(1)] by blast
  obtain ns2 where 2: "mm_map_ok s2 ns2" "entry \<in> set ns2" "entry_at s2 entry = ?e"
    "entry_at s2 ` (set ns2 - {entry}) = (if ?cr then {?r} else {}) \<union> entry_at s1 ` (set ns1 - {entry})"
    "total_size s2 ns2 = total_size s1 ns1 + (if ?cr then entry_size ?r else 0)"
    using opt_add_ok [OF 1(1) ro refl s2 1(2)] 1(3) by auto
  note r = mm_map_remove_ok [OF 2(1,2)]
  have sets: "entry_at s ` (set ns - {entry}) = insert ?i (entry_at s ` (set ns - {entry, inner}))" using n by auto
  have "cov (entries (mm_map_remove entry s2) (remove1 entry ns2)) t x = cov (entries s ns) t x" for t x
  proof -
    have "covers ?e x \<longleftrightarrow> (?cl \<and> covers ?l x) \<or> (?cr \<and> covers ?r x) \<or> covers ?i x"
      using ul ur b by (auto simp: covers_def word_le_nat_alt word_unat_eq_iff) 
    then show ?thesis
      unfolding r(2,3) 2(4) 1(4) sets entries_pair(1) [OF n] using c(1) by auto
  qed
  moreover have "total_size (mm_map_remove entry s2) (remove1 entry ns2) < total_size s ns"
  proof -
    have "total_size s2 ns2 = entry_size ?e + total_size (mm_map_remove entry s2) (remove1 entry ns2)"
      unfolding total_size_insert [OF 2(2)] 2(3) by (simp add: total_size_def r(2,3))
    moreover have "(if ?cl then entry_size ?l else 0) + (if ?cr then entry_size ?r else 0) < entry_size ?e"
      using ul ur b by (auto simp: entry_size_def word_unat_eq_iff)
    ultimately show ?thesis using 1(5) 2(5) by linarith
  qed
  ultimately show ?thesis using r(1) by (auto simp: jump_ok_def smaller_def)
qed

lemma mm_map_check_jump:
  assumes ok: "mm_map_ok s ns" and n: "entry \<in> set ns" "inner \<in> set ns" "entry \<noteq> inner"
    and r: "mm_map_check entry inner s = Inl (Some s')"
  shows "\<exists>ns'. jump_ok s ns s' ns'"
proof -
  let ?e = "entry_at s entry" and ?i = "entry_at s inner"
  have eo: "entry_ok ?e" "entry_ok ?i" using ok n by (auto intro: mm_map_ok_entry)
  consider
      (coalesce) "me_type ?e = me_type ?i" "addr_end ?e + 1 = addr_start ?i"
        "s' = mm_map_remove inner (set_end entry (addr_end ?i) s)"
    | (drop) "me_type ?e \<le> me_type ?i" "addr_start ?i \<le> addr_start ?e" "addr_end ?e \<le> addr_end ?i"
        "s' = mm_map_remove entry s"
    | (split) s1 s2 where "me_type ?e \<le> me_type ?i" "addr_start ?e \<le> addr_start ?i" "addr_end ?i \<le> addr_end ?e"
        "(if addr_start ?e \<noteq> addr_start ?i then mm_map_add (me_type ?e) (addr_start ?e) (addr_start ?i - 1) s else Some s) = Some s1"
        "(if addr_end ?e \<noteq> addr_end ?i then mm_map_add (me_type ?e) (addr_end ?i + 1) (addr_end ?e) s1 else Some s1) = Some s2"
        "s' = mm_map_remove entry s2"
    | (left) "me_type ?e \<le> me_type ?i" "\<not> (addr_end ?e \<le> addr_end ?i)" "addr_start ?i \<le> addr_start ?e" "addr_start ?e \<le> addr_end ?i"
        "s' = set_start entry (addr_end ?i + 1) s"
    | (right) "me_type ?e \<le> me_type ?i" "\<not> (addr_start ?i \<le> addr_start ?e)" "addr_start ?i \<le> addr_end ?e" "addr_end ?e \<le> addr_end ?i"
        "s' = set_end entry (addr_start ?i - 1) s"
    using r unfolding mm_map_check_def Let_def
    by (auto split: if_splits Option.bind_splits)
  then show ?thesis
  proof cases
    case coalesce
    then show ?thesis using jump_coalesce [OF ok n] by auto
  next
    case drop
    then show ?thesis using jump_drop [OF ok n] by auto
  next
    case split
    then show ?thesis using jump_split [OF ok n] by auto
  next
    case left
    have u: "unat (addr_end ?i + 1) = unat (addr_end ?i) + 1" using eo unat_inc by (simp add: entry_ok_def)
    have "jump_ok s ns (s\<lparr>entry_at := (entry_at s)(entry := ?e\<lparr>addr_start := addr_end ?i + 1\<rparr>)\<rparr>) ns"
      by (rule jump_trim [OF ok n left(1)])
        (use u left eo in \<open>auto simp: entry_ok_def entry_size_def covers_def word_le_nat_alt\<close>)
    then show ?thesis using left(5) by (auto simp: set_start_def)
  next
    case right
    then have p: "addr_start ?i \<noteq> 0" "unat (addr_start ?i) > 0" by (auto simp: word_le_nat_alt unat_gt_0)
    have u: "unat (addr_start ?i - 1) = unat (addr_start ?i) - 1" using unat_dec [OF p(1)] .
    have m: "addr_start ?i - 1 \<noteq> -1" using p(1) by auto
    have "jump_ok s ns (s\<lparr>entry_at := (entry_at s)(entry := ?e\<lparr>addr_end := addr_start ?i - 1\<rparr>)\<rparr>) ns"
      by (rule jump_trim [OF ok n right(1)])
        (use u m p right eo in \<open>auto simp: entry_ok_def entry_size_def covers_def word_le_nat_alt\<close>)
    then show ?thesis using right(5) by (auto simp: set_end_def)
  qed
qed

text \<open>Two entries for which the inner loop goes on are neither overlapping nor mergeable.\<close>

definition separate :: "mm_map_entry_t \<Rightarrow> mm_map_entry_t \<Rightarrow> bool" where
  "separate e i \<longleftrightarrow> \<not> (me_type e = me_type i \<and> addr_end e + 1 = addr_start i)
     \<and> (me_type e \<le> me_type i \<longrightarrow> addr_end e < addr_start i \<or> addr_end i < addr_start e)"

lemma mm_map_check_continue:
  assumes "mm_map_check entry inner s = Inr s'" "entry_ok (entry_at s entry)" "entry_ok (entry_at s inner)"
  shows "s' = s" "separate (entry_at s entry) (entry_at s inner)"
  using assms unfolding mm_map_check_def Let_def separate_def
  by (auto split: if_splits simp: not_le entry_ok_def)

section \<open>Passes\<close>

lemma lfold_search:
  assumes "\<And>x s'. x \<in> set xs \<Longrightarrow> body x s = Some (Inr s') \<Longrightarrow> s' = s" "\<And>x. x \<in> set xs \<Longrightarrow> body x s \<noteq> None"
  shows "(\<exists>x\<in>set xs. \<exists>r. body x s = Some (Inl r) \<and> lfold body xs s = Some (Inl r))
    \<or> ((\<forall>x\<in>set xs. body x s = Some (Inr s)) \<and> lfold body xs s = Some (Inr s))"
  using assms
proof (induction xs)
  case (Cons x xs)
  obtain r where r: "body x s = Some r" using Cons.prems(2) [of x] by auto
  show ?case
  proof (cases r)
    case (Inr s')
    then have "s' = s" using Cons.prems(1) [of x s'] r by simp
    with Cons.IH Cons.prems r Inr show ?thesis by fastforce
  qed (use r in auto)
qed simp

lemma mm_map_check_same: "mm_map_check entry inner s = Inr s' \<Longrightarrow> s' = s"
  unfolding mm_map_check_def Let_def by (auto split: if_splits)

lemma mm_map_pass_cases:
  assumes ok: "mm_map_ok s ns"
  shows "mm_map_pass s = Some (Inl None)
    \<or> (\<exists>s' ns'. mm_map_pass s = Some (Inl (Some s')) \<and> jump_ok s ns s' ns')
    \<or> (mm_map_pass s = Some (Inr s)
       \<and> (\<forall>e\<in>set ns. \<forall>i\<in>set ns. e \<noteq> i \<longrightarrow> separate (entry_at s e) (entry_at s i)))"
proof -
  let ?nx = "n_next \<circ> mm_nodes"
  let ?in = "\<lambda>entry inner s. if entry = inner then Some (Inr s) else Some (mm_map_check entry inner s)"
  let ?out = "\<lambda>entry s. list_for_each ?nx (?in entry) (l_head (entry_list s)) s"
  have d: "dll (mm_nodes s) (entry_list s) ns" using ok by (simp add: mm_map_ok_def)
  have i: "?out entry s = lfold (?in entry) ns s" for entry
    using kl.for_each_lfold [OF d, of ?nx s "?in entry"] mm_map_check_same by (fastforce split: if_splits)
  have in_cases: "(\<exists>x\<in>set ns. \<exists>r. ?in entry x s = Some (Inl r) \<and> lfold (?in entry) ns s = Some (Inl r))
    \<or> ((\<forall>x\<in>set ns. ?in entry x s = Some (Inr s)) \<and> lfold (?in entry) ns s = Some (Inr s))" for entry
    by (rule lfold_search) (auto split: if_splits dest: mm_map_check_same)
  have out: "list_for_each ?nx ?out (l_head (entry_list s)) s = lfold ?out ns s"
  proof (rule list_for_each_lfold [where P = "\<lambda>ys t. t = s \<and> (\<exists>as. ns = as @ ys)" and xs = ns, folded kl.head_law [OF d]])
    show "x \<noteq> 0 \<and> ?nx t x = hd0 ys" if "t = s \<and> (\<exists>as. ns = as @ x # ys)" for x ys t
      using that d kl.next_law [of "mm_nodes s" "entry_list s" _ x ys] by (auto simp: dll_def)
    show "t' = s \<and> (\<exists>as. ns = as @ ys)" if "t = s \<and> (\<exists>as. ns = as @ x # ys)" "?out x t = Some (Inr t')" for x ys t t'
      using that in_cases [of x] i [of x] by (auto simp: append_eq_append_conv2)
  qed simp
  have "(\<exists>x\<in>set ns. \<exists>r. ?out x s = Some (Inl r) \<and> lfold ?out ns s = Some (Inl r))
    \<or> ((\<forall>x\<in>set ns. ?out x s = Some (Inr s)) \<and> lfold ?out ns s = Some (Inr s))"
  proof (rule lfold_search)
    show "s' = s" if "?out x s = Some (Inr s')" for x s'
      using that in_cases [of x] unfolding i by (elim disjE bexE exE conjE) simp_all
    show "?out x s \<noteq> None" for x
      using in_cases [of x] unfolding i by (elim disjE bexE exE conjE) simp_all
  qed
  then show ?thesis
  proof
    assume "\<exists>x\<in>set ns. \<exists>r. ?out x s = Some (Inl r) \<and> lfold ?out ns s = Some (Inl r)"
    then obtain e r where e: "e \<in> set ns" "lfold (?in e) ns s = Some (Inl r)" "lfold ?out ns s = Some (Inl r)"
      unfolding i by blast
    from in_cases [of e] e(2) obtain i' where "i' \<in> set ns" "?in e i' s = Some (Inl r)"
      by (elim disjE bexE exE conjE) simp_all
    then have "i' \<in> set ns" "e \<noteq> i'" "mm_map_check e i' s = Inl r" by (auto split: if_splits)
    with e(1,3) show ?thesis
      using mm_map_check_jump [OF ok] out unfolding mm_map_pass_def by (cases r) auto
  next
    assume a: "(\<forall>x\<in>set ns. ?out x s = Some (Inr s)) \<and> lfold ?out ns s = Some (Inr s)"
    have "separate (entry_at s e) (entry_at s i')" if "e \<in> set ns" "i' \<in> set ns" "e \<noteq> i'" for e i'
    proof -
      have "mm_map_check e i' s = Inr s" using a in_cases [of e] i [of e] that by fastforce
      then show ?thesis using mm_map_check_continue(2) that ok mm_map_ok_entry by blast
    qed
    then show ?thesis using a out unfolding mm_map_pass_def by auto
  qed
qed

definition map_rel :: "((mm_map \<times> addr list) \<times> (mm_map \<times> addr list)) set" where
  "map_rel = inv_image (less_than <*lex*> less_than) (\<lambda>(s, ns). (total_size s ns, length ns))"

lemma wf_map_rel: "wf map_rel"
  by (simp add: map_rel_def wf_inv_image wf_lex_prod)

lemma mm_map_passes_cases:
  assumes "mm_map_ok s ns"
  shows "mm_map_passes s = Some None
    \<or> (\<exists>s' ns'. mm_map_passes s = Some (Some s') \<and> mm_map_ok s' ns'
       \<and> (\<forall>t x. cov (entries s' ns') t x = cov (entries s ns) t x)
       \<and> (\<forall>e\<in>set ns'. \<forall>i\<in>set ns'. e \<noteq> i \<longrightarrow> separate (entry_at s' e) (entry_at s' i)))"
  using assms
proof (induction "(s, ns)" arbitrary: s ns rule: wf_induct_rule [OF wf_map_rel])
  case (1 s ns)
  from mm_map_pass_cases [OF 1(2)] show ?case
  proof (elim disjE exE conjE)
    fix s' ns' assume p: "mm_map_pass s = Some (Inl (Some s'))" "jump_ok s ns s' ns'"
    then have ok: "mm_map_ok s' ns'" "((s', ns'), (s, ns)) \<in> map_rel"
        "\<forall>t x. cov (entries s' ns') t x = cov (entries s ns) t x"
      by (auto simp: jump_ok_def smaller_def map_rel_def)
    have "mm_map_passes s = mm_map_passes s'" by (subst mm_map_passes.simps) (simp add: p(1))
    with 1(1) [OF ok(2,1)] ok(3) show ?case by simp
  next
    assume "mm_map_pass s = Some (Inl None)"
    then show ?case by (subst mm_map_passes.simps) simp
  next
    assume p: "mm_map_pass s = Some (Inr s)"
      and sep: "\<forall>e\<in>set ns. \<forall>i\<in>set ns. e \<noteq> i \<longrightarrow> separate (entry_at s e) (entry_at s i)"
    then have "mm_map_passes s = Some (Some s)" by (subst mm_map_passes.simps) simp
    with sep 1(2) show ?case by blast
  qed
qed

section \<open>Sorting the map\<close>

text \<open>The comparison function keeps the contract of \<^verbatim>\<open>list_sort\<close>.\<close>

interpretation mm_cmp: comparator "mm_map_entry_compare e" "\<lambda>n. addr_start (e n)" for e
  by unfold_locales (auto simp: mm_map_entry_compare_def Let_def)

text \<open>The entries follow each other without overlapping.\<close>

definition consecutive :: "mm_map_entry_t list \<Rightarrow> bool" where
  "consecutive es \<longleftrightarrow> sorted_wrt (\<lambda>e i. addr_end e < addr_start i) es"

lemma separate_sorted:
  assumes "sorted (map addr_start es)" "distinct ns" "es = map f ns" "\<forall>e\<in>set es. entry_ok e"
    and "\<forall>e\<in>set ns. \<forall>i\<in>set ns. e \<noteq> i \<longrightarrow> separate (f e) (f i)"
  shows "consecutive es"
  using assms
proof (induction ns arbitrary: es)
  case (Cons n ns)
  obtain es' where es: "es = f n # es'" "es' = map f ns" using Cons.prems(3) by auto
  have "addr_end (f n) < addr_start (f k)" if k: "k \<in> set ns" for k
  proof -
    have ne: "k \<noteq> n" using Cons.prems(2) k by auto
    have "separate (f n) (f k)" "separate (f k) (f n)" using Cons.prems(5) k ne by auto
    then have "addr_end (f n) < addr_start (f k) \<or> addr_end (f k) < addr_start (f n)"
      by (auto simp: separate_def)
    moreover have "addr_start (f n) \<le> addr_start (f k)" using Cons.prems(1) k es by auto
    moreover have "addr_start (f k) \<le> addr_end (f k)" using Cons.prems(4) k es by (auto simp: entry_ok_def)
    ultimately show ?thesis by (meson leD order_trans)
  qed
  moreover have "consecutive es'" using Cons es by (intro Cons.IH) auto
  ultimately show ?case using es by (auto simp: consecutive_def)
qed (simp add: consecutive_def)

lemma mm_map_sanitize_cases:
  assumes ok: "mm_map_ok s ns"
  shows "mm_map_sanitize s = Some None
    \<or> (\<exists>s' ns'. mm_map_sanitize s = Some (Some s') \<and> consecutive (map (entry_at s') ns')
       \<and> (length ns' \<noteq> 1 \<longrightarrow> dll (mm_nodes s') (entry_list s') ns')
       \<and> (\<forall>t x. cov (entries s' ns') t x = cov (entries s ns) t x))"
  using mm_map_passes_cases [OF ok]
proof (elim disjE exE conjE)
  assume "mm_map_passes s = Some None"
  then show ?thesis by (simp add: mm_map_sanitize_def)
next
  fix s1 ns1
  assume p: "mm_map_passes s = Some (Some s1)" "mm_map_ok s1 ns1"
    and cv: "\<forall>t x. cov (entries s1 ns1) t x = cov (entries s ns) t x"
    and sep: "\<forall>e\<in>set ns1. \<forall>i\<in>set ns1. e \<noteq> i \<longrightarrow> separate (entry_at s1 e) (entry_at s1 i)"
  let ?cmp = "mm_map_entry_compare (entry_at s1)"
  have d: "dll (mm_nodes s1) (entry_list s1) ns1" "distinct ns1"
    using p(2) mm_map_ok_distinct by (auto simp: mm_map_ok_def)
  have "\<exists>m l. list_sort ?cmp (mm_nodes s1) (entry_list s1) = Some (m, l) \<and> (length ns1 \<noteq> 1 \<longrightarrow> dll m l (lmsort ?cmp ns1))"
  proof (cases "length ns1 = 1")
    case True
    then obtain x where "ns1 = [x]" by (cases ns1) auto
    then show ?thesis using list_sort_singleton d(1) by auto
  next
    case False
    then show ?thesis using list_sort_ok [OF d(1)] by blast
  qed
  then obtain m l where ml: "list_sort ?cmp (mm_nodes s1) (entry_list s1) = Some (m, l)"
    "length ns1 \<noteq> 1 \<longrightarrow> dll m l (lmsort ?cmp ns1)" by blast
  have "consecutive (map (entry_at s1) (lmsort ?cmp ns1))"
  proof (rule separate_sorted [OF _ _ refl])
    show "sorted (map addr_start (map (entry_at s1) (lmsort ?cmp ns1)))"
      using mm_cmp.lmsort_sorted [of "entry_at s1" ns1] by (simp add: comp_def)
  qed (use d(2) sep p(2) in \<open>auto simp: mm_map_ok_def\<close>)
  then show ?thesis
    using p(1) ml cv
    by (intro disjI2 exI [of _ "s1\<lparr>mm_nodes := m, entry_list := l\<rparr>"] exI [of _ "lmsort ?cmp ns1"])
      (simp add: mm_map_sanitize_def)
qed

section \<open>Properties\<close>


definition mm_map_example :: mm_map where
  "mm_map_example =
     \<lparr>mm_nodes = \<lparr>n_next = (\<lambda>_. 0)(0x1000 := 0x1028), n_prev = (\<lambda>_. 0)(0x1028 := 0x1000)\<rparr>,
      entry_list = \<lparr>l_head = 0x1000, l_tail = 0x1028, l_size = 2\<rparr>,
      entry_at = (\<lambda>_. \<lparr>me_type = 1, addr_start = 0, addr_end = 0\<rparr>)
        (0x1000 := \<lparr>me_type = 1, addr_start = 0, addr_end = 0x9FFFF\<rparr>,
         0x1028 := \<lparr>me_type = 2, addr_start = 0x1000, addr_end = 0x1FFF\<rparr>),
      seq_pool = 0x1000, seq_pos = 80\<rparr>"


end
