(* ===== verification/PmmInit.thy ===== *)
theory PmmInit
  imports PmmIface MmMap
begin

text \<open>
  Setting up the physical memory manager and asking it for the amount of free memory: \<^verbatim>\<open>pmm_push_range\<close>,
  \<^verbatim>\<open>_pmm_get_frame_count\<close>, \<^verbatim>\<open>pmm_init\<close> and \<^verbatim>\<open>pmm_get_available_memory\<close> of \<^verbatim>\<open>kernel/mm/pmm.c\<close>.
\<close>

section \<open>Operations\<close>

definition size_inc :: "nat \<Rightarrow> u64" where
  "size_inc sz = (if sz = SIZE_4K then FRAME_SIZE else if sz = SIZE_2M then FRAME_SIZE_2M
     else if sz = SIZE_1G then FRAME_SIZE_1G else 0)"

text \<open>The loop over the addresses of a range; it does not end for an increment of 0.\<close>

partial_function (option) push_loop :: "nat \<Rightarrow> u64 \<Rightarrow> u64 \<Rightarrow> u64 \<Rightarrow> pmm \<Rightarrow> pmm option" where
  "push_loop sz inc lim addr s =
     (if addr < lim then
        Option.bind (pmm_free' PMM_DEPTH sz (get_zone sz addr) addr s) (push_loop sz inc lim (addr + inc))
      else Some s)"

definition pmm_push_range :: "u64 \<Rightarrow> u64 \<Rightarrow> nat \<Rightarrow> pmm \<Rightarrow> pmm option" where
  "pmm_push_range start lim sz s =
     (let sz = (if sz = SIZE_1G \<and> \<not> enable1gPages s then SIZE_2M else sz)
      in push_loop sz (size_inc sz) lim start s)"

text \<open>
  The traversal of a stack: the top page is switched along the links (the last time to page 0) and
  restored at the end.  The result is a 32-bit count.
\<close>

partial_function (option) frame_count_loop ::
  "nat \<Rightarrow> nat \<Rightarrow> u32 \<Rightarrow> u64 \<Rightarrow> pmm \<Rightarrow> (pmm \<times> u32 \<times> u64) option"
where
  "frame_count_loop sz zone totalFrameCount firstAddr s =
     (let top = pmmData s (SZ_TO_IDX sz zone);
          totalFrameCount = totalFrameCount + ucast (sp_count top);
          nextStackPageExists = (sp_next top \<noteq> 0);
          (s, cur) = stack_switch sz zone (sp_next top) s;
          firstAddr = (if firstAddr = 0 then cur else firstAddr)
      in if \<not> nextStackPageExists then Some (s, totalFrameCount, firstAddr)
         else frame_count_loop sz zone totalFrameCount firstAddr s)"

definition pmm_get_frame_count :: "nat \<Rightarrow> nat \<Rightarrow> pmm \<Rightarrow> (pmm \<times> u32) option" where
  "pmm_get_frame_count sz zone s =
     Option.bind (frame_count_loop sz zone 0 0 s) (\<lambda>(s, totalFrameCount, firstAddr).
       let (s, _) = stack_switch sz zone firstAddr s in Some (s, totalFrameCount))"

definition frame_weight :: "nat \<Rightarrow> u64" where
  "frame_weight sz = (if sz = SIZE_2M then FRAME_SIZE_2M div FRAME_SIZE
     else if sz = SIZE_1G then FRAME_SIZE_1G div FRAME_SIZE else 1)"

definition pmm_get_available_memory :: "pmm \<Rightarrow> (pmm \<times> u64) option" where
  "pmm_get_available_memory s =
     map_option (\<lambda>(s, pageCount). (s, pageCount * FRAME_SIZE))
       (iter (\<lambda>(s, pageCount) (zone, sz).
          map_option (\<lambda>(s, n). (s, pageCount + ucast n * frame_weight sz)) (pmm_get_frame_count sz zone s))
        (List.product [0..<ZONE_COUNT] [0..<SIZE_COUNT]) (s, 0))"

text \<open>
  The division of an available region into aligned ranges, biggest frames in the middle.  \<open>split_count\<close> is
  the loop that finds how many 2 MiB frames at the end are given out in 4 KiB frames.
\<close>

fun split_count :: "nat \<Rightarrow> u64 \<Rightarrow> u64 \<Rightarrow> nat" where
  "split_count n start_2m end_2m =
     (if end_2m - of_nat n * FRAME_SIZE_2M < ZONE_LIMIT_DMA32 + 1 \<or> end_2m - of_nat n * FRAME_SIZE_2M < start_2m
      then (case n of 0 \<Rightarrow> 0 | Suc m \<Rightarrow> split_count m start_2m end_2m) else n)"

declare split_count.simps [simp del]

definition region_end_2m :: "bool \<Rightarrow> mm_map_entry_t \<Rightarrow> u64" where
  "region_end_2m en1g entry =
     (let start_2m = PAGE_ALIGN_2M (addr_start entry);
          end_2m = PAGE_ALIGN_REVERSE_2M (addr_end entry + 1)
      in if \<not> en1g \<and> start_2m \<le> end_2m
         then end_2m - of_nat (split_count 4 start_2m end_2m) * FRAME_SIZE_2M else end_2m)"

definition region_ranges :: "bool \<Rightarrow> mm_map_entry_t \<Rightarrow> (u64 \<times> u64 \<times> nat) list" where
  "region_ranges en1g entry =
     (let start = PAGE_ALIGN (addr_start entry);
          lim = PAGE_ALIGN_REVERSE (addr_end entry + 1);
          start_2m = PAGE_ALIGN_2M (addr_start entry);
          end_2m = region_end_2m en1g entry;
          start_1g = PAGE_ALIGN_1G (addr_start entry);
          end_1g = PAGE_ALIGN_REVERSE_1G (addr_end entry + 1)
      in if start_1g \<le> end_1g then
           (if start \<le> start_2m then [(start, start_2m, SIZE_4K)] else [])
           @ (if end_2m \<le> lim then [(end_2m, lim, SIZE_4K)] else [])
           @ (if start_2m \<le> start_1g then [(start_2m, start_1g, SIZE_2M)] else [])
           @ (if end_1g \<le> end_2m then [(end_1g, end_2m, SIZE_2M)] else [])
           @ [(start_1g, end_1g, SIZE_1G)]
         else if start_2m \<le> end_2m then
           (if start \<le> start_2m then [(start, start_2m, SIZE_4K)] else [])
           @ (if end_2m \<le> lim then [(end_2m, lim, SIZE_4K)] else [])
           @ [(start_2m, end_2m, SIZE_2M)]
         else if start \<le> lim then [(start, lim, SIZE_4K)]
         else [])"

definition pmm_add_region :: "pmm \<Rightarrow> mm_map_entry_t \<Rightarrow> pmm option" where
  "pmm_add_region s entry =
     (if me_type entry \<noteq> MULTIBOOT_MMAP_AVAILABLE then Some s
      else
        (let start = PAGE_ALIGN (addr_start entry);
             lim = PAGE_ALIGN_REVERSE (addr_end entry + 1);
             s = s\<lparr>total4kPages := total4kPages s + (lim - start) div FRAME_SIZE\<rparr>
         in iter (\<lambda>s (a, b, sz). pmm_push_range a b sz s) (region_ranges (enable1gPages s) entry) s))"

text \<open>
  \<open>pmm_phys\<close> are the physical addresses of the ten static pages \<^verbatim>\<open>pmmPhyData\<close>.  The memory map is given by its
  entries in list order.
\<close>

definition clear_page :: "pmm_stack_page_t" where
  "clear_page = \<lparr>sp_next = 0, sp_count = 0, sp_frames = (\<lambda>_. 0)\<rparr>"

definition pmm_load_stacks :: "(nat \<Rightarrow> u64) \<Rightarrow> pmm \<Rightarrow> pmm" where
  "pmm_load_stacks pmm_phys s =
     fold (\<lambda>(sz, zone) s.
       let idx = SZ_TO_IDX sz zone;
           (s, _) = stack_switch sz zone (pmm_phys idx) s
       in set_pmmData idx (\<lambda>_. clear_page) s)
     (List.product [0..<SIZE_COUNT] [0..<ZONE_COUNT]) s"

definition pmm_reserve_loop :: "pmm \<Rightarrow> pmm option" where
  "pmm_reserve_loop s =
     iter (\<lambda>s i. map_option (\<lambda>(s, a, _). set_pmmData STACK_COUNT (\<lambda>l. l\<lparr>sp_frames := (sp_frames l)(i := a)\<rparr>) s)
         (pmm_alloc' PMM_DEPTH SIZE_4K ZONE_STD ZONE_STD s))
       [0..<unat PMM_STACK_PAGE_SIZE] s"

definition pmm_aux_loop :: "pmm \<Rightarrow> pmm option" where
  "pmm_aux_loop s =
     iter (\<lambda>s i. map_option (\<lambda>(s, a, _). s\<lparr>pmmPml1Table :=
           (pmmPml1Table s)(STACK_COUNT + 1 + i := a OR PG_PRESENT OR PG_WRITABLE OR PG_NO_EXEC)\<rparr>)
         (pmm_alloc' PMM_DEPTH SIZE_4K ZONE_STD ZONE_STD s))
       [0..<PMM_AUX_PAGES_COUNT] s"

definition pmm_init_pages :: "(nat \<Rightarrow> u64) \<Rightarrow> pmm \<Rightarrow> pmm" where
  "pmm_init_pages pmm_phys s =
     (let s = pmm_load_stacks pmm_phys s;
          s = s\<lparr>pmmPml1Table := (pmmPml1Table s)
            (STACK_COUNT := pmm_phys STACK_COUNT OR PG_PRESENT OR PG_WRITABLE OR PG_NO_EXEC)\<rparr>
      in set_pmmData STACK_COUNT (\<lambda>l. l\<lparr>sp_count := 0, sp_next := 0\<rparr>) s)"

definition pmm_init_regions :: "mm_map_entry_t list \<Rightarrow> pmm \<Rightarrow> pmm option" where
  "pmm_init_regions memory_map s = iter pmm_add_region memory_map (s\<lparr>total4kPages := 0\<rparr>)"

definition pmm_init :: "(nat \<Rightarrow> u64) \<Rightarrow> mm_map_entry_t list \<Rightarrow> pmm \<Rightarrow> pmm option" where
  "pmm_init pmm_phys memory_map s =
     Option.bind (pmm_init_regions memory_map (pmm_init_pages pmm_phys s)) (\<lambda>s.
     Option.bind (pmm_reserve_loop s) (\<lambda>s.
     (let s = set_pmmData STACK_COUNT (\<lambda>l. l\<lparr>sp_count := PMM_STACK_PAGE_SIZE\<rparr>) s;
          s = s\<lparr>stackPageListInitialized := True\<rparr>
      in pmm_aux_loop s)))"

section \<open>Counting the frames of a stack\<close>

definition stack_frames :: "pages \<Rightarrow> nat" where
  "stack_frames ps = (\<Sum>(p, fs)\<leftarrow>ps. length fs)"

lemma stack_frames_simps [simp]: "stack_frames [] = 0" "stack_frames ((p, fs) # ps) = length fs + stack_frames ps"
  by (simp_all add: stack_frames_def)

lemma stack_switch_again:
  assumes "stack_switch sz zone a s = (s1, o1)"
  shows "stack_switch sz zone b s1 = (fst (stack_switch sz zone b s), pmmPage s1 (SZ_TO_IDX sz zone))"
  using assms by (auto simp: stack_switch_def Let_def pmmPage_def)

lemma frame_count_loop_ok:
  assumes "pmmPage s (SZ_TO_IDX sz zone) = fst (hd ps)" "pchain s ps" "ps \<noteq> []" "\<forall>(p, fs)\<in>set ps. block_ok 0 p \<and> length fs \<le> 510"
  shows "\<exists>s'. frame_count_loop sz zone n f s
      = Some (s', n + of_nat (stack_frames ps), if f = 0 then fst (hd ps) else f)
    \<and> (\<forall>b. fst (stack_switch sz zone b s') = fst (stack_switch sz zone b s))"
  using assms
proof (induction ps arbitrary: s n f)
  case (Cons x ps)
  let ?i = "SZ_TO_IDX sz zone"
  obtain p fs where x: "x = (p, fs)" by (cases x)
  have c: "sp_count (pmmData s ?i) = of_nat (length fs)"
      "sp_next (pmmData s ?i) = (case ps of [] \<Rightarrow> 0 | q # _ \<Rightarrow> fst q)"
    using Cons.prems by (auto simp: x pmmData_def)
  have u: "ucast (of_nat (length fs) :: u64) = (of_nat (length fs) :: u32)"
    using Cons.prems(4) by (simp add: x unsigned_of_nat take_bit_nat_eq_self)
  have p0: "p \<noteq> 0" using Cons.prems(4) x by (auto simp: block_ok_def)
  obtain s1 old where sw: "stack_switch sz zone (sp_next (pmmData s ?i)) s = (s1, old)" by fastforce
  note sws = stack_switch_simps [OF sw refl]
  have again: "fst (stack_switch sz zone b s1) = fst (stack_switch sz zone b s)" for b
    using stack_switch_again [OF sw, of b] by simp
  have old: "old = p" using sws(1) Cons.prems(1) x by simp
  show ?case
  proof (cases ps)
    case Nil
    then show ?thesis
      using c u sw old again by (subst frame_count_loop.simps) (auto simp: x Let_def)
  next
    case (Cons q ps')
    have q: "block_ok 0 (fst q)" using Cons.prems(4) Cons by (cases q) auto
    have nx: "sp_next (pmmData s ?i) = fst q" "fst q \<noteq> 0" using c(2) Cons q by (auto simp: block_ok_def)
    have "pmmPage s1 ?i = fst (hd ps)" using sws(5) nx(1) block_page_addr [OF q] Cons by simp
    moreover have "pchain s1 ps" using Cons.prems(2) x chain_cong [of ps s1 s] sws(2) by auto
    ultimately obtain s' where s': "frame_count_loop sz zone (n + of_nat (length fs)) (if f = 0 then p else f) s1
        = Some (s', n + of_nat (length fs) + of_nat (stack_frames ps),
            if (if f = 0 then p else f) = 0 then fst (hd ps) else (if f = 0 then p else f))"
        "\<forall>b. fst (stack_switch sz zone b s') = fst (stack_switch sz zone b s1)"
      using Cons.IH [of s1 "n + of_nat (length fs)" "if f = 0 then p else f"] Cons.prems(4) Cons by auto
    have "frame_count_loop sz zone n f s = frame_count_loop sz zone (n + of_nat (length fs)) (if f = 0 then p else f) s1"
      using c u sw old nx by (subst frame_count_loop.simps) (simp add: Let_def)
    then show ?thesis using s' again p0 by (auto simp: x add.assoc)
  qed
qed simp

lemma pmm_get_frame_count_ok:
  assumes w: "pmm_wf s v" and z: "sz < 3" "zone < 3"
  shows "\<exists>s'. pmm_get_frame_count sz zone s = Some (s', of_nat (stack_frames (stk v (SZ_TO_IDX sz zone)))) \<and> pmm_wf s' v"
proof -
  let ?i = "SZ_TO_IDX sz zone"
  have i: "?i < 9" using idx_simps [OF z] by simp
  have r: "stack_rep s ?i (stk v ?i)" "stack_ok ?i (stk v ?i)" using w i by (auto simp: pmm_wf_def pmm_rep_def pmm_inv_def)
  obtain s1 where s1: "frame_count_loop sz zone 0 0 s = Some (s1, of_nat (stack_frames (stk v ?i)), fst (hd (stk v ?i)))"
      "\<forall>b. fst (stack_switch sz zone b s1) = fst (stack_switch sz zone b s)"
    using frame_count_loop_ok [of s sz zone "stk v ?i" 0 0] r by (auto simp: stack_rep_def stack_ok_def)
  obtain p fs ps where st: "stk v ?i = (p, fs) # ps" using pmm_wf_stackD [OF w i] by metis
  obtain s2 old where sw: "stack_switch sz zone p s = (s2, old)" by fastforce
  note sws = stack_switch_simps [OF sw refl]
  have p: "block_ok 0 p" using r(2) st by (auto simp: stack_ok_def)
  have "stack_rep s2 ?i (stk v ?i)"
    using r(1) st sws(5) block_page_addr [OF p] chain_cong [of "stk v ?i" s2 s] sws(2) by (auto simp: stack_rep_def)
  then have "pmm_wf s2 (set_stk ?i (stk v ?i) v)"
    by (rule pmm_wf_change [OF w i]) (use sws r(2) pmm_wf_nodup [OF w] in auto)
  then have "pmm_wf s2 v" by simp
  moreover have "fst (stack_switch sz zone p s1) = s2" using s1(2) sw by simp
  ultimately show ?thesis
    using s1(1) st by (auto simp: pmm_get_frame_count_def Let_def split: prod.splits)
qed

definition free_frames :: "pview \<Rightarrow> nat \<Rightarrow> nat \<Rightarrow> nat" where
  "free_frames v sz zone = stack_frames (stk v (SZ_TO_IDX sz zone)) * 512 ^ sz"

lemma available_loop:
  assumes w: "pmm_wf s v" and f: "\<And>i. i < 9 \<Longrightarrow> stack_frames (stk v i) < 2 ^ 32"
    and zs: "\<And>zone sz. (zone, sz) \<in> set zs \<Longrightarrow> zone < 3 \<and> sz < 3"
  shows "\<exists>s'. iter (\<lambda>(s, pageCount) (zone, sz).
          map_option (\<lambda>(s, n). (s, pageCount + ucast n * frame_weight sz)) (pmm_get_frame_count sz zone s)) zs (s, n)
      = Some (s', n + of_nat (\<Sum>(zone, sz)\<leftarrow>zs. free_frames v sz zone)) \<and> pmm_wf s' v"
  using w zs
proof (induction zs arbitrary: s n)
  case (Cons x zs)
  obtain zone sz where x: "x = (zone, sz)" by (cases x)
  have z: "sz < 3" "zone < 3" using Cons.prems(2) [of zone sz] x by auto
  obtain s1 where s1: "pmm_get_frame_count sz zone s = Some (s1, of_nat (stack_frames (stk v (SZ_TO_IDX sz zone))))" "pmm_wf s1 v"
    using pmm_get_frame_count_ok [OF Cons.prems(1) z] by blast
  have u: "ucast (of_nat (stack_frames (stk v (SZ_TO_IDX sz zone))) :: u32) * frame_weight sz
      = (of_nat (free_frames v sz zone) :: u64)"
  proof -
    have "ucast (of_nat (stack_frames (stk v (SZ_TO_IDX sz zone))) :: u32)
        = (of_nat (stack_frames (stk v (SZ_TO_IDX sz zone))) :: u64)"
      using f [OF idx_simps(1) [OF z]] by (simp add: unsigned_of_nat take_bit_nat_eq_self)
    moreover have "frame_weight sz = of_nat (512 ^ sz)"
    proof -
      have "sz = 0 \<or> sz = 1 \<or> sz = 2" using z(1) by linarith
      then show ?thesis by (auto simp: frame_weight_def)
    qed
    ultimately show ?thesis by (simp add: free_frames_def)
  qed
  from Cons.IH [OF s1(2), of "n + of_nat (free_frames v sz zone)"] Cons.prems(2)
  show ?case using s1(1) u by (auto simp: x add.assoc)
qed simp

section \<open>The flags that the allocator never changes\<close>

definition flags :: "pmm \<Rightarrow> bool \<times> bool \<times> u64" where
  "flags s = (enable1gPages s, enable2mPages s, total4kPages s)"

lemma flags_steps [simp]:
  "flags (set_pmmData i f s) = flags s" "flags (reserve_insert a s) = flags s"
  "flags (stack_store i a s) = flags s" "flags (stack_new_top i sz zone a s) = flags s"
  "stack_switch sz zone a s = (s', b) \<Longrightarrow> flags s' = flags s"
  "pmm_acquire_stack_page s = (s', b) \<Longrightarrow> flags s' = flags s"
  by (auto simp: flags_def set_pmmData_def reserve_insert_def stack_store_def stack_new_top_def stack_switch_def
      pmm_acquire_stack_page_def Let_def split: if_splits)

lemma iter_flags:
  assumes "iter f xs s = Some s'" "\<And>s x s'. f s x = Some s' \<Longrightarrow> flags s' = flags s"
  shows "flags s' = flags s"
  using assms(1)
proof (induction xs arbitrary: s)
  case (Cons x xs)
  then show ?case using assms(2) by (fastforce split: Option.bind_splits)
qed simp

lemma pmm_flags:
  "(\<forall>addr s s' b. pmm_try_reserve_as_stack_page n addr s = Some (s', b) \<longrightarrow> flags s' = flags s)
   \<and> (\<forall>sz zone mz s s' r. pmm_alloc' n sz zone mz s = Some (s', r) \<longrightarrow> flags s' = flags s)
   \<and> (\<forall>sz zone a s s'. pmm_free' n sz zone a s = Some s' \<longrightarrow> flags s' = flags s)"
proof (induction n)
  case 0
  then show ?case by (simp add: pmm_try_reserve_as_stack_page.simps pmm_alloc'.simps pmm_free'.simps)
next
  case (Suc n)
  have t: "flags s' = flags s" if "pmm_try_reserve_as_stack_page n addr s = Some (s', b)" for addr s s' b using Suc that by blast
  have a: "flags s' = flags s" if "pmm_alloc' n sz zone mz s = Some (s', r)" for sz zone mz s s' r using Suc that by blast
  have f: "flags s' = flags s" if "pmm_free' n sz zone a s = Some s'" for sz zone a s s' using Suc that by blast
  have fi: "flags s' = flags s" if "iter (\<lambda>s off. pmm_free' n sz (zone off) (a + off) s) xs s = Some s'" for sz zone a xs s s'
    using that by (rule iter_flags) (rule f)
  have 1: "flags s' = flags s" if "pmm_try_reserve_as_stack_page (Suc n) addr s = Some (s', b)" for addr s s' b
    using that by (auto simp: pmm_try_reserve_as_stack_page.simps Let_def dest!: f split: if_splits)
  have 2: "flags s' = flags s" if "pmm_alloc' (Suc n) sz zone mz s = Some (s', r)" for sz zone mz s s' r
    using that
    by (simp add: pmm_alloc'.simps Let_def split: if_splits prod.splits Option.bind_splits)
      (auto dest!: t a f fi)
  have 3: "flags s' = flags s" if "pmm_free' (Suc n) sz zone a s = Some s'" for sz zone a s s'
    using that
    by (simp add: pmm_free'.simps Let_def split: if_splits prod.splits Option.bind_splits)
      (auto dest!: t a f fi)
  show ?case using 1 2 3 by blast
qed

section \<open>Pushing a range of frames\<close>

lemma range_blocks:
  assumes "unat a mod unit_bytes sz = 0" "a \<noteq> 0" "unat a + n * unit_bytes sz \<le> 2 ^ 52" "unat inc = unit_bytes sz" "k < n"
  shows "unat (a + of_nat k * inc) = unat a + k * unit_bytes sz" "block_ok sz (a + of_nat k * inc)"
    "fr sz (a + of_nat k * inc) = mset [unat a div 4096 + k * 512 ^ sz..<unat a div 4096 + k * 512 ^ sz + 512 ^ sz]"
proof -
  have b: "k * unit_bytes sz + unit_bytes sz \<le> n * unit_bytes sz"
    using assms(5) by (metis Suc_leI add.commute mult_Suc mult_le_mono1)
  then have le: "unat a + k * unit_bytes sz + unit_bytes sz \<le> 0x10000000000000" using assms(3) by simp
  have k: "unat (of_nat k :: u64) = k"
  proof -
    have "1 \<le> unit_bytes sz" by (simp add: unit_bytes_def)
    then have "k \<le> k * unit_bytes sz" by (metis mult.right_neutral mult_le_mono2)
    then have "k < 0x10000000000000000" using le by linarith
    then show ?thesis by (simp add: unsigned_of_nat take_bit_nat_eq_self)
  qed
  show u: "unat (a + of_nat k * inc) = unat a + k * unit_bytes sz"
    using le k assms(4) by (simp add: unat_word_ariths)
  have "unit_bytes sz dvd unat a + k * unit_bytes sz" using assms(1) by (auto simp: mod_eq_0_iff_dvd)
  moreover have "a + of_nat k * inc \<noteq> 0" using u assms(2) by (metis add_is_0 unat_0 unat_eq_0)
  ultimately show "block_ok sz (a + of_nat k * inc)" using le u by (simp add: block_ok_def unit_bytes_def mod_eq_0_iff_dvd)
  have "unat a + k * unit_bytes sz = unat a + (k * 512 ^ sz) * 4096" by (simp add: unit_bytes_def)
  then have "unat (a + of_nat k * inc) div 4096 = unat a div 4096 + k * 512 ^ sz"
    unfolding u by (simp only: div_mult_self1)
  then show "fr sz (a + of_nat k * inc) = mset [unat a div 4096 + k * 512 ^ sz..<unat a div 4096 + k * 512 ^ sz + 512 ^ sz]"
    by (simp only: fr_def)
qed

lemma push_loop_ok:
  assumes "pmm_wf s v" "sz < 3" "unat a mod unit_bytes sz = 0" "a \<noteq> 0"
    "unat a + n * unit_bytes sz \<le> 2 ^ 52" and inc: "unat inc = unit_bytes sz"
    and "unat lim = unat a + n * unit_bytes sz"
    "nodup (pmem v + mset [unat a div 4096..<unat a div 4096 + n * 512 ^ sz])"
  shows "\<exists>s' v'. push_loop sz inc lim a s = Some s' \<and> flags s' = flags s
    \<and> gives s v (mset [unat a div 4096..<unat a div 4096 + n * 512 ^ sz]) s' v'"
  using assms(1-5,7-)
proof (induction n arbitrary: a s v)
  case 0
  then have "\<not> a < lim" by (simp add: word_less_nat_alt)
  then show ?case using 0 by (auto simp: push_loop.simps gives_def)
next
  case (Suc n)
  let ?f = "\<lambda>a k. mset [unat a div 4096..<unat a div 4096 + k * 512 ^ sz]"
  have u1: "1 \<le> unit_bytes sz" by (simp add: unit_bytes_def)
  note b0 = range_blocks(2) [OF Suc.prems(3-5) inc, of 0, simplified]
  have na: "unat (a + inc) = unat a + unit_bytes sz"
    using Suc.prems(5) inc by (simp add: unat_word_ariths)
  have nd: "unat (a + inc) div 4096 = unat a div 4096 + 512 ^ sz"
    unfolding na unit_bytes_def by simp
  have split: "?f a (Suc n) = fr sz a + ?f (a + inc) n"
    using upt_add_eq_append [of "unat a div 4096" "unat a div 4096 + 512 ^ sz" "n * 512 ^ sz"]
    unfolding fr_def nd by (simp add: add.assoc del: mset_upt)
  have "get_zone sz a < 3" by (simp add: get_zone_def Let_def)
  moreover have "nodup (pmem v + fr sz a)" using Suc.prems(7) unfolding split by (rule nodup_subset) simp
  ultimately obtain s1 v1 where 1: "pmm_free' PMM_DEPTH sz (get_zone sz a) a s = Some s1" "gives s v (fr sz a) s1 v1"
    using free_any [OF Suc.prems(1,2), of "get_zone sz a" a PMM_DEPTH] b0 by (auto simp: PMM_DEPTH_def)
  have fl: "flags s1 = flags s" using pmm_flags 1(1) by blast
  have "a + inc \<noteq> 0" using na u1 by (metis One_nat_def add_is_0 not_one_le_zero unat_0)
  moreover have "unat (a + inc) mod unit_bytes sz = 0" unfolding na using Suc.prems(3) by simp
  ultimately obtain s' v' where 2: "push_loop sz inc lim (a + inc) s1 = Some s'" "flags s' = flags s1" "gives s1 v1 (?f (a + inc) n) s' v'"
    using Suc.IH [of s1 v1 "a + inc"] Suc.prems 1(2) na unfolding split by (auto simp: gives_def add.assoc)
  have "a < lim" using Suc.prems(6) u1 by (simp add: word_less_nat_alt)
  then have "push_loop sz inc lim a s = Some s'" using 1(1) 2(1) by (simp add: push_loop.simps [of _ _ _ a])
  then show ?case unfolding split using 1(2) 2(2,3) fl by (auto simp: gives_def add.assoc)
qed

end
