(* ===== verification/PmmRegion.thy ===== *)
theory PmmRegion
  imports PmmInit
begin

text \<open>
  The division of the available regions of the memory map into aligned ranges of frames by \<^verbatim>\<open>pmm_init\<close>: the ranges
  tile the region, so that the manager owns every usable page exactly once after start-up.
\<close>

section \<open>Dividing a region\<close>

definition up :: "nat \<Rightarrow> nat \<Rightarrow> nat" where "up k x = k * ((x + (k - 1)) div k)"
definition down :: "nat \<Rightarrow> nat \<Rightarrow> nat" where "down k x = k * (x div k)"

lemma up_down:
  assumes "0 < k"
  shows "x \<le> up k x" "x \<le> k * m \<Longrightarrow> up k x \<le> k * m" "down k x \<le> x" "k * m \<le> x \<Longrightarrow> k * m \<le> down k x"
proof -
  have "x + (k - 1) < k + up k x"
    using mult_div_mod_eq [of k "x + (k - 1)"] mod_less_divisor [OF assms, of "x + (k - 1)"] unfolding up_def by linarith
  then show "x \<le> up k x" using assms by linarith
  show "up k x \<le> k * m" if "x \<le> k * m"
  proof -
    have "(x + (k - 1)) div k \<le> (k * m + (k - 1)) div k" using that by (intro div_le_mono) simp
    also have "\<dots> = m + (k - 1) div k" using assms by (intro div_mult_self4) simp
    also have "\<dots> = m" using assms by simp
    finally show ?thesis unfolding up_def by (rule mult_le_mono2)
  qed
  show "down k x \<le> x" by (simp add: down_def)
  show "k * m \<le> down k x" if "k * m \<le> x"
    using div_le_mono [OF that, of k] assms by (simp add: down_def)
qed

lemma unat_page_align:
  assumes "unat x < 2 ^ 53"
  shows "unat (PAGE_ALIGN x) = up 0x1000 (unat x)" "unat (PAGE_ALIGN_2M x) = up 0x200000 (unat x)"
    "unat (PAGE_ALIGN_1G x) = up 0x40000000 (unat x)"
    "unat (PAGE_ALIGN_REVERSE x) = down 0x1000 (unat x)" "unat (PAGE_ALIGN_REVERSE_2M x) = down 0x200000 (unat x)"
    "unat (PAGE_ALIGN_REVERSE_1G x) = down 0x40000000 (unat x)"
proof -
  have "unat (x + 0xFFF) = unat x + 0xFFF" "unat (x + 0x1FFFFF) = unat x + 0x1FFFFF"
    "unat (x + 0x3FFFFFFF) = unat x + 0x3FFFFFFF"
    using assms by (simp_all add: unat_word_ariths)
  then show "unat (PAGE_ALIGN x) = up 0x1000 (unat x)" "unat (PAGE_ALIGN_2M x) = up 0x200000 (unat x)"
    "unat (PAGE_ALIGN_1G x) = up 0x40000000 (unat x)"
    unfolding PAGE_ALIGN_def PAGE_ALIGN_2M_def PAGE_ALIGN_1G_def page_masks unat_and_not_mask up_def
    by (simp_all flip: minus_mod_eq_mult_div)
qed (simp_all add: unat_page_align_reverse down_def flip: minus_mod_eq_mult_div)

lemma align_order:
  shows "up 0x1000 x \<le> up 0x200000 x" "up 0x200000 x \<le> up 0x40000000 x"
    "down 0x40000000 x \<le> down 0x200000 x" "down 0x200000 x \<le> down 0x1000 x"
proof -
  have e: "up 0x200000 x = 0x1000 * (512 * ((x + 0x1FFFFF) div 0x200000))"
    "up 0x40000000 x = 0x200000 * (512 * ((x + 0x3FFFFFFF) div 0x40000000))"
    "down 0x200000 x = 0x1000 * (512 * (x div 0x200000))"
    "down 0x40000000 x = 0x200000 * (512 * (x div 0x40000000))" by (simp_all add: up_def down_def)
  show "up 0x1000 x \<le> up 0x200000 x"
    using up_down(1) [of "0x200000" x] unfolding e(1) by (intro up_down(2)) simp_all
  show "up 0x200000 x \<le> up 0x40000000 x"
    using up_down(1) [of "0x40000000" x] unfolding e(2) by (intro up_down(2)) simp_all
  show "down 0x40000000 x \<le> down 0x200000 x"
    using up_down(3) [of "0x40000000" x] unfolding e(4) by (intro up_down(4)) simp_all
  show "down 0x200000 x \<le> down 0x1000 x"
    using up_down(3) [of "0x200000" x] unfolding e(3) by (intro up_down(4)) simp_all
qed

text \<open>The page numbers of the range from \<open>a\<close> to \<open>b\<close>, and a range that is made of whole blocks of a size.\<close>

definition pages_of :: "u64 \<Rightarrow> u64 \<Rightarrow> nat multiset" where
  "pages_of a b = mset [unat a div 4096..<unat b div 4096]"

lemma pages_of_join: "a \<le> b \<Longrightarrow> b \<le> c \<Longrightarrow> pages_of a b + pages_of b c = pages_of a c"
proof -
  assume "a \<le> b" "b \<le> c"
  then have "unat a div 4096 \<le> unat b div 4096" "unat b div 4096 \<le> unat c div 4096"
    by (simp_all add: word_le_nat_alt div_le_mono)
  then have "[unat a div 4096..<unat c div 4096] = [unat a div 4096..<unat b div 4096] @ [unat b div 4096..<unat c div 4096]"
    using upt_add_eq_append [of "unat a div 4096" "unat b div 4096" "unat c div 4096 - unat b div 4096"] by simp
  then show ?thesis unfolding pages_of_def by (simp only: mset_append)
qed

definition block_range :: "u64 \<times> u64 \<times> nat \<Rightarrow> bool" where
  "block_range = (\<lambda>(a, b, sz). sz < 3 \<and> 0 < a \<and> a \<le> b \<and> unat b \<le> 2 ^ 52
     \<and> unat a mod unit_bytes sz = 0 \<and> unat b mod unit_bytes sz = 0)"

definition pages_of_ranges :: "(u64 \<times> u64 \<times> nat) list \<Rightarrow> nat multiset" where
  "pages_of_ranges rs = (\<Sum>(a, b, sz)\<leftarrow>rs. pages_of a b)"

lemma pages_of_ranges_simps [simp]:
  "pages_of_ranges [] = {#}" "pages_of_ranges ((a, b, sz) # rs) = pages_of a b + pages_of_ranges rs"
  by (simp_all add: pages_of_ranges_def)

text \<open>The pages of an available region of the memory map.\<close>

definition region_pages :: "mm_map_entry_t \<Rightarrow> nat multiset" where
  "region_pages e = (if me_type e = MULTIBOOT_MMAP_AVAILABLE
     then pages_of (PAGE_ALIGN (addr_start e)) (PAGE_ALIGN_REVERSE (addr_end e + 1)) else {#})"

text \<open>
  Without 1 GiB pages the end of the 2 MiB range is moved down by up to 8 MiB; that is sound only if there are
  as many bytes below it, and if it does not move below the end of the 1 GiB range.
\<close>

definition end_splittable :: "mm_map_entry_t \<Rightarrow> bool" where
  "end_splittable e \<longleftrightarrow>
     (PAGE_ALIGN_2M (addr_start e) \<le> PAGE_ALIGN_REVERSE_2M (addr_end e + 1) \<longrightarrow>
        0x800000 \<le> PAGE_ALIGN_REVERSE_2M (addr_end e + 1)
        \<and> (PAGE_ALIGN_1G (addr_start e) \<le> PAGE_ALIGN_REVERSE_1G (addr_end e + 1) \<longrightarrow>
             PAGE_ALIGN_REVERSE_1G (addr_end e + 1) \<le> PAGE_ALIGN_REVERSE_2M (addr_end e + 1) - 0x800000))"

definition region_ok :: "bool \<Rightarrow> mm_map_entry_t \<Rightarrow> bool" where
  "region_ok en1g e \<longleftrightarrow> me_type e = MULTIBOOT_MMAP_AVAILABLE \<longrightarrow>
     0 < addr_start e \<and> addr_start e \<le> addr_end e \<and> unat (addr_end e) < 2 ^ 52 \<and> (en1g \<or> end_splittable e)"

lemma split_count_bounds:
  "split_count n a b \<le> n" "0 < split_count n a b \<Longrightarrow> a \<le> b - of_nat (split_count n a b) * 0x200000"
proof (induction n)
  case 0
  { case 1 show ?case by (simp add: split_count.simps) next case 2 then show ?case by (auto simp: split_count.simps split: if_splits) }
next
  case (Suc n)
  { case 1 show ?case using Suc by (simp add: split_count.simps [of "Suc n"])
    next case 2 then show ?case using Suc by (auto simp: split_count.simps [of "Suc n"] not_less split: if_splits) }
qed

lemma unat_end_2m:
  assumes "n \<le> 4" "0x800000 \<le> b"
  shows "unat (b - of_nat n * 0x200000 :: u64) = unat b - n * 0x200000" "n * 0x200000 \<le> unat b"
    "b - 0x800000 \<le> b - of_nat n * 0x200000" "b - of_nat n * 0x200000 \<le> b"
proof -
  have b: "0x800000 \<le> unat b" using assms(2) by (simp add: word_le_nat_alt)
  have u: "unat (of_nat n * 0x200000 :: u64) = n * 0x200000"
    using assms(1) by (simp add: unat_word_ariths unsigned_of_nat take_bit_nat_eq_self)
  show "n * 0x200000 \<le> unat b" using b assms(1) by linarith
  then show e: "unat (b - of_nat n * 0x200000) = unat b - n * 0x200000"
    using u by (subst unat_sub) (simp_all add: word_le_nat_alt)
  have "unat (b - 0x800000) = unat b - 0x800000" using assms(2) by (subst unat_sub) simp_all
  then show "b - 0x800000 \<le> b - of_nat n * 0x200000" "b - of_nat n * 0x200000 \<le> b"
    using e assms(1) by (simp_all add: word_le_nat_alt)
qed


lemma region_end_2m_ok:
  assumes "en1g \<or> end_splittable e"
    and s2: "s2 = PAGE_ALIGN_2M (addr_start e)" and e2: "e2 = PAGE_ALIGN_REVERSE_2M (addr_end e + 1)"
  shows "region_end_2m en1g e \<le> e2" "s2 \<le> e2 \<Longrightarrow> s2 \<le> region_end_2m en1g e" "\<not> s2 \<le> e2 \<Longrightarrow> region_end_2m en1g e = e2"
    "PAGE_ALIGN_1G (addr_start e) \<le> PAGE_ALIGN_REVERSE_1G (addr_end e + 1) \<Longrightarrow> s2 \<le> e2 \<Longrightarrow>
       PAGE_ALIGN_REVERSE_1G (addr_end e + 1) \<le> e2 \<Longrightarrow> PAGE_ALIGN_REVERSE_1G (addr_end e + 1) \<le> region_end_2m en1g e"
    "unat (region_end_2m en1g e) mod 0x200000 = 0"
proof -
  have m: "unat e2 mod 0x200000 = 0" by (simp add: e2 unat_page_align_reverse flip: minus_mod_eq_mult_div)
  let ?n = "split_count 4 s2 e2"
  have r: "region_end_2m en1g e = (if \<not> en1g \<and> s2 \<le> e2 then e2 - of_nat ?n * 0x200000 else e2)"
    by (simp add: region_end_2m_def Let_def s2 e2)
  have n: "?n \<le> 4" "0 < ?n \<Longrightarrow> s2 \<le> e2 - of_nat ?n * 0x200000" using split_count_bounds [of 4 s2 e2] by auto
  have b: "\<not> en1g \<Longrightarrow> s2 \<le> e2 \<Longrightarrow> 0x800000 \<le> e2" using assms by (auto simp: end_splittable_def)
  note u = unat_end_2m [OF n(1) b]
  show "region_end_2m en1g e \<le> e2" "\<not> s2 \<le> e2 \<Longrightarrow> region_end_2m en1g e = e2" using u(4) by (auto simp: r)
  show "s2 \<le> e2 \<Longrightarrow> s2 \<le> region_end_2m en1g e" using n(2) by (cases "?n = 0") (auto simp: r)
  show "PAGE_ALIGN_REVERSE_1G (addr_end e + 1) \<le> region_end_2m en1g e"
    if "PAGE_ALIGN_1G (addr_start e) \<le> PAGE_ALIGN_REVERSE_1G (addr_end e + 1)" "s2 \<le> e2" "PAGE_ALIGN_REVERSE_1G (addr_end e + 1) \<le> e2"
    using that assms u(3) by (auto simp: r end_splittable_def)
  have "(unat e2 - ?n * 0x200000) mod 0x200000 = 0"
    using m by (metis dvd_diff_nat dvd_triv_right mod_eq_0_iff_dvd)
  then show "unat (region_end_2m en1g e) mod 0x200000 = 0" using u(1) m by (auto simp: r)
qed

lemma ranges_tile:
  assumes "s \<le> s2" "s2 \<le> e2" "e2 \<le> l"
  shows "pages_of_ranges [(s, s2, SIZE_4K), (e2, l, SIZE_4K), (s2, e2, SIZE_2M)] = pages_of s l"
    and "s2 \<le> s1 \<Longrightarrow> s1 \<le> e1 \<Longrightarrow> e1 \<le> e2 \<Longrightarrow> pages_of_ranges [(s, s2, SIZE_4K), (e2, l, SIZE_4K), (s2, s1, SIZE_2M),
      (e1, e2, SIZE_2M), (s1, e1, SIZE_1G)] = pages_of s l"
proof -
  have "s2 \<le> l" using assms by (simp add: order.trans [of _ e2])
  then have l: "pages_of s l = pages_of s s2 + (pages_of s2 e2 + pages_of e2 l)"
    using pages_of_join [OF assms(1), of l] pages_of_join [OF assms(2,3)] by simp
  then show "pages_of_ranges [(s, s2, SIZE_4K), (e2, l, SIZE_4K), (s2, e2, SIZE_2M)] = pages_of s l" by (simp add: ac_simps)
  assume a: "s2 \<le> s1" "s1 \<le> e1" "e1 \<le> e2"
  then have "s2 \<le> e1" by (rule_tac order.trans)
  then have "pages_of s2 e2 = pages_of s2 s1 + pages_of s1 e1 + pages_of e1 e2"
    using pages_of_join [OF a(1,2)] pages_of_join [OF _ a(3), of s2] by simp
  with l show "pages_of_ranges [(s, s2, SIZE_4K), (e2, l, SIZE_4K), (s2, s1, SIZE_2M), (e1, e2, SIZE_2M), (s1, e1, SIZE_1G)]
    = pages_of s l" by (simp add: ac_simps)
qed

lemma mod_coarse: "(x::nat) mod 0x200000 = 0 \<Longrightarrow> x mod 0x1000 = 0" "x mod 0x40000000 = 0 \<Longrightarrow> x mod 0x200000 = 0"
  using mod_mod_cancel [of "0x1000" "0x200000" x] mod_mod_cancel [of "0x200000" "0x40000000" x] by auto

lemma block_rangeI:
  assumes "unat l \<le> 2 ^ 52" "0 < s" "s \<le> a" "a \<le> b" "b \<le> l" "sz < 3"
    "unat a mod unit_bytes sz = 0" "unat b mod unit_bytes sz = 0"
  shows "block_range (a, b, sz)"
proof -
  have "unat b \<le> 2 ^ 52" using assms(1,5) unfolding word_le_nat_alt by (rule_tac order.trans)
  moreover have "0 < a" using assms(2,3) by (rule less_le_trans)
  ultimately show ?thesis using assms(4,6-) by (simp add: block_range_def)
qed

lemma ranges_blocks:
  assumes "0 < s" "s \<le> s2" "s2 \<le> e2" "e2 \<le> l" "unat l \<le> 2 ^ 52"
    and m: "unat s mod 0x1000 = 0" "unat l mod 0x1000 = 0" "unat s2 mod 0x200000 = 0" "unat e2 mod 0x200000 = 0"
  shows "list_all block_range [(s, s2, SIZE_4K), (e2, l, SIZE_4K), (s2, e2, SIZE_2M)]"
    and "s2 \<le> s1 \<Longrightarrow> s1 \<le> e1 \<Longrightarrow> e1 \<le> e2 \<Longrightarrow> unat s1 mod 0x40000000 = 0 \<Longrightarrow> unat e1 mod 0x40000000 = 0 \<Longrightarrow>
      list_all block_range [(s, s2, SIZE_4K), (e2, l, SIZE_4K), (s2, s1, SIZE_2M), (e1, e2, SIZE_2M), (s1, e1, SIZE_1G)]"
proof -
  note I = block_rangeI [OF assms(5,1)]
  have ub: "unit_bytes 0 = 0x1000" "unit_bytes 1 = 0x200000" "unit_bytes 2 = 0x40000000" by (simp_all add: unit_bytes_def)
  note c = mod_coarse(1) [OF m(3)] mod_coarse(1) [OF m(4)]
  have o: "s2 \<le> l" "s \<le> e2" using assms(2-4) by (auto intro: order.trans)
  have r: "block_range (s, s2, SIZE_4K)" "block_range (e2, l, SIZE_4K)"
    using I [OF order.refl assms(2) o(1), of 0] I [OF o(2) assms(4) order.refl, of 0] m(1,2) c by (simp_all add: ub)
  moreover have "block_range (s2, e2, SIZE_2M)"
    using I [OF assms(2-4), of 1] m(3,4) by (simp add: ub [unfolded One_nat_def])
  ultimately show "list_all block_range [(s, s2, SIZE_4K), (e2, l, SIZE_4K), (s2, e2, SIZE_2M)]" by simp
  assume a: "s2 \<le> s1" "s1 \<le> e1" "e1 \<le> e2" "unat s1 mod 0x40000000 = 0" "unat e1 mod 0x40000000 = 0"
  have o2: "s1 \<le> l" "s \<le> e1" "s \<le> s1" "e1 \<le> l" using assms(2-4) a(1-3) by (auto intro: order.trans)
  note d = mod_coarse(2) [OF a(4)] mod_coarse(2) [OF a(5)]
  have "block_range (s2, s1, SIZE_2M)" "block_range (e1, e2, SIZE_2M)" "block_range (s1, e1, SIZE_1G)"
    using I [OF assms(2) a(1) o2(1), of 1] I [OF o2(2) a(3) assms(4), of 1] I [OF o2(3) a(2) o2(4), of 2] a(4,5) d m(3,4)
    by (simp_all add: ub [unfolded One_nat_def])
  with r show "list_all block_range [(s, s2, SIZE_4K), (e2, l, SIZE_4K), (s2, s1, SIZE_2M), (e1, e2, SIZE_2M), (s1, e1, SIZE_1G)]"
    by simp
qed

lemma unat_align_mod:
  "unat (PAGE_ALIGN x) mod 0x1000 = 0" "unat (PAGE_ALIGN_2M x) mod 0x200000 = 0" "unat (PAGE_ALIGN_1G x) mod 0x40000000 = 0"
  "unat (PAGE_ALIGN_REVERSE x) mod 0x1000 = 0" "unat (PAGE_ALIGN_REVERSE_1G x) mod 0x40000000 = 0"
  unfolding PAGE_ALIGN_def PAGE_ALIGN_2M_def PAGE_ALIGN_1G_def PAGE_ALIGN_REVERSE_def PAGE_ALIGN_REVERSE_1G_def page_masks unat_and_not_mask
  by (simp_all flip: minus_mod_eq_mult_div)

lemma region_bounds:
  assumes "region_ok en1g e" "me_type e = MULTIBOOT_MMAP_AVAILABLE"
  shows "0 < PAGE_ALIGN (addr_start e)" "unat (PAGE_ALIGN_REVERSE (addr_end e + 1)) \<le> 2 ^ 52"
    "PAGE_ALIGN (addr_start e) \<le> PAGE_ALIGN_2M (addr_start e)" "PAGE_ALIGN_2M (addr_start e) \<le> PAGE_ALIGN_1G (addr_start e)"
    "PAGE_ALIGN_REVERSE_1G (addr_end e + 1) \<le> PAGE_ALIGN_REVERSE_2M (addr_end e + 1)"
    "PAGE_ALIGN_REVERSE_2M (addr_end e + 1) \<le> PAGE_ALIGN_REVERSE (addr_end e + 1)"
    "unat (PAGE_ALIGN (addr_start e)) mod 0x1000 = 0" "unat (PAGE_ALIGN_REVERSE (addr_end e + 1)) mod 0x1000 = 0"
    "unat (PAGE_ALIGN_2M (addr_start e)) mod 0x200000 = 0" "unat (PAGE_ALIGN_1G (addr_start e)) mod 0x40000000 = 0"
    "unat (PAGE_ALIGN_REVERSE_1G (addr_end e + 1)) mod 0x40000000 = 0"
proof -
  let ?S = "addr_start e" and ?E = "addr_end e + 1"
  have b: "0 < ?S" "?S \<le> addr_end e" "unat (addr_end e) < 2 ^ 52" using assms by (auto simp: region_ok_def)
  have E: "unat ?E \<le> 0x10000000000000" "unat ?S < 0x10000000000000"
    using b by (simp_all add: unat_word_ariths word_le_nat_alt)
  have S: "unat ?S < 2 ^ 53" "unat ?E < 2 ^ 53" using E by simp_all
  note ua = unat_page_align(1-3) [OF S(1)] unat_page_align(4-6) [OF S(2)]
  show "PAGE_ALIGN ?S \<le> PAGE_ALIGN_2M ?S" "PAGE_ALIGN_2M ?S \<le> PAGE_ALIGN_1G ?S"
    "PAGE_ALIGN_REVERSE_1G ?E \<le> PAGE_ALIGN_REVERSE_2M ?E" "PAGE_ALIGN_REVERSE_2M ?E \<le> PAGE_ALIGN_REVERSE ?E"
    unfolding word_le_nat_alt ua by (rule align_order)+
  show "0 < PAGE_ALIGN ?S"
    unfolding word_less_nat_alt ua using up_down(1) [of "0x1000" "unat ?S"] b(1) by (simp add: word_less_nat_alt)
  show "unat (PAGE_ALIGN_REVERSE ?E) \<le> 2 ^ 52" unfolding ua using up_down(3) [of "0x1000" "unat ?E"] E(1) by simp
qed (rule unat_align_mod)+

lemma region_ranges_ok:
  assumes ok: "region_ok en1g e" "me_type e = MULTIBOOT_MMAP_AVAILABLE"
  shows "pages_of_ranges (region_ranges en1g e) = region_pages e" "list_all block_range (region_ranges en1g e)"
proof -
  define s where "s = PAGE_ALIGN (addr_start e)"
  define l where "l = PAGE_ALIGN_REVERSE (addr_end e + 1)"
  define s2 where "s2 = PAGE_ALIGN_2M (addr_start e)"
  define e2 where "e2 = PAGE_ALIGN_REVERSE_2M (addr_end e + 1)"
  define s1 where "s1 = PAGE_ALIGN_1G (addr_start e)"
  define e1 where "e1 = PAGE_ALIGN_REVERSE_1G (addr_end e + 1)"
  define d where "d = region_end_2m en1g e"
  note ds = s_def l_def s2_def e2_def s1_def e1_def d_def
  have sp: "en1g \<or> end_splittable e" using ok by (auto simp: region_ok_def)
  note rb = region_bounds [OF ok, folded ds] and rd = region_end_2m_ok [OF sp refl refl, folded ds]
  have t: "s \<le> s1" "d \<le> l" using rb(3,4,6) rd(1) by auto
  have o: "s2 \<le> d" if "s2 \<le> e2" using rd(2) that by simp
  have o1: "s2 \<le> e2" "e1 \<le> d" if "s1 \<le> e1" using that rb(4,5) rd(4) by (auto intro: order.trans)
  have c: "s2 \<le> d \<longleftrightarrow> s2 \<le> e2" using o rd(1) by (auto intro: order.trans)
  have rr: "region_ranges en1g e = (if s1 \<le> e1 then
           [(s, s2, SIZE_4K), (d, l, SIZE_4K), (s2, s1, SIZE_2M), (e1, d, SIZE_2M), (s1, e1, SIZE_1G)]
         else if s2 \<le> e2 then [(s, s2, SIZE_4K), (d, l, SIZE_4K), (s2, d, SIZE_2M)]
         else if s \<le> l then [(s, l, SIZE_4K)] else [])"
    using rb(3,4) t o1 c unfolding region_ranges_def Let_def ds [symmetric] by simp
  have ne: "pages_of s l = {#}" if "\<not> s \<le> l"
    using that div_le_mono [of "unat l" "unat s" 4096] by (simp add: pages_of_def word_le_nat_alt)
  have "pages_of_ranges (region_ranges en1g e) = pages_of s l \<and> list_all block_range (region_ranges en1g e)" if "s1 \<le> e1"
    unfolding rr using that ranges_tile(2) [OF rb(3) o [OF o1(1)] t(2) rb(4)] o1(2)
      ranges_blocks(2) [OF rb(1,3) o [OF o1(1)] t(2) rb(2,7-9) rd(5) rb(4)] rb(10,11) by simp
  moreover have "pages_of_ranges (region_ranges en1g e) = pages_of s l \<and> list_all block_range (region_ranges en1g e)"
    if "\<not> s1 \<le> e1" "s2 \<le> e2"
    unfolding rr using that ranges_tile(1) [OF rb(3) o t(2)] ranges_blocks(1) [OF rb(1,3) o t(2) rb(2,7-9) rd(5)] by simp
  moreover have "pages_of_ranges (region_ranges en1g e) = pages_of s l \<and> list_all block_range (region_ranges en1g e)"
    if "\<not> s1 \<le> e1" "\<not> s2 \<le> e2"
    unfolding rr using that ne rb(1,2,7,8) by (simp add: block_range_def unit_bytes_def)
  ultimately show "pages_of_ranges (region_ranges en1g e) = region_pages e" "list_all block_range (region_ranges en1g e)"
    using ok(2) by (auto simp: region_pages_def ds)
qed


section \<open>Adding the regions of the memory map\<close>

lemma pmm_push_range_ok:
  assumes w: "pmm_wf s v" and r: "block_range (a, b, sz)" and d: "nodup (pmem v + pages_of a b)"
  shows "\<exists>s' v'. pmm_push_range a b sz s = Some s' \<and> gives s v (pages_of a b) s' v' \<and> flags s' = flags s"
proof -
  have p: "\<exists>s' v'. push_loop z (size_inc z) b a s = Some s' \<and> flags s' = flags s \<and> gives s v (pages_of a b) s' v'"
    if z: "z < 3" "unat a mod unit_bytes z = 0" "unat b mod unit_bytes z = 0" for z
  proof -
    have le: "unat a \<le> unat b" "unat b \<le> 2 ^ 52" "a \<noteq> 0" using r by (auto simp: block_range_def word_le_nat_alt)
    define n where "n = (unat b - unat a) div unit_bytes z"
    have "unit_bytes z dvd unat b - unat a" using z by (simp add: dvd_diff_nat mod_eq_0_iff_dvd)
    then have n: "unat b = unat a + n * unit_bytes z" using le by (simp add: n_def)
    then have "unat b = unat a + (n * 512 ^ z) * 4096" by (simp add: unit_bytes_def)
    then have e: "unat b div 4096 = unat a div 4096 + n * 512 ^ z" by (simp only: div_mult_self1)
    have i: "unat (size_inc z) = unit_bytes z"
    proof -
      consider "z = 0" | "z = 1" | "z = 2" using z(1) by linarith
      then show ?thesis by cases (simp_all add: size_inc_def unit_bytes_def)
    qed
    show ?thesis
      using push_loop_ok [OF w z(1,2) le(3) _ i n] le(2) n d e by (simp add: pages_of_def del: mset_upt)
  qed
  have c: "sz = 2 \<Longrightarrow> unat x mod unit_bytes 2 = 0 \<Longrightarrow> unat x mod unit_bytes 1 = 0" for x :: u64
    using mod_coarse(2) by (simp add: unit_bytes_def)
  show ?thesis
  proof (cases "sz = 2 \<and> \<not> enable1gPages s")
    case True
    then show ?thesis using p [of 1] r c [of a] c [of b] by (auto simp: pmm_push_range_def block_range_def)
  next
    case False
    then show ?thesis using p [of sz] r by (auto simp: pmm_push_range_def block_range_def)
  qed
qed

lemma push_ranges_ok:
  assumes "pmm_wf s v" "list_all block_range rs" "nodup (pmem v + pages_of_ranges rs)"
  shows "\<exists>s' v'. iter (\<lambda>s (a, b, sz). pmm_push_range a b sz s) rs s = Some s'
    \<and> gives s v (pages_of_ranges rs) s' v' \<and> flags s' = flags s"
  using assms
proof (induction rs arbitrary: s v)
  case Nil
  then show ?case by (auto simp: gives_def)
next
  case (Cons r rs)
  obtain a b sz where r: "r = (a, b, sz)" by (cases r)
  have "nodup (pmem v + pages_of a b)" using Cons.prems(3) by (rule nodup_subset) (simp add: r)
  then obtain s1 v1 where 1: "pmm_push_range a b sz s = Some s1" "gives s v (pages_of a b) s1 v1" "flags s1 = flags s"
    using pmm_push_range_ok [OF Cons.prems(1)] Cons.prems(2) r by force
  have "pmm_wf s1 v1" "nodup (pmem v1 + pages_of_ranges rs)"
    using 1(2) Cons.prems(3) r by (auto simp: gives_def add.assoc)
  then obtain s' v' where "iter (\<lambda>s (a, b, sz). pmm_push_range a b sz s) rs s1 = Some s'"
      "gives s1 v1 (pages_of_ranges rs) s' v'" "flags s' = flags s1"
    using Cons.IH Cons.prems(2) by fastforce
  then show ?case using 1 by (auto simp: r gives_def add.assoc)
qed

lemma pmm_wf_total: "pmm_wf (s\<lparr>total4kPages := n\<rparr>) v = pmm_wf s v"
proof -
  have p: "pmmPage (s\<lparr>total4kPages := n\<rparr>) i = pmmPage s i" for i by (simp add: pmmPage_def)
  have c: "pchain (s\<lparr>total4kPages := n\<rparr>) ps = pchain s ps" for ps by (induction ps) (auto split: list.splits)
  show ?thesis by (simp add: pmm_wf_def pmm_rep_def stack_rep_def rsv_rep_def p c)
qed

lemma pmm_add_region_ok:
  assumes "pmm_wf s v" "region_ok (enable1gPages s) e" "nodup (pmem v + region_pages e)"
  shows "\<exists>s' v'. pmm_add_region s e = Some s' \<and> gives s v (region_pages e) s' v' \<and> enable1gPages s' = enable1gPages s"
proof (cases "me_type e = MULTIBOOT_MMAP_AVAILABLE")
  case False
  then show ?thesis using assms by (auto simp: pmm_add_region_def region_pages_def gives_def)
next
  case True
  let ?n = "total4kPages s + (PAGE_ALIGN_REVERSE (addr_end e + 1) - PAGE_ALIGN (addr_start e)) div FRAME_SIZE"
  note r = region_ranges_ok [OF assms(2) True]
  have "pmm_wf (s\<lparr>total4kPages := ?n\<rparr>) v" using assms(1) by (simp only: pmm_wf_total)
  from push_ranges_ok [OF this r(2)] r(1) assms(3) True show ?thesis
    by (auto simp: pmm_add_region_def Let_def gives_def flags_def)
qed

lemma pmm_init_regions_ok:
  assumes "pmm_wf s v" "\<forall>e\<in>set es. region_ok (enable1gPages s) e" "nodup (pmem v + (\<Sum>e\<leftarrow>es. region_pages e))"
  shows "\<exists>s' v'. iter pmm_add_region es s = Some s' \<and> gives s v (\<Sum>e\<leftarrow>es. region_pages e) s' v'"
  using assms
proof (induction es arbitrary: s v)
  case Nil
  then show ?case by (auto simp: gives_def)
next
  case (Cons e es)
  have "nodup (pmem v + region_pages e)" using Cons.prems(3) by (rule nodup_subset) simp
  then obtain s1 v1 where 1: "pmm_add_region s e = Some s1" "gives s v (region_pages e) s1 v1" "enable1gPages s1 = enable1gPages s"
    using pmm_add_region_ok [OF Cons.prems(1)] Cons.prems(2) by force
  then have "pmm_wf s1 v1" "nodup (pmem v1 + (\<Sum>e\<leftarrow>es. region_pages e))"
    using Cons.prems(3) by (auto simp: gives_def add.assoc)
  with Cons.IH [of s1 v1] Cons.prems(2) 1(3) show ?case using 1 by (auto simp: gives_def add.assoc)
qed


section \<open>The initial pages\<close>

definition load_page :: "(nat \<Rightarrow> u64) \<Rightarrow> pmm \<Rightarrow> nat \<Rightarrow> pmm" where
  "load_page pmm_phys s i = s\<lparr>pmmPml1Table := (pmmPml1Table s)(i := pmm_phys i OR PG_PRESENT OR PG_WRITABLE OR PG_NO_EXEC),
     phys := (phys s)(pmm_phys i := clear_page)\<rparr>"

lemma page_flags: "block_ok 0 a \<Longrightarrow> (a OR PG_PRESENT OR PG_WRITABLE OR PG_NO_EXEC) AND PG_ADDR_MASK = a"
  using block_page_addr by (simp add: bit.conj_disj_distrib2 PG_PRESENT_def PG_WRITABLE_def PG_NO_EXEC_def PG_ADDR_MASK_def)

lemma load_step:
  assumes "block_ok 0 (pmm_phys (SZ_TO_IDX sz zone))"
  shows "set_pmmData (SZ_TO_IDX sz zone) (\<lambda>_. clear_page) (fst (stack_switch sz zone (pmm_phys (SZ_TO_IDX sz zone)) s))
    = load_page pmm_phys s (SZ_TO_IDX sz zone)"
  using page_flags [OF assms] by (simp add: set_pmmData_def stack_switch_def Let_def pmmPage_def load_page_def)

lemma pmm_load_stacks_eq:
  assumes "\<forall>i<9. block_ok 0 (pmm_phys i)"
  shows "pmm_load_stacks pmm_phys s = fold (\<lambda>i s. load_page pmm_phys s i) [0..<9] s"
proof -
  let ?xs = "List.product [0..<3] [0..<3] :: (nat \<times> nat) list"
  have "pmm_load_stacks pmm_phys s = fold ((\<lambda>i s. load_page pmm_phys s i) \<circ> (\<lambda>(sz, zone). SZ_TO_IDX sz zone)) ?xs s"
    unfolding pmm_load_stacks_def
  proof (rule fold_cong)
    fix x assume "x \<in> set ?xs"
    then obtain sz zone where x: "x = (sz, zone)" "sz < 3" "zone < 3" by auto
    then have "block_ok 0 (pmm_phys (SZ_TO_IDX sz zone))" using assms idx_simps(1) by blast
    then show "(\<lambda>(sz, zone) s. let idx = SZ_TO_IDX sz zone; (s, _) = stack_switch sz zone (pmm_phys idx) s
        in set_pmmData idx (\<lambda>_. clear_page) s) x = ((\<lambda>i s. load_page pmm_phys s i) \<circ> (\<lambda>(sz, zone). SZ_TO_IDX sz zone)) x"
      using load_step by (auto simp: x Let_def case_prod_unfold)
  qed simp_all
  also have "\<dots> = fold (\<lambda>i s. load_page pmm_phys s i) (map (\<lambda>(sz, zone). SZ_TO_IDX sz zone) ?xs) s" by (simp only: fold_map)
  also have "map (\<lambda>(sz, zone). SZ_TO_IDX sz zone) ?xs = [0..<9]" by (simp add: SZ_TO_IDX_def upt_rec)
  finally show ?thesis .
qed

lemma load_pages:
  "fold (\<lambda>i s. load_page pmm_phys s i) xs s = s\<lparr>
     pmmPml1Table := (\<lambda>i. if i \<in> set xs then pmm_phys i OR PG_PRESENT OR PG_WRITABLE OR PG_NO_EXEC else pmmPml1Table s i),
     phys := (\<lambda>p. if p \<in> pmm_phys ` set xs then clear_page else phys s p)\<rparr>"
  by (induction xs rule: rev_induct) (auto simp: load_page_def fun_eq_iff)

definition boot_view :: "(nat \<Rightarrow> u64) \<Rightarrow> pview" where
  "boot_view pmm_phys = \<lparr>stk = (\<lambda>i. [(pmm_phys i, [])]), rsv = [], rpage = pmm_phys 9\<rparr>"

definition boot_pages :: "(nat \<Rightarrow> u64) \<Rightarrow> nat multiset" where
  "boot_pages pmm_phys = (\<Sum>i\<in>{..<10}. fr 0 (pmm_phys i))"

lemma pmem_boot_view: "pmem (boot_view pmm_phys) = boot_pages pmm_phys"
proof -
  have "{..<10} = insert 9 {..<9::nat}" by auto
  then show ?thesis by (simp add: pmem_def boot_view_def boot_pages_def)
qed

lemma pmm_init_pages_ok:
  assumes "\<forall>i<10. block_ok 0 (pmm_phys i)" "nodup (boot_pages pmm_phys)" "\<not> stackPageListInitialized s"
  shows "pmm_wf (pmm_init_pages pmm_phys s) (boot_view pmm_phys)"
proof -
  have ne: "pmm_phys i \<noteq> pmm_phys 9" if "i < 9" for i
  proof
    assume e: "pmm_phys i = pmm_phys 9"
    have s: "{..<10} = {..<10} - {i, 9} \<union> {i, 9::nat}" using that by auto
    have "boot_pages pmm_phys = (\<Sum>i\<in>{..<10} - {i, 9}. fr 0 (pmm_phys i)) + (fr 0 (pmm_phys i) + fr 0 (pmm_phys 9))"
      unfolding boot_pages_def using that by (subst s, subst sum.union_disjoint) auto
    then have "nodup (fr 0 (pmm_phys i) + fr 0 (pmm_phys 9))" using assms(2) nodup_right by metis
    then have "count (fr 0 (pmm_phys i) + fr 0 (pmm_phys 9)) (unat (pmm_phys 9) div 4096) \<le> 1" unfolding nodup_def by blast
    then show False by (simp add: e fr_4K)
  qed
  let ?s = "pmm_init_pages pmm_phys s"
  have b: "block_ok 0 (pmm_phys i)" if "i < 10" for i using assms(1) that by blast
  have l: "pmm_load_stacks pmm_phys s = fold (\<lambda>i s. load_page pmm_phys s i) [0..<9] s"
    by (rule pmm_load_stacks_eq) (use assms(1) in auto)
  have t: "pmmPml1Table ?s i = pmm_phys i OR PG_PRESENT OR PG_WRITABLE OR PG_NO_EXEC" if "i < 10" for i
    using that by (auto simp: pmm_init_pages_def l load_pages Let_def set_pmmData_def STACK_COUNT_def)
  have p: "pmmPage ?s i = pmm_phys i" if "i < 10" for i
    using page_flags [OF b [OF that]] by (simp add: pmmPage_def t that)
  have 9: "(pmm_phys 9 OR PG_PRESENT OR PG_WRITABLE OR PG_NO_EXEC) AND PG_ADDR_MASK = pmm_phys 9"
    by (rule page_flags) (simp add: b)
  have c: "phys ?s (pmm_phys i) = clear_page" if "i < 9" for i
    using that ne [OF that] 9 by (auto simp: pmm_init_pages_def l load_pages Let_def set_pmmData_def STACK_COUNT_def pmmPage_def)
  have c9: "sp_count (phys ?s (pmm_phys 9)) = 0"
    using 9 by (simp add: pmm_init_pages_def l load_pages Let_def set_pmmData_def STACK_COUNT_def pmmPage_def)
  have "pmm_rep ?s (boot_view pmm_phys)"
    using p c c9 by (simp add: pmm_rep_def stack_rep_def rsv_rep_def boot_view_def clear_page_def)
  moreover have "pmm_inv (boot_view pmm_phys)"
    using b assms(2) by (simp add: pmm_inv_def pmem_boot_view stack_ok_def rsv_ok_def) (simp add: boot_view_def)
  ultimately show ?thesis by (simp add: pmm_wf_def boot_view_def)
qed


section \<open>Properties\<close>


lemma count_pages_of: "count (pages_of a b) x = (if unat a div 4096 \<le> x \<and> x < unat b div 4096 then 1 else 0)"
  by (simp add: pages_of_def count_mset_set')

lemmas region_division_eval = region_ranges_def region_end_2m_def Let_def split_count.simps ZONE_LIMIT_DMA32_def
  PAGE_ALIGN_def PAGE_ALIGN_REVERSE_def PAGE_ALIGN_2M_def PAGE_ALIGN_REVERSE_2M_def PAGE_ALIGN_1G_def PAGE_ALIGN_REVERSE_1G_def

definition boot_example :: "nat \<Rightarrow> u64" where
  "boot_example i = 0x100000 + of_nat i * 0x1000"

definition region_example :: mm_map_entry_t where
  "region_example = \<lparr>me_type = MULTIBOOT_MMAP_AVAILABLE, addr_start = 0x200800, addr_end = 0x203FFF\<rparr>"

lemma boot_example_page: "i < 10 \<Longrightarrow> unat (boot_example i) = 0x100000 + i * 0x1000"
  by (simp add: boot_example_def unat_word_ariths unsigned_of_nat take_bit_nat_eq_self)

lemma boot_example_ok: "\<forall>i<10. block_ok 0 (boot_example i)"
proof (intro allI impI)
  fix i :: nat assume i: "i < 10"
  then have "unat (boot_example i) mod 4096 = 0" "unat (boot_example i) < 0x200000" "unat (boot_example i) \<noteq> 0"
    by (simp_all add: boot_example_page)
  then show "block_ok 0 (boot_example i)" by (auto simp: block_ok_def)
qed

lemma boot_example_pages: "boot_pages boot_example = mset [0x100..<0x10A]"
proof -
  have "boot_pages boot_example = (\<Sum>i\<in>{..<10}. {#0x100 + i#})"
    unfolding boot_pages_def by (rule sum.cong) (simp_all add: fr_4K boot_example_page)
  also have "\<dots> = mset [0x100..<0x10A]" by (simp add: lessThan_nat_numeral lessThan_Suc upt_rec)
  finally show ?thesis .
qed

lemma region_example_pages: "region_pages region_example = mset [0x201..<0x204]"
  by (simp add: region_pages_def region_example_def pages_of_def PAGE_ALIGN_def PAGE_ALIGN_REVERSE_def)


text \<open>
  Without 1 GiB pages the division of a region goes wrong in two cases.  An available region from 4 GiB to
  7 GiB is given out twice in part: the last 8 MiB are pushed as 4 KiB frames and again within the 1 GiB range.
  For an available region whose 2 MiB range ends below 8 MiB the lowered end wraps around, and frames
  up to the end of the 64-bit address space are pushed.
\<close>

theorem region_ranges_without_1g:
  "\<not> nodup (pages_of_ranges (region_ranges False
       \<lparr>me_type = MULTIBOOT_MMAP_AVAILABLE, addr_start = 0x100000000, addr_end = 0x1BFFFFFFF\<rparr>))
   \<and> (0x200000, 0xFFFFFFFFFFE00000, SIZE_2M) \<in> set (region_ranges False
       \<lparr>me_type = MULTIBOOT_MMAP_AVAILABLE, addr_start = 0x100000, addr_end = 0x5FFFFF\<rparr>)"
proof
  let ?e = "\<lparr>me_type = MULTIBOOT_MMAP_AVAILABLE, addr_start = 0x100000000, addr_end = 0x1BFFFFFFF\<rparr>"
  have "region_ranges False ?e = [(0x100000000, 0x100000000, SIZE_4K), (0x1BF800000, 0x1C0000000, SIZE_4K),
      (0x100000000, 0x100000000, SIZE_2M), (0x100000000, 0x1C0000000, SIZE_1G)]"
    by (simp add: region_division_eval)
  then have "count (pages_of_ranges (region_ranges False ?e)) 0x1BF800 = 2" by (simp add: count_pages_of)
  then show "\<not> nodup (pages_of_ranges (region_ranges False ?e))" unfolding nodup_def by (metis numeral_le_one_iff semiring_norm(69))
  show "(0x200000, 0xFFFFFFFFFFE00000, SIZE_2M) \<in> set (region_ranges False
       \<lparr>me_type = MULTIBOOT_MMAP_AVAILABLE, addr_start = 0x100000, addr_end = 0x5FFFFF\<rparr>)"
    by (simp add: region_division_eval)
qed

text \<open>
  The available memory is the sum over all stacks.  In a well-formed state whose stacks hold less than
  2 to the power of 32 blocks each, \<^verbatim>\<open>pmm_get_available_memory\<close> returns the number of bytes of all blocks on the nine
  stacks, and leaves the manager as it was, although it moves the top pages while it counts.
\<close>

theorem pmm_get_available_memory_correct:
  assumes "pmm_wf s v" and "\<forall>i<9. stack_frames (stk v i) < 2 ^ 32"
  shows "\<exists>s'. pmm_get_available_memory s
      = Some (s', of_nat (\<Sum>i\<leftarrow>[0..<9]. stack_frames (stk v i) * 512 ^ (i div 3)) * 4096) \<and> pmm_wf s' v"
proof -
  let ?zs = "List.product [0..<ZONE_COUNT] [0..<SIZE_COUNT]"
  have f: "\<And>i. i < 9 \<Longrightarrow> stack_frames (stk v i) < 2 ^ 32" using assms(2) by blast
  have "\<exists>s'. iter (\<lambda>(s, pageCount) (zone, sz).
          map_option (\<lambda>(s, n). (s, pageCount + ucast n * frame_weight sz)) (pmm_get_frame_count sz zone s)) ?zs (s, 0)
      = Some (s', 0 + of_nat (\<Sum>(zone, sz)\<leftarrow>?zs. free_frames v sz zone)) \<and> pmm_wf s' v"
    by (rule available_loop [OF assms(1) f]) auto
  moreover have "(\<Sum>(zone, sz)\<leftarrow>?zs. free_frames v sz zone) = (\<Sum>i\<leftarrow>[0..<9]. stack_frames (stk v i) * 512 ^ (i div 3))"
  proof -
    have "[0..<3] = [0, 1, 2 :: nat]" "[0..<9] = [0, 1, 2, 3, 4, 5, 6, 7, 8 :: nat]" by code_simp+
    then show ?thesis by (simp add: free_frames_def SZ_TO_IDX_def numeral_2_eq_2)
  qed
  ultimately show ?thesis by (auto simp: pmm_get_available_memory_def)
qed

theorem pmm_get_available_memory_correct_witness:
  "\<exists>s'. pmm_get_available_memory pmm_example = Some (s', 0x2000) \<and> pmm_wf s' pview_example"
proof -
  have f: "\<forall>i<9. stack_frames (stk pview_example i) < 2 ^ 32" by (simp add: pview_example_def less_9)
  have "(\<Sum>i\<leftarrow>[0..<9]. stack_frames (stk pview_example i) * 512 ^ (i div 3)) = 2"
    by (simp add: pview_example_def upt_rec)
  then show ?thesis using pmm_get_available_memory_correct [OF pmm_example_wf f] by simp
qed

end
