(* ===== verification/MmMapInit.thy ===== *)
theory MmMapInit
  imports MmMap MmCommon
begin

text \<open>
  Building the physical memory map from the boot information: \<^verbatim>\<open>mm_map_init\<close> of \<^verbatim>\<open>kernel/mm/map.c\<close>.  The addresses of
  the kernel image and the trampoline are symbols of the linker script and parameters here.  Boot information
  is read from a byte-addressed memory.  In every result the outer \<open>None\<close> is a loop that does not end and
  the inner one a panic.
\<close>

section \<open>Operations\<close>

definition PHY32_OFFSET :: u64 where "PHY32_OFFSET = 0xFFFFFEFF00000000"

definition phy32_to_virt :: "u64 \<Rightarrow> u64" where "phy32_to_virt ptr = ptr + PHY32_OFFSET"

definition aphy32_to_virt :: "u64 \<Rightarrow> u64" where "aphy32_to_virt a = a + PHY32_OFFSET"

definition ent_base :: "bytes \<Rightarrow> addr \<Rightarrow> u64" where "ent_base m a = rd64 m a"
definition ent_length :: "bytes \<Rightarrow> addr \<Rightarrow> u64" where "ent_length m a = rd64 m (a + 8)"
definition ent_type :: "bytes \<Rightarrow> addr \<Rightarrow> int" where "ent_type m a = sint (rd32 m (a + 16))"

definition mmap_entry_size :: "bytes \<Rightarrow> addr \<Rightarrow> u32" where "mmap_entry_size m tag = rd32 m (tag + 8)"
definition mod_start :: "bytes \<Rightarrow> addr \<Rightarrow> u32" where "mod_start m tag = rd32 m (tag + 8)"
definition mod_end :: "bytes \<Rightarrow> addr \<Rightarrow> u32" where "mod_end m tag = rd32 m (tag + 12)"

partial_function (option) read_mmap :: "bytes \<Rightarrow> u64 \<Rightarrow> addr \<Rightarrow> addr \<Rightarrow> mm_map \<Rightarrow> mm_map option option" where
  "read_mmap m esz entry_limit entry_addr s =
     (if entry_addr < entry_limit then
        (case (if ent_length m entry_addr > 0
               then mm_map_add (ent_type m entry_addr) (ent_base m entry_addr)
                 (ent_base m entry_addr + ent_length m entry_addr - 1) s
               else Some s) of
           None \<Rightarrow> Some None
         | Some s \<Rightarrow> read_mmap m esz entry_limit (entry_addr + esz) s)
      else Some (Some s))"

partial_function (option) reserve_modules :: "bytes \<Rightarrow> addr \<Rightarrow> addr \<Rightarrow> mm_map \<Rightarrow> mm_map option option" where
  "reserve_modules m mb mod_tag s =
     (if mod_tag \<noteq> 0 then
        (case mm_map_add MULTIBOOT_MMAP_RESERVED (ucast (mod_start m mod_tag)) (ucast (mod_end m mod_tag - 1)) s of
           None \<Rightarrow> Some None
         | Some s \<Rightarrow> Option.bind (multiboot_get_after m mb mod_tag MULTIBOOT_TAG_MODULE) (\<lambda>mod_tag. reserve_modules m mb mod_tag s))
      else Some (Some s))"

definition reserve_areas :: "bytes \<Rightarrow> u64 \<Rightarrow> u64 \<Rightarrow> u64 \<Rightarrow> addr \<Rightarrow> mm_map \<Rightarrow> mm_map option" where
  "reserve_areas m kstart kend trampoline_len mb s =
     Option.bind (mm_map_add MULTIBOOT_MMAP_RESERVED 0x000000 0x000FFF s) (\<lambda>s.
     Option.bind (mm_map_add MULTIBOOT_MMAP_RESERVED (kstart - VM_KERNEL_IMAGE) (kend - VM_KERNEL_IMAGE - 1) s) (\<lambda>s.
     Option.bind (mm_map_add MULTIBOOT_MMAP_RESERVED 0x001000 (0x001000 + trampoline_len - 1) s) (\<lambda>s.
     let start_addr = mb - PHY32_OFFSET in
     mm_map_add MULTIBOOT_MMAP_RESERVED start_addr (start_addr + ucast (total_size_of m mb)) s)))"

definition mm_map_collect :: "bytes \<Rightarrow> u64 \<Rightarrow> u64 \<Rightarrow> u64 \<Rightarrow> addr \<Rightarrow> mm_map \<Rightarrow> mm_map option option" where
  "mm_map_collect m kstart kend trampoline_len mb s =
     Option.bind (multiboot_get m mb MULTIBOOT_TAG_MMAP) (\<lambda>mmap_tag.
     if mmap_tag = 0 then Some None
     else
       Option.bind (read_mmap m (ucast (mmap_entry_size m mmap_tag)) (mmap_tag + ucast (tag_size m mmap_tag)) (mmap_tag + 16) s)
         (\<lambda>r. case Option.bind r (reserve_areas m kstart kend trampoline_len mb) of
             None \<Rightarrow> Some None
           | Some s \<Rightarrow> Option.bind (multiboot_get m mb MULTIBOOT_TAG_MODULE) (\<lambda>mod_tag. reserve_modules m mb mod_tag s)))"

definition mm_map_init :: "bytes \<Rightarrow> u64 \<Rightarrow> u64 \<Rightarrow> u64 \<Rightarrow> addr \<Rightarrow> mm_map \<Rightarrow> mm_map option option" where
  "mm_map_init m kstart kend trampoline_len mb s =
     Option.bind (mm_map_collect m kstart kend trampoline_len mb s) (\<lambda>r. case r of
         None \<Rightarrow> Some None
       | Some s \<Rightarrow> mm_map_sanitize s)"

section \<open>The entries that are collected\<close>

text \<open>The entries of the firmware from address \<open>a\<close> on, and the module tags from \<open>t\<close> on.\<close>

fun mmap_at :: "bytes \<Rightarrow> u64 \<Rightarrow> addr \<Rightarrow> addr \<Rightarrow> addr list \<Rightarrow> bool" where
  "mmap_at m esz limit a [] = (\<not> a < limit)"
| "mmap_at m esz limit a (e # es) = (e = a \<and> a < limit \<and> mmap_at m esz limit (a + esz) es)"

fun modules_at :: "bytes \<Rightarrow> addr \<Rightarrow> addr \<Rightarrow> addr list \<Rightarrow> bool" where
  "modules_at m mb t [] = (t = 0)"
| "modules_at m mb t (x # xs) = (x = t \<and> t \<noteq> 0
     \<and> (\<exists>t'. multiboot_get_after m mb t MULTIBOOT_TAG_MODULE = Some t' \<and> modules_at m mb t' xs))"

definition firmware_entries :: "bytes \<Rightarrow> addr list \<Rightarrow> mm_map_entry_t list" where
  "firmware_entries m es = map (\<lambda>a. \<lparr>me_type = ent_type m a, addr_start = ent_base m a,
     addr_end = ent_base m a + ent_length m a - 1\<rparr>) (filter (\<lambda>a. ent_length m a > 0) es)"

definition area_entries :: "bytes \<Rightarrow> u64 \<Rightarrow> u64 \<Rightarrow> u64 \<Rightarrow> addr \<Rightarrow> mm_map_entry_t list" where
  "area_entries m kstart kend trampoline_len mb = map (\<lambda>(a, b). \<lparr>me_type = MULTIBOOT_MMAP_RESERVED, addr_start = a, addr_end = b\<rparr>)
     [(0, 0xFFF), (kstart - VM_KERNEL_IMAGE, kend - VM_KERNEL_IMAGE - 1), (0x1000, 0x1000 + trampoline_len - 1),
      (mb - PHY32_OFFSET, mb - PHY32_OFFSET + ucast (total_size_of m mb))]"

definition module_entries :: "bytes \<Rightarrow> addr list \<Rightarrow> mm_map_entry_t list" where
  "module_entries m ts = map (\<lambda>t. \<lparr>me_type = MULTIBOOT_MMAP_RESERVED, addr_start = ucast (mod_start m t),
     addr_end = ucast (mod_end m t - 1)\<rparr>) ts"

definition add_all :: "mm_map_entry_t list \<Rightarrow> mm_map \<Rightarrow> mm_map option" where
  "add_all es s = iter (\<lambda>s e. mm_map_add (me_type e) (addr_start e) (addr_end e) s) es s"

lemma add_all_simps [simp]:
  "add_all [] s = Some s"
  "add_all (e # es) s = Option.bind (mm_map_add (me_type e) (addr_start e) (addr_end e) s) (add_all es)"
  by (simp_all add: add_all_def [abs_def])

lemma add_all_append: "add_all (xs @ ys) s = Option.bind (add_all xs s) (add_all ys)"
  by (simp add: add_all_def iter_append add_all_def [abs_def])

lemma read_mmap_add_all:
  "mmap_at m esz limit a es \<Longrightarrow> read_mmap m esz limit a s = Some (add_all (firmware_entries m es) s)"
proof (induction es arbitrary: a s)
  case Nil
  then show ?case by (subst read_mmap.simps) (simp add: firmware_entries_def)
next
  case (Cons e es)
  then show ?case
    by (subst read_mmap.simps) (auto simp: firmware_entries_def split: option.splits)
qed

lemma reserve_modules_add_all:
  "modules_at m mb t ts \<Longrightarrow> reserve_modules m mb t s = Some (add_all (module_entries m ts) s)"
proof (induction ts arbitrary: t s)
  case Nil
  then show ?case by (subst reserve_modules.simps) (simp add: module_entries_def)
next
  case (Cons x xs)
  then show ?case
    by (subst reserve_modules.simps) (auto simp: module_entries_def split: option.splits)
qed

lemma reserve_areas_add_all: "reserve_areas m ks ke len mb s = add_all (area_entries m ks ke len mb) s"
proof -
  have "add_all [] = Some" "\<And>e es. add_all (e # es) = (\<lambda>s. Option.bind (mm_map_add (me_type e) (addr_start e) (addr_end e) s) (add_all es))"
    by (simp_all add: fun_eq_iff)
  then show ?thesis by (simp add: reserve_areas_def area_entries_def Let_def)
qed

lemma add_all_ok:
  assumes "mm_map_ok s ns" "\<forall>e\<in>set es. entry_ok e" "add_all es s = Some s'"
  shows "\<exists>ns'. mm_map_ok s' (ns @ ns') \<and> entries s' (ns @ ns') = entries s ns \<union> set es"
  using assms
proof (induction es arbitrary: s ns)
  case Nil
  then show ?case by (intro exI [of _ "[]"]) auto
next
  case (Cons e es)
  from Cons.prems(3) obtain s1 where s1: "mm_map_add (me_type e) (addr_start e) (addr_end e) s = Some s1" "add_all es s1 = Some s'"
    by (auto simp: bind_eq_Some_conv)
  have e: "\<lparr>me_type = me_type e, addr_start = addr_start e, addr_end = addr_end e\<rparr> = e" by simp
  obtain n where n: "n \<notin> set ns" "mm_map_ok s1 (ns @ [n])" "entry_at s1 = (entry_at s)(n := e)"
    using mm_map_add_ok [OF Cons.prems(1) _ s1(1)] Cons.prems(2) unfolding e by auto
  from Cons.IH [OF n(2) _ s1(2)] Cons.prems(2) obtain ns' where
    ns': "mm_map_ok s' ((ns @ [n]) @ ns')" "entries s' ((ns @ [n]) @ ns') = entries s1 (ns @ [n]) \<union> set es" by auto
  have "entries s1 (ns @ [n]) = insert e (entries s ns)" using n(1,3) by auto
  then have "entries s' (ns @ n # ns') = entries s ns \<union> set (e # es)"
    using ns'(2) by (simp only: append_assoc append_Cons append_Nil) (simp only: list.set Un_insert_left Un_insert_right)
  moreover have "mm_map_ok s' (ns @ n # ns')" using ns'(1) by (simp only: append_assoc append_Cons append_Nil)
  ultimately show ?case by blast
qed

section \<open>Property\<close>

definition map_entries :: "bytes \<Rightarrow> u64 \<Rightarrow> u64 \<Rightarrow> u64 \<Rightarrow> addr \<Rightarrow> addr list \<Rightarrow> addr list \<Rightarrow> mm_map_entry_t list" where
  "map_entries m kstart kend trampoline_len mb es ts =
     firmware_entries m es @ area_entries m kstart kend trampoline_len mb @ module_entries m ts"

lemma mm_map_collect_add_all:
  assumes "multiboot_get m mb MULTIBOOT_TAG_MMAP = Some tag" "tag \<noteq> 0"
    and "mmap_at m (ucast (mmap_entry_size m tag)) (tag + ucast (tag_size m tag)) (tag + 16) es"
    and "multiboot_get m mb MULTIBOOT_TAG_MODULE = Some t" "modules_at m mb t ts"
  shows "mm_map_collect m ks ke len mb s = Some (add_all (map_entries m ks ke len mb es ts) s)"
  using assms read_mmap_add_all [OF assms(3)] reserve_modules_add_all [OF assms(5)]
  by (auto simp: mm_map_collect_def map_entries_def add_all_append reserve_areas_add_all [abs_def]
      split: option.splits Option.bind_splits)

lemma consecutive_unique:
  assumes "consecutive (map f ns)" "n \<in> set ns" "k \<in> set ns" "covers (f n) x" "covers (f k) x"
  shows "f n = f k"
proof -
  obtain i j where ij: "i < length ns" "n = ns ! i" "j < length ns" "k = ns ! j"
    using assms(2,3) by (metis in_set_conv_nth)
  have lt: "addr_end (f (ns ! i)) < addr_start (f (ns ! j))" if "i < j" "j < length ns" for i j
    using assms(1) that by (auto simp: consecutive_def sorted_wrt_iff_nth_less)
  show ?thesis
    using lt [of i j] lt [of j i] ij assms(4,5) by (cases i j rule: linorder_cases) (auto simp: covers_def)
qed


definition boot_info_example :: bytes where
  "boot_info_example = (\<lambda>_. 0)(0xFFFFFEFF00010000 := 0x38, 0xFFFFFEFF00010008 := 6, 0xFFFFFEFF0001000C := 0x28,
     0xFFFFFEFF00010010 := 0x18, 0xFFFFFEFF0001001A := 0x10, 0xFFFFFEFF00010022 := 1, 0xFFFFFEFF00010028 := 1)"

definition empty_map_example :: mm_map where
  "empty_map_example = \<lparr>mm_nodes = \<lparr>n_next = (\<lambda>_. 0), n_prev = (\<lambda>_. 0)\<rparr>, entry_list = \<lparr>l_head = 0, l_tail = 0, l_size = 0\<rparr>,
     entry_at = (\<lambda>_. \<lparr>me_type = 1, addr_start = 0, addr_end = 0\<rparr>), seq_pool = 0x1000, seq_pos = 0\<rparr>"


end
