(* ===== verification/Keycodes.thy ===== *)
theory Keycodes
  imports Main
begin

text \<open>
  The virtual key codes and the tables that translate the scan codes of the keyboard, \<^verbatim>\<open>kernel/io/keycodes.h\<close> and
  \<^verbatim>\<open>kernel/io/keycodes.c\<close>.
\<close>

type_synonym vkey = nat

definition VKEY_INVALID :: vkey where "VKEY_INVALID = 0"
definition VKEY_A :: vkey where "VKEY_A = 1"
definition VKEY_B :: vkey where "VKEY_B = 2"
definition VKEY_C :: vkey where "VKEY_C = 3"
definition VKEY_D :: vkey where "VKEY_D = 4"
definition VKEY_E :: vkey where "VKEY_E = 5"
definition VKEY_F :: vkey where "VKEY_F = 6"
definition VKEY_G :: vkey where "VKEY_G = 7"
definition VKEY_H :: vkey where "VKEY_H = 8"
definition VKEY_I :: vkey where "VKEY_I = 9"
definition VKEY_J :: vkey where "VKEY_J = 10"
definition VKEY_K :: vkey where "VKEY_K = 11"
definition VKEY_L :: vkey where "VKEY_L = 12"
definition VKEY_M :: vkey where "VKEY_M = 13"
definition VKEY_N :: vkey where "VKEY_N = 14"
definition VKEY_O :: vkey where "VKEY_O = 15"
definition VKEY_P :: vkey where "VKEY_P = 16"
definition VKEY_Q :: vkey where "VKEY_Q = 17"
definition VKEY_R :: vkey where "VKEY_R = 18"
definition VKEY_S :: vkey where "VKEY_S = 19"
definition VKEY_T :: vkey where "VKEY_T = 20"
definition VKEY_U :: vkey where "VKEY_U = 21"
definition VKEY_V :: vkey where "VKEY_V = 22"
definition VKEY_W :: vkey where "VKEY_W = 23"
definition VKEY_X :: vkey where "VKEY_X = 24"
definition VKEY_Y :: vkey where "VKEY_Y = 25"
definition VKEY_Z :: vkey where "VKEY_Z = 26"
definition VKEY_0 :: vkey where "VKEY_0 = 27"
definition VKEY_1 :: vkey where "VKEY_1 = 28"
definition VKEY_2 :: vkey where "VKEY_2 = 29"
definition VKEY_3 :: vkey where "VKEY_3 = 30"
definition VKEY_4 :: vkey where "VKEY_4 = 31"
definition VKEY_5 :: vkey where "VKEY_5 = 32"
definition VKEY_6 :: vkey where "VKEY_6 = 33"
definition VKEY_7 :: vkey where "VKEY_7 = 34"
definition VKEY_8 :: vkey where "VKEY_8 = 35"
definition VKEY_9 :: vkey where "VKEY_9 = 36"
definition VKEY_F1 :: vkey where "VKEY_F1 = 37"
definition VKEY_F2 :: vkey where "VKEY_F2 = 38"
definition VKEY_F3 :: vkey where "VKEY_F3 = 39"
definition VKEY_F4 :: vkey where "VKEY_F4 = 40"
definition VKEY_F5 :: vkey where "VKEY_F5 = 41"
definition VKEY_F6 :: vkey where "VKEY_F6 = 42"
definition VKEY_F7 :: vkey where "VKEY_F7 = 43"
definition VKEY_F8 :: vkey where "VKEY_F8 = 44"
definition VKEY_F9 :: vkey where "VKEY_F9 = 45"
definition VKEY_F10 :: vkey where "VKEY_F10 = 46"
definition VKEY_F11 :: vkey where "VKEY_F11 = 47"
definition VKEY_F12 :: vkey where "VKEY_F12 = 48"
definition VKEY_ESC :: vkey where "VKEY_ESC = 49"
definition VKEY_CAPSLOCK :: vkey where "VKEY_CAPSLOCK = 50"
definition VKEY_NUMLOCK :: vkey where "VKEY_NUMLOCK = 51"
definition VKEY_SCRLOCK :: vkey where "VKEY_SCRLOCK = 52"
definition VKEY_LSHIFT :: vkey where "VKEY_LSHIFT = 53"
definition VKEY_RSHIFT :: vkey where "VKEY_RSHIFT = 54"
definition VKEY_LCONTROL :: vkey where "VKEY_LCONTROL = 55"
definition VKEY_RCONTROL :: vkey where "VKEY_RCONTROL = 56"
definition VKEY_LALT :: vkey where "VKEY_LALT = 57"
definition VKEY_RALT :: vkey where "VKEY_RALT = 58"
definition VKEY_LGUI :: vkey where "VKEY_LGUI = 59"
definition VKEY_RGUI :: vkey where "VKEY_RGUI = 60"
definition VKEY_APPS :: vkey where "VKEY_APPS = 61"
definition VKEY_SPACE :: vkey where "VKEY_SPACE = 62"
definition VKEY_TAB :: vkey where "VKEY_TAB = 63"
definition VKEY_ENTER :: vkey where "VKEY_ENTER = 64"
definition VKEY_BACKSPACE :: vkey where "VKEY_BACKSPACE = 65"
definition VKEY_INSERT :: vkey where "VKEY_INSERT = 66"
definition VKEY_DELETE :: vkey where "VKEY_DELETE = 67"
definition VKEY_SEMICOLON :: vkey where "VKEY_SEMICOLON = 68"
definition VKEY_COMMA :: vkey where "VKEY_COMMA = 69"
definition VKEY_DOT :: vkey where "VKEY_DOT = 70"
definition VKEY_MINUS :: vkey where "VKEY_MINUS = 71"
definition VKEY_EQUAL :: vkey where "VKEY_EQUAL = 72"
definition VKEY_SQUOTE :: vkey where "VKEY_SQUOTE = 73"
definition VKEY_BACKTICK :: vkey where "VKEY_BACKTICK = 74"
definition VKEY_SLASH :: vkey where "VKEY_SLASH = 75"
definition VKEY_BACKSLASH :: vkey where "VKEY_BACKSLASH = 76"
definition VKEY_LBRACKET :: vkey where "VKEY_LBRACKET = 77"
definition VKEY_RBRACKET :: vkey where "VKEY_RBRACKET = 78"
definition VKEY_KPMULTIPLY :: vkey where "VKEY_KPMULTIPLY = 79"
definition VKEY_KPDIV :: vkey where "VKEY_KPDIV = 80"
definition VKEY_KPMINUS :: vkey where "VKEY_KPMINUS = 81"
definition VKEY_KPPLUS :: vkey where "VKEY_KPPLUS = 82"
definition VKEY_KPDOT :: vkey where "VKEY_KPDOT = 83"
definition VKEY_KP0 :: vkey where "VKEY_KP0 = 84"
definition VKEY_KP1 :: vkey where "VKEY_KP1 = 85"
definition VKEY_KP2 :: vkey where "VKEY_KP2 = 86"
definition VKEY_KP3 :: vkey where "VKEY_KP3 = 87"
definition VKEY_KP4 :: vkey where "VKEY_KP4 = 88"
definition VKEY_KP5 :: vkey where "VKEY_KP5 = 89"
definition VKEY_KP6 :: vkey where "VKEY_KP6 = 90"
definition VKEY_KP7 :: vkey where "VKEY_KP7 = 91"
definition VKEY_KP8 :: vkey where "VKEY_KP8 = 92"
definition VKEY_KP9 :: vkey where "VKEY_KP9 = 93"
definition VKEY_KPENTER :: vkey where "VKEY_KPENTER = 94"
definition VKEY_CURSORUP :: vkey where "VKEY_CURSORUP = 95"
definition VKEY_CURSORDOWN :: vkey where "VKEY_CURSORDOWN = 96"
definition VKEY_CURSORLEFT :: vkey where "VKEY_CURSORLEFT = 97"
definition VKEY_CURSORRIGHT :: vkey where "VKEY_CURSORRIGHT = 98"
definition VKEY_PAGEUP :: vkey where "VKEY_PAGEUP = 99"
definition VKEY_PAGEDOWN :: vkey where "VKEY_PAGEDOWN = 100"
definition VKEY_HOME :: vkey where "VKEY_HOME = 101"
definition VKEY_END :: vkey where "VKEY_END = 102"
definition VKEY_MMPREVTRACK :: vkey where "VKEY_MMPREVTRACK = 103"
definition VKEY_MMNEXTTRACK :: vkey where "VKEY_MMNEXTTRACK = 104"
definition VKEY_MMMUTE :: vkey where "VKEY_MMMUTE = 105"
definition VKEY_MMCALC :: vkey where "VKEY_MMCALC = 106"
definition VKEY_MMPLAY :: vkey where "VKEY_MMPLAY = 107"
definition VKEY_MMVOLDOWN :: vkey where "VKEY_MMVOLDOWN = 108"
definition VKEY_MMVOLUP :: vkey where "VKEY_MMVOLUP = 109"
definition VKEY_MMWWW :: vkey where "VKEY_MMWWW = 110"
definition VKEY_ACPIPOWER :: vkey where "VKEY_ACPIPOWER = 111"
definition VKEY_ACPISLEEP :: vkey where "VKEY_ACPISLEEP = 112"
definition VKEY_ACPIWAKE :: vkey where "VKEY_ACPIWAKE = 113"
definition VKEY_MAX_VALUE :: vkey where "VKEY_MAX_VALUE = VKEY_ACPIWAKE"

lemmas vkey_defs =
  VKEY_INVALID_def VKEY_A_def VKEY_B_def VKEY_C_def VKEY_D_def VKEY_E_def VKEY_F_def VKEY_G_def VKEY_H_def VKEY_I_def
  VKEY_J_def VKEY_K_def VKEY_L_def VKEY_M_def VKEY_N_def VKEY_O_def VKEY_P_def VKEY_Q_def VKEY_R_def VKEY_S_def VKEY_T_def
  VKEY_U_def VKEY_V_def VKEY_W_def VKEY_X_def VKEY_Y_def VKEY_Z_def VKEY_0_def VKEY_1_def VKEY_2_def VKEY_3_def VKEY_4_def
  VKEY_5_def VKEY_6_def VKEY_7_def VKEY_8_def VKEY_9_def VKEY_F1_def VKEY_F2_def VKEY_F3_def VKEY_F4_def VKEY_F5_def
  VKEY_F6_def VKEY_F7_def VKEY_F8_def VKEY_F9_def VKEY_F10_def VKEY_F11_def VKEY_F12_def VKEY_ESC_def VKEY_CAPSLOCK_def
  VKEY_NUMLOCK_def VKEY_SCRLOCK_def VKEY_LSHIFT_def VKEY_RSHIFT_def VKEY_LCONTROL_def VKEY_RCONTROL_def VKEY_LALT_def
  VKEY_RALT_def VKEY_LGUI_def VKEY_RGUI_def VKEY_APPS_def VKEY_SPACE_def VKEY_TAB_def VKEY_ENTER_def VKEY_BACKSPACE_def
  VKEY_INSERT_def VKEY_DELETE_def VKEY_SEMICOLON_def VKEY_COMMA_def VKEY_DOT_def VKEY_MINUS_def VKEY_EQUAL_def
  VKEY_SQUOTE_def VKEY_BACKTICK_def VKEY_SLASH_def VKEY_BACKSLASH_def VKEY_LBRACKET_def VKEY_RBRACKET_def
  VKEY_KPMULTIPLY_def VKEY_KPDIV_def VKEY_KPMINUS_def VKEY_KPPLUS_def VKEY_KPDOT_def VKEY_KP0_def VKEY_KP1_def VKEY_KP2_def
  VKEY_KP3_def VKEY_KP4_def VKEY_KP5_def VKEY_KP6_def VKEY_KP7_def VKEY_KP8_def VKEY_KP9_def VKEY_KPENTER_def
  VKEY_CURSORUP_def VKEY_CURSORDOWN_def VKEY_CURSORLEFT_def VKEY_CURSORRIGHT_def VKEY_PAGEUP_def VKEY_PAGEDOWN_def
  VKEY_HOME_def VKEY_END_def VKEY_MMPREVTRACK_def VKEY_MMNEXTTRACK_def VKEY_MMMUTE_def VKEY_MMCALC_def VKEY_MMPLAY_def
  VKEY_MMVOLDOWN_def VKEY_MMVOLUP_def VKEY_MMWWW_def VKEY_ACPIPOWER_def VKEY_ACPISLEEP_def VKEY_ACPIWAKE_def
  VKEY_MAX_VALUE_def

definition oneByteScanCodeConversionTable :: "vkey list" where
  "oneByteScanCodeConversionTable = [
     VKEY_INVALID, VKEY_ESC, VKEY_1, VKEY_2, VKEY_3, VKEY_4, VKEY_5, VKEY_6,
     VKEY_7, VKEY_8, VKEY_9, VKEY_0, VKEY_MINUS, VKEY_EQUAL, VKEY_BACKSPACE, VKEY_TAB,
     VKEY_Q, VKEY_W, VKEY_E, VKEY_R, VKEY_T, VKEY_Y, VKEY_U, VKEY_I,
     VKEY_O, VKEY_P, VKEY_LBRACKET, VKEY_RBRACKET, VKEY_ENTER, VKEY_LCONTROL, VKEY_A, VKEY_S,
     VKEY_D, VKEY_F, VKEY_G, VKEY_H, VKEY_J, VKEY_K, VKEY_L, VKEY_SEMICOLON,
     VKEY_SQUOTE, VKEY_BACKTICK, VKEY_LSHIFT, VKEY_BACKSLASH, VKEY_Z, VKEY_X, VKEY_C, VKEY_V,
     VKEY_B, VKEY_N, VKEY_M, VKEY_COMMA, VKEY_DOT, VKEY_SLASH, VKEY_RSHIFT, VKEY_KPMULTIPLY,
     VKEY_LALT, VKEY_SPACE, VKEY_CAPSLOCK, VKEY_F1, VKEY_F2, VKEY_F3, VKEY_F4, VKEY_F5,
     VKEY_F6, VKEY_F7, VKEY_F8, VKEY_F9, VKEY_F10, VKEY_NUMLOCK, VKEY_SCRLOCK, VKEY_KP7,
     VKEY_KP8, VKEY_KP9, VKEY_KPMINUS, VKEY_KP4, VKEY_KP5, VKEY_KP6, VKEY_KPPLUS, VKEY_KP1,
     VKEY_KP2, VKEY_KP3, VKEY_KP0, VKEY_KPDOT, VKEY_INVALID, VKEY_INVALID, VKEY_INVALID, VKEY_F11,
     VKEY_F12, VKEY_INVALID, VKEY_INVALID, VKEY_INVALID, VKEY_INVALID, VKEY_INVALID, VKEY_INVALID, VKEY_INVALID,
     VKEY_INVALID, VKEY_INVALID, VKEY_INVALID, VKEY_INVALID, VKEY_INVALID, VKEY_INVALID, VKEY_INVALID, VKEY_INVALID,
     VKEY_INVALID, VKEY_INVALID, VKEY_INVALID, VKEY_INVALID, VKEY_INVALID, VKEY_INVALID, VKEY_INVALID, VKEY_INVALID,
     VKEY_INVALID, VKEY_INVALID, VKEY_INVALID, VKEY_INVALID, VKEY_INVALID, VKEY_INVALID, VKEY_INVALID, VKEY_INVALID,
     VKEY_INVALID, VKEY_INVALID, VKEY_INVALID, VKEY_INVALID, VKEY_INVALID, VKEY_INVALID, VKEY_INVALID, VKEY_INVALID]"

definition e0ScanCodeConversionTable :: "vkey list" where
  "e0ScanCodeConversionTable = [
     VKEY_INVALID, VKEY_INVALID, VKEY_INVALID, VKEY_INVALID, VKEY_INVALID, VKEY_INVALID, VKEY_INVALID, VKEY_INVALID,
     VKEY_INVALID, VKEY_INVALID, VKEY_INVALID, VKEY_INVALID, VKEY_INVALID, VKEY_INVALID, VKEY_INVALID, VKEY_INVALID,
     VKEY_MMPREVTRACK, VKEY_INVALID, VKEY_INVALID, VKEY_INVALID, VKEY_INVALID, VKEY_INVALID, VKEY_INVALID, VKEY_INVALID,
     VKEY_INVALID, VKEY_MMNEXTTRACK, VKEY_INVALID, VKEY_INVALID, VKEY_KPENTER, VKEY_RCONTROL, VKEY_INVALID, VKEY_INVALID,
     VKEY_MMMUTE, VKEY_MMCALC, VKEY_MMPLAY, VKEY_INVALID, VKEY_INVALID, VKEY_INVALID, VKEY_INVALID, VKEY_INVALID,
     VKEY_INVALID, VKEY_INVALID, VKEY_INVALID, VKEY_INVALID, VKEY_INVALID, VKEY_INVALID, VKEY_MMVOLDOWN, VKEY_INVALID,
     VKEY_MMVOLUP, VKEY_INVALID, VKEY_MMWWW, VKEY_INVALID, VKEY_INVALID, VKEY_KPDIV, VKEY_INVALID, VKEY_INVALID,
     VKEY_RALT, VKEY_INVALID, VKEY_INVALID, VKEY_INVALID, VKEY_INVALID, VKEY_INVALID, VKEY_INVALID, VKEY_INVALID,
     VKEY_INVALID, VKEY_INVALID, VKEY_INVALID, VKEY_INVALID, VKEY_INVALID, VKEY_INVALID, VKEY_INVALID, VKEY_HOME,
     VKEY_CURSORUP, VKEY_PAGEUP, VKEY_INVALID, VKEY_CURSORLEFT, VKEY_INVALID, VKEY_CURSORRIGHT, VKEY_INVALID, VKEY_END,
     VKEY_CURSORDOWN, VKEY_PAGEDOWN, VKEY_INSERT, VKEY_DELETE, VKEY_INVALID, VKEY_INVALID, VKEY_INVALID, VKEY_INVALID,
     VKEY_INVALID, VKEY_INVALID, VKEY_INVALID, VKEY_LGUI, VKEY_RGUI, VKEY_APPS, VKEY_ACPIPOWER, VKEY_ACPISLEEP,
     VKEY_INVALID, VKEY_INVALID, VKEY_INVALID, VKEY_ACPIWAKE, VKEY_INVALID, VKEY_INVALID, VKEY_INVALID, VKEY_INVALID,
     VKEY_INVALID, VKEY_INVALID, VKEY_INVALID, VKEY_INVALID, VKEY_INVALID, VKEY_INVALID, VKEY_INVALID, VKEY_INVALID,
     VKEY_INVALID, VKEY_INVALID, VKEY_INVALID, VKEY_INVALID, VKEY_INVALID, VKEY_INVALID, VKEY_INVALID, VKEY_INVALID,
     VKEY_INVALID, VKEY_INVALID, VKEY_INVALID, VKEY_INVALID, VKEY_INVALID, VKEY_INVALID, VKEY_INVALID, VKEY_INVALID]"

text \<open>Both tables have an entry for every scan code of seven bits, and every entry is a valid index of \<^verbatim>\<open>pressedKeys\<close>.\<close>

lemma table_sizes: "length oneByteScanCodeConversionTable = 128" "length e0ScanCodeConversionTable = 128"
  by (simp_all add: oneByteScanCodeConversionTable_def e0ScanCodeConversionTable_def)

lemma table_range: "k \<in> set oneByteScanCodeConversionTable \<Longrightarrow> k \<le> VKEY_MAX_VALUE" "k \<in> set e0ScanCodeConversionTable \<Longrightarrow> k \<le> VKEY_MAX_VALUE"
  by (auto simp: oneByteScanCodeConversionTable_def e0ScanCodeConversionTable_def vkey_defs)

end
