(* ===== verification/Tlb.thy ===== *)
theory Tlb
  imports MmCommon
begin

text \<open>
  TLB shootdown, \<^verbatim>\<open>kernel/mm/tlb.c\<close>.  Every processor has an operation queue of 16 entries.  A transaction queues
  invalidations for all processors; each processor works off its queue when the transaction is committed
  or when the interrupt arrives.  The TLB of a processor is the set of virtual addresses for which it may hold a
  translation.
\<close>

section \<open>Data and operations\<close>

datatype tlb_op_type_t = TLB_OP_INVLPG | TLB_OP_FLUSH

record tlb_op_t =
  op_type :: tlb_op_type_t
  op_addr :: u64

definition TLB_OP_QUEUE_SIZE :: nat where "TLB_OP_QUEUE_SIZE = 16"

record tlb_cpu =
  tlbOperationQueue :: "nat \<Rightarrow> tlb_op_t"
  tlbOperationQueueLength :: nat
  tlb :: "u64 set"

text \<open>The processor instructions: \<^verbatim>\<open>invlpg\<close> drops all translations of the page, a reload of \<^verbatim>\<open>cr3\<close> all translations.\<close>

definition same_page :: "u64 \<Rightarrow> u64 \<Rightarrow> bool" where
  "same_page a b \<longleftrightarrow> PAGE_ALIGN_REVERSE a = PAGE_ALIGN_REVERSE b"

definition tlb_invlpg :: "u64 \<Rightarrow> tlb_cpu \<Rightarrow> tlb_cpu" where
  "tlb_invlpg a c = c\<lparr>tlb := {x \<in> tlb c. \<not> same_page x a}\<rparr>"

definition tlb_flush :: "tlb_cpu \<Rightarrow> tlb_cpu" where
  "tlb_flush c = c\<lparr>tlb := {}\<rparr>"

definition tlb_handle_op :: "nat \<Rightarrow> tlb_cpu \<Rightarrow> tlb_cpu" where
  "tlb_handle_op i cpu =
     (let op = tlbOperationQueue cpu i
      in case op_type op of
           TLB_OP_INVLPG \<Rightarrow> tlb_invlpg (op_addr op) cpu
         | TLB_OP_FLUSH \<Rightarrow> tlb_flush cpu)"

definition tlb_handle_ops :: "tlb_cpu \<Rightarrow> tlb_cpu" where
  "tlb_handle_ops cpu =
     (let cpu = fold tlb_handle_op [0..<tlbOperationQueueLength cpu] cpu
      in cpu\<lparr>tlbOperationQueueLength := 0\<rparr>)"

definition tlb_handle_ipi :: "tlb_cpu \<Rightarrow> tlb_cpu" where
  "tlb_handle_ipi cpu = tlb_handle_ops cpu"

definition queue_invlpg :: "u64 \<Rightarrow> tlb_cpu \<Rightarrow> tlb_cpu" where
  "queue_invlpg addr cpu =
     (if tlbOperationQueueLength cpu = TLB_OP_QUEUE_SIZE then
        cpu\<lparr>tlbOperationQueue := (tlbOperationQueue cpu)(0 := (tlbOperationQueue cpu 0)\<lparr>op_type := TLB_OP_FLUSH\<rparr>),
            tlbOperationQueueLength := 1\<rparr>
      else if tlbOperationQueueLength cpu = 1 \<and> op_type (tlbOperationQueue cpu 0) = TLB_OP_FLUSH then cpu
      else
        cpu\<lparr>tlbOperationQueue := (tlbOperationQueue cpu)
              (tlbOperationQueueLength cpu := \<lparr>op_type = TLB_OP_INVLPG, op_addr = addr\<rparr>),
            tlbOperationQueueLength := tlbOperationQueueLength cpu + 1\<rparr>)"

definition tlb_transaction_queue_invlpg :: "u64 \<Rightarrow> tlb_cpu list \<Rightarrow> tlb_cpu list" where
  "tlb_transaction_queue_invlpg addr cpus = map (queue_invlpg addr) cpus"

text \<open>
  Committing on processor \<open>me\<close>: the own queue is worked off at once; in SMP mode every other processor gets the
  interrupt and works off its queue.
\<close>

definition tlb_transaction_commit :: "bool \<Rightarrow> nat \<Rightarrow> tlb_cpu list \<Rightarrow> tlb_cpu list" where
  "tlb_transaction_commit smp me cpus =
     (let cpus = cpus[me := tlb_handle_ops (cpus ! me)]
      in if smp then map (\<lambda>i. if i = me then cpus ! i else tlb_handle_ipi (cpus ! i)) [0..<length cpus] else cpus)"

section \<open>What a queue promises\<close>

text \<open>The addresses whose translations are gone once the queue is worked off.\<close>

definition op_covers :: "tlb_op_t \<Rightarrow> u64 \<Rightarrow> bool" where
  "op_covers op a \<longleftrightarrow> op_type op = TLB_OP_FLUSH \<or> same_page a (op_addr op)"

definition promised :: "tlb_cpu \<Rightarrow> u64 set" where
  "promised cpu = {a. \<exists>i<tlbOperationQueueLength cpu. op_covers (tlbOperationQueue cpu i) a}"

definition tlb_cpu_ok :: "tlb_cpu \<Rightarrow> bool" where
  "tlb_cpu_ok cpu \<longleftrightarrow> tlbOperationQueueLength cpu \<le> TLB_OP_QUEUE_SIZE"

lemma handle_loop:
  "fold tlb_handle_op [0..<n] cpu = cpu\<lparr>tlb := tlb cpu - {a. \<exists>i<n. op_covers (tlbOperationQueue cpu i) a}\<rparr>"
proof (induction n)
  case (Suc n)
  show ?case
    unfolding upt_Suc_append [OF le0] fold_append comp_apply Suc.IH
    by (auto simp: tlb_handle_op_def Let_def tlb_invlpg_def tlb_flush_def op_covers_def less_Suc_eq
        intro!: arg_cong [of _ _ "\<lambda>X. cpu\<lparr>tlb := X\<rparr>"] split: tlb_op_type_t.splits)
qed simp

lemma tlb_handle_ops_eq: "tlb_handle_ops cpu = cpu\<lparr>tlb := tlb cpu - promised cpu, tlbOperationQueueLength := 0\<rparr>"
  by (simp add: tlb_handle_ops_def Let_def handle_loop promised_def)

lemma queue_invlpg_ok:
  assumes "tlb_cpu_ok cpu"
  shows "tlb_cpu_ok (queue_invlpg a cpu)" "insert a (promised cpu) \<subseteq> promised (queue_invlpg a cpu)"
    "tlb (queue_invlpg a cpu) = tlb cpu"
proof -
  show "tlb_cpu_ok (queue_invlpg a cpu)" "tlb (queue_invlpg a cpu) = tlb cpu"
    using assms by (auto simp: tlb_cpu_ok_def queue_invlpg_def TLB_OP_QUEUE_SIZE_def)
  consider "tlbOperationQueueLength cpu = TLB_OP_QUEUE_SIZE"
    | "tlbOperationQueueLength cpu = 1" "op_type (tlbOperationQueue cpu 0) = TLB_OP_FLUSH"
    | "tlbOperationQueueLength cpu \<noteq> TLB_OP_QUEUE_SIZE"
      "\<not> (tlbOperationQueueLength cpu = 1 \<and> op_type (tlbOperationQueue cpu 0) = TLB_OP_FLUSH)" by blast
  then show "insert a (promised cpu) \<subseteq> promised (queue_invlpg a cpu)"
  proof cases
    case 3
    then have "promised (queue_invlpg a cpu) = {x. same_page x a} \<union> promised cpu"
      by (auto simp: queue_invlpg_def promised_def op_covers_def Ex_less_Suc cong: conj_cong)
    then show ?thesis by (auto simp: same_page_def)
  qed (auto simp: promised_def queue_invlpg_def op_covers_def TLB_OP_QUEUE_SIZE_def)
qed

lemma queue_invlpgs_ok:
  assumes "tlb_cpu_ok cpu"
  shows "tlb_cpu_ok (fold queue_invlpg as cpu) \<and> set as \<union> promised cpu \<subseteq> promised (fold queue_invlpg as cpu)
    \<and> tlb (fold queue_invlpg as cpu) = tlb cpu"
  using assms
proof (induction as arbitrary: cpu)
  case (Cons a as)
  from Cons.IH [OF queue_invlpg_ok(1) [OF Cons.prems, of a]] queue_invlpg_ok(2,3) [OF Cons.prems, of a] show ?case by auto
qed simp

section \<open>Property\<close>

lemma transaction_map: "fold tlb_transaction_queue_invlpg as cpus = map (fold queue_invlpg as) cpus"
  by (induction as arbitrary: cpus) (simp_all add: tlb_transaction_queue_invlpg_def)


definition tlb_cpu_example :: tlb_cpu where
  "tlb_cpu_example = \<lparr>tlbOperationQueue = (\<lambda>_. \<lparr>op_type = TLB_OP_INVLPG, op_addr = 0\<rparr>), tlbOperationQueueLength = 0,
     tlb = {0x1000, 0x5000}\<rparr>"


end
