(* ===== verification/Vmm.thy ===== *)
theory Vmm
  imports PmmIface Tlb "HOL-Library.Monad_Syntax"
begin

text \<open>
  The virtual memory manager, \<^verbatim>\<open>kernel/mm/vmm.c\<close>.  The page tables are pages of physical memory, each an array of 512
  entries.  The code reaches them through virtual addresses: entry 510 of the top table refers to the top
  table itself.  The model keeps that: a table entry is read and written at the physical address
  to which the hardware translates the pointer, and a pointer that is not mapped is a page fault (\<open>None\<close>).
\<close>

section \<open>Data\<close>

record vm =
  vm_pmm :: pmm
  tables :: "u64 \<Rightarrow> nat \<Rightarrow> u64"
  cr3 :: u64
  vm_cpus :: "tlb_cpu list"
  vm_smp :: bool
  vm_me :: nat

definition PML4_OFFSET :: u64 where "PML4_OFFSET = 0xFFFFFF7FBFDFE000"
definition PML3_OFFSET :: u64 where "PML3_OFFSET = 0xFFFFFF7FBFC00000"
definition PML2_OFFSET :: u64 where "PML2_OFFSET = 0xFFFFFF7F80000000"
definition PML1_OFFSET :: u64 where "PML1_OFFSET = 0xFFFFFF0000000000"

record page_index_t =
  pml4 :: u64
  pml3 :: u64
  pml2 :: u64
  pml1 :: u64
  pml4index :: u64
  pml3index :: u64
  pml2index :: u64
  pml1index :: u64

definition addr_to_index :: "u64 \<Rightarrow> page_index_t" where
  "addr_to_index addr =
     (let p4 = PML4_OFFSET;
          (addr, i4) = (if addr \<ge> VM_HIGHER_HALF
            then (addr - VM_HIGHER_HALF, 256 + (addr - VM_HIGHER_HALF) div FRAME_SIZE_512G)
            else (addr, addr div FRAME_SIZE_512G));
          addr = addr mod FRAME_SIZE_512G;
          p3 = PML3_OFFSET + i4 * FRAME_SIZE;
          i3 = addr div FRAME_SIZE_1G;
          addr = addr mod FRAME_SIZE_1G;
          p2 = PML2_OFFSET + i4 * FRAME_SIZE_2M + i3 * FRAME_SIZE;
          i2 = addr div FRAME_SIZE_2M;
          addr = addr mod FRAME_SIZE_2M;
          p1 = PML1_OFFSET + i4 * FRAME_SIZE_1G + i3 * FRAME_SIZE_2M + i2 * FRAME_SIZE;
          i1 = addr div FRAME_SIZE
      in \<lparr>pml4 = p4, pml3 = p3, pml2 = p2, pml1 = p1, pml4index = i4, pml3index = i3, pml2index = i2, pml1index = i1\<rparr>)"

section \<open>The translation of the hardware\<close>

definition present :: "u64 \<Rightarrow> bool" where "present e \<longleftrightarrow> e AND PG_PRESENT \<noteq> 0"
definition big :: "u64 \<Rightarrow> bool" where "big e \<longleftrightarrow> e AND PG_BIG \<noteq> 0"
definition entry_frame :: "u64 \<Rightarrow> u64" where "entry_frame e = e AND PG_ADDR_MASK"

definition pt_index :: "nat \<Rightarrow> u64 \<Rightarrow> nat" where
  "pt_index k va = unat va div 2 ^ k mod 512"

definition mmu_leaf :: "(u64 \<Rightarrow> nat \<Rightarrow> u64) \<Rightarrow> u64 \<Rightarrow> nat \<Rightarrow> nat \<Rightarrow> nat \<Rightarrow> nat \<Rightarrow> (nat \<times> u64) option" where
  "mmu_leaf t c i4 i3 i2 i1 =
     (let e4 = t c i4 in
      if \<not> present e4 \<or> big e4 then None
      else let e3 = t (entry_frame e4) i3 in
      if \<not> present e3 then None
      else if big e3 then Some (SIZE_1G, e3)
      else let e2 = t (entry_frame e3) i2 in
      if \<not> present e2 then None
      else if big e2 then Some (SIZE_2M, e2)
      else let e1 = t (entry_frame e2) i1 in
      if \<not> present e1 then None
      else Some (SIZE_4K, e1))"

definition size_mask :: "nat \<Rightarrow> u64" where
  "size_mask sz = (if sz = SIZE_1G then FRAME_SIZE_1G - 1 else if sz = SIZE_2M then FRAME_SIZE_2M - 1 else FRAME_SIZE - 1)"

definition mmu_walk :: "(u64 \<Rightarrow> nat \<Rightarrow> u64) \<Rightarrow> u64 \<Rightarrow> u64 \<Rightarrow> u64 option" where
  "mmu_walk t c va =
     map_option (\<lambda>(sz, e). entry_frame e + (va AND size_mask sz))
       (mmu_leaf t c (pt_index 39 va) (pt_index 30 va) (pt_index 21 va) (pt_index 12 va))"

text \<open>Access to the array of entries at the virtual address \<open>p\<close>.\<close>

definition pt_slot :: "vm \<Rightarrow> u64 \<Rightarrow> u64 \<Rightarrow> (u64 \<times> nat) option" where
  "pt_slot s p i = map_option (\<lambda>pa. (pa AND PG_ADDR_MASK, unat pa mod 4096 div 8)) (mmu_walk (tables s) (cr3 s) (p + i * 8))"

definition pt_read :: "vm \<Rightarrow> u64 \<Rightarrow> u64 \<Rightarrow> u64 option" where
  "pt_read s p i = map_option (\<lambda>(f, j). tables s f j) (pt_slot s p i)"

definition set_entry :: "u64 \<Rightarrow> nat \<Rightarrow> u64 \<Rightarrow> vm \<Rightarrow> vm" where
  "set_entry f j e s = s\<lparr>tables := (tables s)(f := (tables s f)(j := e))\<rparr>"

definition pt_write :: "u64 \<Rightarrow> u64 \<Rightarrow> u64 \<Rightarrow> vm \<Rightarrow> vm option" where
  "pt_write p i e s = map_option (\<lambda>(f, j). set_entry f j e s) (pt_slot s p i)"

definition pt_clear :: "u64 \<Rightarrow> vm \<Rightarrow> vm option" where
  "pt_clear p s = map_option (\<lambda>(f, _). s\<lparr>tables := (tables s)(f := (\<lambda>_. 0))\<rparr>) (pt_slot s p 0)"

section \<open>Operations without locking\<close>

definition queue_invalidate :: "u64 \<Rightarrow> vm \<Rightarrow> vm" where
  "queue_invalidate a s = s\<lparr>vm_cpus := tlb_transaction_queue_invlpg a (vm_cpus s)\<rparr>"

definition vmm_size' :: "u64 \<Rightarrow> vm \<Rightarrow> int option" where
  "vmm_size' virt s =
     (let index = addr_to_index virt in do {
        pml4entry \<leftarrow> pt_read s (pml4 index) (pml4index index);
        if \<not> present pml4entry then Some (-1)
        else do {
          pml3entry \<leftarrow> pt_read s (pml3 index) (pml3index index);
          if \<not> present pml3entry then Some (-1)
          else if big pml3entry then Some (int SIZE_1G)
          else do {
            pml2entry \<leftarrow> pt_read s (pml2 index) (pml2index index);
            if \<not> present pml2entry then Some (-1)
            else if big pml2entry then Some (int SIZE_2M)
            else do {
              pml1entry \<leftarrow> pt_read s (pml1 index) (pml1index index);
              Some (if \<not> present pml1entry then -1 else int SIZE_4K)}}}})"

definition vmm_virt_to_phys' :: "u64 \<Rightarrow> vm \<Rightarrow> u64 option" where
  "vmm_virt_to_phys' virt s =
     (let index = addr_to_index virt in do {
        pml4entry \<leftarrow> pt_read s (pml4 index) (pml4index index);
        if \<not> present pml4entry then Some 0
        else do {
          pml3entry \<leftarrow> pt_read s (pml3 index) (pml3index index);
          if \<not> present pml3entry then Some 0
          else if big pml3entry then Some ((pml3entry AND PG_ADDR_MASK) + (virt AND (FRAME_SIZE_1G - 1)))
          else do {
            pml2entry \<leftarrow> pt_read s (pml2 index) (pml2index index);
            if \<not> present pml2entry then Some 0
            else if big pml2entry then Some ((pml2entry AND PG_ADDR_MASK) + (virt AND (FRAME_SIZE_2M - 1)))
            else do {
              pml1entry \<leftarrow> pt_read s (pml1 index) (pml1index index);
              Some (if \<not> present pml1entry then 0
                else (pml1entry AND PG_ADDR_MASK) + (virt AND (FRAME_SIZE - 1)))}}}})"

text \<open>
  The block that occurs three times in \<^verbatim>\<open>_vmm_touch\<close>: allocate a table, enter it at index \<open>i\<close> of the table at
  \<open>p\<close>, and clear it through the pointer \<open>child\<close>.  The second result is the new frame, or 0.
\<close>

definition new_table :: "u64 \<Rightarrow> u64 \<Rightarrow> u64 \<Rightarrow> bool \<Rightarrow> vm \<Rightarrow> (vm \<times> u64) option" where
  "new_table p i child isUserSpacePage s = do {
     (pm, frame) \<leftarrow> pmm_alloc (vm_pmm s);
     let s = s\<lparr>vm_pmm := pm\<rparr>;
     if frame = 0 then Some (s, 0)
     else do {
       let entry = frame OR PG_WRITABLE OR PG_PRESENT;
       let entry = (if isUserSpacePage then entry OR PG_USER else entry);
       s \<leftarrow> pt_write p i entry s;
       s \<leftarrow> pt_clear child (queue_invalidate child s);
       Some (s, frame)}}"

definition drop_new :: "u64 \<Rightarrow> u64 \<Rightarrow> u64 \<Rightarrow> u64 \<Rightarrow> vm \<Rightarrow> vm option" where
  "drop_new p i child frame s =
     (if frame \<noteq> 0 then do {
        s \<leftarrow> pt_write p i 0 s;
        let s = queue_invalidate child s;
        pm \<leftarrow> pmm_free frame (vm_pmm s);
        Some (s\<lparr>vm_pmm := pm\<rparr>)}
      else Some s)"

definition rollback_pml4 :: "page_index_t \<Rightarrow> u64 \<Rightarrow> vm \<Rightarrow> (vm \<times> bool) option" where
  "rollback_pml4 index frame3 s = map_option (\<lambda>s. (s, False)) (drop_new (pml4 index) (pml4index index) (pml3 index) frame3 s)"

definition rollback_pml3 :: "page_index_t \<Rightarrow> u64 \<Rightarrow> u64 \<Rightarrow> vm \<Rightarrow> (vm \<times> bool) option" where
  "rollback_pml3 index frame2 frame3 s = do {
     s \<leftarrow> drop_new (pml3 index) (pml3index index) (pml2 index) frame2 s;
     rollback_pml4 index frame3 s}"

text \<open>\<open>touch_level\<close> adds the table if the entry is not present; the results are success and the new frame.\<close>

definition touch_level :: "u64 \<Rightarrow> u64 \<Rightarrow> u64 \<Rightarrow> bool \<Rightarrow> u64 \<Rightarrow> vm \<Rightarrow> (vm \<times> bool \<times> u64) option" where
  "touch_level p i child isUserSpacePage entry s =
     (if \<not> present entry then do {
        (s, frame) \<leftarrow> new_table p i child isUserSpacePage s;
        Some (s, frame \<noteq> 0, frame)}
      else Some (s, True, 0))"

definition vmm_touch' :: "u64 \<Rightarrow> int \<Rightarrow> vm \<Rightarrow> (vm \<times> bool) option" where
  "vmm_touch' virt sz s =
     (let index = addr_to_index virt; isUserSpacePage = (pml4index index < 256) in do {
        pml4entry \<leftarrow> pt_read s (pml4 index) (pml4index index);
        (s, ok, frame3) \<leftarrow> touch_level (pml4 index) (pml4index index) (pml3 index) isUserSpacePage pml4entry s;
        if \<not> ok then Some (s, False)
        else if sz = int SIZE_1G then Some (s, True)
        else do {
          pml3entry \<leftarrow> pt_read s (pml3 index) (pml3index index);
          if big pml3entry then rollback_pml4 index frame3 s
          else do {
            (s, ok, frame2) \<leftarrow> touch_level (pml3 index) (pml3index index) (pml2 index) isUserSpacePage pml3entry s;
            if \<not> ok then rollback_pml4 index frame3 s
            else if sz = int SIZE_2M then Some (s, True)
            else do {
              pml2entry \<leftarrow> pt_read s (pml2 index) (pml2index index);
              if big pml2entry then rollback_pml3 index frame2 frame3 s
              else do {
                (s, ok, frame1) \<leftarrow> touch_level (pml2 index) (pml2index index) (pml1 index) isUserSpacePage pml2entry s;
                if \<not> ok then rollback_pml3 index frame2 frame3 s
                else Some (s, True)}}}}})"

definition page_flags_of :: "page_index_t \<Rightarrow> u64 \<Rightarrow> u64" where
  "page_flags_of index flags =
     (let pg_flags = 0;
          pg_flags = (if flags AND VM_W \<noteq> 0 then pg_flags OR PG_WRITABLE else pg_flags);
          pg_flags = (if flags AND VM_X = 0 then pg_flags OR PG_NO_EXEC else pg_flags)
      in if pml4index index < 256 then pg_flags OR PG_USER else pg_flags)"

definition vmm_maps' :: "u64 \<Rightarrow> u64 \<Rightarrow> u64 \<Rightarrow> int \<Rightarrow> vm \<Rightarrow> (vm \<times> bool) option" where
  "vmm_maps' virt phy flags sz s =
     (if sz = int SIZE_1G \<and> \<not> enable1gPages (vm_pmm s) then Some (s, False)
      else if sz = int SIZE_2M \<and> \<not> enable2mPages (vm_pmm s) then Some (s, False)
      else do {
        (s, ok) \<leftarrow> vmm_touch' virt sz s;
        if \<not> ok then Some (s, False)
        else do {
          let index = addr_to_index virt;
          let pg_flags = page_flags_of index flags;
          s \<leftarrow> (if sz = int SIZE_4K then pt_write (pml1 index) (pml1index index) (phy OR PG_PRESENT OR pg_flags) s
            else if sz = int SIZE_2M then pt_write (pml2 index) (pml2index index) (phy OR PG_PRESENT OR PG_BIG OR pg_flags) s
            else if sz = int SIZE_1G then pt_write (pml3 index) (pml3index index) (phy OR PG_PRESENT OR PG_BIG OR pg_flags) s
            else Some s);
          Some (queue_invalidate virt s, True)}})"

definition vmm_map' :: "u64 \<Rightarrow> u64 \<Rightarrow> u64 \<Rightarrow> vm \<Rightarrow> (vm \<times> bool) option" where
  "vmm_map' virt phy flags s = vmm_maps' virt phy flags (int SIZE_4K) s"

text \<open>The loop over the 512 entries of a table: is none of them present?\<close>

fun pt_scan :: "vm \<Rightarrow> u64 \<Rightarrow> nat list \<Rightarrow> bool option" where
  "pt_scan s p [] = Some True"
| "pt_scan s p (i # is) = do {
     e \<leftarrow> pt_read s p (of_nat i);
     if present e then Some False else pt_scan s p is}"

definition drop_empty :: "u64 \<Rightarrow> u64 \<Rightarrow> u64 \<Rightarrow> vm \<Rightarrow> vm option" where
  "drop_empty p i child s = do {
     empty \<leftarrow> pt_scan s child [0..<512];
     if empty then do {
       e \<leftarrow> pt_read s p i;
       pm \<leftarrow> pmm_free (e AND PG_ADDR_MASK) (vm_pmm s);
       s \<leftarrow> pt_write p i 0 (s\<lparr>vm_pmm := pm\<rparr>);
       Some (queue_invalidate child s)}
     else Some s}"

definition vmm_untouch' :: "u64 \<Rightarrow> int \<Rightarrow> vm \<Rightarrow> vm option" where
  "vmm_untouch' virt sz s =
     (let index = addr_to_index virt in do {
        s \<leftarrow> (if sz = int SIZE_4K then drop_empty (pml2 index) (pml2index index) (pml1 index) s else Some s);
        s \<leftarrow> (if sz = int SIZE_4K \<or> sz = int SIZE_2M then drop_empty (pml3 index) (pml3index index) (pml2 index) s else Some s);
        if (sz = int SIZE_4K \<or> sz = int SIZE_2M \<or> sz = int SIZE_1G) \<and> pml4index index < 256
        then drop_empty (pml4 index) (pml4index index) (pml3 index) s else Some s})"

definition take_entry :: "u64 \<Rightarrow> u64 \<Rightarrow> vm \<Rightarrow> (vm \<times> u64) option" where
  "take_entry p i s = do {
     e \<leftarrow> pt_read s p i;
     s \<leftarrow> pt_write p i 0 s;
     Some (s, if present e then e AND PG_ADDR_MASK else 0)}"

definition vmm_unmaps' :: "u64 \<Rightarrow> int \<Rightarrow> vm \<Rightarrow> (vm \<times> u64) option" where
  "vmm_unmaps' virt sz s =
     (let index = addr_to_index virt in do {
        (s, frame) \<leftarrow> (if sz = int SIZE_4K then take_entry (pml1 index) (pml1index index) s
          else if sz = int SIZE_2M then take_entry (pml2 index) (pml2index index) s
          else if sz = int SIZE_1G then take_entry (pml3 index) (pml3index index) s
          else Some (s, 0));
        s \<leftarrow> vmm_untouch' virt sz (queue_invalidate virt s);
        Some (s, frame)})"

definition vmm_unmap' :: "u64 \<Rightarrow> vm \<Rightarrow> (vm \<times> u64) option" where
  "vmm_unmap' virt s = vmm_unmaps' virt (int SIZE_4K) s"

text \<open>
  Unmapping a range calls \<^verbatim>\<open>_vmm_unmaps(size, virt + off)\<close>, with the arguments in the wrong order: the size is
  widened to an address, and the address is narrowed to a 32-bit integer.
\<close>

partial_function (option) unmap_range_loop :: "u64 \<Rightarrow> u64 \<Rightarrow> u64 \<Rightarrow> vm \<Rightarrow> vm option" where
  "unmap_range_loop virt len off s =
     (if off < len then do {
        sz \<leftarrow> vmm_size' (virt + off) s;
        s \<leftarrow> (if sz \<noteq> -1 then map_option fst (vmm_unmaps' (of_int sz) (sint (ucast (virt + off) :: u32)) s) else Some s);
        unmap_range_loop virt len
          (if sz = int SIZE_1G then off + FRAME_SIZE_1G
           else if sz = int SIZE_2M then off + FRAME_SIZE_2M else off + FRAME_SIZE) s}
      else Some s)"

definition vmm_unmap_range' :: "u64 \<Rightarrow> u64 \<Rightarrow> vm \<Rightarrow> vm option" where
  "vmm_unmap_range' virt len s = unmap_range_loop virt (PAGE_ALIGN len) 0 s"

partial_function (option) map_range_loop :: "u64 \<Rightarrow> u64 \<Rightarrow> u64 \<Rightarrow> u64 \<Rightarrow> u64 \<Rightarrow> vm \<Rightarrow> (vm \<times> bool) option" where
  "map_range_loop virt phy len flags off s =
     (if off < len then do {
        let remaining = len - off;
        (s, ok) \<leftarrow> (if PAGE_ALIGN_1G (virt + off) = virt + off \<and> remaining \<ge> FRAME_SIZE_1G
          then vmm_maps' (virt + off) (phy + off) flags (int SIZE_1G) s else Some (s, False));
        if ok then map_range_loop virt phy len flags (off + FRAME_SIZE_1G) s
        else do {
          (s, ok) \<leftarrow> (if PAGE_ALIGN_2M (virt + off) = virt + off \<and> remaining \<ge> FRAME_SIZE_2M
            then vmm_maps' (virt + off) (phy + off) flags (int SIZE_2M) s else Some (s, False));
          if ok then map_range_loop virt phy len flags (off + FRAME_SIZE_2M) s
          else do {
            (s, ok) \<leftarrow> vmm_map' (virt + off) (phy + off) flags s;
            if \<not> ok then map_option (\<lambda>s. (s, False)) (vmm_unmap_range' virt off s)
            else map_range_loop virt phy len flags (off + FRAME_SIZE) s}}}
      else Some (s, True))"

definition vmm_map_range' :: "u64 \<Rightarrow> u64 \<Rightarrow> u64 \<Rightarrow> u64 \<Rightarrow> vm \<Rightarrow> (vm \<times> bool) option" where
  "vmm_map_range' virt phy len flags s = map_range_loop virt phy (PAGE_ALIGN len) flags 0 s"

definition change_flags :: "u64 \<Rightarrow> bool \<Rightarrow> u64 \<Rightarrow> u64" where
  "change_flags flags st e = (if st then e OR flags else e AND NOT flags)"

definition vmm_modify_flags' :: "u64 \<Rightarrow> u64 \<Rightarrow> bool \<Rightarrow> vm \<Rightarrow> (vm \<times> u64) option" where
  "vmm_modify_flags' virt flags st s =
     (let index = addr_to_index virt; s = queue_invalidate virt s in do {
        pml4entry \<leftarrow> pt_read s (pml4 index) (pml4index index);
        if \<not> present pml4entry then Some (s, 0)
        else do {
          pml3entry \<leftarrow> pt_read s (pml3 index) (pml3index index);
          if \<not> present pml3entry then Some (s, 0)
          else if big pml3entry then do {
            let e = change_flags flags st pml3entry;
            s \<leftarrow> pt_write (pml3 index) (pml3index index) e s;
            Some (s, e)}
          else do {
            pml2entry \<leftarrow> pt_read s (pml2 index) (pml2index index);
            if \<not> present pml2entry then Some (s, 0)
            else if big pml2entry then do {
              let e = change_flags flags st pml2entry;
              s \<leftarrow> pt_write (pml2 index) (pml2index index) e s;
              Some (s, e)}
            else do {
              pml1entry \<leftarrow> pt_read s (pml1 index) (pml1index index);
              if \<not> present pml1entry then Some (s, 0)
              else do {
                let e = change_flags flags st pml1entry;
                s \<leftarrow> pt_write (pml1 index) (pml1index index) e s;
                Some (s, e)}}}}})"

section \<open>Operations with locking\<close>

text \<open>
  The public operations run under the lock of the address space, so they are atomic steps; each is one TLB
  transaction.
\<close>

definition commit :: "vm \<Rightarrow> vm" where
  "commit s = s\<lparr>vm_cpus := tlb_transaction_commit (vm_smp s) (vm_me s) (vm_cpus s)\<rparr>"

definition vmm_touch :: "u64 \<Rightarrow> int \<Rightarrow> vm \<Rightarrow> (vm \<times> bool) option" where
  "vmm_touch virt sz s = map_option (\<lambda>(s, ok). (commit s, ok)) (vmm_touch' virt sz s)"

definition vmm_map :: "u64 \<Rightarrow> u64 \<Rightarrow> u64 \<Rightarrow> vm \<Rightarrow> (vm \<times> bool) option" where
  "vmm_map virt phy flags s = map_option (\<lambda>(s, ok). (commit s, ok)) (vmm_map' virt phy flags s)"

definition vmm_maps :: "u64 \<Rightarrow> u64 \<Rightarrow> u64 \<Rightarrow> int \<Rightarrow> vm \<Rightarrow> (vm \<times> bool) option" where
  "vmm_maps virt phy flags sz s = map_option (\<lambda>(s, ok). (commit s, ok)) (vmm_maps' virt phy flags sz s)"

definition vmm_unmap :: "u64 \<Rightarrow> vm \<Rightarrow> (vm \<times> u64) option" where
  "vmm_unmap virt s = map_option (\<lambda>(s, addr). (commit s, addr)) (vmm_unmap' virt s)"

definition vmm_unmaps :: "u64 \<Rightarrow> int \<Rightarrow> vm \<Rightarrow> (vm \<times> u64) option" where
  "vmm_unmaps virt sz s = map_option (\<lambda>(s, addr). (commit s, addr)) (vmm_unmaps' virt sz s)"

definition vmm_untouch :: "u64 \<Rightarrow> int \<Rightarrow> vm \<Rightarrow> vm option" where
  "vmm_untouch virt sz s = map_option commit (vmm_untouch' virt sz s)"

definition vmm_map_range :: "u64 \<Rightarrow> u64 \<Rightarrow> u64 \<Rightarrow> u64 \<Rightarrow> vm \<Rightarrow> (vm \<times> bool) option" where
  "vmm_map_range virt phy len flags s = map_option (\<lambda>(s, ok). (commit s, ok)) (vmm_map_range' virt phy len flags s)"

definition vmm_unmap_range :: "u64 \<Rightarrow> u64 \<Rightarrow> vm \<Rightarrow> vm option" where
  "vmm_unmap_range virt len s = map_option commit (vmm_unmap_range' virt len s)"

definition vmm_size :: "u64 \<Rightarrow> vm \<Rightarrow> int option" where
  "vmm_size virt s = vmm_size' virt s"

definition vmm_virt_to_phys :: "u64 \<Rightarrow> vm \<Rightarrow> u64 option" where
  "vmm_virt_to_phys virt s = vmm_virt_to_phys' virt s"

definition vmm_modify_flags :: "u64 \<Rightarrow> u64 \<Rightarrow> bool \<Rightarrow> vm \<Rightarrow> (vm \<times> u64) option" where
  "vmm_modify_flags virt flags st s = map_option (\<lambda>(s, e). (commit s, e)) (vmm_modify_flags' virt flags st s)"

text \<open>
  At start-up every table below an entry of the higher half is created.  The loop runs up to and including index
  512; \<open>None\<close> in the result is a panic or a page fault.
\<close>

definition vmm_init :: "vm \<Rightarrow> vm option" where
  "vmm_init s = iter (\<lambda>s pml4_index.
     Option.bind (vmm_touch' (VM_HIGHER_HALF + of_nat (pml4_index - 256) * FRAME_SIZE_512G) (int SIZE_1G) s)
       (\<lambda>(s, ok). if ok then Some s else None)) [256..<513] s"

end
