(* ===== verification/VmmRep.thy ===== *)
theory VmmRep
  imports Vmm
begin

text \<open>
  Page tables as a tree.  The self-reference in entry 510 makes every table of the tree readable at the pointers that
  \<^verbatim>\<open>addr_to_index\<close> computes; a path of indices names a table, and different paths name different
  frames.
\<close>

section \<open>Indices\<close>

definition canonical :: "u64 \<Rightarrow> bool" where
  "canonical va \<longleftrightarrow> va \<le> VM_USER_END \<or> VM_HIGHER_HALF \<le> va"

lemma pt_index_less [simp]: "pt_index k va < 512"
  by (simp add: pt_index_def)

lemma index_slices:
  fixes a b c d r h n :: nat
  assumes "a < 512" "b < 512" "c < 512" "d < 512" "r < 4096"
    and n: "n = ((((h * 512 + a) * 512 + b) * 512 + c) * 512 + d) * 4096 + r"
  shows "n div 2 ^ 12 mod 512 = d" "n div 2 ^ 21 mod 512 = c" "n div 2 ^ 30 mod 512 = b" "n div 2 ^ 39 mod 512 = a" "n mod 4096 = r"
proof -
  have 1: "n div 2 ^ 12 = (((h * 512 + a) * 512 + b) * 512 + c) * 512 + d" using assms(5) unfolding n by simp
  have 2: "n div 2 ^ 21 = ((h * 512 + a) * 512 + b) * 512 + c"
    using div_mult2_eq [of n "2 ^ 12" "2 ^ 9"] assms(4) by (simp add: 1 [simplified])
  have 3: "n div 2 ^ 30 = (h * 512 + a) * 512 + b"
    using div_mult2_eq [of n "2 ^ 21" "2 ^ 9"] assms(3) by (simp add: 2 [simplified])
  have 4: "n div 2 ^ 39 = h * 512 + a"
    using div_mult2_eq [of n "2 ^ 30" "2 ^ 9"] assms(2) by (simp add: 3 [simplified])
  have m: "(x * 512 + y) mod 512 = y" if "y < 512" for x y :: nat using that by simp
  show "n div 2 ^ 12 mod 512 = d" unfolding 1 using assms(4) by (rule m)
  show "n div 2 ^ 21 mod 512 = c" unfolding 2 using assms(3) by (rule m)
  show "n div 2 ^ 30 mod 512 = b" unfolding 3 using assms(2) by (rule m)
  show "n div 2 ^ 39 mod 512 = a" unfolding 4 using assms(1) by (rule m)
  have "(x * 4096 + y) mod 4096 = y" if "y < 4096" for x y :: nat using that by simp
  then show "n mod 4096 = r" unfolding n using assms(5) by blast
qed

lemma slice_mod: "(n :: nat) mod (k * 512) div k = n div k mod 512" if "0 < k"
  using that by (simp add: mod_mult2_eq)

lemma addr_to_index_unat:
  assumes "canonical va"
  shows "unat (pml4index (addr_to_index va)) = pt_index 39 va" "unat (pml3index (addr_to_index va)) = pt_index 30 va"
    "unat (pml2index (addr_to_index va)) = pt_index 21 va" "unat (pml1index (addr_to_index va)) = pt_index 12 va"
proof -
  let ?n = "unat va"
  define w where "w = (if va \<ge> VM_HIGHER_HALF then va - VM_HIGHER_HALF else va)"
  have n64: "?n < 2 ^ 64" using unsigned_less [of va, where 'a = nat] by simp
  have w: "?n = (if va \<ge> VM_HIGHER_HALF then 0xFFFF800000000000 else 0) + unat w" "unat w < 2 ^ 47"
    using assms n64
    by (auto simp: w_def canonical_def VM_HIGHER_HALF_def VM_USER_END_def word_le_nat_alt unat_sub split: if_splits)
  have d: "unat w div 2 ^ 39 < 256" using w(2) by (simp add: div_less_iff_less_mult)
  have m: "unat w mod 2 ^ 39 = ?n mod 2 ^ 39" "?n div 2 ^ 39 mod 512 = (if va \<ge> VM_HIGHER_HALF then 256 else 0) + unat w div 2 ^ 39"
  proof -
    have e: "?n = unat w + 2 ^ 39 * (if va \<ge> VM_HIGHER_HALF then 0x1FFFF00 else 0)" using w(1) by simp
    show "unat w mod 2 ^ 39 = ?n mod 2 ^ 39" unfolding e by (simp only: mod_mult_self2)
    have "?n div 2 ^ 39 = (if va \<ge> VM_HIGHER_HALF then 0x1FFFF00 else 0) + unat w div 2 ^ 39"
      unfolding e by (subst div_mult_self2) simp_all
    also have "\<dots> = ((if va \<ge> VM_HIGHER_HALF then 256 else 0) + unat w div 2 ^ 39)
        + 512 * (if va \<ge> VM_HIGHER_HALF then 0xFFFF else 0)" by simp
    finally show "?n div 2 ^ 39 mod 512 = (if va \<ge> VM_HIGHER_HALF then 256 else 0) + unat w div 2 ^ 39"
      using d by (simp only: mod_mult_self2) simp
  qed
  have i: "pml3index (addr_to_index va) = w mod FRAME_SIZE_512G div FRAME_SIZE_1G"
    "pml2index (addr_to_index va) = w mod FRAME_SIZE_512G mod FRAME_SIZE_1G div FRAME_SIZE_2M"
    "pml1index (addr_to_index va) = w mod FRAME_SIZE_512G mod FRAME_SIZE_1G mod FRAME_SIZE_2M div FRAME_SIZE"
    "pml4index (addr_to_index va) = (if va \<ge> VM_HIGHER_HALF then 256 else 0) + w div FRAME_SIZE_512G"
    by (simp_all add: addr_to_index_def Let_def w_def)
  show "unat (pml4index (addr_to_index va)) = pt_index 39 va"
    using m(2) d by (simp add: i pt_index_def unat_div_distrib unat_word_ariths)
  have c: "x mod 0x8000000000 mod 0x40000000 = x mod 0x40000000" "x mod 0x40000000 mod 0x200000 = x mod 0x200000" for x :: nat
    by (simp_all add: mod_mod_cancel)
  show "unat (pml3index (addr_to_index va)) = pt_index 30 va"
    using m(1) slice_mod [of "2 ^ 30" ?n] by (simp add: i pt_index_def unat_div_distrib unat_mod_distrib)
  show "unat (pml2index (addr_to_index va)) = pt_index 21 va"
    using m(1) slice_mod [of "2 ^ 21" ?n] c [of ?n] by (simp add: i pt_index_def unat_div_distrib unat_mod_distrib)
  show "unat (pml1index (addr_to_index va)) = pt_index 12 va"
    using m(1) slice_mod [of "2 ^ 12" ?n] c [of ?n] by (simp add: i pt_index_def unat_div_distrib unat_mod_distrib)
qed

lemma addr_to_index_pointers:
  "pml4 (addr_to_index va) = PML4_OFFSET"
  "pml3 (addr_to_index va) = PML3_OFFSET + pml4index (addr_to_index va) * 0x1000"
  "pml2 (addr_to_index va) = PML2_OFFSET + pml4index (addr_to_index va) * 0x200000 + pml3index (addr_to_index va) * 0x1000"
  "pml1 (addr_to_index va) = PML1_OFFSET + pml4index (addr_to_index va) * 0x40000000 + pml3index (addr_to_index va) * 0x200000
     + pml2index (addr_to_index va) * 0x1000"
  by (simp_all add: addr_to_index_def Let_def)

section \<open>The window of the self-reference\<close>

lemma entry_frame_idem [simp]: "entry_frame (entry_frame e) = entry_frame e" "entry_frame e AND PG_ADDR_MASK = entry_frame e"
  by (simp_all add: entry_frame_def and.assoc)

lemma frame_plus_offset:
  assumes "entry_frame f = f"
  shows "(f + (va AND 0xFFF)) AND PG_ADDR_MASK = f" "unat (f + (va AND 0xFFF)) mod 4096 = unat va mod 4096"
proof -
  have m: "(va AND 0xFFF) AND PG_ADDR_MASK = 0" by (simp add: and.assoc PG_ADDR_MASK_def)
  have "f AND (va AND 0xFFF) = (f AND PG_ADDR_MASK) AND (va AND 0xFFF)" using assms by (simp add: entry_frame_def)
  also have "\<dots> = 0" using m by (metis and.assoc and.commute and_zero_eq)
  finally have o: "f + (va AND 0xFFF) = f OR (va AND 0xFFF)" by (rule disjunctive_add_eq_or)
  show "(f + (va AND 0xFFF)) AND PG_ADDR_MASK = f"
    unfolding o using assms m by (simp add: entry_frame_def bit.conj_disj_distrib2)
  have "take_bit 12 (f OR (va AND 0xFFF)) = take_bit 12 va"
  proof -
    have "f AND 0xFFF = (f AND PG_ADDR_MASK) AND 0xFFF" using assms by (simp add: entry_frame_def)
    also have "\<dots> = 0" by (simp add: and.assoc PG_ADDR_MASK_def)
    finally show ?thesis by (simp add: take_bit_eq_mask mask_eq_exp_minus_1 bit.conj_disj_distrib2 and.assoc)
  qed
  then show "unat (f + (va AND 0xFFF)) mod 4096 = unat va mod 4096"
    unfolding o using unat_take_bit [of 12 va] unat_take_bit [of 12 "f OR (va AND 0xFFF)"] by simp
qed

text \<open>Entry 510 of the top table refers to the top table.\<close>

definition self_ref :: "vm \<Rightarrow> bool" where
  "self_ref s \<longleftrightarrow> present (tables s (cr3 s) 510) \<and> \<not> big (tables s (cr3 s) 510) \<and> entry_frame (tables s (cr3 s) 510) = cr3 s"

lemma pt_slot_4K:
  assumes "mmu_leaf (tables s) (cr3 s) a b c d = Some (SIZE_4K, e)"
    and "a < 512" "b < 512" "c < 512" "d < 512" "i < 512"
    and n: "unat (p + i * 8) = ((((0xFFFF * 512 + a) * 512 + b) * 512 + c) * 512 + d) * 4096 + unat i * 8"
  shows "pt_slot s p i = Some (entry_frame e, unat i)"
proof -
  have i: "unat i < 512" "unat i * 8 < 4096" using assms(6) by (simp_all add: word_less_nat_alt)
  note ix = index_slices [OF assms(2-5) i(2) n]
  have "mmu_walk (tables s) (cr3 s) (p + i * 8) = Some (entry_frame e + ((p + i * 8) AND 0xFFF))"
    using assms(1) by (simp add: mmu_walk_def pt_index_def ix [simplified] size_mask_def)
  then show ?thesis
    using frame_plus_offset [of "entry_frame e" "p + i * 8"] ix(5) by (simp add: pt_slot_def)
qed

lemma pt_slot_window:
  assumes self: "self_ref s" and i: "i4 < 512" "i3 < 512" "i2 < 512" "i < 512"
  defines "T \<equiv> tables s"
  shows "pt_slot s PML4_OFFSET i = Some (cr3 s, unat i)"
    and "present (T (cr3 s) (unat i4)) \<Longrightarrow>
      pt_slot s (PML3_OFFSET + i4 * 0x1000) i = Some (entry_frame (T (cr3 s) (unat i4)), unat i)"
    and "present (T (cr3 s) (unat i4)) \<Longrightarrow> \<not> big (T (cr3 s) (unat i4)) \<Longrightarrow> f3 = entry_frame (T (cr3 s) (unat i4)) \<Longrightarrow>
      present (T f3 (unat i3)) \<Longrightarrow>
      pt_slot s (PML2_OFFSET + i4 * 0x200000 + i3 * 0x1000) i = Some (entry_frame (T f3 (unat i3)), unat i)"
    and "present (T (cr3 s) (unat i4)) \<Longrightarrow> \<not> big (T (cr3 s) (unat i4)) \<Longrightarrow> f3 = entry_frame (T (cr3 s) (unat i4)) \<Longrightarrow>
      present (T f3 (unat i3)) \<Longrightarrow> \<not> big (T f3 (unat i3)) \<Longrightarrow> f2 = entry_frame (T f3 (unat i3)) \<Longrightarrow> present (T f2 (unat i2)) \<Longrightarrow>
      pt_slot s (PML1_OFFSET + i4 * 0x40000000 + i3 * 0x200000 + i2 * 0x1000) i = Some (entry_frame (T f2 (unat i2)), unat i)"
proof -
  have u: "unat i4 < 512" "unat i3 < 512" "unat i2 < 512" "unat i < 512" using i by (simp_all add: word_less_nat_alt)
  note sr = self [unfolded self_ref_def] and leaf = mmu_leaf_def Let_def
  note ar = unat_word_ariths PML4_OFFSET_def PML3_OFFSET_def PML2_OFFSET_def PML1_OFFSET_def
  show "pt_slot s PML4_OFFSET i = Some (cr3 s, unat i)"
    using pt_slot_4K [of s 510 510 510 510 "tables s (cr3 s) 510" i PML4_OFFSET] sr u i by (simp add: leaf ar)
  show "pt_slot s (PML3_OFFSET + i4 * 0x1000) i = Some (entry_frame (T (cr3 s) (unat i4)), unat i)"
    if "present (T (cr3 s) (unat i4))"
    using pt_slot_4K [of s 510 510 510 "unat i4" "T (cr3 s) (unat i4)" i "PML3_OFFSET + i4 * 0x1000"] sr u i that
    by (simp add: leaf ar T_def)
  show "pt_slot s (PML2_OFFSET + i4 * 0x200000 + i3 * 0x1000) i = Some (entry_frame (T f3 (unat i3)), unat i)"
    if "present (T (cr3 s) (unat i4))" "\<not> big (T (cr3 s) (unat i4))" "f3 = entry_frame (T (cr3 s) (unat i4))" "present (T f3 (unat i3))"
    using pt_slot_4K [of s 510 510 "unat i4" "unat i3" "T f3 (unat i3)" i "PML2_OFFSET + i4 * 0x200000 + i3 * 0x1000"] sr u i that
    by (simp add: leaf ar T_def)
  show "pt_slot s (PML1_OFFSET + i4 * 0x40000000 + i3 * 0x200000 + i2 * 0x1000) i = Some (entry_frame (T f2 (unat i2)), unat i)"
    if "present (T (cr3 s) (unat i4))" "\<not> big (T (cr3 s) (unat i4))" "f3 = entry_frame (T (cr3 s) (unat i4))" "present (T f3 (unat i3))"
      "\<not> big (T f3 (unat i3))" "f2 = entry_frame (T f3 (unat i3))" "present (T f2 (unat i2))"
    using pt_slot_4K [of s 510 "unat i4" "unat i3" "unat i2" "T f2 (unat i2)" i "PML1_OFFSET + i4 * 0x40000000 + i3 * 0x200000 + i2 * 0x1000"]
      sr u i that
    by (simp add: leaf ar T_def)
qed

end
