(* ===== verification/VmmTree.thy ===== *)
theory VmmTree
  imports VmmRep "HOL-Library.Sublist"
begin

text \<open>
  The tables of an address space as a tree: a path of indices names the table that the hardware reaches with it.  The
  lemmas say how writing one entry changes the tables on all paths and the translations of all addresses.
\<close>

section \<open>Tables along a path\<close>

fun tab :: "(u64 \<Rightarrow> nat \<Rightarrow> u64) \<Rightarrow> u64 \<Rightarrow> nat list \<Rightarrow> u64 option" where
  "tab t f [] = Some f"
| "tab t f (i # p) = (if present (t f i) \<and> \<not> big (t f i) then tab t (entry_frame (t f i)) p else None)"

lemma tab_append: "tab t f (p @ q) = Option.bind (tab t f p) (\<lambda>g. tab t g q)"
  by (induction p arbitrary: f) auto

lemma tab_snoc:
  "tab t f (p @ [i]) = Some g \<longleftrightarrow>
     (\<exists>h. tab t f p = Some h \<and> present (t h i) \<and> \<not> big (t h i) \<and> entry_frame (t h i) = g)"
  by (auto simp: tab_append bind_eq_Some_conv)

definition valid_path :: "nat list \<Rightarrow> bool" where
  "valid_path p \<longleftrightarrow> length p \<le> 3 \<and> (\<forall>i\<in>set p. i < 512) \<and> (p \<noteq> [] \<longrightarrow> hd p \<noteq> 510)"

lemma valid_path_prefix: "valid_path (p @ q) \<Longrightarrow> valid_path p"
  by (cases p) (auto simp: valid_path_def)

lemma valid_path_Nil [simp]: "valid_path []" by (simp add: valid_path_def)

text \<open>Different paths lead to different frames.\<close>

definition tree :: "(u64 \<Rightarrow> nat \<Rightarrow> u64) \<Rightarrow> u64 \<Rightarrow> bool" where
  "tree t c \<longleftrightarrow> (\<forall>p q f. valid_path p \<and> valid_path q \<and> tab t c p = Some f \<and> tab t c q = Some f \<longrightarrow> p = q)"

lemma treeD: "tree t c \<Longrightarrow> valid_path p \<Longrightarrow> valid_path q \<Longrightarrow> tab t c p = Some f \<Longrightarrow> tab t c q = Some f \<Longrightarrow> p = q"
  by (auto simp: tree_def)

abbreviation upd :: "(u64 \<Rightarrow> nat \<Rightarrow> u64) \<Rightarrow> u64 \<Rightarrow> nat \<Rightarrow> u64 \<Rightarrow> u64 \<Rightarrow> nat \<Rightarrow> u64" where
  "upd t g i e \<equiv> t(g := (t g)(i := e))"

lemma tab_upd:
  assumes "tree t c" "valid_path q" "tab t c q = Some g" "valid_path p" "\<not> prefix (q @ [i]) p"
  shows "tab (upd t g i e) c p = tab t c p"
  using assms(4,5)
proof (induction p rule: rev_induct)
  case (snoc k p)
  have p: "valid_path p" "\<not> prefix (q @ [i]) p" using snoc.prems by (auto dest: valid_path_prefix simp: prefix_order.dual_order.trans)
  have "\<not> (h = g \<and> k = i)" if "tab t c p = Some h" for h
    using treeD [OF assms(1) p(1) assms(2) _ assms(3)] that snoc.prems(2) by auto
  then show ?case using snoc.IH [OF p] by (auto simp: tab_append split: Option.bind_splits)
qed simp

lemma tab_upd_self:
  "tree t c \<Longrightarrow> valid_path q \<Longrightarrow> tab t c q = Some g \<Longrightarrow> tab (upd t g i e) c q = Some g"
  by (subst tab_upd) (auto simp: prefix_def)

lemma tab_upd_below:
  assumes "tree t c" "valid_path q" "tab t c q = Some g" "\<not> (present e \<and> \<not> big e)"
  shows "tab (upd t g i e) c (q @ i # r) = None"
  using tab_upd_self [OF assms(1-3), of i e] assms(4) by (auto simp: tab_append)

lemma prefix_split: "prefix (q @ [i]) p \<Longrightarrow> \<exists>r. p = q @ i # r"
  by (auto simp: prefix_def)

text \<open>An entry that is not a table cuts off what was below it.\<close>

lemma tree_cut:
  assumes "tree t c" "valid_path q" "tab t c q = Some g" "\<not> (present e \<and> \<not> big e)"
    and p: "valid_path p" "tab (upd t g i e) c p = Some f"
  shows "tab t c p = Some f" "\<not> prefix (q @ [i]) p"
proof -
  show n: "\<not> prefix (q @ [i]) p"
    using tab_upd_below [OF assms(1-4)] p(2) by (auto dest: prefix_split)
  show "tab t c p = Some f" using tab_upd [OF assms(1-3) p(1) n] p(2) by simp
qed

lemma tree_upd_cut:
  assumes "tree t c" "valid_path q" "tab t c q = Some g" "\<not> (present e \<and> \<not> big e)"
  shows "tree (upd t g i e) c"
  unfolding tree_def using tree_cut(1) [OF assms] treeD [OF assms(1)] by blast

text \<open>A frame that is not in the tree can be changed.\<close>

definition fresh :: "(u64 \<Rightarrow> nat \<Rightarrow> u64) \<Rightarrow> u64 \<Rightarrow> u64 \<Rightarrow> bool" where
  "fresh t c a \<longleftrightarrow> (\<forall>p. valid_path p \<longrightarrow> tab t c p \<noteq> Some a)"

lemma freshD: "fresh t c a \<Longrightarrow> valid_path p \<Longrightarrow> tab t c p \<noteq> Some a"
  by (simp add: fresh_def)

lemma tab_outside:
  assumes "fresh t c a" "valid_path p"
  shows "tab (t(a := z)) c p = tab t c p"
  using assms(2)
proof (induction p rule: rev_induct)
  case (snoc k p)
  have p: "valid_path p" using snoc.prems by (rule valid_path_prefix)
  then show ?case using snoc.IH [OF p] freshD [OF assms(1) p] by (auto simp: tab_append split: Option.bind_splits)
qed simp

text \<open>Entering a new, empty table.\<close>

lemma tab_new:
  assumes t: "tree t c" "valid_path q" "tab t c q = Some g" and new: "fresh t c a"
    and e: "present e" "\<not> big e" "entry_frame e = a" and p: "valid_path p" and n: "\<not> present (t g i)" and z: "\<forall>k. \<not> present (z k)"
  shows "tab (upd (t(a := z)) g i e) c p = (if p = q @ [i] then Some a else tab t c p)"
proof -
  let ?t = "t(a := z)"
  have tt: "tab ?t c p = tab t c p" if "valid_path p" for p using tab_outside [OF new that] .
  have t2: "tree ?t c" unfolding tree_def using treeD [OF t(1)] tt by metis
  have q: "tab ?t c q = Some g" using tt [OF t(2)] t(3) by simp
  have ag: "a \<noteq> g" using freshD [OF new t(2)] t(3) by auto
  show ?thesis
  proof (cases "prefix (q @ [i]) p")
    case False
    then show ?thesis using tab_upd [OF t2 t(2) q p False] tt [OF p] by auto
  next
    case True
    then obtain r where r: "p = q @ i # r" by (auto dest: prefix_split)
    have "tab (upd ?t g i e) c p = tab (upd ?t g i e) a r"
      using tab_upd_self [OF t2 t(2) q, of i e] e by (simp add: r tab_append)
    moreover have "tab t c p = None" using t(3) n by (simp add: r tab_append)
    ultimately show ?thesis using z ag by (cases r) (auto simp: r)
  qed
qed

section \<open>Leaves\<close>

definition leaf :: "(u64 \<Rightarrow> nat \<Rightarrow> u64) \<Rightarrow> u64 \<Rightarrow> nat list \<Rightarrow> (nat \<times> u64) option" where
  "leaf t c xs = mmu_leaf t c (xs ! 0) (xs ! 1) (xs ! 2) (xs ! 3)"

definition leaf_ix :: "nat list \<Rightarrow> bool" where
  "leaf_ix xs \<longleftrightarrow> length xs = 4 \<and> (\<forall>i\<in>set xs. i < 512) \<and> hd xs \<noteq> 510"

lemma leaf_ix_cases:
  assumes "leaf_ix xs"
  obtains a b c d where "xs = [a, b, c, d]" "a < 512" "b < 512" "c < 512" "d < 512" "a \<noteq> 510"
  using assms by (auto simp: leaf_ix_def length_Suc_conv eval_nat_numeral)

lemma leaf_ix_take: "leaf_ix xs \<Longrightarrow> n \<le> 3 \<Longrightarrow> valid_path (take n xs)"
  by (auto simp: leaf_ix_def valid_path_def dest: in_set_takeD)

text \<open>The walk, one table at a time: level \<open>n\<close> looks at the entry in the table reached after \<open>n\<close> steps.\<close>

lemma leaf_tab:
  assumes "leaf_ix xs"
  shows "leaf t c xs = Some (k, e) \<longleftrightarrow> k \<le> 2 \<and> (\<exists>f. tab t c (take (3 - k) xs) = Some f \<and> t f (xs ! (3 - k)) = e \<and> present e
     \<and> (k \<noteq> 0 \<longrightarrow> big e))"
proof -
  obtain i4 i3 i2 i1 where xs: "xs = [i4, i3, i2, i1]" using leaf_ix_cases [OF assms] by metis
  have "k = 0 \<or> k = 1 \<or> k = 2 \<or> k > 2" by linarith
  then show ?thesis
    by (elim disjE) (auto simp: xs leaf_def mmu_leaf_def Let_def numeral_2_eq_2 numeral_3_eq_3)
qed

lemma leaf_eqI: "(\<And>k e. leaf t c xs = Some (k, e) \<longleftrightarrow> leaf t' c' xs = Some (k, e)) \<Longrightarrow> leaf t c xs = leaf t' c' xs"
  by (metis option.exhaust surj_pair)

lemma take_prefix: "prefix (take n xs) xs" "prefix (q @ [i]) (take n xs) \<Longrightarrow> prefix (q @ [i]) xs"
  by (auto simp: take_is_prefix intro: prefix_order.trans)

lemma take_snoc_prefix: "n < length xs \<Longrightarrow> prefix (take n xs @ [xs ! n]) xs"
  by (metis take_Suc_conv_app_nth take_is_prefix)

lemma leaf_upd_other:
  assumes "tree t c" "valid_path q" "tab t c q = Some g" "leaf_ix xs" "\<not> prefix (q @ [i]) xs"
  shows "leaf (upd t g i e) c xs = leaf t c xs"
proof (rule leaf_eqI)
  fix k e'
  have v: "valid_path (take (3 - k) xs)" using leaf_ix_take [OF assms(4)] by simp
  have "tab (upd t g i e) c (take (3 - k) xs) = tab t c (take (3 - k) xs)"
    using assms(5) take_prefix(2) [of q i "3 - k" xs] by (intro tab_upd [OF assms(1-3) v]) auto
  moreover have "prefix (take (3 - k) xs @ [xs ! (3 - k)]) xs"
    using assms(4) by (intro take_snoc_prefix) (auto simp: leaf_ix_def)
  then have "\<not> (f = g \<and> xs ! (3 - k) = i)" if "tab t c (take (3 - k) xs) = Some f" for f
    using treeD [OF assms(1) v assms(2) that] assms(3,5) by auto
  ultimately show "leaf (upd t g i e) c xs = Some (k, e') \<longleftrightarrow> leaf t c xs = Some (k, e')"
    unfolding leaf_tab [OF assms(4)] by auto
qed

text \<open>A walk does not end above a table that lies on its path.\<close>

lemma leaf_below:
  assumes "leaf_ix xs" "tab t c (take n xs) = Some g" "n \<le> 3" "leaf t c xs = Some (k, e)"
  shows "n \<le> 3 - k"
proof (rule ccontr)
  assume "\<not> n \<le> 3 - k"
  then have lt: "3 - k < n" by simp
  obtain f where f: "tab t c (take (3 - k) xs) = Some f" "t f (xs ! (3 - k)) = e" "k \<noteq> 0 \<longrightarrow> big e"
    using assms(4) unfolding leaf_tab [OF assms(1)] by blast
  have "take n xs = take (3 - k) xs @ xs ! (3 - k) # drop (Suc (3 - k)) (take n xs)"
    using lt assms(1,3) by (subst id_take_nth_drop [of "3 - k"]) (auto simp: leaf_ix_def min_def)
  then have "tab t c (take (3 - k) xs @ xs ! (3 - k) # drop (Suc (3 - k)) (take n xs)) = Some g" using assms(2) by simp
  then show False using f lt assms(3) by (auto simp: tab_append split: if_splits)
qed

lemma leaf_upd_set:
  assumes "tree t c" "tab t c (take n xs) = Some g" "leaf_ix xs" "n \<le> 3" "present e" "n = 3 \<or> big e" "1 \<le> n"
  shows "leaf (upd t g (xs ! n) e) c xs = Some (3 - n, e)"
proof -
  have "tab (upd t g (xs ! n) e) c (take n xs) = Some g"
    by (rule tab_upd_self [OF assms(1) leaf_ix_take [OF assms(3,4)] assms(2)])
  then show ?thesis unfolding leaf_tab [OF assms(3)] using assms(4-7) by auto
qed

lemma leaf_none:
  assumes "tab t c (take n xs) = Some g" "leaf_ix xs" "n \<le> 3" "\<not> present (t g (xs ! n))"
  shows "leaf t c xs = None"
proof (rule ccontr)
  assume "leaf t c xs \<noteq> None"
  then obtain k e' where k: "leaf t c xs = Some (k, e')" by auto
  have le: "n \<le> 3 - k" by (rule leaf_below [OF assms(2,1,3) k])
  obtain f where f: "tab t c (take (3 - k) xs) = Some f" "t f (xs ! (3 - k)) = e'" "present e'"
    using k unfolding leaf_tab [OF assms(2)] by blast
  show False
  proof (cases "n = 3 - k")
    case False
    then have "take (3 - k) xs = take n xs @ xs ! n # drop (Suc n) (take (3 - k) xs)"
      using le assms(2) by (subst id_take_nth_drop [of n]) (auto simp: leaf_ix_def min_def)
    then have "tab t c (take n xs @ xs ! n # drop (Suc n) (take (3 - k) xs)) = Some f" using f(1) by simp
    then show ?thesis using assms(1,4) by (auto simp: tab_append)
  qed (use f assms in auto)
qed

lemma leaf_upd_clear:
  assumes "tree t c" "tab t c (take n xs) = Some g" "leaf_ix xs" "n \<le> 3" "\<not> present e"
  shows "leaf (upd t g (xs ! n) e) c xs = None"
  by (rule leaf_none [OF tab_upd_self [OF assms(1) leaf_ix_take [OF assms(3,4)] assms(2)] assms(3,4)]) (use assms(5) in simp)

lemma prefix_ix:
  assumes "leaf_ix xs" "prefix (q @ [i]) xs"
  shows "take (length q) xs = q" "xs ! length q = i" "length q \<le> 3"
  using assms by (auto simp: prefix_def leaf_ix_def nth_append)

lemma leaf_outside:
  assumes "fresh t c a" "leaf_ix xs"
  shows "leaf (t(a := z)) c xs = leaf t c xs"
proof (rule leaf_eqI)
  fix k e
  have v: "valid_path (take (3 - k) xs)" using leaf_ix_take [OF assms(2)] by simp
  show "leaf (t(a := z)) c xs = Some (k, e) \<longleftrightarrow> leaf t c xs = Some (k, e)"
    unfolding leaf_tab [OF assms(2)] tab_outside [OF assms(1) v] using freshD [OF assms(1) v] by auto
qed

lemma new_table_leaves:
  assumes t: "tree t c" "valid_path (q @ [i])" "tab t c q = Some g" and new: "fresh t c a"
    and e: "present e" "\<not> big e" "entry_frame e = a" and n: "\<not> present (t g i)" and z: "\<forall>k. \<not> present (z k)"
    and xs: "leaf_ix xs"
  shows "leaf (upd (t(a := z)) g i e) c xs = leaf t c xs"
proof -
  let ?t = "upd (t(a := z)) g i e"
  note vq = valid_path_prefix [OF t(2)]
  note tn = tab_new [OF t(1) vq t(3) new e _ n z]
  show ?thesis
  proof (cases "prefix (q @ [i]) xs")
    case False
    have q: "tab (t(a := z)) c q = Some g" using tab_outside [OF new vq] t(3) by simp
    have tr: "tree (t(a := z)) c" unfolding tree_def using treeD [OF t(1)] tab_outside [OF new] by metis
    show ?thesis using leaf_upd_other [OF tr vq q xs False] leaf_outside [OF new xs] by simp
  next
    case True
    note px = prefix_ix [OF xs True]
    have l: "Suc (length q) \<le> 3" using t(2) by (simp add: valid_path_def)
    have "take (Suc (length q)) xs = q @ [i]" using px xs l by (simp add: take_Suc_conv_app_nth leaf_ix_def)
    then have "tab ?t c (take (Suc (length q)) xs) = Some a" using tn [OF t(2)] by simp
    moreover have "a \<noteq> g" using freshD [OF new vq] t(3) by auto
    ultimately have "leaf ?t c xs = None" using z by (intro leaf_none [OF _ xs l]) auto
    moreover have "leaf t c xs = None" using px t(3) n by (intro leaf_none [OF _ xs px(3)]) auto
    ultimately show ?thesis by simp
  qed
qed

lemma remove_table_leaves:
  assumes t: "tree t c" "valid_path (q @ [i])" "tab t c q = Some g" "tab t c (q @ [i]) = Some a"
    and z: "\<forall>k<512. \<not> present (t a k)" and xs: "leaf_ix xs"
  shows "leaf (upd t g i 0) c xs = leaf t c xs"
proof (cases "prefix (q @ [i]) xs")
  case False
  then show ?thesis by (rule leaf_upd_other [OF t(1) valid_path_prefix [OF t(2)] t(3) xs])
next
  case True
  note px = prefix_ix [OF xs True]
  have l: "Suc (length q) \<le> 3" using t(2) by (simp add: valid_path_def)
  have s: "take (Suc (length q)) xs = q @ [i]" "xs ! Suc (length q) < 512"
    using px xs l by (auto simp: take_Suc_conv_app_nth leaf_ix_def)
  have "leaf t c xs = None" using t(4) s z by (intro leaf_none [OF _ xs l]) auto
  moreover have "leaf (upd t g i 0) c xs = None"
    using leaf_upd_clear [OF t(1) _ xs px(3), of g 0] t(3) px(1,2) by (simp add: present_def)
  ultimately show ?thesis by simp
qed

end
