(* ===== verification/VmmInv.thy ===== *)
theory VmmInv
  imports VmmTree
begin

text \<open>
  The invariant of the virtual memory manager: the frame allocator is well formed, the top table refers to itself, the
  tables form a tree, and no table is free memory.  The pages in the set \<open>R\<close> belong to somebody else: they are neither
  free nor tables.  Adding an empty table and removing one keep the invariant.
\<close>

section \<open>Reading and writing along the walk of an address\<close>

definition indices :: "u64 \<Rightarrow> nat list" where
  "indices va = [pt_index 39 va, pt_index 30 va, pt_index 21 va, pt_index 12 va]"

text \<open>Addresses outside of the window of the self-reference.\<close>

definition mappable :: "u64 \<Rightarrow> bool" where
  "mappable va \<longleftrightarrow> canonical va \<and> pt_index 39 va \<noteq> 510"

lemma leaf_ix_indices: "mappable va \<Longrightarrow> leaf_ix (indices va)"
  by (simp add: leaf_ix_def indices_def mappable_def)

definition ptr_at :: "u64 \<Rightarrow> nat \<Rightarrow> u64" where
  "ptr_at va n = (let ix = addr_to_index va in if n = 0 then pml4 ix else if n = 1 then pml3 ix else if n = 2 then pml2 ix else pml1 ix)"

definition idx_at :: "u64 \<Rightarrow> nat \<Rightarrow> u64" where
  "idx_at va n = (let ix = addr_to_index va in
     if n = 0 then pml4index ix else if n = 1 then pml3index ix else if n = 2 then pml2index ix else pml1index ix)"

lemma idx_at_unat: "mappable va \<Longrightarrow> n \<le> 3 \<Longrightarrow> unat (idx_at va n) = indices va ! n \<and> idx_at va n < 512"
proof -
  assume a: "mappable va" "n \<le> 3"
  then have "n = 0 \<or> n = 1 \<or> n = 2 \<or> n = 3" by linarith
  then show ?thesis
    using a(1) addr_to_index_unat [of va]
    by (elim disjE) (simp_all add: idx_at_def Let_def indices_def mappable_def word_less_nat_alt)
qed

lemma slot_at:
  assumes "self_ref s" "mappable va" "n \<le> 3" "tab (tables s) (cr3 s) (take n (indices va)) = Some f" "i < 512"
  shows "pt_slot s (ptr_at va n) i = Some (f, unat i)"
proof -
  let ?ix = "addr_to_index va"
  have u: "unat (pml4index ?ix) = pt_index 39 va" "unat (pml3index ?ix) = pt_index 30 va" "unat (pml2index ?ix) = pt_index 21 va"
    using addr_to_index_unat assms(2) by (auto simp: mappable_def)
  then have l: "pml4index ?ix < 512" "pml3index ?ix < 512" "pml2index ?ix < 512" by (simp_all add: word_less_nat_alt)
  note w = pt_slot_window [OF assms(1) l assms(5), unfolded u]
  consider "n = 0" | "n = 1" | "n = 2" | "n = 3" using assms(3) by linarith
  then show ?thesis
    using assms(4) w
    by cases (auto simp: ptr_at_def Let_def indices_def addr_to_index_pointers numeral_2_eq_2 numeral_3_eq_3 split: if_splits)
qed

lemma read_at:
  assumes "self_ref s" "mappable va" "n \<le> 3" "tab (tables s) (cr3 s) (take n (indices va)) = Some f"
  shows "pt_read s (ptr_at va n) (idx_at va n) = Some (tables s f (indices va ! n))"
    "pt_write (ptr_at va n) (idx_at va n) e s = Some (set_entry f (indices va ! n) e s)"
    "pt_clear (ptr_at va n) s = Some (s\<lparr>tables := (tables s)(f := (\<lambda>_. 0))\<rparr>)"
    "k < 512 \<Longrightarrow> pt_read s (ptr_at va n) (of_nat k) = Some (tables s f k)"
proof -
  note sl = slot_at [OF assms]
  show "pt_read s (ptr_at va n) (idx_at va n) = Some (tables s f (indices va ! n))"
    "pt_write (ptr_at va n) (idx_at va n) e s = Some (set_entry f (indices va ! n) e s)"
    using sl idx_at_unat [OF assms(2,3)] by (auto simp: pt_read_def pt_write_def)
  show "pt_clear (ptr_at va n) s = Some (s\<lparr>tables := (tables s)(f := (\<lambda>_. 0))\<rparr>)"
    using sl [of 0] by (simp add: pt_clear_def)
  show "pt_read s (ptr_at va n) (of_nat k) = Some (tables s f k)" if "k < 512"
    using sl [of "of_nat k"] that
    by (simp add: pt_read_def word_less_nat_alt unsigned_of_nat take_bit_nat_eq_self)
qed

lemma scan_at:
  assumes "self_ref s" "mappable va" "n \<le> 3" "tab (tables s) (cr3 s) (take n (indices va)) = Some f" "\<forall>i\<in>set is. i < 512"
  shows "pt_scan s (ptr_at va n) is = Some (\<forall>i\<in>set is. \<not> present (tables s f i))"
  using assms(5) by (induction "is") (simp_all add: read_at(4) [OF assms(1-4)])

section \<open>The invariant\<close>

text \<open>Above the lowest level an entry with the bit of a large page is present.\<close>

definition large_present :: "(u64 \<Rightarrow> nat \<Rightarrow> u64) \<Rightarrow> u64 \<Rightarrow> bool" where
  "large_present t c \<longleftrightarrow> (\<forall>p g i. valid_path p \<and> p \<noteq> [] \<and> length p \<le> 2 \<and> tab t c p = Some g \<and> big (t g i) \<longrightarrow> present (t g i))"

lemma large_present_upd:
  assumes "large_present t c" "tree t c" "valid_path q" "tab t c q = Some g" "q = [] \<or> length q = 3 \<or> (big e \<longrightarrow> present e)"
    and "\<And>p f. valid_path p \<Longrightarrow> tab (upd t g i e) c p = Some f \<Longrightarrow> tab t c p = Some f"
  shows "large_present (upd t g i e) c"
  unfolding large_present_def
proof (intro allI impI, elim conjE)
  fix p f k
  assume p: "valid_path p" "p \<noteq> []" "length p \<le> 2" "tab (upd t g i e) c p = Some f" "big (upd t g i e f k)"
  have f: "tab t c p = Some f" by (rule assms(6) [OF p(1,4)])
  show "present (upd t g i e f k)"
  proof (cases "f = g \<and> k = i")
    case True
    then have "p = q" using treeD [OF assms(2) p(1) assms(3)] f assms(4) by simp
    then show ?thesis using assms(5) p True by auto
  next
    case False
    then show ?thesis using assms(1) p f unfolding large_present_def by (auto split: if_splits)
  qed
qed

definition vm_inv :: "nat set \<Rightarrow> vm \<Rightarrow> nat multiset \<Rightarrow> bool" where
  "vm_inv R s M \<longleftrightarrow> pmm_ok (vm_pmm s) M \<and> self_ref s \<and> tree (tables s) (cr3 s)
     \<and> (\<forall>i<512. \<not> big (tables s (cr3 s) i))
     \<and> (\<forall>p f. valid_path p \<and> tab (tables s) (cr3 s) p = Some f \<longrightarrow>
         block_ok 0 f \<and> unat f div 4096 \<notin># M \<and> unat f div 4096 \<notin> R)
     \<and> (\<forall>x. x \<in># M \<longrightarrow> x \<notin> R) \<and> large_present (tables s) (cr3 s)"

abbreviation same_leaves :: "vm \<Rightarrow> vm \<Rightarrow> bool" where
  "same_leaves s s' \<equiv> (\<forall>xs. leaf_ix xs \<longrightarrow> leaf (tables s') (cr3 s') xs = leaf (tables s) (cr3 s) xs)"

lemma table_entry:
  assumes "block_ok 0 a" "e = a OR PG_WRITABLE OR PG_PRESENT \<or> e = a OR PG_WRITABLE OR PG_PRESENT OR PG_USER"
  shows "present e" "\<not> big e" "entry_frame e = a"
proof -
  have a: "a AND PG_ADDR_MASK = a" using block_page_addr [OF assms(1)] .
  then have "a AND PG_BIG = (a AND PG_ADDR_MASK) AND PG_BIG" by simp
  then have b: "a AND PG_BIG = 0" by (simp add: and.assoc PG_ADDR_MASK_def PG_BIG_def)
  show "present e" using assms(2)
    by (auto simp: present_def bit.conj_disj_distrib2 PG_PRESENT_def PG_WRITABLE_def PG_USER_def)
  show "\<not> big e" using assms(2) b
    by (auto simp: big_def bit.conj_disj_distrib2 PG_PRESENT_def PG_WRITABLE_def PG_USER_def PG_BIG_def)
  show "entry_frame e = a" using assms(2) a
    by (auto simp: entry_frame_def bit.conj_disj_distrib2 PG_PRESENT_def PG_WRITABLE_def PG_USER_def PG_ADDR_MASK_def)
qed

lemma nodup_add_mset: "nodup (add_mset x M) \<Longrightarrow> x \<notin># M"
  unfolding nodup_def by (drule spec [of _ x]) (simp add: not_in_iff)

lemma page_inj: "block_ok 0 a \<Longrightarrow> block_ok 0 b \<Longrightarrow> unat a div 4096 = unat b div 4096 \<Longrightarrow> a = b"
  by (metis block_ok_def mod_mult_div_eq mult.right_neutral power_0 word_unat_eq_iff add_0)

lemma valid_snoc:
  assumes "mappable va" "n < 3"
  shows "take n (indices va) @ [indices va ! n] = take (Suc n) (indices va)" "valid_path (take (Suc n) (indices va))"
    "valid_path (take n (indices va))"
proof -
  have "length (indices va) = 4" by (simp add: indices_def)
  then show "take n (indices va) @ [indices va ! n] = take (Suc n) (indices va)" using assms(2) by (simp add: take_Suc_conv_app_nth)
qed (use leaf_ix_take [OF leaf_ix_indices [OF assms(1)]] assms(2) in auto)

text \<open>Writing an entry on the walk of a mappable address keeps the self-reference.\<close>

lemma self_ref_upd:
  assumes "self_ref s" "tree (tables s) (cr3 s)" "mappable va" "n \<le> 3" "tab (tables s) (cr3 s) (take n (indices va)) = Some g"
  shows "self_ref (set_entry g (indices va ! n) e s)"
proof -
  have "take n (indices va) = []" if "g = cr3 s"
    using treeD [OF assms(2) leaf_ix_take [OF leaf_ix_indices [OF assms(3)] assms(4)] valid_path_Nil assms(5)] that by simp
  then have "\<not> (g = cr3 s \<and> indices va ! n = 510)" using assms(3) by (auto simp: indices_def mappable_def)
  then show ?thesis using assms(1) by (auto simp: self_ref_def set_entry_def)
qed

lemma top_entries_upd:
  assumes "tree t c" "valid_path q" "tab t c q = Some g" "\<forall>i<512. \<not> big (t c i)" "q = [] \<longrightarrow> \<not> big e"
  shows "\<forall>k<512. \<not> big (upd t g i e c k)"
  using assms treeD [OF assms(1,2) valid_path_Nil assms(3)] by auto

lemma vm_inv_cut:
  assumes inv: "vm_inv R s M" and va: "mappable va" "n \<le> 3" and g: "tab (tables s) (cr3 s) (take n (indices va)) = Some g"
    and e: "\<not> (present e \<and> \<not> big e)" "n = 0 \<longrightarrow> \<not> big e" "big e \<longrightarrow> present e"
    and pm: "pmm_ok pm M'" "\<And>f p. valid_path p \<Longrightarrow> tab (upd (tables s) g (indices va ! n) e) (cr3 s) p = Some f \<Longrightarrow> unat f div 4096 \<notin># M'"
      "\<forall>x. x \<in># M' \<longrightarrow> x \<notin> R"
  shows "vm_inv R ((set_entry g (indices va ! n) e s)\<lparr>vm_pmm := pm\<rparr>) M'"
proof -
  have i: "self_ref s" "tree (tables s) (cr3 s)" "\<forall>i<512. \<not> big (tables s (cr3 s) i)"
    "\<And>p f. valid_path p \<Longrightarrow> tab (tables s) (cr3 s) p = Some f \<Longrightarrow> block_ok 0 f \<and> unat f div 4096 \<notin> R"
    "large_present (tables s) (cr3 s)"
    using inv by (auto simp: vm_inv_def)
  note v = leaf_ix_take [OF leaf_ix_indices [OF va(1)] va(2)]
  have "self_ref (set_entry g (indices va ! n) e s)" by (rule self_ref_upd [OF i(1,2) va g])
  moreover have "\<forall>k<512. \<not> big (upd (tables s) g (indices va ! n) e (cr3 s) k)"
    by (rule top_entries_upd [OF i(2) v g i(3)]) (use e(2) in \<open>auto simp: indices_def\<close>)
  moreover have lp: "large_present (upd (tables s) g (indices va ! n) e) (cr3 s)"
    by (rule large_present_upd [OF i(5,2) v g]) (use e(3) tree_cut(1) [OF i(2) v g e(1)] in auto)
  ultimately show ?thesis
    using pm tree_upd_cut [OF i(2) v g e(1)] tree_cut(1) [OF i(2) v g e(1)] i(4) lp
    by (auto simp: vm_inv_def set_entry_def self_ref_def)
qed

section \<open>Adding and removing a table\<close>

text \<open>
  The frame allocator fails only when it owns no more than its management pages and reserved frames: nine stack pages, the
  list of reserved frames, and at most 510 of them.
\<close>

lemma exhausted_few:
  assumes "pmm_wf s v" "exhausted v 0 2 2"
  shows "size (pmem v) \<le> 520"
proof -
  have e: "sempty v i" if "i < 9" for i
  proof -
    have "i = SZ_TO_IDX (i div 3) (i mod 3)" "i div 3 < 3" "i mod 3 \<le> 2" using that by (auto simp: SZ_TO_IDX_def)
    then show ?thesis using assms(2) unfolding exhausted_def by (cases "i div 3 = 0") (metis neq0_conv)+
  qed
  have sm: "size (smem i (stk v i)) \<le> 1" if "i < 9" for i
    using e [OF that] by (cases "stk v i") (auto simp: sempty_def smem_def fr_4K)
  have sum: "size (\<Sum>i\<in>A. f i) = (\<Sum>i\<in>A. size (f i))" if "finite A" for f :: "nat \<Rightarrow> nat multiset" and A
    using that by induction auto
  have rs: "size (\<Sum>r\<leftarrow>rs. fr 0 r) = length rs" for rs by (induction rs) (auto simp: fr_4K)
  have "(\<Sum>i\<in>{..<9}. size (smem i (stk v i))) \<le> (\<Sum>i\<in>{..<9::nat}. 1)" by (rule sum_mono) (use sm in auto)
  moreover have "length (rsv v) \<le> 510" using assms(1) by (simp add: pmm_wf_def pmm_inv_def rsv_ok_def)
  moreover have "size (pmem v) = (\<Sum>i\<in>{..<9}. size (smem i (stk v i))) + length (rsv v) + 1"
    unfolding pmem_def size_union sum [OF finite_lessThan] rs by (simp add: fr_4K)
  ultimately show ?thesis by simp
qed

lemma pmm_alloc_exhausted:
  assumes "pmm_ok s M" "pmm_allocsz 0 2 s = Some (s', 0)"
  shows "size M \<le> 520"
proof -
  obtain v where v: "pmm_wf s v" "pmem v = M" using assms(1) by (auto simp: pmm_ok_def)
  have "exhausted v 0 2 2" using pmm_allocsz_cases [OF v(1), of 0 2] assms(2) by auto
  then show ?thesis using exhausted_few [OF v(1)] v(2) by simp
qed

lemma vm_pmm_fields [simp]: "tables (queue_invalidate a s) = tables s" "cr3 (queue_invalidate a s) = cr3 s" "vm_pmm (queue_invalidate a s) = vm_pmm s"
  "self_ref (queue_invalidate a s) = self_ref s" "vm_inv R (queue_invalidate a s) M = vm_inv R s M"
  by (auto simp: queue_invalidate_def self_ref_def vm_inv_def)

lemma set_entry_fields [simp]:
  "tables (set_entry g i e s) = upd (tables s) g i e" "cr3 (set_entry g i e s) = cr3 s" "vm_pmm (set_entry g i e s) = vm_pmm s"
  by (simp_all add: set_entry_def)

lemma new_table_ok:
  assumes inv: "vm_inv R s M" and va: "mappable va" "n < 3" and g: "tab (tables s) (cr3 s) (take n (indices va)) = Some g"
    and np: "\<not> present (tables s g (indices va ! n))"
  shows "(\<exists>s'. new_table (ptr_at va n) (idx_at va n) (ptr_at va (Suc n)) user s = Some (s', 0) \<and> vm_inv R s' M
      \<and> cr3 s' = cr3 s \<and> tables s' = tables s \<and> size M \<le> 520)
    \<or> (\<exists>s' a M'. new_table (ptr_at va n) (idx_at va n) (ptr_at va (Suc n)) user s = Some (s', a) \<and> a \<noteq> 0 \<and> vm_inv R s' M'
      \<and> M = M' + fr 0 a \<and> cr3 s' = cr3 s \<and> same_leaves s s'
      \<and> tab (tables s') (cr3 s') (take n (indices va)) = Some g
      \<and> tab (tables s') (cr3 s') (take (Suc n) (indices va)) = Some a \<and> tables s' a = (\<lambda>_. 0)
      \<and> (\<exists>e. tables s' g = (tables s g)(indices va ! n := e)))"
proof -
  let ?t = "tables s" and ?c = "cr3 s" and ?i = "indices va ! n" and ?q = "take n (indices va)"
  have i: "pmm_ok (vm_pmm s) M" "self_ref s" "tree ?t ?c" "\<forall>i<512. \<not> big (?t ?c i)" using inv by (auto simp: vm_inv_def)
  note v = valid_snoc [OF va]
  obtain pm a M' where al: "pmm_allocsz 0 2 (vm_pmm s) = Some (pm, a)" "pmm_ok pm M'"
      "if a = 0 then M' = M else M = M' + fr 0 a \<and> block_ok 0 a"
    using pmm_alloc.alloc_law [OF i(1), of 0 2] by auto
  have few: "a = 0 \<Longrightarrow> size M \<le> 520" using pmm_alloc_exhausted [OF i(1)] al(1) by blast
  let ?s = "s\<lparr>vm_pmm := pm\<rparr>"
  show ?thesis
  proof (cases "a = 0")
    case True
    then show ?thesis
      using al inv few by (intro disjI1 exI [of _ ?s]) (auto simp: new_table_def pmm_alloc_def vm_inv_def self_ref_def)
  next
    case False
    define e where "e = (if user then a OR PG_WRITABLE OR PG_PRESENT OR PG_USER else a OR PG_WRITABLE OR PG_PRESENT)"
    have M: "M = M' + fr 0 a" and ba: "block_ok 0 a" using al(3) False by auto
    have te: "present e" "\<not> big e" "entry_frame e = a" using table_entry [OF ba, of e] by (auto simp: e_def)
    have new: "fresh ?t ?c a" using inv by (auto simp: fresh_def vm_inv_def M fr_4K)
    have ag: "a \<noteq> g" using freshD [OF new v(3)] g by auto
    let ?s1 = "set_entry g ?i e ?s"
    let ?s2 = "(queue_invalidate (ptr_at va (Suc n)) ?s1)\<lparr>tables := (tables ?s1)(a := (\<lambda>_. 0))\<rparr>"
    have w: "pt_write (ptr_at va n) (idx_at va n) e ?s = Some ?s1"
      by (rule read_at(2)) (use i(2) va g in \<open>auto simp: self_ref_def\<close>)
    have sr: "self_ref ?s1" by (rule self_ref_upd) (use i va g in \<open>auto simp: self_ref_def\<close>)
    have "tab (upd ?t g ?i e) ?c ?q = Some g" by (rule tab_upd_self [OF i(3) v(3) g])
    then have "tab (tables ?s1) (cr3 ?s1) (take (Suc n) (indices va)) = Some a"
      using te by (simp add: tab_append flip: v(1))
    then have cl: "pt_clear (ptr_at va (Suc n)) (queue_invalidate (ptr_at va (Suc n)) ?s1) = Some ?s2"
      using read_at(3) [of "queue_invalidate (ptr_at va (Suc n)) ?s1" va "Suc n" a] sr va by simp
    have "new_table (ptr_at va n) (idx_at va n) (ptr_at va (Suc n)) user s = Some (?s2, a)"
      using al(1) False w cl by (simp add: new_table_def pmm_alloc_def e_def or.assoc split: if_splits)
    moreover have t2: "tables ?s2 = upd (?t(a := (\<lambda>_. 0))) g ?i e" using ag by (auto simp: fun_upd_twist)
    have tn: "tab (tables ?s2) ?c p = (if p = ?q @ [?i] then Some a else tab ?t ?c p)" if "valid_path p" for p
      unfolding t2 by (rule tab_new [OF i(3) v(3) g new te that np]) (simp_all add: present_def)
    moreover have "tab (tables ?s2) (cr3 ?s2) ?q = Some g" using tn [OF v(3)] g by simp
    moreover have "tab (tables ?s2) (cr3 ?s2) (take (Suc n) (indices va)) = Some a" using tn [OF v(2)] by (simp add: v(1))
    moreover have "same_leaves s ?s2"
      using new_table_leaves [OF i(3) v(2) [folded v(1)] g new te np, of "\<lambda>_. 0"] by (simp add: t2 [simplified] present_def)
    moreover have "vm_inv R ?s2 M'"
    proof -
      have "tree (tables ?s2) ?c"
        unfolding tree_def using treeD [OF i(3)] freshD [OF new] tn by metis
      moreover have "\<forall>k<512. \<not> big (tables ?s2 ?c k)"
        using top_entries_upd [OF i(3) v(3) g i(4), of e ?i] te(2) freshD [OF new valid_path_Nil] by auto
      moreover have "self_ref ?s2" using sr freshD [OF new valid_path_Nil] by (auto simp: self_ref_def)
      moreover have "block_ok 0 f \<and> unat f div 4096 \<notin># M' \<and> unat f div 4096 \<notin> R" if "valid_path p" "tab (tables ?s2) ?c p = Some f" for p f
      proof -
        have "f = a \<or> tab ?t ?c p = Some f" using tn [OF that(1)] that(2) by (metis option.inject)
        moreover have "unat a div 4096 \<notin># M'"
          using pmm_alloc.ok_nodup [OF i(1)] by (simp add: M fr_4K nodup_add_mset)
        ultimately show ?thesis using inv ba that(1) by (auto simp: vm_inv_def M fr_4K)
      qed
      moreover have "\<forall>x. x \<in># M' \<longrightarrow> x \<notin> R" using inv by (simp add: vm_inv_def M)
      moreover have "large_present (tables ?s2) ?c"
        unfolding large_present_def
      proof (intro allI impI, elim conjE)
        fix p f k
        assume p: "valid_path p" "p \<noteq> []" "length p \<le> 2" "tab (tables ?s2) ?c p = Some f" "big (tables ?s2 f k)"
        have "f = a \<or> tab ?t ?c p = Some f" using tn [OF p(1)] p(4) by (metis option.inject)
        moreover have "\<not> big (tables ?s2 a k)" by (simp add: big_def)
        ultimately have f: "tab ?t ?c p = Some f" "f \<noteq> a" using p(5) by auto
        show "present (tables ?s2 f k)"
        proof (cases "f = g \<and> k = ?i")
          case True
          then show ?thesis using te(1) f(2) by simp
        next
          case False
          then have "tables ?s2 f k = ?t f k" using f(2) by auto
          moreover have "large_present ?t ?c" using inv by (simp add: vm_inv_def)
          ultimately show ?thesis using p(1-3,5) f(1) unfolding large_present_def by metis
        qed
      qed
      ultimately show ?thesis using al(2) by (simp add: vm_inv_def) blast
    qed
    moreover have "\<exists>e. tables ?s2 g = (?t g)(?i := e)" using ag by auto
    ultimately show ?thesis using M False by (intro disjI2 exI [of _ ?s2] exI [of _ a] exI [of _ M']) simp
  qed
qed


lemma removed_frames:
  assumes inv: "vm_inv R s M" and va: "mappable va" "n < 3" and g: "tab (tables s) (cr3 s) (take n (indices va)) = Some g"
    and a: "tab (tables s) (cr3 s) (take (Suc n) (indices va)) = Some a"
  shows "block_ok 0 a" "nodup (M + fr 0 a)"
    and "valid_path p \<Longrightarrow> tab (upd (tables s) g (indices va ! n) 0) (cr3 s) p = Some f \<Longrightarrow> unat f div 4096 \<notin># M + fr 0 a"
proof -
  note v = valid_snoc [OF va]
  have i: "pmm_ok (vm_pmm s) M" "tree (tables s) (cr3 s)"
    and own: "\<And>p f. valid_path p \<Longrightarrow> tab (tables s) (cr3 s) p = Some f \<Longrightarrow> block_ok 0 f \<and> unat f div 4096 \<notin># M"
    using inv by (auto simp: vm_inv_def)
  show ba: "block_ok 0 a" using own [OF v(2) a] by simp
  have "unat a div 4096 \<notin># M" using own [OF v(2) a] by simp
  then show "nodup (M + fr 0 a)"
    using pmm_alloc.ok_nodup [OF i(1)] by (auto simp: nodup_def fr_4K not_in_iff)
  assume p: "valid_path p" "tab (upd (tables s) g (indices va ! n) 0) (cr3 s) p = Some f"
  have np: "\<not> (present 0 \<and> \<not> big 0)" by (simp add: present_def)
  note tc = tree_cut [OF i(2) v(3) g np p]
  have "p \<noteq> take (Suc n) (indices va)" using tc(2) v(1) by auto
  then have "f \<noteq> a" using treeD [OF i(2) p(1) v(2) tc(1)] a by auto
  then show "unat f div 4096 \<notin># M + fr 0 a"
    using own [OF p(1) tc(1)] page_inj [OF _ ba, of f] by (auto simp: fr_4K)
qed

lemma remove_table_ok:
  assumes inv: "vm_inv R s M" and va: "mappable va" "n < 3" and g: "tab (tables s) (cr3 s) (take n (indices va)) = Some g"
    and a: "tab (tables s) (cr3 s) (take (Suc n) (indices va)) = Some a" and z: "\<forall>k<512. \<not> present (tables s a k)"
  shows "\<exists>pm. pmm_free a (vm_pmm s) = Some pm \<and> vm_inv R ((set_entry g (indices va ! n) 0 s)\<lparr>vm_pmm := pm\<rparr>) (M + fr 0 a)
    \<and> same_leaves s ((set_entry g (indices va ! n) 0 s)\<lparr>vm_pmm := pm\<rparr>)"
proof -
  note v = valid_snoc [OF va] and rf = removed_frames [OF inv va g a]
  have i: "pmm_ok (vm_pmm s) M" "tree (tables s) (cr3 s)" using inv by (auto simp: vm_inv_def)
  obtain pm where pm: "pmm_frees 0 a (vm_pmm s) = Some pm" "pmm_ok pm (M + fr 0 a)"
    using pmm_alloc.free_law [OF i(1) _ rf(1,2)] by auto
  have n: "n \<le> 3" using va by simp
  have R: "\<forall>x. x \<in># M + fr 0 a \<longrightarrow> x \<notin> R" using inv v(2) a by (auto simp: vm_inv_def fr_4K)
  have "vm_inv R ((set_entry g (indices va ! n) 0 s)\<lparr>vm_pmm := pm\<rparr>) (M + fr 0 a)"
    by (rule vm_inv_cut [OF inv va(1) n g _ _ _ pm(2) rf(3) R]) (simp_all add: present_def big_def)
  moreover have "leaf (upd (tables s) g (indices va ! n) 0) (cr3 s) xs = leaf (tables s) (cr3 s) xs" if "leaf_ix xs" for xs
    using remove_table_leaves [OF i(2) _ g _ z that, of "indices va ! n"] v a by simp
  ultimately show ?thesis using pm(1) by (simp add: pmm_free_def)
qed

lemma drop_new_ok:
  assumes inv: "vm_inv R s M" and va: "mappable va" "n < 3" and g: "tab (tables s) (cr3 s) (take n (indices va)) = Some g"
    and a: "tab (tables s) (cr3 s) (take (Suc n) (indices va)) = Some a" "a \<noteq> 0" and z: "\<forall>k<512. \<not> present (tables s a k)"
  shows "\<exists>s'. drop_new (ptr_at va n) (idx_at va n) child a s = Some s' \<and> vm_inv R s' (M + fr 0 a) \<and> same_leaves s s'
    \<and> cr3 s' = cr3 s \<and> tables s' = upd (tables s) g (indices va ! n) 0"
proof -
  have sr: "self_ref s" "n \<le> 3" using inv va by (auto simp: vm_inv_def)
  obtain pm where pm: "pmm_free a (vm_pmm s) = Some pm"
    "vm_inv R ((set_entry g (indices va ! n) 0 s)\<lparr>vm_pmm := pm\<rparr>) (M + fr 0 a)"
    "same_leaves s ((set_entry g (indices va ! n) 0 s)\<lparr>vm_pmm := pm\<rparr>)"
    using remove_table_ok [OF inv va g a(1) z] by blast
  let ?s = "(queue_invalidate child (set_entry g (indices va ! n) 0 s))\<lparr>vm_pmm := pm\<rparr>"
  have "drop_new (ptr_at va n) (idx_at va n) child a s = Some ?s"
    using read_at(2) [OF sr(1) va(1) sr(2) g] pm(1) a(2) by (simp add: drop_new_def)
  moreover have "vm_inv R ?s (M + fr 0 a)" using pm(2) by (simp add: vm_inv_def self_ref_def queue_invalidate_def)
  ultimately show ?thesis using pm(3) by auto
qed

lemma drop_empty_ok:
  assumes inv: "vm_inv R s M" and va: "mappable va" "n < 3" and g: "tab (tables s) (cr3 s) (take n (indices va)) = Some g"
    and a: "tab (tables s) (cr3 s) (take (Suc n) (indices va)) = Some a"
  shows "\<exists>s' M'. drop_empty (ptr_at va n) (idx_at va n) (ptr_at va (Suc n)) s = Some s' \<and> vm_inv R s' M' \<and> M \<subseteq># M'
    \<and> same_leaves s s' \<and> cr3 s' = cr3 s \<and> tab (tables s') (cr3 s') (take n (indices va)) = Some g"
proof -
  have sr: "self_ref s" "n \<le> 3" "Suc n \<le> 3" and tr: "tree (tables s) (cr3 s)" using inv va by (auto simp: vm_inv_def)
  note v = valid_snoc [OF va]
  have sc: "pt_scan s (ptr_at va (Suc n)) [0..<512] = Some (\<forall>i\<in>set [0..<512]. \<not> present (tables s a i))"
    by (rule scan_at [OF sr(1) va(1) sr(3) a]) simp
  show ?thesis
  proof (cases "\<forall>k<512. \<not> present (tables s a k)")
    case False
    then show ?thesis using sc inv g by (intro exI [of _ s] exI [of _ M]) (auto simp: drop_empty_def)
  next
    case True
    obtain pm where pm: "pmm_free a (vm_pmm s) = Some pm"
      "vm_inv R ((set_entry g (indices va ! n) 0 s)\<lparr>vm_pmm := pm\<rparr>) (M + fr 0 a)"
      "same_leaves s ((set_entry g (indices va ! n) 0 s)\<lparr>vm_pmm := pm\<rparr>)"
      using remove_table_ok [OF inv va g a True] by blast
    have e: "entry_frame (tables s g (indices va ! n)) = a" using a g by (simp flip: v(1) add: tab_snoc)
    let ?s = "s\<lparr>vm_pmm := pm\<rparr>"
    let ?s' = "queue_invalidate (ptr_at va (Suc n)) (set_entry g (indices va ! n) 0 ?s)"
    have w: "pt_write (ptr_at va n) (idx_at va n) 0 ?s = Some (set_entry g (indices va ! n) 0 ?s)"
      by (rule read_at(2)) (use sr va g in \<open>auto simp: self_ref_def\<close>)
    have "drop_empty (ptr_at va n) (idx_at va n) (ptr_at va (Suc n)) s = Some ?s'"
      using sc True read_at(1) [OF sr(1) va(1) sr(2) g] pm(1) e w by (auto simp: drop_empty_def entry_frame_def)
    moreover have "vm_inv R ?s' (M + fr 0 a)" using pm(2) by (simp add: vm_inv_def self_ref_def)
    moreover have "tab (tables ?s') (cr3 ?s') (take n (indices va)) = Some g"
      using tab_upd_self [OF tr v(3) g] by simp
    ultimately show ?thesis using pm(3) by (intro exI [of _ ?s'] exI [of _ "M + fr 0 a"]) auto
  qed
qed

end
