(* ===== verification/VmmMap.thy ===== *)
theory VmmMap
  imports VmmInv
begin

text \<open>
  Building the tables for an address: \<^verbatim>\<open>_vmm_touch\<close> with its rollback, and writing the final entry of a walk.
\<close>

section \<open>Building the tables\<close>

lemma touch_level_ok:
  assumes inv: "vm_inv R s M" and va: "mappable va" "n < 3" and g: "tab (tables s) (cr3 s) (take n (indices va)) = Some g"
    and nb: "\<not> big (tables s g (indices va ! n))"
  shows "\<exists>s' ok frame. touch_level (ptr_at va n) (idx_at va n) (ptr_at va (Suc n)) user (tables s g (indices va ! n)) s = Some (s', ok, frame)
    \<and> cr3 s' = cr3 s \<and> same_leaves s s' \<and> tab (tables s') (cr3 s') (take n (indices va)) = Some g
    \<and> (\<not> ok \<and> frame = 0 \<and> vm_inv R s' M \<and> tables s' = tables s \<and> size M \<le> 520
      \<or> ok \<and> frame = 0 \<and> s' = s \<and> (\<exists>a. tab (tables s) (cr3 s) (take (Suc n) (indices va)) = Some a)
          \<and> present (tables s g (indices va ! n))
      \<or> ok \<and> frame \<noteq> 0 \<and> (\<exists>M'. vm_inv R s' M' \<and> M = M' + fr 0 frame)
          \<and> tab (tables s') (cr3 s') (take (Suc n) (indices va)) = Some frame \<and> tables s' frame = (\<lambda>_. 0)
          \<and> (\<exists>e. tables s' g = (tables s g)(indices va ! n := e)))"
proof (cases "present (tables s g (indices va ! n))")
  case True
  have "tab (tables s) (cr3 s) (take (Suc n) (indices va)) = Some (entry_frame (tables s g (indices va ! n)))"
    using True nb g by (simp flip: valid_snoc(1) [OF va] add: tab_snoc)
  then show ?thesis using True g by (intro exI [of _ s] exI [of _ True] exI [of _ 0]) (simp add: touch_level_def)
next
  case False
  from new_table_ok [OF inv va g False, of user] show ?thesis
  proof (elim disjE exE conjE, goal_cases)
    case (1 s')
    then show ?thesis using False g by (intro exI [of _ s'] exI [of _ False] exI [of _ 0]) (simp add: touch_level_def)
  next
    case (2 s' a M')
    then show ?thesis using False by (intro exI [of _ s'] exI [of _ True] exI [of _ a]) (simp add: touch_level_def, blast)
  qed
qed

lemma index_pointers:
  "pml4 (addr_to_index va) = ptr_at va 0" "pml3 (addr_to_index va) = ptr_at va 1" "pml2 (addr_to_index va) = ptr_at va 2"
  "pml1 (addr_to_index va) = ptr_at va 3"
  "pml4index (addr_to_index va) = idx_at va 0" "pml3index (addr_to_index va) = idx_at va 1"
  "pml2index (addr_to_index va) = idx_at va 2" "pml1index (addr_to_index va) = idx_at va 3"
  by (simp_all add: ptr_at_def idx_at_def Let_def)

definition touch_post :: "bool \<Rightarrow> nat set \<Rightarrow> vm \<Rightarrow> nat multiset \<Rightarrow> u64 \<Rightarrow> nat \<Rightarrow> vm \<Rightarrow> bool \<Rightarrow> bool" where
  "touch_post B R s M va n s' ok \<longleftrightarrow> cr3 s' = cr3 s \<and> same_leaves s s'
     \<and> (if ok then \<exists>M' g. vm_inv R s' M' \<and> M' \<subseteq># M \<and> size M \<le> size M' + 3 \<and> tab (tables s') (cr3 s') (take n (indices va)) = Some g
        else vm_inv R s' M \<and> (B \<or> size M \<le> 522))"

text \<open>A large page is in the way of the tables for a page of size \<open>sz\<close>.\<close>

definition blocked :: "vm \<Rightarrow> u64 \<Rightarrow> nat \<Rightarrow> bool" where
  "blocked s va sz \<longleftrightarrow> (\<exists>n g. 1 \<le> n \<and> n < 3 - sz \<and> tab (tables s) (cr3 s) (take n (indices va)) = Some g \<and> big (tables s g (indices va ! n)))"

text \<open>Undoing the newly created top-level table.\<close>

lemma rollback_pml4_ok:
  assumes inv: "vm_inv R s M" and va: "mappable va"
    and f: "frame \<noteq> 0 \<Longrightarrow> tab (tables s) (cr3 s) (take 1 (indices va)) = Some frame \<and> tables s frame = (\<lambda>_. 0)"
  shows "\<exists>s'. rollback_pml4 (addr_to_index va) frame s = Some (s', False) \<and> cr3 s' = cr3 s \<and> same_leaves s s'
    \<and> vm_inv R s' (if frame = 0 then M else M + fr 0 frame)"
proof (cases "frame = 0")
  case True
  then show ?thesis using inv by (simp add: rollback_pml4_def drop_new_def)
next
  case False
  have "\<exists>s'. drop_new (ptr_at va 0) (idx_at va 0) (pml3 (addr_to_index va)) frame s = Some s' \<and> vm_inv R s' (M + fr 0 frame)
      \<and> same_leaves s s' \<and> cr3 s' = cr3 s \<and> tables s' = upd (tables s) (cr3 s) (indices va ! 0) 0"
    by (rule drop_new_ok [OF inv va]) (use f [OF False] False in \<open>auto simp: present_def\<close>)
  then show ?thesis using False by (auto simp: rollback_pml4_def index_pointers)
qed

lemma rollback_pml3_ok:
  assumes inv: "vm_inv R s M" and va: "mappable va" and g: "tab (tables s) (cr3 s) (take 1 (indices va)) = Some g"
    and f2: "frame2 \<noteq> 0 \<Longrightarrow> tab (tables s) (cr3 s) (take 2 (indices va)) = Some frame2 \<and> tables s frame2 = (\<lambda>_. 0)"
    and f3: "frame3 \<noteq> 0 \<Longrightarrow> frame2 \<noteq> 0 \<and> frame3 = g \<and> (\<exists>e. tables s g = (\<lambda>_. 0)(indices va ! 1 := e))"
  shows "\<exists>s'. rollback_pml3 (addr_to_index va) frame2 frame3 s = Some (s', False) \<and> cr3 s' = cr3 s \<and> same_leaves s s'
    \<and> vm_inv R s' (M + (if frame2 = 0 then {#} else fr 0 frame2) + (if frame3 = 0 then {#} else fr 0 frame3))"
proof (cases "frame2 = 0")
  case True
  then show ?thesis using inv f3 by (auto simp: rollback_pml3_def rollback_pml4_def drop_new_def)
next
  case False
  have "\<exists>s1. drop_new (ptr_at va 1) (idx_at va 1) (pml2 (addr_to_index va)) frame2 s = Some s1 \<and> vm_inv R s1 (M + fr 0 frame2)
      \<and> same_leaves s s1 \<and> cr3 s1 = cr3 s \<and> tables s1 = upd (tables s) g (indices va ! 1) 0"
    by (rule drop_new_ok [OF inv va _ g]) (use f2 [OF False] False in \<open>auto simp: present_def numeral_2_eq_2\<close>)
  then obtain s1 where s1: "drop_new (ptr_at va 1) (idx_at va 1) (pml2 (addr_to_index va)) frame2 s = Some s1"
    "vm_inv R s1 (M + fr 0 frame2)" "same_leaves s s1" "cr3 s1 = cr3 s" "tables s1 = upd (tables s) g (indices va ! 1) 0" by blast
  have tr: "tree (tables s) (cr3 s)" using inv by (simp add: vm_inv_def)
  have v: "valid_path (take 1 (indices va))" using valid_snoc(2) [OF va, of 0] by simp
  have "tab (tables s1) (cr3 s1) (take 1 (indices va)) = Some g" unfolding s1(4,5) by (rule tab_upd_self [OF tr v g])
  then have "frame3 \<noteq> 0 \<Longrightarrow> tab (tables s1) (cr3 s1) (take 1 (indices va)) = Some frame3 \<and> tables s1 frame3 = (\<lambda>_. 0)"
    using f3 by (auto simp: s1(5))
  from rollback_pml4_ok [OF s1(2) va this] obtain s' where
    "rollback_pml4 (addr_to_index va) frame3 s1 = Some (s', False)" "cr3 s' = cr3 s1" "same_leaves s1 s'"
    "vm_inv R s' (if frame3 = 0 then M + fr 0 frame2 else M + fr 0 frame2 + fr 0 frame3)" by auto
  then show ?thesis using s1 False by (auto simp: rollback_pml3_def index_pointers)
qed

text \<open>The last part of \<^verbatim>\<open>_vmm_touch\<close>: the table of the lowest level.\<close>

definition touch_pml2 :: "u64 \<Rightarrow> bool \<Rightarrow> u64 \<Rightarrow> u64 \<Rightarrow> vm \<Rightarrow> (vm \<times> bool) option" where
  "touch_pml2 va user frame3 frame2 s = do {
     pml2entry \<leftarrow> pt_read s (ptr_at va 2) (idx_at va 2);
     if big pml2entry then rollback_pml3 (addr_to_index va) frame2 frame3 s
     else do {
       (s, ok, frame1) \<leftarrow> touch_level (ptr_at va 2) (idx_at va 2) (ptr_at va 3) user pml2entry s;
       if \<not> ok then rollback_pml3 (addr_to_index va) frame2 frame3 s
       else Some (s, True)}}"

definition touch_pml3 :: "u64 \<Rightarrow> bool \<Rightarrow> int \<Rightarrow> u64 \<Rightarrow> vm \<Rightarrow> (vm \<times> bool) option" where
  "touch_pml3 va user sz frame3 s = do {
     pml3entry \<leftarrow> pt_read s (ptr_at va 1) (idx_at va 1);
     if big pml3entry then rollback_pml4 (addr_to_index va) frame3 s
     else do {
       (s, ok, frame2) \<leftarrow> touch_level (ptr_at va 1) (idx_at va 1) (ptr_at va 2) user pml3entry s;
       if \<not> ok then rollback_pml4 (addr_to_index va) frame3 s
       else if sz = int SIZE_2M then Some (s, True)
       else touch_pml2 va user frame3 frame2 s}}"

lemma vmm_touch'_alt:
  "vmm_touch' va sz s = do {
     pml4entry \<leftarrow> pt_read s (ptr_at va 0) (idx_at va 0);
     (s, ok, frame3) \<leftarrow> touch_level (ptr_at va 0) (idx_at va 0) (ptr_at va 1) (idx_at va 0 < 256) pml4entry s;
     if \<not> ok then Some (s, False)
     else if sz = int SIZE_1G then Some (s, True)
     else touch_pml3 va (idx_at va 0 < 256) sz frame3 s}"
  unfolding vmm_touch'_def Let_def index_pointers touch_pml3_def touch_pml2_def by (rule refl)

lemma touch_pml2_ok:
  assumes inv: "vm_inv R s M" and va: "mappable va" and g: "tab (tables s) (cr3 s) (take 1 (indices va)) = Some g3"
    and h: "tab (tables s) (cr3 s) (take 2 (indices va)) = Some g2"
    and f2: "frame2 \<noteq> 0 \<Longrightarrow> g2 = frame2 \<and> tables s frame2 = (\<lambda>_. 0)"
    and f3: "frame3 \<noteq> 0 \<Longrightarrow> frame2 \<noteq> 0 \<and> frame3 = g3 \<and> (\<exists>e. tables s g3 = (\<lambda>_. 0)(indices va ! 1 := e))"
    and M0: "M0 = M + (if frame2 = 0 then {#} else fr 0 frame2) + (if frame3 = 0 then {#} else fr 0 frame3)"
  shows "\<exists>s' ok. touch_pml2 va user frame3 frame2 s = Some (s', ok) \<and> touch_post (big (tables s g2 (indices va ! 2))) R s M0 va 3 s' ok"
proof -
  have sr: "self_ref s" using inv by (simp add: vm_inv_def)
  have two: "2 < (3::nat)" "2 \<le> (3::nat)" by simp_all
  let ?e = "tables s g2 (indices va ! 2)"
  have rd: "pt_read s (ptr_at va 2) (idx_at va 2) = Some ?e" by (rule read_at(1) [OF sr va two(2) h])
  have rb: "\<exists>s'. rollback_pml3 (addr_to_index va) frame2 frame3 s1 = Some (s', False) \<and> cr3 s' = cr3 s1 \<and> same_leaves s1 s' \<and> vm_inv R s' M0"
    if "vm_inv R s1 M" "tables s1 = tables s" "cr3 s1 = cr3 s" for s1
    unfolding M0 by (rule rollback_pml3_ok [OF that(1) va]) (use that g h f2 f3 in auto)
  show ?thesis
  proof (cases "big ?e")
    case True
    then show ?thesis using rd rb [OF inv] by (auto simp: touch_pml2_def touch_post_def)
  next
    case False
    have s3: "Suc 2 = (3::nat)" by simp
    from touch_level_ok [OF inv va two(1) h False, of user, unfolded s3]
    obtain s1 ok fr1 where tl: "touch_level (ptr_at va 2) (idx_at va 2) (ptr_at va 3) user ?e s = Some (s1, ok, fr1)"
      "cr3 s1 = cr3 s" "same_leaves s s1"
      and c: "\<not> ok \<and> vm_inv R s1 M \<and> tables s1 = tables s \<and> size M \<le> 520
        \<or> ok \<and> s1 = s \<and> (\<exists>a. tab (tables s) (cr3 s) (take 3 (indices va)) = Some a)
        \<or> ok \<and> (\<exists>M'. vm_inv R s1 M' \<and> M = M' + fr 0 fr1) \<and> tab (tables s1) (cr3 s1) (take 3 (indices va)) = Some fr1"
      by blast
    have sub: "M \<subseteq># M0" unfolding M0 by simp
    from c show ?thesis
    proof (elim disjE conjE exE, goal_cases)
      case 1
      have "size M0 \<le> 522" using 1(4) by (simp add: M0 fr_4K)
      then show ?thesis using rb [OF 1(2,3) tl(2)] rd False tl 1(1) by (auto simp: touch_pml2_def touch_post_def)
    next
      case (2 a)
      have "size M0 \<le> size M + 3" by (simp add: M0 fr_4K)
      with 2 show ?thesis using rd False tl inv sub by (auto simp: touch_pml2_def touch_post_def)
    next
      case (3 M')
      then have "M' \<subseteq># M0" using sub by (metis mset_subset_eq_add_left subset_mset.trans)
      moreover have "size M0 \<le> size M' + 3" using 3 by (simp add: M0 fr_4K)
      ultimately show ?thesis using rd False tl 3 by (auto simp: touch_pml2_def touch_post_def)
    qed
  qed
qed

lemma touch_pml3_ok:
  assumes inv: "vm_inv R s M" and va: "mappable va" and g: "tab (tables s) (cr3 s) (take 1 (indices va)) = Some g3"
    and f3: "frame3 \<noteq> 0 \<Longrightarrow> g3 = frame3 \<and> tables s frame3 = (\<lambda>_. 0)" and sz: "sz \<le> 1"
    and M0: "M0 = M + (if frame3 = 0 then {#} else fr 0 frame3)"
  shows "\<exists>s' ok. touch_pml3 va user (int sz) frame3 s = Some (s', ok) \<and> touch_post (big (tables s g3 (indices va ! 1))
      \<or> sz = 0 \<and> (\<exists>g2. tab (tables s) (cr3 s) (take 2 (indices va)) = Some g2 \<and> big (tables s g2 (indices va ! 2)))) R s M0 va (3 - sz) s' ok"
proof -
  have sr: "self_ref s" using inv by (simp add: vm_inv_def)
  have one: "1 < (3::nat)" "1 \<le> (3::nat)" by simp_all
  let ?e = "tables s g3 (indices va ! 1)"
  have rd: "pt_read s (ptr_at va 1) (idx_at va 1) = Some ?e" by (rule read_at(1) [OF sr va one(2) g])
  have rb: "\<exists>s'. rollback_pml4 (addr_to_index va) frame3 s1 = Some (s', False) \<and> cr3 s' = cr3 s1 \<and> same_leaves s1 s' \<and> vm_inv R s' M0"
    if "vm_inv R s1 M" "tables s1 = tables s" "cr3 s1 = cr3 s" for s1
  proof -
    have "\<exists>s'. rollback_pml4 (addr_to_index va) frame3 s1 = Some (s', False) \<and> cr3 s' = cr3 s1 \<and> same_leaves s1 s'
        \<and> vm_inv R s' (if frame3 = 0 then M else M + fr 0 frame3)"
      by (rule rollback_pml4_ok [OF that(1) va]) (use that g f3 in auto)
    then show ?thesis by (simp add: M0 split: if_splits)
  qed
  have sub: "M \<subseteq># M0" unfolding M0 by simp
  show ?thesis
  proof (cases "big ?e")
    case True
    then show ?thesis using rd rb [OF inv] by (auto simp: touch_pml3_def touch_post_def)
  next
    case False
    have s2: "Suc 1 = (2::nat)" by simp
    from touch_level_ok [OF inv va one(1) g False, of user, unfolded s2]
    obtain s1 ok fr2 where tl: "touch_level (ptr_at va 1) (idx_at va 1) (ptr_at va 2) user ?e s = Some (s1, ok, fr2)"
      "cr3 s1 = cr3 s" "same_leaves s s1" "tab (tables s1) (cr3 s1) (take 1 (indices va)) = Some g3"
      and c: "\<not> ok \<and> vm_inv R s1 M \<and> tables s1 = tables s \<and> size M \<le> 520
        \<or> ok \<and> fr2 = 0 \<and> s1 = s \<and> (\<exists>a. tab (tables s) (cr3 s) (take 2 (indices va)) = Some a) \<and> present ?e
        \<or> ok \<and> fr2 \<noteq> 0 \<and> (\<exists>M'. vm_inv R s1 M' \<and> M = M' + fr 0 fr2) \<and> tab (tables s1) (cr3 s1) (take 2 (indices va)) = Some fr2
            \<and> tables s1 fr2 = (\<lambda>_. 0) \<and> (\<exists>e. tables s1 g3 = (tables s g3)(indices va ! 1 := e))"
      by blast
    show ?thesis
    proof (cases ok)
      case False
      then have "size M0 \<le> 522" using c by (simp add: M0 fr_4K)
      then show ?thesis using c False rb [of s1] rd \<open>\<not> big ?e\<close> tl by (auto simp: touch_pml3_def touch_post_def)
    next
      case True
      have res: "touch_pml3 va user (int sz) frame3 s = (if sz = 1 then Some (s1, True) else touch_pml2 va user frame3 fr2 s1)"
        using rd \<open>\<not> big ?e\<close> tl True by (simp add: touch_pml3_def)
      obtain M' g2 where m: "vm_inv R s1 M'" "M = M' + (if fr2 = 0 then {#} else fr 0 fr2)"
          "tab (tables s1) (cr3 s1) (take 2 (indices va)) = Some g2" "fr2 \<noteq> 0 \<Longrightarrow> g2 = fr2 \<and> tables s1 fr2 = (\<lambda>_. 0)"
          "frame3 \<noteq> 0 \<Longrightarrow> fr2 \<noteq> 0 \<and> frame3 = g3 \<and> (\<exists>e. tables s1 g3 = (\<lambda>_. 0)(indices va ! 1 := e))" "fr2 = 0 \<Longrightarrow> s1 = s"
      proof -
        have np: "frame3 \<noteq> 0 \<Longrightarrow> \<not> present ?e" using f3 by (auto simp: present_def)
        show thesis
        proof (cases "fr2 = 0")
          case True
          then obtain a where a: "s1 = s" "tab (tables s) (cr3 s) (take 2 (indices va)) = Some a" "present ?e" using c \<open>ok\<close> by blast
          then have "frame3 = 0" using np by blast
          then show thesis using that [of M a] a inv True by simp
        next
          case False
          then obtain M' e where a: "vm_inv R s1 M'" "M = M' + fr 0 fr2" "tab (tables s1) (cr3 s1) (take 2 (indices va)) = Some fr2"
            "tables s1 fr2 = (\<lambda>_. 0)" "tables s1 g3 = (tables s g3)(indices va ! 1 := e)" using c \<open>ok\<close> by blast
          have "frame3 \<noteq> 0 \<Longrightarrow> tables s1 g3 = (\<lambda>_. 0)(indices va ! 1 := e)" using a(5) f3 by simp
          then show thesis using that [of M' fr2] a False f3 by auto
        qed
      qed
      show ?thesis
      proof (cases "sz = 1")
        case True
        have "M' \<subseteq># M0" using m(2) sub by (metis mset_subset_eq_add_left subset_mset.trans)
        moreover have "size M0 \<le> size M' + 3" using m(2) by (simp add: M0 fr_4K)
        ultimately have "touch_post B R s M0 va (3 - sz) s1 True" for B using tl(2,3) m(1,3) True unfolding touch_post_def by (auto simp: numeral_2_eq_2)
        then show ?thesis using True res by auto
      next
        case False
        have "\<exists>s' ok. touch_pml2 va user frame3 fr2 s1 = Some (s', ok) \<and> touch_post (big (tables s1 g2 (indices va ! 2))) R s1 M0 va 3 s' ok"
          by (rule touch_pml2_ok [OF m(1) va tl(4) m(3)]) (use m M0 in auto)
        then obtain s' ok' where r: "touch_pml2 va user frame3 fr2 s1 = Some (s', ok')"
          and post: "touch_post (big (tables s1 g2 (indices va ! 2))) R s1 M0 va 3 s' ok'" by blast
        have "big (tables s1 g2 (indices va ! 2)) \<Longrightarrow>
            \<exists>g2. tab (tables s) (cr3 s) (take 2 (indices va)) = Some g2 \<and> big (tables s g2 (indices va ! 2))"
          using m(3,4,6) by (cases "fr2 = 0") (auto simp: big_def)
        moreover have "sz = 0" using False sz by simp
        ultimately show ?thesis using res tl r post
          by (intro exI [of _ s'] exI [of _ ok']) (auto simp: touch_post_def split: if_splits)
      qed
    qed
  qed
qed

lemma vmm_touch'_ok:
  assumes inv: "vm_inv R s M" and va: "mappable va" and sz: "sz \<le> 2"
  shows "\<exists>s' ok. vmm_touch' va (int sz) s = Some (s', ok) \<and> touch_post (blocked s va sz) R s M va (3 - sz) s' ok"
proof -
  have sr: "self_ref s" using inv by (simp add: vm_inv_def)
  have z: "0 < (3::nat)" "0 \<le> (3::nat)" by simp_all
  have t0: "tab (tables s) (cr3 s) (take 0 (indices va)) = Some (cr3 s)" by simp
  let ?e = "tables s (cr3 s) (indices va ! 0)"
  have rd: "pt_read s (ptr_at va 0) (idx_at va 0) = Some ?e" by (rule read_at(1) [OF sr va z(2) t0])
  have nb: "\<not> big ?e" using inv leaf_ix_indices [OF va] by (auto simp: vm_inv_def indices_def leaf_ix_def)
  have s1: "Suc 0 = (1::nat)" by simp
  from touch_level_ok [OF inv va z(1) t0 nb, of "idx_at va 0 < 256", unfolded s1]
  obtain s1 ok f3 where tl: "touch_level (ptr_at va 0) (idx_at va 0) (ptr_at va 1) (idx_at va 0 < 256) ?e s = Some (s1, ok, f3)"
    "cr3 s1 = cr3 s" "same_leaves s s1"
    and c: "\<not> ok \<and> vm_inv R s1 M \<and> size M \<le> 520
      \<or> ok \<and> f3 = 0 \<and> s1 = s \<and> (\<exists>a. tab (tables s) (cr3 s) (take 1 (indices va)) = Some a)
      \<or> ok \<and> f3 \<noteq> 0 \<and> (\<exists>M'. vm_inv R s1 M' \<and> M = M' + fr 0 f3) \<and> tab (tables s1) (cr3 s1) (take 1 (indices va)) = Some f3
          \<and> tables s1 f3 = (\<lambda>_. 0)"
    by blast
  show ?thesis
  proof (cases ok)
    case False
    then show ?thesis using c rd tl by (auto simp: vmm_touch'_alt touch_post_def)
  next
    case True
    obtain M' g3 where m: "vm_inv R s1 M'" "M = M' + (if f3 = 0 then {#} else fr 0 f3)"
        "tab (tables s1) (cr3 s1) (take 1 (indices va)) = Some g3" "f3 \<noteq> 0 \<Longrightarrow> g3 = f3 \<and> tables s1 f3 = (\<lambda>_. 0)"
        "f3 = 0 \<Longrightarrow> s1 = s"
      using c True inv that by (elim disjE conjE exE) auto
    have res: "vmm_touch' va (int sz) s = (if sz = 2 then Some (s1, True) else touch_pml3 va (idx_at va 0 < 256) (int sz) f3 s1)"
      using rd tl True by (simp add: vmm_touch'_alt)
    show ?thesis
    proof (cases "sz = 2")
      case True
      have "M' \<subseteq># M" "size M \<le> size M' + 3" unfolding m(2) by (simp_all add: fr_4K)
      then have "touch_post B R s M va (3 - sz) s1 True" for B using tl(2,3) m(1,3) True unfolding touch_post_def by auto
      then show ?thesis using True res by auto
    next
      case False
      let ?B = "big (tables s1 g3 (indices va ! 1))
        \<or> sz = 0 \<and> (\<exists>g2. tab (tables s1) (cr3 s1) (take 2 (indices va)) = Some g2 \<and> big (tables s1 g2 (indices va ! 2)))"
      have "\<exists>s' ok. touch_pml3 va (idx_at va 0 < 256) (int sz) f3 s1 = Some (s', ok) \<and> touch_post ?B R s1 M va (3 - sz) s' ok"
        by (rule touch_pml3_ok [OF m(1) va m(3)]) (use m sz False in auto)
      then obtain s' ok' where r: "touch_pml3 va (idx_at va 0 < 256) (int sz) f3 s1 = Some (s', ok')"
        and post: "touch_post ?B R s1 M va (3 - sz) s' ok'" by blast
      have "?B \<Longrightarrow> blocked s va sz"
      proof (cases "f3 = 0")
        case True
        then have "s1 = s" using m(5) by simp
        then show "?B \<Longrightarrow> blocked s va sz"
          using m(3) False sz unfolding blocked_def by (elim disjE conjE exE) (rule exI [of _ 1], simp, rule exI [of _ 2], simp)
      next
        case f3: False
        have "take 1 (indices va) @ [indices va ! 1] = take 2 (indices va)" using valid_snoc(1) [OF va, of 1] by (simp add: numeral_2_eq_2)
        then have "tab (tables s1) (cr3 s1) (take 2 (indices va)) = None"
          using m(3,4) f3 by (simp add: tab_append present_def flip: \<open>take 1 _ @ _ = _\<close>)
        then show "?B \<Longrightarrow> blocked s va sz" using m(4) f3 by (simp add: big_def)
      qed
      then show ?thesis using False res tl r post
        by (intro exI [of _ s'] exI [of _ ok']) (auto simp: touch_post_def split: if_splits)
    qed
  qed
qed

section \<open>Mapping and unmapping\<close>

abbreviation xlate :: "vm \<Rightarrow> nat list \<Rightarrow> (nat \<times> u64) option" where
  "xlate s xs \<equiv> leaf (tables s) (cr3 s) xs"

text \<open>The entry that is written for a page, and what it means.\<close>

definition map_entry :: "u64 \<Rightarrow> u64 \<Rightarrow> u64 \<Rightarrow> nat \<Rightarrow> u64" where
  "map_entry va phy flags sz =
     (if sz = SIZE_4K then phy OR PG_PRESENT OR page_flags_of (addr_to_index va) flags
      else phy OR PG_PRESENT OR PG_BIG OR page_flags_of (addr_to_index va) flags)"

lemma map_entry_bits:
  assumes "phy AND PG_ADDR_MASK = phy"
  shows "present (map_entry va phy flags sz)" "sz \<noteq> 0 \<Longrightarrow> big (map_entry va phy flags sz)"
    "entry_frame (map_entry va phy flags sz) = phy"
    "(map_entry va phy flags sz AND PG_WRITABLE \<noteq> 0) = (flags AND VM_W \<noteq> 0)"
    "(map_entry va phy flags sz AND PG_NO_EXEC \<noteq> 0) = (flags AND VM_X = 0)"
    "(map_entry va phy flags sz AND PG_USER \<noteq> 0) = (pml4index (addr_to_index va) < 256)"
proof -
  note bits = map_entry_def page_flags_of_def Let_def bit.conj_disj_distrib2
    PG_PRESENT_def PG_WRITABLE_def PG_USER_def PG_BIG_def PG_NO_EXEC_def
  have z: "phy AND m = 0" if "PG_ADDR_MASK AND m = 0" for m
    using assms that by (metis and.assoc and_zero_eq)
  have "phy AND 2 = 0" "phy AND 4 = 0" "phy AND 0x8000000000000000 = 0" "phy AND 1 = 0" by (rule z, simp add: PG_ADDR_MASK_def)+
  then show "present (map_entry va phy flags sz)" "sz \<noteq> 0 \<Longrightarrow> big (map_entry va phy flags sz)"
    "(map_entry va phy flags sz AND PG_WRITABLE \<noteq> 0) = (flags AND VM_W \<noteq> 0)"
    "(map_entry va phy flags sz AND PG_NO_EXEC \<noteq> 0) = (flags AND VM_X = 0)"
    "(map_entry va phy flags sz AND PG_USER \<noteq> 0) = (pml4index (addr_to_index va) < 256)"
    by (simp_all add: bits present_def big_def)
  show "entry_frame (map_entry va phy flags sz) = phy"
    using assms by (simp add: bits entry_frame_def PG_ADDR_MASK_def)
qed

text \<open>Writing a leaf on the walk of an address.\<close>

lemma set_leaf_ok:
  assumes inv: "vm_inv R s M" and va: "mappable va" and n: "1 \<le> n" "n \<le> 3" and g: "tab (tables s) (cr3 s) (take n (indices va)) = Some g"
    and e: "n = 3 \<or> \<not> (present e \<and> \<not> big e)" "n = 3 \<or> (big e \<longrightarrow> present e)"
  shows "vm_inv R (set_entry g (indices va ! n) e s) M"
    and "leaf_ix xs \<Longrightarrow> take (Suc n) xs \<noteq> take (Suc n) (indices va) \<Longrightarrow> xlate (set_entry g (indices va ! n) e s) xs = xlate s xs"
    and "leaf_ix xs \<Longrightarrow> take (Suc n) xs = take (Suc n) (indices va) \<Longrightarrow>
      xlate (set_entry g (indices va ! n) e s) xs = (if present e then Some (3 - n, e) else None)"
proof -
  have i: "pmm_ok (vm_pmm s) M" "self_ref s" "tree (tables s) (cr3 s)" "\<forall>i<512. \<not> big (tables s (cr3 s) i)"
    and own: "\<And>p f. valid_path p \<Longrightarrow> tab (tables s) (cr3 s) p = Some f \<Longrightarrow>
        block_ok 0 f \<and> unat f div 4096 \<notin># M \<and> unat f div 4096 \<notin> R"
    and R: "\<forall>x. x \<in># M \<longrightarrow> x \<notin> R"
    using inv by (auto simp: vm_inv_def)
  have len: "length (indices va) = 4" by (simp add: indices_def)
  note v = leaf_ix_take [OF leaf_ix_indices [OF va] n(2)]
  have sn: "take n (indices va) @ [indices va ! n] = take (Suc n) (indices va)" using n len by (simp add: take_Suc_conv_app_nth)
  let ?t = "upd (tables s) g (indices va ! n) e"
  have tt: "tab (tables s) (cr3 s) p = Some f" if p: "valid_path p" "tab ?t (cr3 s) p = Some f" for p f
  proof (cases "n = 3")
    case True
    then have "\<not> prefix (take n (indices va) @ [indices va ! n]) p"
      using p(1) len by (auto simp: prefix_def valid_path_def)
    then show ?thesis using tab_upd [OF i(3) v g p(1)] p(2) by simp
  next
    case False
    then show ?thesis using tree_cut(1) [OF i(3) v g _ p] e(1) by blast
  qed
  have "tree ?t (cr3 s)" unfolding tree_def using tt treeD [OF i(3)] by blast
  moreover have "self_ref (set_entry g (indices va ! n) e s)" by (rule self_ref_upd [OF i(2,3) va n(2) g])
  moreover have "\<forall>k<512. \<not> big (?t (cr3 s) k)"
    by (rule top_entries_upd [OF i(3) v g i(4)]) (use n len in auto)
  moreover have "large_present ?t (cr3 s)"
    by (rule large_present_upd [OF _ i(3) v g _ tt]) (use e(2) len inv in \<open>auto simp: vm_inv_def\<close>)
  ultimately show "vm_inv R (set_entry g (indices va ! n) e s) M" using i(1) own tt R by (auto simp: vm_inv_def)
  assume xs: "leaf_ix xs"
  have lx: "length xs = 4" using xs by (simp add: leaf_ix_def)
  show "xlate (set_entry g (indices va ! n) e s) xs = xlate s xs" if "take (Suc n) xs \<noteq> take (Suc n) (indices va)"
  proof -
    have "\<not> prefix (take n (indices va) @ [indices va ! n]) xs"
      using that n len lx unfolding sn by (auto simp: prefix_def)
    then show ?thesis using leaf_upd_other [OF i(3) v g xs] by simp
  qed
  show "xlate (set_entry g (indices va ! n) e s) xs = (if present e then Some (3 - n, e) else None)"
    if tk: "take (Suc n) xs = take (Suc n) (indices va)"
  proof -
    have "take n (take (Suc n) xs) = take n (take (Suc n) (indices va))" "take (Suc n) xs ! n = take (Suc n) (indices va) ! n"
      using tk by simp_all
    then have x: "take n xs = take n (indices va)" "xs ! n = indices va ! n" by simp_all
    have g': "tab (tables s) (cr3 s) (take n xs) = Some g" using g x by simp
    show ?thesis
      using leaf_upd_set [OF i(3) g' xs n(2), of e] leaf_upd_clear [OF i(3) g' xs n(2), of e] e n(1) x by auto
  qed
qed

end
