(* ===== verification/VmmOps.thy ===== *)
theory VmmOps
  imports VmmMap
begin

text \<open>
  The operations of the virtual memory manager, as the hardware sees them: the page to which each address is mapped
  before and after.
\<close>

section \<open>Pages of addresses\<close>

definition page_no :: "nat \<Rightarrow> u64 \<Rightarrow> nat" where
  "page_no sz v = unat v div 2 ^ (12 + 9 * sz)"

definition mapping_of :: "vm \<Rightarrow> u64 \<Rightarrow> (nat \<times> u64) option" where
  "mapping_of s v = mmu_leaf (tables s) (cr3 s) (pt_index 39 v) (pt_index 30 v) (pt_index 21 v) (pt_index 12 v)"

lemma mapping_of_xlate: "mapping_of s v = xlate s (indices v)"
  by (simp add: mapping_of_def leaf_def indices_def)

lemma div_step: "unat (v :: u64) div 2 ^ k = (unat v div 2 ^ (k + 9)) * 512 + pt_index k v"
proof -
  have "unat v div 2 ^ (k + 9) = unat v div 2 ^ k div 512" by (simp add: power_add div_mult2_eq)
  then show ?thesis by (simp add: pt_index_def)
qed

lemma top_index:
  assumes "canonical v"
  shows "unat v div 2 ^ 39 = (if pt_index 39 v < 256 then pt_index 39 v else 0x1FFFE00 + pt_index 39 v)"
proof -
  let ?d = "unat v div 2 ^ 39"
  have l: "unat v < 0x10000000000000000" using unsigned_less [of v, where 'a = nat] by simp
  have "?d < 256 \<or> 0x1FFFF00 \<le> ?d"
    using assms by (auto simp: canonical_def VM_USER_END_def VM_HIGHER_HALF_def word_le_nat_alt
        div_less_iff_less_mult less_eq_div_iff_mult_less_eq)
  moreover have "?d < 0x2000000" using l by (simp add: div_less_iff_less_mult)
  moreover have "?d mod 512 = ?d - 0x1FFFE00" if "0x1FFFF00 \<le> ?d" "?d < 0x2000000"
  proof -
    have "?d = (?d - 0x1FFFE00) + 512 * 0xFFFF" "?d - 0x1FFFE00 < 512" using that by linarith+
    then show ?thesis by (metis mod_less mod_mult_self2)
  qed
  ultimately show ?thesis unfolding pt_index_def by (auto simp: mod_less)
qed

lemma page_indices:
  assumes "canonical v" "canonical w" "sz \<le> 2"
  shows "take (4 - sz) (indices v) = take (4 - sz) (indices w) \<longleftrightarrow> page_no sz v = page_no sz w"
proof -
  have t: "unat v div 2 ^ 39 = unat w div 2 ^ 39 \<longleftrightarrow> pt_index 39 v = pt_index 39 w"
  proof
    show "unat v div 2 ^ 39 = unat w div 2 ^ 39" if "pt_index 39 v = pt_index 39 w"
      unfolding top_index [OF assms(1)] top_index [OF assms(2)] that ..
  qed (simp only: pt_index_def)
  have st: "unat v div 2 ^ k = unat w div 2 ^ k \<longleftrightarrow>
      unat v div 2 ^ (k + 9) = unat w div 2 ^ (k + 9) \<and> pt_index k v = pt_index k w" for k
  proof -
    have "a * 512 + i = b * 512 + j \<longleftrightarrow> a = b \<and> i = j" if "i < 512" "j < 512" for a b i j :: nat
    proof -
      have "(a * 512 + i) div 512 = a" "(b * 512 + j) div 512 = b" using that by simp_all
      then show ?thesis by (metis add_left_cancel)
    qed
    then show ?thesis unfolding div_step [of v k] div_step [of w k] by simp
  qed
  have s: "unat v div 2 ^ 30 = unat w div 2 ^ 30 \<longleftrightarrow> pt_index 39 v = pt_index 39 w \<and> pt_index 30 v = pt_index 30 w"
    using st [of 30] t by simp
  have s2: "unat v div 2 ^ 21 = unat w div 2 ^ 21 \<longleftrightarrow> pt_index 39 v = pt_index 39 w \<and> pt_index 30 v = pt_index 30 w \<and> pt_index 21 v = pt_index 21 w"
    using st [of 21] s by simp
  have s1: "unat v div 2 ^ 12 = unat w div 2 ^ 12 \<longleftrightarrow> pt_index 39 v = pt_index 39 w \<and> pt_index 30 v = pt_index 30 w
      \<and> pt_index 21 v = pt_index 21 w \<and> pt_index 12 v = pt_index 12 w"
    using st [of 12] s2 by simp
  consider "sz = 0" | "sz = 1" | "sz = 2" using assms(3) by linarith
  then show ?thesis
    using s s1 s2 by cases (simp_all add: page_no_def indices_def)
qed

section \<open>Queries\<close>

lemma pt_read_levels:
  assumes "self_ref s" "mappable v"
  shows "pt_read s (pml4 (addr_to_index v)) (pml4index (addr_to_index v)) = Some (tables s (cr3 s) (pt_index 39 v))"
    and "tab (tables s) (cr3 s) [pt_index 39 v] = Some g3 \<Longrightarrow>
      pt_read s (pml3 (addr_to_index v)) (pml3index (addr_to_index v)) = Some (tables s g3 (pt_index 30 v))"
    and "tab (tables s) (cr3 s) [pt_index 39 v, pt_index 30 v] = Some g2 \<Longrightarrow>
      pt_read s (pml2 (addr_to_index v)) (pml2index (addr_to_index v)) = Some (tables s g2 (pt_index 21 v))"
    and "tab (tables s) (cr3 s) [pt_index 39 v, pt_index 30 v, pt_index 21 v] = Some g1 \<Longrightarrow>
      pt_read s (pml1 (addr_to_index v)) (pml1index (addr_to_index v)) = Some (tables s g1 (pt_index 12 v))"
  using read_at(1) [OF assms, of 0] read_at(1) [OF assms, of 1] read_at(1) [OF assms, of 2] read_at(1) [OF assms, of 3]
  by (simp_all add: ptr_at_def idx_at_def Let_def indices_def numeral_2_eq_2 numeral_3_eq_3)

lemma vmm_virt_to_phys'_walk:
  assumes "vm_inv R s M" "mappable v"
  shows "vmm_virt_to_phys' v s = Some (case mmu_walk (tables s) (cr3 s) v of None \<Rightarrow> 0 | Some p \<Rightarrow> p)"
proof -
  have sr: "self_ref s" and nb: "\<not> big (tables s (cr3 s) (pt_index 39 v))" using assms(1) by (auto simp: vm_inv_def)
  show ?thesis
    using nb pt_read_levels [OF sr assms(2)]
    by (auto simp: vmm_virt_to_phys'_def mmu_walk_def mmu_leaf_def Let_def size_mask_def entry_frame_def)
qed

lemma vmm_size'_walk:
  assumes "vm_inv R s M" "mappable v"
  shows "vmm_size' v s = Some (case mapping_of s v of None \<Rightarrow> -1 | Some (k, _) \<Rightarrow> int k)"
proof -
  have sr: "self_ref s" and nb: "\<not> big (tables s (cr3 s) (pt_index 39 v))" using assms(1) by (auto simp: vm_inv_def)
  show ?thesis
    using nb pt_read_levels [OF sr assms(2)]
    by (auto simp: vmm_size'_def mapping_of_def mmu_leaf_def Let_def entry_frame_def)
qed

section \<open>Mapping a page\<close>

lemma vm_inv_commit [simp]: "vm_inv R (commit s) M = vm_inv R s M" "mapping_of (commit s) v = mapping_of s v"
  "tables (commit s) = tables s" "cr3 (commit s) = cr3 s"
  by (simp_all add: commit_def vm_inv_def self_ref_def mapping_of_def)

text \<open>
  The reasons for which a mapping can be refused: pages of this size are disabled, the free memory is nearly exhausted, or
  the address lies in a larger page.
\<close>

definition map_refused :: "vm \<Rightarrow> nat multiset \<Rightarrow> u64 \<Rightarrow> nat \<Rightarrow> bool" where
  "map_refused s M va sz \<longleftrightarrow> sz = SIZE_1G \<and> \<not> enable1gPages (vm_pmm s) \<or> sz = SIZE_2M \<and> \<not> enable2mPages (vm_pmm s)
     \<or> size M \<le> 522 \<or> (\<exists>k e. mapping_of s va = Some (k, e) \<and> sz < k)"

lemma blocked_mapped:
  assumes "vm_inv R s M" "mappable va" "blocked s va sz"
  shows "\<exists>k e. mapping_of s va = Some (k, e) \<and> sz < k"
proof -
  obtain n g where n: "1 \<le> n" "n < 3 - sz" and g: "tab (tables s) (cr3 s) (take n (indices va)) = Some g" "big (tables s g (indices va ! n))"
    using assms(3) by (auto simp: blocked_def)
  have lp: "large_present (tables s) (cr3 s)" using assms(1) by (simp add: vm_inv_def)
  have "valid_path (take n (indices va))" by (rule leaf_ix_take [OF leaf_ix_indices [OF assms(2)]]) (use n in simp)
  moreover have "take n (indices va) \<noteq> []" "length (take n (indices va)) \<le> 2" using n by (auto simp: indices_def)
  ultimately have "present (tables s g (indices va ! n))" using lp g unfolding large_present_def by blast
  then have "mapping_of s va = Some (3 - n, tables s g (indices va ! n))"
    unfolding mapping_of_xlate leaf_tab [OF leaf_ix_indices [OF assms(2)]] using n g by simp
  then show ?thesis using n by auto
qed

lemma vmm_maps'_ok:
  assumes inv: "vm_inv R s M" and va: "mappable va" and sz: "sz \<le> 2" and phy: "phy AND PG_ADDR_MASK = phy"
  shows "\<exists>s' ok. vmm_maps' va phy flags (int sz) s = Some (s', ok)
    \<and> (if ok then (\<exists>M'. vm_inv R s' M' \<and> M' \<subseteq># M \<and> size M \<le> size M' + 3) \<and> (\<exists>g. tab (tables s') (cr3 s') (take (3 - sz) (indices va)) = Some g)
          \<and> (\<forall>xs. leaf_ix xs \<longrightarrow> xlate s' xs = (if take (4 - sz) xs = take (4 - sz) (indices va)
              then Some (sz, map_entry va phy flags sz) else xlate s xs))
       else vm_inv R s' M \<and> same_leaves s s' \<and> map_refused s M va sz)"
proof (cases "sz = 2 \<and> \<not> enable1gPages (vm_pmm s) \<or> sz = 1 \<and> \<not> enable2mPages (vm_pmm s)")
  case True
  then have "vmm_maps' va phy flags (int sz) s = Some (s, False)" by (elim disjE) (simp_all add: vmm_maps'_def)
  then show ?thesis using inv True by (intro exI [of _ s] exI [of _ False]) (auto simp: map_refused_def)
next
  case en: False
  obtain s1 ok where t: "vmm_touch' va (int sz) s = Some (s1, ok)" "touch_post (blocked s va sz) R s M va (3 - sz) s1 ok"
    using vmm_touch'_ok [OF inv va sz] by blast
  show ?thesis
  proof (cases ok)
    case False
    then have "vmm_maps' va phy flags (int sz) s = Some (s1, False)" using t(1) en by (auto simp: vmm_maps'_def)
    moreover have "map_refused s M va sz"
      using t(2) False blocked_mapped [OF inv va, of sz] by (auto simp: touch_post_def map_refused_def)
    ultimately show ?thesis using t(2) False unfolding touch_post_def by (intro exI [of _ s1] exI [of _ False]) auto
  next
    case True
    then obtain M' g where m: "vm_inv R s1 M'" "M' \<subseteq># M \<and> size M \<le> size M' + 3" "tab (tables s1) (cr3 s1) (take (3 - sz) (indices va)) = Some g"
      and same: "cr3 s1 = cr3 s" "same_leaves s s1" using t(2) by (auto simp: touch_post_def)
    let ?e = "map_entry va phy flags sz"
    let ?s2 = "set_entry g (indices va ! (3 - sz)) ?e s1"
    have n: "1 \<le> 3 - sz" "3 - sz \<le> 3" "Suc (3 - sz) = 4 - sz" "3 - (3 - sz) = sz" using sz by auto
    have e: "3 - sz = 3 \<or> \<not> (present ?e \<and> \<not> big ?e)" "3 - sz = 3 \<or> (big ?e \<longrightarrow> present ?e)"
      using map_entry_bits(1) [OF phy, of va flags sz] map_entry_bits(2) [OF phy, of sz va flags] by (cases "sz = 0", auto)
    have sr: "self_ref s1" and tr: "tree (tables s1) (cr3 s1)" using m(1) by (auto simp: vm_inv_def)
    note w = read_at(2) [OF sr va n(2) m(3), of ?e]
    note sl = set_leaf_ok [OF m(1) va n(1,2) m(3) e, unfolded n(3,4)]
    have "vmm_maps' va phy flags (int sz) s = Some (queue_invalidate va ?s2, True)"
    proof -
      consider "sz = 0" | "sz = 1" | "sz = 2" using sz by linarith
      then show ?thesis
        using en t(1) True w by cases (simp_all add: vmm_maps'_def map_entry_def ptr_at_def idx_at_def Let_def)
    qed
    moreover have "tab (tables ?s2) (cr3 ?s2) (take (3 - sz) (indices va)) = Some g"
      using tab_upd_self [OF tr leaf_ix_take [OF leaf_ix_indices [OF va] n(2)] m(3)] by simp
    ultimately show ?thesis
      using sl m(1,2) same map_entry_bits(1) [OF phy, of va flags sz]
      by (intro exI [of _ "queue_invalidate va ?s2"] exI [of _ True]) auto
  qed
qed

section \<open>Unmapping a page\<close>

lemma untouch_step:
  assumes inv: "vm_inv R s M" and va: "mappable va" "n < 3" and a: "tab (tables s) (cr3 s) (take (Suc n) (indices va)) = Some a"
  shows "\<exists>s' M' g. drop_empty (ptr_at va n) (idx_at va n) (ptr_at va (Suc n)) s = Some s' \<and> vm_inv R s' M' \<and> M \<subseteq># M'
    \<and> same_leaves s s' \<and> cr3 s' = cr3 s \<and> tab (tables s') (cr3 s') (take n (indices va)) = Some g"
proof -
  obtain g where "tab (tables s) (cr3 s) (take n (indices va)) = Some g"
    using a by (auto simp flip: valid_snoc(1) [OF va] simp: tab_snoc)
  then show ?thesis using drop_empty_ok [OF inv va _ a] by blast
qed

lemma untouch_4K:
  "vmm_untouch' va (int 0) s = do {
     s \<leftarrow> drop_empty (ptr_at va 2) (idx_at va 2) (ptr_at va 3) s;
     vmm_untouch' va (int 1) s}"
  by (simp add: vmm_untouch'_def ptr_at_def idx_at_def Let_def)

lemma untouch_2M:
  "vmm_untouch' va (int 1) s = do {
     s \<leftarrow> drop_empty (ptr_at va 1) (idx_at va 1) (ptr_at va 2) s;
     vmm_untouch' va (int 2) s}"
  by (simp add: vmm_untouch'_def ptr_at_def idx_at_def Let_def)

lemma untouch_1G:
  "vmm_untouch' va (int 2) s =
     (if idx_at va 0 < 256 then drop_empty (ptr_at va 0) (idx_at va 0) (ptr_at va 1) s else Some s)"
  by (simp add: vmm_untouch'_def ptr_at_def idx_at_def Let_def)

text \<open>What releasing the empty tables guarantees.\<close>

abbreviation untouch_post :: "nat set \<Rightarrow> vm \<Rightarrow> nat multiset \<Rightarrow> vm option \<Rightarrow> bool" where
  "untouch_post R s M r \<equiv> \<exists>s' M'. r = Some s' \<and> vm_inv R s' M' \<and> M \<subseteq># M' \<and> same_leaves s s'"

lemma untouch_1G_ok:
  assumes inv: "vm_inv R s M" and va: "mappable va" and a: "tab (tables s) (cr3 s) (take 1 (indices va)) = Some a"
  shows "untouch_post R s M (vmm_untouch' va (int 2) s)"
proof (cases "idx_at va 0 < 256")
  case True
  then show ?thesis using untouch_step [OF inv va, of 0 a] a unfolding untouch_1G by auto
next
  case False
  then show ?thesis unfolding untouch_1G using inv by (intro exI [of _ s] exI [of _ M]) simp
qed

lemma untouch_post_bind:
  assumes "r = Some s1" "vm_inv R s1 M1" "M \<subseteq># M1" "same_leaves s s1" "untouch_post R s1 M1 (g s1)"
  shows "untouch_post R s M (r \<bind> g)"
proof -
  obtain s' M' where s': "g s1 = Some s'" "vm_inv R s' M'" "M1 \<subseteq># M'" "same_leaves s1 s'" using assms(5) by blast
  then show ?thesis
    using assms(1-4) by (intro exI [of _ s'] exI [of _ M']) (auto intro: subset_mset.trans)
qed

lemma untouch_2M_ok:
  assumes inv: "vm_inv R s M" and va: "mappable va" and a: "tab (tables s) (cr3 s) (take 2 (indices va)) = Some a"
  shows "untouch_post R s M (vmm_untouch' va (int 1) s)"
proof -
  obtain s1 M1 g where s1: "drop_empty (ptr_at va 1) (idx_at va 1) (ptr_at va 2) s = Some s1" "vm_inv R s1 M1" "M \<subseteq># M1"
      "same_leaves s s1" "tab (tables s1) (cr3 s1) (take 1 (indices va)) = Some g"
    using untouch_step [OF inv va, of 1 a] a by (auto simp: numeral_2_eq_2)
  show ?thesis
    unfolding untouch_2M by (rule untouch_post_bind [OF s1(1-4)]) (rule untouch_1G_ok [OF s1(2) va s1(5)])
qed

lemma vmm_untouch'_ok:
  assumes inv: "vm_inv R s M" and va: "mappable va" and a: "tab (tables s) (cr3 s) (take (3 - sz) (indices va)) = Some a"
    and sz: "sz \<le> 2"
  shows "untouch_post R s M (vmm_untouch' va (int sz) s)"
proof -
  consider "sz = 0" | "sz = 1" | "sz = 2" using sz by linarith
  then show ?thesis
  proof cases
    case 1
    obtain s1 M1 g where s1: "drop_empty (ptr_at va 2) (idx_at va 2) (ptr_at va 3) s = Some s1" "vm_inv R s1 M1" "M \<subseteq># M1"
        "same_leaves s s1" "tab (tables s1) (cr3 s1) (take 2 (indices va)) = Some g"
      using untouch_step [OF inv va, of 2 a] a 1 by (auto simp: eval_nat_numeral)
    show ?thesis unfolding 1 untouch_4K
      by (rule untouch_post_bind [OF s1(1-4)]) (rule untouch_2M_ok [OF s1(2) va s1(5)])
  next
    case 2
    then show ?thesis using untouch_2M_ok [OF inv va] a by (simp add: numeral_2_eq_2)
  next
    case 3
    then show ?thesis using untouch_1G_ok [OF inv va] a by simp
  qed
qed

lemma vmm_unmaps'_ok:
  assumes inv: "vm_inv R s M" and va: "mappable va" and m: "xlate s (indices va) = Some (sz, e)"
  shows "\<exists>s' M'. vmm_unmaps' va (int sz) s = Some (s', entry_frame e) \<and> vm_inv R s' M' \<and> M \<subseteq># M'
    \<and> (\<forall>xs. leaf_ix xs \<longrightarrow> xlate s' xs = (if take (4 - sz) xs = take (4 - sz) (indices va) then None else xlate s xs))"
proof -
  obtain g where sz: "sz \<le> 2" and g: "tab (tables s) (cr3 s) (take (3 - sz) (indices va)) = Some g"
    and e: "tables s g (indices va ! (3 - sz)) = e" "present e"
    using m unfolding leaf_tab [OF leaf_ix_indices [OF va]] by blast
  have sr: "self_ref s" and tr: "tree (tables s) (cr3 s)" using inv by (auto simp: vm_inv_def)
  have n: "1 \<le> 3 - sz" "3 - sz \<le> 3" "Suc (3 - sz) = 4 - sz" using sz by auto
  let ?s1 = "queue_invalidate va (set_entry g (indices va ! (3 - sz)) 0 s)"
  have z: "3 - sz = 3 \<or> \<not> (present 0 \<and> \<not> big 0)" "\<not> present 0" "3 - sz = 3 \<or> (big 0 \<longrightarrow> present 0)"
    by (auto simp: present_def big_def)
  note rw = read_at(1,2) [OF sr va n(2) g]
  note sl = set_leaf_ok [OF inv va n(1,2) g z(1,3), unfolded n(3)]
  have te: "take_entry (ptr_at va (3 - sz)) (idx_at va (3 - sz)) s = Some (set_entry g (indices va ! (3 - sz)) 0 s, entry_frame e)"
    using rw e by (simp add: take_entry_def entry_frame_def)
  have r: "vmm_unmaps' va (int sz) s = map_option (\<lambda>s'. (s', entry_frame e)) (vmm_untouch' va (int sz) ?s1)"
  proof -
    consider "sz = 0" | "sz = 1" | "sz = 2" using sz by linarith
    then show ?thesis using te
      by cases (simp_all add: vmm_unmaps'_def ptr_at_def idx_at_def Let_def map_conv_bind_option comp_def)
  qed
  have "vm_inv R ?s1 M" using sl(1) by simp
  moreover have "tab (tables ?s1) (cr3 ?s1) (take (3 - sz) (indices va)) = Some g"
    using tab_upd_self [OF tr leaf_ix_take [OF leaf_ix_indices [OF va] n(2)] g] by simp
  ultimately have "untouch_post R ?s1 M (vmm_untouch' va (int sz) ?s1)" by (rule vmm_untouch'_ok [OF _ va _ sz])
  then obtain s' M' where s': "vmm_untouch' va (int sz) ?s1 = Some s'" "vm_inv R s' M'" "M \<subseteq># M'" "same_leaves ?s1 s'" by blast
  then show ?thesis unfolding r using sl(2,3) z(2) by (intro exI [of _ s'] exI [of _ M']) auto
qed

section \<open>Unmapping a range\<close>

lemma vmm_unmaps'_other_size:
  assumes "sz \<noteq> 0" "sz \<noteq> 1" "sz \<noteq> 2"
  shows "vmm_unmaps' va sz s = Some (queue_invalidate va s, 0)"
  using assms by (simp add: vmm_unmaps'_def vmm_untouch'_def Let_def)

lemma narrow_page:
  assumes "0 < unat (a :: u64)" "unat a < 2 ^ 32" "unat a mod 4096 = 0"
  shows "sint (ucast a :: u32) \<noteq> 0" "sint (ucast a :: u32) \<noteq> 1" "sint (ucast a :: u32) \<noteq> 2"
proof -
  have u: "unat (ucast a :: u32) = unat a" using assms(2) by (simp add: unsigned_ucast_eq take_bit_nat_eq_self)
  have "sint (ucast a :: u32) = k \<Longrightarrow> 0 \<le> k \<Longrightarrow> k \<le> 2 \<Longrightarrow> unat a = nat k" for k
  proof -
    assume k: "sint (ucast a :: u32) = k" "0 \<le> k" "k \<le> 2"
    have "uint (ucast a :: u32) = take_bit 32 k" using uint_sint [of "ucast a :: u32"] k(1) by simp
    then have "uint (ucast a :: u32) = k" using k(2,3) by (simp add: take_bit_int_eq_self)
    then show "unat a = nat k" using u by (metis nat_uint_eq)
  qed
  moreover have "unat a \<noteq> 0" "unat a \<noteq> 1" "unat a \<noteq> 2" using assms(1,3) by auto
  ultimately show "sint (ucast a :: u32) \<noteq> 0" "sint (ucast a :: u32) \<noteq> 1" "sint (ucast a :: u32) \<noteq> 2" by auto
qed

lemma user_mappable: "unat v < 2 ^ 32 \<Longrightarrow> mappable v"
  by (auto simp: mappable_def canonical_def VM_USER_END_def word_le_nat_alt pt_index_def)

lemma unmap_range_loop_idle:
  assumes "vm_inv R s M" "0 < unat virt" "unat virt mod 4096 = 0" "unat virt + unat len \<le> 2 ^ 32" "unat off mod 4096 = 0"
  shows "\<exists>s'. unmap_range_loop virt len off s = Some s' \<and> tables s' = tables s \<and> cr3 s' = cr3 s \<and> vm_pmm s' = vm_pmm s"
  using assms(1,5)
proof (induction "unat len - unat off" arbitrary: off s rule: less_induct)
  case less
  show ?case
  proof (cases "off < len")
    case False
    then show ?thesis by (subst unmap_range_loop.simps) simp
  next
    case True
    have o: "unat off < unat len" using True by (simp add: word_less_nat_alt)
    have vo: "unat (virt + off) = unat virt + unat off" using assms(4) o by (simp add: unat_word_ariths)
    note n = narrow_page [of "virt + off"]
    have vr: "0 < unat (virt + off)" "unat (virt + off) < 2 ^ 32" "unat (virt + off) mod 4096 = 0"
      using assms(2-4) o less.prems(2) vo by (auto simp: mod_add_eq [of "unat virt", symmetric])
    obtain sz where sz: "vmm_size' (virt + off) s = Some sz"
      using vmm_size'_walk [OF less.prems(1) user_mappable [OF vr(2)]] by auto
    let ?s = "if sz \<noteq> -1 then queue_invalidate (of_int sz) s else s"
    let ?off = "if sz = int SIZE_1G then off + FRAME_SIZE_1G else if sz = int SIZE_2M then off + FRAME_SIZE_2M else off + FRAME_SIZE"
    have e: "unmap_range_loop virt len off s = unmap_range_loop virt len ?off ?s"
      by (subst unmap_range_loop.simps) (simp add: True sz vmm_unmaps'_other_size [OF n [OF vr]])
    have "unat ?off = unat off + (if sz = int SIZE_1G then 0x40000000 else if sz = int SIZE_2M then 0x200000 else 0x1000)"
      using o assms(4) by (auto simp: unat_word_ariths)
    then have "unat len - unat ?off < unat len - unat off" "unat ?off mod 4096 = 0"
      using o less.prems(2) by (auto simp: mod_add_eq [of "unat off", symmetric])
    moreover have "vm_inv R ?s M" using less.prems(1) by simp
    ultimately show ?thesis using less.hyps [of ?off ?s] unfolding e by (auto split: if_splits)
  qed
qed

section \<open>Changing the flags of a page\<close>

lemma change_flags_bits:
  assumes "flags AND (PG_PRESENT OR PG_BIG OR PG_ADDR_MASK) = 0"
  shows "present (change_flags flags st e) = present e" "big (change_flags flags st e) = big e"
    "entry_frame (change_flags flags st e) = entry_frame e"
proof -
  have z: "flags AND PG_PRESENT = 0" "flags AND PG_BIG = 0" "flags AND PG_ADDR_MASK = 0"
    using assms by (simp_all add: bit.conj_disj_distrib or_eq_0_iff)
  have n: "(e AND NOT flags) AND m = e AND m" if "flags AND m = 0" for m
  proof (rule bit_word_eqI)
    fix i assume i: "i < LENGTH(64)"
    have "\<not> (bit flags i \<and> bit m i)" using that by (metis bit_0_eq bit_and_iff bot_apply bot_bool_def)
    then show "bit ((e AND NOT flags) AND m) i = bit (e AND m) i" using i by (auto simp: bit_and_iff bit_not_iff)
  qed
  show "present (change_flags flags st e) = present e" "big (change_flags flags st e) = big e"
    "entry_frame (change_flags flags st e) = entry_frame e"
    using z n by (simp_all add: change_flags_def present_def big_def entry_frame_def bit.conj_disj_distrib2)
qed

lemma pt_write_levels:
  assumes "self_ref s" "mappable v"
  shows "tab (tables s) (cr3 s) [pt_index 39 v] = Some g3 \<Longrightarrow>
      pt_write (pml3 (addr_to_index v)) (pml3index (addr_to_index v)) e s = Some (set_entry g3 (pt_index 30 v) e s)"
    and "tab (tables s) (cr3 s) [pt_index 39 v, pt_index 30 v] = Some g2 \<Longrightarrow>
      pt_write (pml2 (addr_to_index v)) (pml2index (addr_to_index v)) e s = Some (set_entry g2 (pt_index 21 v) e s)"
    and "tab (tables s) (cr3 s) [pt_index 39 v, pt_index 30 v, pt_index 21 v] = Some g1 \<Longrightarrow>
      pt_write (pml1 (addr_to_index v)) (pml1index (addr_to_index v)) e s = Some (set_entry g1 (pt_index 12 v) e s)"
  using read_at(2) [OF assms, of 1] read_at(2) [OF assms, of 2] read_at(2) [OF assms, of 3]
  by (simp_all add: ptr_at_def idx_at_def Let_def indices_def numeral_2_eq_2 numeral_3_eq_3)

lemma vmm_modify_flags'_none:
  assumes "vm_inv R s M" "mappable v" "mapping_of s v = None"
  shows "vmm_modify_flags' v flags st s = Some (queue_invalidate v s, 0)"
proof -
  have sr: "self_ref (queue_invalidate v s)" and nb: "\<not> big (tables s (cr3 s) (pt_index 39 v))" using assms(1) by (auto simp: vm_inv_def)
  show ?thesis
    using nb pt_read_levels [OF sr assms(2)] assms(3)
    by (auto simp: vmm_modify_flags'_def mapping_of_def mmu_leaf_def Let_def entry_frame_def split: if_splits)
qed

lemma vmm_modify_flags'_eq:
  assumes "vm_inv R s M" "mappable v" "mapping_of s v = Some (k, e)" "tab (tables s) (cr3 s) (take (3 - k) (indices v)) = Some g"
  shows "vmm_modify_flags' v flags st s =
    Some (set_entry g (indices v ! (3 - k)) (change_flags flags st e) (queue_invalidate v s), change_flags flags st e)"
proof -
  have sr: "self_ref (queue_invalidate v s)" and nb: "\<not> big (tables s (cr3 s) (pt_index 39 v))" using assms(1) by (auto simp: vm_inv_def)
  note p = pt_read_levels [OF sr assms(2)] pt_write_levels [OF sr assms(2)]
  show ?thesis
    using nb p assms(3,4)
    by (auto simp: vmm_modify_flags'_def mapping_of_def mmu_leaf_def Let_def indices_def numeral_2_eq_2 numeral_3_eq_3
        split: if_splits)
qed

lemma vmm_modify_flags'_ok:
  assumes inv: "vm_inv R s M" and v: "mappable v" and m: "mapping_of s v = Some (k, e)"
    and fl: "flags AND (PG_PRESENT OR PG_BIG OR PG_ADDR_MASK) = 0"
  shows "\<exists>s'. vmm_modify_flags' v flags st s = Some (s', change_flags flags st e) \<and> vm_inv R s' M
    \<and> (\<forall>xs. leaf_ix xs \<longrightarrow> xlate s' xs = (if take (4 - k) xs = take (4 - k) (indices v)
        then Some (k, change_flags flags st e) else xlate s xs))"
proof -
  obtain g where k: "k \<le> 2" and g: "tab (tables s) (cr3 s) (take (3 - k) (indices v)) = Some g"
    and e: "present e" "k \<noteq> 0 \<longrightarrow> big e"
    using m unfolding mapping_of_xlate leaf_tab [OF leaf_ix_indices [OF v]] by blast
  let ?e = "change_flags flags st e"
  let ?s = "queue_invalidate v s"
  have n: "1 \<le> 3 - k" "3 - k \<le> 3" "Suc (3 - k) = 4 - k" "3 - (3 - k) = k" using k by auto
  have inv': "vm_inv R ?s M" and g': "tab (tables ?s) (cr3 ?s) (take (3 - k) (indices v)) = Some g" using inv g by simp_all
  have "3 - k = 3 \<or> \<not> (present ?e \<and> \<not> big ?e)" "3 - k = 3 \<or> (big ?e \<longrightarrow> present ?e)"
    using e change_flags_bits(1,2) [OF fl, of st e] by (cases "k = 0", auto)
  note sl = set_leaf_ok [OF inv' v n(1,2) g' this, unfolded n(3,4)]
  show ?thesis unfolding vmm_modify_flags'_eq [OF inv v m g]
    using sl change_flags_bits(1) [OF fl, of st e] e(1) by (intro exI conjI refl) auto
qed

section \<open>Results\<close>

text \<open>Addresses in the terms of pages.\<close>

lemma leaves_pages:
  assumes "\<forall>xs. leaf_ix xs \<longrightarrow> xlate s' xs = (if take (4 - sz) xs = take (4 - sz) (indices va) then r else xlate s xs)"
    "mappable va" "sz \<le> 2"
  shows "\<forall>v. mappable v \<longrightarrow> mapping_of s' v = (if page_no sz v = page_no sz va then r else mapping_of s v)"
proof (intro allI impI)
  fix v assume v: "mappable v"
  show "mapping_of s' v = (if page_no sz v = page_no sz va then r else mapping_of s v)"
    using assms(1) leaf_ix_indices [OF v] page_indices [of v va sz] v assms(2,3)
    by (simp add: mapping_of_xlate mappable_def)
qed

text \<open>Mapping a page whose tables exist succeeds.\<close>

lemma vmm_touch'_present:
  assumes "self_ref s" "mappable v" "tab (tables s) (cr3 s) [pt_index 39 v, pt_index 30 v, pt_index 21 v] = Some g"
  shows "vmm_touch' v (int SIZE_4K) s = Some (s, True)"
  using assms(3) pt_read_levels [OF assms(1,2)] by (auto simp: vmm_touch'_def touch_level_def Let_def split: if_splits)

text \<open>A concrete address space: the page at address 0 is mapped to the frame at 4 MiB.\<close>

definition vm_example :: vm where
  "vm_example =
     \<lparr>vm_pmm = pmm_example,
      tables = (\<lambda>_ _. 0)
        (0x200000 := (\<lambda>_. 0)(0 := 0x201007, 510 := 0x200003), 0x201000 := (\<lambda>_. 0)(0 := 0x202007),
         0x202000 := (\<lambda>_. 0)(0 := 0x203007), 0x203000 := (\<lambda>_. 0)(0 := 0x400007)),
      cr3 = 0x200000, vm_cpus = [], vm_smp = False, vm_me = 0\<rparr>"

lemma vm_example_tabs:
  assumes "valid_path p" "tab (tables vm_example) 0x200000 p = Some f"
  shows "(p, f) \<in> {([], 0x200000), ([0], 0x201000), ([0, 0], 0x202000), ([0, 0, 0], 0x203000)}"
proof -
  have e: "present 0x201007" "\<not> big 0x201007" "entry_frame 0x201007 = 0x201000" "present 0x202007" "\<not> big 0x202007"
    "entry_frame 0x202007 = 0x202000" "present 0x203007" "\<not> big 0x203007" "entry_frame 0x203007 = 0x203000" "\<not> present 0"
    by (simp_all add: present_def big_def entry_frame_def PG_PRESENT_def PG_BIG_def PG_ADDR_MASK_def)
  have t: "tables vm_example 0x200000 i = (if i = 0 then 0x201007 else if i = 510 then 0x200003 else 0)"
    "tables vm_example 0x201000 i = (if i = 0 then 0x202007 else 0)"
    "tables vm_example 0x202000 i = (if i = 0 then 0x203007 else 0)" for i
    by (simp_all add: vm_example_def)
  have l: "length p \<le> 3" "p = [] \<or> hd p \<noteq> 510" using assms(1) by (auto simp: valid_path_def)
  consider "p = []" | a where "p = [a]" | a b where "p = [a, b]" | a b c where "p = [a, b, c]"
    using l(1) by (cases p rule: remdups_adj.cases; cases "tl (tl p)"; cases "tl (tl (tl p))") auto
  then show ?thesis
    using assms(2) l(2) by cases (auto simp: t e split: if_splits)
qed

lemma vm_example_inv: "vm_inv {} vm_example (pmem pview_example)"
proof -
  have "pmm_ok (vm_pmm vm_example) (pmem pview_example)"
    using pmm_example_wf by (auto simp: vm_example_def pmm_ok_def)
  moreover have "self_ref vm_example"
    by (simp add: self_ref_def vm_example_def present_def big_def entry_frame_def PG_PRESENT_def PG_BIG_def PG_ADDR_MASK_def)
  moreover have c: "cr3 vm_example = 0x200000" by (simp add: vm_example_def)
  moreover have "tree (tables vm_example) 0x200000"
    unfolding tree_def using vm_example_tabs by (auto dest!: vm_example_tabs)
  moreover have "\<forall>i<512. \<not> big (tables vm_example 0x200000 i)" by (simp add: vm_example_def big_def PG_BIG_def)
  moreover have "block_ok 0 f \<and> unat f div 4096 \<notin># pmem pview_example"
    if "valid_path p" "tab (tables vm_example) 0x200000 p = Some f" for p f
    using vm_example_tabs [OF that] by (auto simp: pmm_example_mem block_ok_def)
  moreover have "large_present (tables vm_example) 0x200000"
    unfolding large_present_def by (auto dest!: vm_example_tabs simp: vm_example_def big_def PG_BIG_def)
  ultimately show ?thesis by (simp add: vm_inv_def c) blast
qed

lemma vm_example_mapping: "mapping_of vm_example 0x123 = Some (0, 0x400007)" "mappable 0x123"
  by (simp_all add: mapping_of_def mmu_leaf_def vm_example_def present_def big_def entry_frame_def PG_PRESENT_def PG_BIG_def
      PG_ADDR_MASK_def pt_index_def mappable_def canonical_def VM_USER_END_def)

lemma vmm_maps_ok:
  assumes "vm_inv R s M" "mappable va" "sz \<le> 2" "phy AND PG_ADDR_MASK = phy"
  shows "\<exists>s' ok. vmm_maps va phy flags (int sz) s = Some (s', ok)
    \<and> (if ok then (\<exists>M'. vm_inv R s' M' \<and> M' \<subseteq># M \<and> size M \<le> size M' + 3)
          \<and> (\<forall>v. mappable v \<longrightarrow> mapping_of s' v =
              (if page_no sz v = page_no sz va then Some (sz, map_entry va phy flags sz) else mapping_of s v))
       else vm_inv R s' M \<and> (\<forall>v. mappable v \<longrightarrow> mapping_of s' v = mapping_of s v) \<and> map_refused s M va sz)"
proof -
  obtain s' ok where s': "vmm_maps' va phy flags (int sz) s = Some (s', ok)"
    and c: "if ok then (\<exists>M'. vm_inv R s' M' \<and> M' \<subseteq># M \<and> size M \<le> size M' + 3) \<and> (\<exists>g. tab (tables s') (cr3 s') (take (3 - sz) (indices va)) = Some g)
          \<and> (\<forall>xs. leaf_ix xs \<longrightarrow> xlate s' xs = (if take (4 - sz) xs = take (4 - sz) (indices va)
              then Some (sz, map_entry va phy flags sz) else xlate s xs))
       else vm_inv R s' M \<and> same_leaves s s' \<and> map_refused s M va sz"
    using vmm_maps'_ok [OF assms] by blast
  have r: "vmm_maps va phy flags (int sz) s = Some (commit s', ok)" using s' by (simp add: vmm_maps_def)
  show ?thesis
  proof (cases ok)
    case True
    then show ?thesis unfolding r using c leaves_pages [OF _ assms(2,3), of s' "Some (sz, map_entry va phy flags sz)" s]
      by (intro exI [of _ "commit s'"] exI [of _ ok]) simp
  next
    case False
    then show ?thesis unfolding r using c leaf_ix_indices
      by (intro exI [of _ "commit s'"] exI [of _ ok]) (simp add: mapping_of_xlate)
  qed
qed

text \<open>
  C10. Mapping a page: \<^verbatim>\<open>vmm_maps\<close> returns.  It fails only if pages of this size are disabled, if the allocator owns no more
  than 522 frames, or if the address lies in a larger page, and then leaves every translation and the free memory as
  they were (tables created on the way are given back).  Otherwise exactly the addresses of the page are translated by the new
  entry, all others as before, and at most three frames have been used for tables.
\<close>

theorem vmm_maps_correct:
  assumes "vm_inv R s M" "mappable va" "sz \<le> 2" "phy AND PG_ADDR_MASK = phy"
  shows "\<exists>s' ok. vmm_maps va phy flags (int sz) s = Some (s', ok)
    \<and> (if ok then (\<exists>M'. vm_inv R s' M' \<and> M' \<subseteq># M \<and> size M \<le> size M' + 3)
          \<and> (\<forall>v. mappable v \<longrightarrow> mapping_of s' v =
              (if page_no sz v = page_no sz va then Some (sz, map_entry va phy flags sz) else mapping_of s v))
       else vm_inv R s' M \<and> (\<forall>v. mappable v \<longrightarrow> mapping_of s' v = mapping_of s v) \<and> map_refused s M va sz)"
  using assms by (rule vmm_maps_ok)

lemma vmm_unmaps_ok:
  assumes "vm_inv R s M" "mappable va" "mapping_of s va = Some (sz, e)"
  shows "\<exists>s' M'. vmm_unmaps va (int sz) s = Some (s', entry_frame e) \<and> vm_inv R s' M' \<and> M \<subseteq># M'
    \<and> (\<forall>v. mappable v \<longrightarrow> mapping_of s' v = (if page_no sz v = page_no sz va then None else mapping_of s v))"
proof -
  have sz: "sz \<le> 2" using assms(3) unfolding mapping_of_xlate leaf_tab [OF leaf_ix_indices [OF assms(2)]] by blast
  obtain s' M' where s': "vmm_unmaps' va (int sz) s = Some (s', entry_frame e)" "vm_inv R s' M'" "M \<subseteq># M'"
    and c: "\<forall>xs. leaf_ix xs \<longrightarrow> xlate s' xs = (if take (4 - sz) xs = take (4 - sz) (indices va) then None else xlate s xs)"
    using vmm_unmaps'_ok [OF assms(1,2) assms(3) [unfolded mapping_of_xlate]] by blast
  show ?thesis using s' leaves_pages [OF c assms(2) sz]
    by (intro exI [of _ "commit s'"] exI [of _ M']) (simp add: vmm_unmaps_def)
qed


theorem vmm_maps_correct_witness:
  "\<exists>s' ok. vmm_maps 0x7F0000001000 0x5000000 VM_W (int SIZE_4K) vm_example = Some (s', ok)
    \<and> (ok \<longrightarrow> mapping_of s' 0x7F0000001234 = Some (0, map_entry 0x7F0000001000 0x5000000 VM_W 0)
          \<and> mapping_of s' 0x123 = Some (0, 0x400007))"
proof -
  have m: "mappable 0x7F0000001000" "mappable 0x7F0000001234"
    by (simp_all add: mappable_def canonical_def VM_USER_END_def pt_index_def)
  have p: "page_no 0 0x7F0000001234 = page_no 0 0x7F0000001000" "page_no 0 0x123 \<noteq> page_no 0 0x7F0000001000"
    by (simp_all add: page_no_def)
  obtain s' ok where s': "vmm_maps 0x7F0000001000 0x5000000 VM_W (int 0) vm_example = Some (s', ok)"
    and c: "if ok then (\<exists>M'. vm_inv {} s' M' \<and> M' \<subseteq># pmem pview_example \<and> size (pmem pview_example) \<le> size M' + 3)
        \<and> (\<forall>v. mappable v \<longrightarrow> mapping_of s' v = (if page_no 0 v = page_no 0 0x7F0000001000
              then Some (0, map_entry 0x7F0000001000 0x5000000 VM_W 0) else mapping_of vm_example v))
      else vm_inv {} s' (pmem pview_example) \<and> (\<forall>v. mappable v \<longrightarrow> mapping_of s' v = mapping_of vm_example v)
        \<and> map_refused vm_example (pmem pview_example) 0x7F0000001000 0"
    using vmm_maps_correct [OF vm_example_inv m(1), of 0 "0x5000000" VM_W] by (auto simp: PG_ADDR_MASK_def)
  show ?thesis using s' c m(2) p vm_example_mapping by (intro exI [of _ s'] exI [of _ ok]) simp
qed


text \<open>
  C12. \<^verbatim>\<open>vmm_virt_to_phys\<close> and \<^verbatim>\<open>vmm_size\<close>, which read the tables through the window of the self-reference, agree with
  the translation of the hardware on every mappable address, mapped or not, and never fault.
\<close>

theorem vmm_virt_to_phys_hardware:
  assumes "vm_inv R s M" "mappable v"
  shows "vmm_virt_to_phys v s = Some (case mmu_walk (tables s) (cr3 s) v of None \<Rightarrow> 0 | Some p \<Rightarrow> p)
    \<and> vmm_size v s = Some (case mapping_of s v of None \<Rightarrow> -1 | Some (k, _) \<Rightarrow> int k)"
  using vmm_virt_to_phys'_walk [OF assms] vmm_size'_walk [OF assms] by (simp add: vmm_virt_to_phys_def vmm_size_def)

theorem vmm_virt_to_phys_hardware_witness:
  "vmm_virt_to_phys 0x123 vm_example = Some 0x400123 \<and> vmm_size 0x123 vm_example = Some 0"
  using vmm_virt_to_phys_hardware [OF vm_example_inv vm_example_mapping(2)] vm_example_mapping(1)
  by (simp add: mmu_walk_def mapping_of_def entry_frame_def PG_ADDR_MASK_def size_mask_def)

text \<open>
  C13. Mapping a page and unmapping it again returns the frame that was mapped, and every address outside of the page is
  translated as before.
\<close>

theorem vmm_map_unmap_roundtrip:
  assumes "vm_inv R s M" "mappable va" "sz \<le> 2" "phy AND PG_ADDR_MASK = phy"
    and "vmm_maps va phy flags (int sz) s = Some (s1, True)"
  shows "\<exists>s2 M2. vmm_unmaps va (int sz) s1 = Some (s2, phy) \<and> vm_inv R s2 M2
    \<and> (\<forall>v. mappable v \<longrightarrow> mapping_of s2 v = (if page_no sz v = page_no sz va then None else mapping_of s v))"
proof -
  obtain s' where s': "vmm_maps' va phy flags (int sz) s = Some (s', True)" "s1 = commit s'"
    using assms(5) by (auto simp: vmm_maps_def)
  then obtain M' where c: "vm_inv R s' M'" "\<forall>xs. leaf_ix xs \<longrightarrow> xlate s' xs = (if take (4 - sz) xs = take (4 - sz) (indices va)
      then Some (sz, map_entry va phy flags sz) else xlate s xs)"
    using vmm_maps'_ok [OF assms(1-4), of flags] by auto
  have "xlate s1 (indices va) = Some (sz, map_entry va phy flags sz)" "vm_inv R s1 M'"
    using c leaf_ix_indices [OF assms(2)] s'(2) by simp_all
  then obtain s2 M2 where s2: "vmm_unmaps' va (int sz) s1 = Some (s2, phy)" "vm_inv R s2 M2"
    "\<forall>xs. leaf_ix xs \<longrightarrow> xlate s2 xs = (if take (4 - sz) xs = take (4 - sz) (indices va) then None else xlate s1 xs)"
    using vmm_unmaps'_ok [OF _ assms(2)] map_entry_bits(3) [OF assms(4)] by metis
  have "\<forall>xs. leaf_ix xs \<longrightarrow> xlate s2 xs = (if take (4 - sz) xs = take (4 - sz) (indices va) then None else xlate s xs)"
    using s2(3) c(2) s'(2) by simp
  then show ?thesis
    using leaves_pages [OF _ assms(2,3)] s2(1,2) by (intro exI [of _ "commit s2"] exI [of _ M2]) (simp add: vmm_unmaps_def)
qed

theorem vmm_map_unmap_roundtrip_witness:
  "\<exists>s1 s2. vmm_maps 0x1000 0x500000 VM_W (int SIZE_4K) vm_example = Some (s1, True)
    \<and> vmm_unmaps 0x1000 (int SIZE_4K) s1 = Some (s2, 0x500000) \<and> mapping_of s2 0x123 = Some (0, 0x400007)"
proof -
  have m: "mappable 0x1000" by (simp add: mappable_def canonical_def VM_USER_END_def pt_index_def)
  have sr: "self_ref vm_example" using vm_example_inv by (simp add: vm_inv_def)
  have i: "pt_index 39 0x1000 = 0" "pt_index 30 0x1000 = 0" "pt_index 21 0x1000 = 0" by (simp_all add: pt_index_def)
  have t: "tab (tables vm_example) (cr3 vm_example) [0, 0, 0] = Some 0x203000"
    by (simp add: vm_example_def present_def big_def entry_frame_def PG_PRESENT_def PG_BIG_def PG_ADDR_MASK_def)
  have "vmm_touch' 0x1000 (int 0) vm_example = Some (vm_example, True)"
    using vmm_touch'_present [OF sr m, of "0x203000"] t by (simp add: i)
  moreover have "pt_write (pml1 (addr_to_index 0x1000)) (pml1index (addr_to_index 0x1000)) e vm_example
      = Some (set_entry 0x203000 (pt_index 12 0x1000) e vm_example)" for e
    using pt_write_levels(3) [OF sr m, of "0x203000" e] t by (simp add: i)
  ultimately obtain s1 where s1: "vmm_maps 0x1000 0x500000 VM_W (int 0) vm_example = Some (s1, True)"
    by (auto simp: vmm_maps_def vmm_maps'_def)
  show ?thesis
    using s1 vmm_map_unmap_roundtrip [OF vm_example_inv m _ _ s1] vm_example_mapping
    by (auto simp: PG_ADDR_MASK_def page_no_def)
qed

text \<open>
  Changing the flags of a page: \<^verbatim>\<open>vmm_modify_flags\<close> returns 0 and changes no translation when the address is not
  mapped; otherwise it sets or clears the flags in the entry of the page, whatever the size of the page, and changes
  nothing else.
\<close>

theorem vmm_modify_flags_correct:
  assumes "vm_inv R s M" "mappable va" "flags AND (PG_PRESENT OR PG_BIG OR PG_ADDR_MASK) = 0"
  shows "\<exists>s'. vm_inv R s' M \<and> (case mapping_of s va of
      None \<Rightarrow> vmm_modify_flags va flags st s = Some (s', 0) \<and> (\<forall>v. mapping_of s' v = mapping_of s v)
    | Some (k, e) \<Rightarrow> vmm_modify_flags va flags st s = Some (s', if st then e OR flags else e AND NOT flags)
        \<and> (\<forall>v. mappable v \<longrightarrow> mapping_of s' v =
            (if page_no k v = page_no k va then Some (k, if st then e OR flags else e AND NOT flags) else mapping_of s v)))"
proof (cases "mapping_of s va")
  case None
  have "mapping_of (queue_invalidate va s) v = mapping_of s v" for v by (simp add: mapping_of_def)
  then show ?thesis
    using vmm_modify_flags'_none [OF assms(1,2) None] assms(1) None
    by (intro exI [of _ "commit (queue_invalidate va s)"]) (simp add: vmm_modify_flags_def)
next
  case (Some ke)
  obtain k e where ke: "mapping_of s va = Some (k, e)" using Some by (cases ke) simp
  then have k: "k \<le> 2" unfolding mapping_of_xlate leaf_tab [OF leaf_ix_indices [OF assms(2)]] by blast
  obtain s' where s': "vmm_modify_flags' va flags st s = Some (s', change_flags flags st e)" "vm_inv R s' M"
    and c: "\<forall>xs. leaf_ix xs \<longrightarrow> xlate s' xs = (if take (4 - k) xs = take (4 - k) (indices va)
        then Some (k, change_flags flags st e) else xlate s xs)"
    using vmm_modify_flags'_ok [OF assms(1,2) ke assms(3)] by blast
  show ?thesis
    using s' ke leaves_pages [OF c assms(2) k]
    by (intro exI [of _ "commit s'"]) (simp add: vmm_modify_flags_def change_flags_def)
qed

theorem vmm_modify_flags_correct_witness:
  "\<exists>s'. vmm_modify_flags 0x123 PG_WRITABLE False vm_example = Some (s', 0x400005) \<and> mapping_of s' 0x123 = Some (0, 0x400005)"
proof -
  have f: "PG_WRITABLE AND (PG_PRESENT OR PG_BIG OR PG_ADDR_MASK) = 0"
    by (simp add: PG_WRITABLE_def PG_PRESENT_def PG_BIG_def PG_ADDR_MASK_def)
  show ?thesis
    using vmm_modify_flags_correct [OF vm_example_inv vm_example_mapping(2) f, of False] vm_example_mapping
    by (auto simp: PG_WRITABLE_def)
qed



end
