(* ===== verification/Range.thy ===== *)
theory Range
  imports VmmOps
begin

text \<open>
  Ranges of virtual memory backed by frames, \<^verbatim>\<open>kernel/mm/range.c\<close>, and the checks of user pointers,
  \<^verbatim>\<open>kernel/mm/validate.c\<close>.  \<open>None\<close> is a panic, a failed assertion or a fault.
\<close>

section \<open>Operations\<close>

definition vm_allocs :: "nat \<Rightarrow> vm \<Rightarrow> (vm \<times> u64) option" where
  "vm_allocs sz s = map_option (\<lambda>(pm, a). (s\<lparr>vm_pmm := pm\<rparr>, a)) (pmm_allocs sz (vm_pmm s))"

text \<open>A release with a size other than the three known ones accesses memory outside of the stacks of the frame allocator.\<close>

definition vm_frees :: "int \<Rightarrow> u64 \<Rightarrow> vm \<Rightarrow> vm option" where
  "vm_frees sz a s =
     (if 0 \<le> sz \<and> sz < int SIZE_COUNT then map_option (\<lambda>pm. s\<lparr>vm_pmm := pm\<rparr>) (pmm_frees (nat sz) a (vm_pmm s)) else None)"

partial_function (option) range_free_loop :: "u64 \<Rightarrow> u64 \<Rightarrow> vm \<Rightarrow> vm option" where
  "range_free_loop a addr_end s =
     (if a < addr_end then do {
        sz \<leftarrow> vmm_size a s;
        if sz = -1 then None
        else do {
          (s, phyAddr) \<leftarrow> vmm_unmaps a sz s;
          if sz = int SIZE_1G then do {
            s \<leftarrow> vm_frees (int SIZE_1G) phyAddr s;
            range_free_loop (a + FRAME_SIZE_1G) addr_end s}
          else if sz = int SIZE_2M then do {
            s \<leftarrow> vm_frees (int SIZE_2M) phyAddr s;
            range_free_loop (a + FRAME_SIZE_2M) addr_end s}
          else do {
            s \<leftarrow> vm_frees (int SIZE_4K) phyAddr s;
            range_free_loop (a + FRAME_SIZE) addr_end s}}}
      else Some s)"

definition range_free :: "u64 \<Rightarrow> u64 \<Rightarrow> vm \<Rightarrow> vm option" where
  "range_free a len s = (if len mod FRAME_SIZE = 0 then range_free_loop a (a + len) s else None)"

text \<open>
  The attempt with a large frame.  When the mapping fails the code calls \<^verbatim>\<open>pmm_frees(frame, size)\<close>, with the
  arguments in the wrong order.
\<close>

definition try_large :: "nat \<Rightarrow> u64 \<Rightarrow> u64 \<Rightarrow> vm \<Rightarrow> (vm \<times> bool) option" where
  "try_large sz a flags s = do {
     (s, frame) \<leftarrow> vm_allocs sz s;
     if frame \<noteq> 0 then do {
       (s, ok) \<leftarrow> vmm_maps a frame flags (int sz) s;
       if ok then Some (s, True)
       else map_option (\<lambda>s. (s, False)) (vm_frees (sint (ucast frame :: u32)) (of_nat sz) s)}
     else Some (s, False)}"

partial_function (option) range_alloc_loop :: "u64 \<Rightarrow> u64 \<Rightarrow> u64 \<Rightarrow> u64 \<Rightarrow> u64 \<Rightarrow> vm \<Rightarrow> (vm \<times> bool) option" where
  "range_alloc_loop addr_start len flags a addr_end s =
     (if a < addr_end then do {
        let remaining = addr_end - a;
        (s, ok) \<leftarrow> (if enable1gPages (vm_pmm s) \<and> a mod FRAME_SIZE_1G = 0 \<and> remaining \<ge> FRAME_SIZE_1G
          then try_large SIZE_1G a flags s else Some (s, False));
        if ok then range_alloc_loop addr_start len flags (a + FRAME_SIZE_1G) addr_end s
        else do {
          (s, ok) \<leftarrow> (if enable2mPages (vm_pmm s) \<and> a mod FRAME_SIZE_2M = 0 \<and> remaining \<ge> FRAME_SIZE_2M
            then try_large SIZE_2M a flags s else Some (s, False));
          if ok then range_alloc_loop addr_start len flags (a + FRAME_SIZE_2M) addr_end s
          else do {
            (s, frame) \<leftarrow> vm_allocs SIZE_4K s;
            if frame = 0 then map_option (\<lambda>s. (s, False)) (range_free addr_start len s)
            else do {
              (s, ok) \<leftarrow> vmm_map a frame flags s;
              if \<not> ok then do {
                s \<leftarrow> vm_frees (int SIZE_4K) frame s;
                map_option (\<lambda>s. (s, False)) (range_free addr_start len s)}
              else range_alloc_loop addr_start len flags (a + FRAME_SIZE) addr_end s}}}}
      else Some (s, True))"

definition range_alloc :: "u64 \<Rightarrow> u64 \<Rightarrow> u64 \<Rightarrow> vm \<Rightarrow> (vm \<times> bool) option" where
  "range_alloc addr_start len flags s =
     (if len mod FRAME_SIZE = 0 then range_alloc_loop addr_start len flags addr_start (addr_start + len) s else None)"

section \<open>Pointers of user programs\<close>

definition valid_buffer :: "u64 \<Rightarrow> u64 \<Rightarrow> bool" where
  "valid_buffer ptr len =
     (let addr_start = ptr; addr_end = addr_start + len
      in addr_start \<le> VM_USER_END \<and> addr_end \<le> VM_USER_END \<and> addr_start \<le> addr_end)"

text \<open>The scan for the terminator; memory is read byte by byte.\<close>

partial_function (option) valid_string :: "(u64 \<Rightarrow> u8) \<Rightarrow> u64 \<Rightarrow> bool option" where
  "valid_string m str =
     (if str > VM_USER_END then Some False
      else if m str = 0 then Some True
      else valid_string m (str + 1))"

section \<open>Pages and tilings\<close>

abbreviation bytes_of :: "nat \<Rightarrow> nat" where
  "bytes_of sz \<equiv> 4096 * 512 ^ sz"

lemma page_no_bytes: "page_no sz v = unat v div bytes_of sz"
proof -
  have "(2 :: nat) ^ (12 + 9 * sz) = bytes_of sz" by (simp add: power_add power_mult)
  then show ?thesis by (simp add: page_no_def)
qed

lemma page_no_eq:
  assumes "unat a mod bytes_of sz = 0"
  shows "page_no sz v = page_no sz a \<longleftrightarrow> unat a \<le> unat v \<and> unat v < unat a + bytes_of sz"
proof -
  obtain k where k: "unat a = bytes_of sz * k" using assms by (auto simp: dvd_def mod_eq_0_iff_dvd)
  have "unat v div bytes_of sz = k \<longleftrightarrow> bytes_of sz * k \<le> unat v \<and> unat v < bytes_of sz * k + bytes_of sz"
    using div_nat_eqI [of "bytes_of sz" k "unat v"] dividend_less_times_div [of "bytes_of sz" "unat v"] times_div_less_eq_dividend [of "bytes_of sz" "unat v"]
    by (auto simp: algebra_simps)
  then show ?thesis by (simp add: page_no_bytes k)
qed

text \<open>The addresses from \<open>a\<close> on are mapped by consecutive pages to the given blocks.\<close>

fun tiled :: "vm \<Rightarrow> u64 \<Rightarrow> (nat \<times> u64) list \<Rightarrow> bool" where
  "tiled s a [] \<longleftrightarrow> True"
| "tiled s a ((sz, f) # ps) \<longleftrightarrow> mappable a \<and> unat a mod bytes_of sz = 0 \<and> block_ok sz f
     \<and> (\<exists>e. mapping_of s a = Some (sz, e) \<and> entry_frame e = f) \<and> tiled s (a + of_nat (bytes_of sz)) ps"

definition tile_bytes :: "(nat \<times> u64) list \<Rightarrow> nat" where
  "tile_bytes ps = (\<Sum>p\<leftarrow>ps. bytes_of (fst p))"

definition tile_frames :: "(nat \<times> u64) list \<Rightarrow> nat multiset" where
  "tile_frames ps = (\<Sum>p\<leftarrow>ps. fr (fst p) (snd p))"

lemma tile_simps [simp]: "tile_bytes [] = 0" "tile_frames [] = {#}"
  "tile_bytes (p # ps) = bytes_of (fst p) + tile_bytes ps" "tile_frames (p # ps) = fr (fst p) (snd p) + tile_frames ps"
  "tile_bytes (ps @ qs) = tile_bytes ps + tile_bytes qs" "tile_frames (ps @ qs) = tile_frames ps + tile_frames qs"
  by (simp_all add: tile_bytes_def tile_frames_def)

lemma unat_step:
  assumes "unat (a :: u64) + n < 2 ^ 64"
  shows "unat (a + of_nat n) = unat a + n"
  using assms by (simp add: unat_word_ariths unat_of_nat)

lemma mapping_size: "mappable a \<Longrightarrow> mapping_of s a = Some (sz, e) \<Longrightarrow> sz \<le> 2"
  using leaf_tab [OF leaf_ix_indices, of a "tables s" "cr3 s" sz e] by (simp add: mapping_of_xlate)

lemma tiled_cong:
  assumes "tiled s a ps" "unat a + tile_bytes ps < 2 ^ 64"
    and "\<And>v. mappable v \<Longrightarrow> unat a \<le> unat v \<Longrightarrow> unat v < unat a + tile_bytes ps \<Longrightarrow> mapping_of s' v = mapping_of s v"
  shows "tiled s' a ps"
  using assms
proof (induction ps arbitrary: a)
  case (Cons p ps)
  obtain sz f where p: "p = (sz, f)" by (cases p)
  have u: "unat (a + of_nat (bytes_of sz)) = unat a + bytes_of sz" using Cons.prems(2) by (intro unat_step) (simp add: p)
  have "tiled s' (a + of_nat (bytes_of sz)) ps"
    using Cons.prems by (intro Cons.IH) (auto simp: p u simp del: of_nat_mult of_nat_power)
  then show ?case using Cons.prems by (auto simp: p)
qed simp

lemma tiled_append:
  "tiled s a (ps @ qs) \<longleftrightarrow> tiled s a ps \<and> tiled s (a + of_nat (tile_bytes ps)) qs"
proof (induction ps arbitrary: a)
  case (Cons p ps)
  then show ?case by (cases p) (simp add: add.assoc)
qed simp

section \<open>Memory that changes hands\<close>

lemma vm_inv_release:
  assumes "vm_inv R s M" "pmm_ok pm (M + F)" "set_mset F \<subseteq> R"
  shows "vm_inv (R - set_mset F) (s\<lparr>vm_pmm := pm\<rparr>) (M + F)"
  using assms by (auto simp: vm_inv_def self_ref_def)

lemma vm_inv_acquire:
  assumes "vm_inv R s (M + F)" "pmm_ok pm M" "nodup (M + F)"
  shows "vm_inv (R \<union> set_mset F) (s\<lparr>vm_pmm := pm\<rparr>) M"
proof -
  have "x \<notin># F" if "x \<in># M" for x
    using assms(3) that unfolding nodup_def by (auto simp: not_in_iff dest!: spec [of _ x] simp flip: count_greater_zero_iff)
  then show ?thesis using assms(1,2) by (auto simp: vm_inv_def self_ref_def)
qed

lemma nodup_disjoint: "nodup X \<Longrightarrow> nodup Y \<Longrightarrow> set_mset X \<inter> set_mset Y = {} \<Longrightarrow> nodup (X + Y)"
  unfolding nodup_def by (metis add.right_neutral add_0 count_inI count_union disjoint_iff)

lemma nodup_plus: "nodup (X + Y) \<Longrightarrow> set_mset X \<inter> set_mset Y = {}"
proof (rule ccontr)
  assume n: "nodup (X + Y)" and "set_mset X \<inter> set_mset Y \<noteq> {}"
  then obtain x where "0 < count X x" "0 < count Y x" by auto
  moreover have "count X x + count Y x \<le> 1" using n by (simp add: nodup_def)
  ultimately show False by linarith
qed

lemma nodup_fr: "nodup (fr sz a)"
  unfolding fr_def by (rule nodup_mset) simp

section \<open>Releasing a range\<close>

lemma vm_frees_ok:
  assumes "vm_inv R s M" "sz \<le> 2" "block_ok sz f" "set_mset (fr sz f) \<subseteq> R"
  shows "\<exists>pm. vm_frees (int sz) f s = Some (s\<lparr>vm_pmm := pm\<rparr>) \<and> vm_inv (R - set_mset (fr sz f)) (s\<lparr>vm_pmm := pm\<rparr>) (M + fr sz f)"
proof -
  have ok: "pmm_ok (vm_pmm s) M" and d: "\<forall>x. x \<in># M \<longrightarrow> x \<notin> R" using assms(1) by (auto simp: vm_inv_def)
  have "set_mset M \<inter> set_mset (fr sz f) = {}" using d assms(4) by auto
  then have "nodup (M + fr sz f)" by (intro nodup_disjoint pmm_alloc.ok_nodup [OF ok] nodup_fr)
  then obtain pm where "pmm_frees sz f (vm_pmm s) = Some pm" "pmm_ok pm (M + fr sz f)"
    using pmm_alloc.free_law [OF ok _ assms(3)] assms(2) by auto
  then show ?thesis using vm_inv_release [OF assms(1) _ assms(4)] assms(2) by (auto simp: vm_frees_def)
qed

lemma range_free_tiles:
  assumes "vm_inv R s M" "tiled s a ps" "unat a + tile_bytes ps \<le> unat e" "set_mset (tile_frames ps) \<subseteq> R" "nodup (tile_frames ps)"
  shows "\<exists>s' M'. range_free_loop a e s = range_free_loop (a + of_nat (tile_bytes ps)) e s'
    \<and> vm_inv (R - set_mset (tile_frames ps)) s' M' \<and> M + tile_frames ps \<subseteq># M'
    \<and> (\<forall>v. mappable v \<longrightarrow> mapping_of s' v =
        (if unat a \<le> unat v \<and> unat v < unat a + tile_bytes ps then None else mapping_of s v))"
  using assms
proof (induction ps arbitrary: R s M a)
  case Nil
  then show ?case by (intro exI [of _ s] exI [of _ M]) auto
next
  case (Cons p ps)
  obtain sz f where p: "p = (sz, f)" by (cases p)
  obtain m where m: "mapping_of s a = Some (sz, m)" "entry_frame m = f" and a: "mappable a" "unat a mod bytes_of sz = 0" "block_ok sz f"
    and rest: "tiled s (a + of_nat (bytes_of sz)) ps" using Cons.prems(2) by (auto simp: p)
  have sz: "sz \<le> 2" by (rule mapping_size [OF a(1) m(1)])
  have lt: "unat e < 2 ^ 64" using unsigned_less [of e, where 'a = nat] by simp
  let ?b = "a + of_nat (bytes_of sz)"
  have u: "unat ?b = unat a + bytes_of sz" using Cons.prems(3) lt by (intro unat_step) (simp add: p)
  have "0 < bytes_of sz" by simp
  then have ae: "a < e" using Cons.prems(3) unfolding p word_less_nat_alt tile_simps fst_conv by linarith
  obtain s1 M1 where s1: "vmm_unmaps a (int sz) s = Some (s1, f)" "vm_inv R s1 M1" "M \<subseteq># M1"
    and m1: "\<forall>v. mappable v \<longrightarrow> mapping_of s1 v = (if page_no sz v = page_no sz a then None else mapping_of s v)"
    using vmm_unmaps_ok [OF Cons.prems(1) a(1) m(1)] m(2) by blast
  have fR: "set_mset (fr sz f) \<subseteq> R" using Cons.prems(4) by (simp add: p)
  obtain pm where pm: "vm_frees (int sz) f s1 = Some (s1\<lparr>vm_pmm := pm\<rparr>)"
      "vm_inv (R - set_mset (fr sz f)) (s1\<lparr>vm_pmm := pm\<rparr>) (M1 + fr sz f)"
    using vm_frees_ok [OF s1(2) sz a(3) fR] by blast
  let ?s2 = "s1\<lparr>vm_pmm := pm\<rparr>"
  have m2: "mapping_of ?s2 v = (if unat a \<le> unat v \<and> unat v < unat a + bytes_of sz then None else mapping_of s v)" if "mappable v" for v
    using m1 that page_no_eq [OF a(2)] by (simp add: mapping_of_def)
  have step: "range_free_loop a e s = range_free_loop ?b e ?s2"
  proof -
    have sz': "vmm_size a s = Some (int sz)" using vmm_size'_walk [OF Cons.prems(1) a(1)] m(1) by (simp add: vmm_size_def)
    consider "sz = 0" | "sz = 1" | "sz = 2" using sz by linarith
    then show ?thesis
    proof cases
      case 1
      show ?thesis using sz' s1(1) pm(1) ae unfolding 1 by (subst range_free_loop.simps) simp
    next
      case 2
      show ?thesis using sz' s1(1) pm(1) ae unfolding 2 by (subst range_free_loop.simps) simp
    next
      case 3
      show ?thesis using sz' s1(1) pm(1) ae unfolding 3 by (subst range_free_loop.simps) simp
    qed
  qed
  have t2: "tiled ?s2 ?b ps"
    by (rule tiled_cong [OF rest]) (use Cons.prems(3) lt m2 in \<open>auto simp: u p simp del: of_nat_mult of_nat_power\<close>)
  have nd: "nodup (tile_frames ps)" "set_mset (tile_frames ps) \<subseteq> R - set_mset (fr sz f)"
    using Cons.prems(4,5) nodup_plus [of "fr sz f" "tile_frames ps"] by (auto simp: p intro: nodup_right)
  have le: "unat ?b + tile_bytes ps \<le> unat e" using Cons.prems(3) unfolding u by (simp add: p)
  from Cons.IH [OF pm(2) t2 le nd(2,1)] obtain s' M' where
    s': "range_free_loop ?b e ?s2 = range_free_loop (?b + of_nat (tile_bytes ps)) e s'"
      "vm_inv (R - set_mset (fr sz f) - set_mset (tile_frames ps)) s' M'" "M1 + fr sz f + tile_frames ps \<subseteq># M'"
    and m': "\<forall>v. mappable v \<longrightarrow> mapping_of s' v =
        (if unat ?b \<le> unat v \<and> unat v < unat ?b + tile_bytes ps then None else mapping_of ?s2 v)" by blast
  have "M + (fr sz f + tile_frames ps) \<subseteq># M1 + fr sz f + tile_frames ps"
    using s1(3) by (simp add: subset_mset.add_mono add.assoc)
  then have "M + (fr sz f + tile_frames ps) \<subseteq># M'" using s'(3) by (rule subset_mset.trans)
  moreover have "R - set_mset (fr sz f) - set_mset (tile_frames ps) = R - set_mset (tile_frames (p # ps))" by (auto simp: p)
  moreover have "mapping_of s' v = (if unat a \<le> unat v \<and> unat v < unat a + tile_bytes (p # ps) then None else mapping_of s v)"
    if "mappable v" for v
    using m' m2 [OF that] that unfolding u by (auto simp: p)
  ultimately show ?case using s'(1,2) step
    by (intro exI [of _ s'] exI [of _ M']) (simp add: p add.assoc)
qed

text \<open>Releasing a range that is not mapped to its end stops the kernel.\<close>

lemma range_free_gap:
  assumes "vm_inv R s M" "tiled s a ps" "unat a + tile_bytes ps < unat e" "set_mset (tile_frames ps) \<subseteq> R" "nodup (tile_frames ps)"
    and "mappable (a + of_nat (tile_bytes ps))" "mapping_of s (a + of_nat (tile_bytes ps)) = None"
  shows "range_free_loop a e s = None"
proof -
  let ?b = "a + of_nat (tile_bytes ps)"
  have le: "unat a + tile_bytes ps \<le> unat e" using assms(3) by simp
  obtain s' M' where s': "range_free_loop a e s = range_free_loop ?b e s'" "vm_inv (R - set_mset (tile_frames ps)) s' M'"
    and m: "\<forall>v. mappable v \<longrightarrow> mapping_of s' v = (if unat a \<le> unat v \<and> unat v < unat a + tile_bytes ps then None else mapping_of s v)"
    using range_free_tiles [OF assms(1,2) le assms(4,5)] by blast
  have "unat e < 2 ^ 64" using unsigned_less [of e, where 'a = nat] by simp
  then have u: "unat ?b = unat a + tile_bytes ps" using assms(3) by (intro unat_step) simp
  then have "?b < e" using assms(3) by (simp add: word_less_nat_alt)
  moreover have "mapping_of s' ?b = None" using m assms(6,7) by auto
  then have "vmm_size ?b s' = Some (-1)" using vmm_size'_walk [OF s'(2) assms(6)] by (simp add: vmm_size_def)
  ultimately show ?thesis unfolding s'(1) by (subst range_free_loop.simps) simp
qed

section \<open>Allocating a range\<close>

lemma mapping_of_pmm [simp]: "mapping_of (s\<lparr>vm_pmm := pm\<rparr>) v = mapping_of s v"
  by (simp add: mapping_of_def)

lemma vm_inv_pmm: "vm_inv R s M \<Longrightarrow> pmm_ok pm M \<Longrightarrow> vm_inv R (s\<lparr>vm_pmm := pm\<rparr>) M"
  by (simp add: vm_inv_def self_ref_def)

lemma vm_allocs_ok:
  assumes "vm_inv R s M" "sz \<le> 2"
  obtains pm where "vm_allocs sz s = Some (s\<lparr>vm_pmm := pm\<rparr>, 0)" "vm_inv R (s\<lparr>vm_pmm := pm\<rparr>) M" "sz = 0 \<Longrightarrow> size M \<le> 520"
  | pm f M' where "vm_allocs sz s = Some (s\<lparr>vm_pmm := pm\<rparr>, f)" "f \<noteq> 0" "block_ok sz f" "M = M' + fr sz f"
      "vm_inv (R \<union> set_mset (fr sz f)) (s\<lparr>vm_pmm := pm\<rparr>) M'"
proof -
  have ok: "pmm_ok (vm_pmm s) M" using assms(1) by (simp add: vm_inv_def)
  obtain pm f M' where a: "pmm_allocsz sz 2 (vm_pmm s) = Some (pm, f)" "pmm_ok pm M'"
    "if f = 0 then M' = M else M = M' + fr sz f \<and> block_ok sz f"
    using pmm_alloc.alloc_law [OF ok, of sz 2] assms(2) by auto
  have e: "vm_allocs sz s = Some (s\<lparr>vm_pmm := pm\<rparr>, f)" using a(1) by (simp add: vm_allocs_def pmm_allocs_def)
  show thesis
  proof (cases "f = 0")
    case True
    have "sz = 0 \<Longrightarrow> size M \<le> 520" using pmm_alloc_exhausted [OF ok] a(1) True by auto
    then show thesis using that(1) [of pm] e a vm_inv_pmm [OF assms(1)] True by simp
  next
    case False
    then have M: "M = M' + fr sz f" and b: "block_ok sz f" using a(3) by auto
    show thesis
      using that(2) [OF e False b M] vm_inv_acquire [OF assms(1) [unfolded M] a(2)] pmm_alloc.ok_nodup [OF ok] by (simp add: M)
  qed
qed

text \<open>The bits of the entries of an allocated range.\<close>

definition access_bits :: "u64 \<Rightarrow> u64 \<Rightarrow> bool" where
  "access_bits flags e \<longleftrightarrow> present e \<and> (e AND PG_WRITABLE \<noteq> 0) = (flags AND VM_W \<noteq> 0) \<and> (e AND PG_NO_EXEC \<noteq> 0) = (flags AND VM_X = 0)"

text \<open>What holds when the loop has reached address \<open>a\<close>: the blocks \<open>ps\<close> are mapped, the rest of the range is not.\<close>

definition alloc_inv :: "nat set \<Rightarrow> u64 \<Rightarrow> u64 \<Rightarrow> (nat \<times> u64) list \<Rightarrow> vm \<Rightarrow> nat multiset \<Rightarrow> bool" where
  "alloc_inv R a0 e ps s M \<longleftrightarrow> vm_inv (R \<union> set_mset (tile_frames ps)) s M \<and> tiled s a0 ps \<and> nodup (tile_frames ps)
     \<and> unat a0 mod 4096 = 0 \<and> tile_bytes ps mod 4096 = 0 \<and> unat a0 + tile_bytes ps \<le> unat e
     \<and> (\<forall>v. unat a0 + tile_bytes ps \<le> unat v \<and> unat v < unat e \<longrightarrow> mappable v \<and> mapping_of s v = None)"

lemma alloc_inv_gap:
  assumes "alloc_inv R a0 e ps s M" "unat a0 + tile_bytes ps < unat e"
    "vm_inv R' s' M'" "set_mset (tile_frames ps) \<subseteq> R'" "\<And>v. mappable v \<Longrightarrow> mapping_of s' v = mapping_of s v"
  shows "range_free_loop a0 e s' = None"
proof -
  let ?b = "a0 + of_nat (tile_bytes ps)"
  have e64: "unat e < 2 ^ 64" using unsigned_less [of e, where 'a = nat] by simp
  have u: "unat ?b = unat a0 + tile_bytes ps" using assms(2) e64 by (intro unat_step) simp
  have ai: "tiled s a0 ps" "nodup (tile_frames ps)"
    and fb: "\<forall>v. unat a0 + tile_bytes ps \<le> unat v \<and> unat v < unat e \<longrightarrow> mappable v \<and> mapping_of s v = None"
    using assms(1) unfolding alloc_inv_def by blast+
  have b: "mappable ?b" "mapping_of s ?b = None" using spec [OF fb, of ?b] assms(2) unfolding u by simp_all
  have t: "tiled s' a0 ps" by (rule tiled_cong [OF ai(1)]) (use assms(2,5) e64 in simp_all)
  show ?thesis
    using range_free_gap [OF assms(3) t assms(2,4) ai(2) b(1)] assms(5) [OF b(1)] b(2) by simp
qed

lemma page_step: "x mod 4096 = 0 \<Longrightarrow> y mod 4096 = 0 \<Longrightarrow> x < y \<Longrightarrow> x + 4096 \<le> y" for x y :: nat
proof -
  assume a: "x mod 4096 = 0" "y mod 4096 = 0" "x < y"
  then obtain k l where kl: "x = 4096 * k" "y = 4096 * l" by (auto elim!: dvdE)
  then have "Suc k \<le> l" using a(3) by simp
  then show "x + 4096 \<le> y" using kl by simp
qed

lemma alloc_step:
  assumes inv: "alloc_inv R a0 e ps s M" and lt: "unat a0 + tile_bytes ps < unat e" and e: "unat e mod 4096 = 0"
    and small: "unat e - unat a0 < 0x200000" and a: "a = a0 + of_nat (tile_bytes ps)" and len: "len mod FRAME_SIZE = 0" "a0 + len = e"
  shows "range_alloc_loop a0 len flags a e s = None \<and> size M \<le> 523
    \<or> (\<exists>s' M' f. range_alloc_loop a0 len flags a e s = range_alloc_loop a0 len flags (a + FRAME_SIZE) e s'
        \<and> alloc_inv R a0 e (ps @ [(0, f)]) s' M' \<and> M' + fr 0 f \<subseteq># M \<and> size M \<le> size M' + 4
        \<and> (\<forall>v. mappable v \<longrightarrow> mapping_of s' v =
            (if unat a \<le> unat v \<and> unat v < unat a + 4096 then Some (0, map_entry a f flags 0) else mapping_of s v)))"
proof -
  have e64: "unat e < 2 ^ 64" using unsigned_less [of e, where 'a = nat] by simp
  have u: "unat a = unat a0 + tile_bytes ps" unfolding a using lt e64 by (intro unat_step) simp
  have ai: "vm_inv (R \<union> set_mset (tile_frames ps)) s M" "tiled s a0 ps" "nodup (tile_frames ps)" "unat a0 mod 4096 = 0" "tile_bytes ps mod 4096 = 0"
    and fb: "\<forall>v. unat a0 + tile_bytes ps \<le> unat v \<and> unat v < unat e \<longrightarrow> mappable v \<and> mapping_of s v = None"
    using inv unfolding alloc_inv_def by blast+
  have ma: "mappable a" using spec [OF fb, of a] lt u by simp
  have am: "unat a mod 4096 = 0" unfolding u using ai(4,5) by (auto simp: mod_eq_0_iff_dvd intro: dvd_add)
  have ae: "a < e" "e - a < FRAME_SIZE_2M" "e - a < FRAME_SIZE_1G"
  proof -
    show l: "a < e" using lt by (simp add: word_less_nat_alt u)
    have "unat (e - a) = unat e - unat a" using l by (intro unat_sub) simp
    then have "unat (e - a) < 0x200000" using small u by linarith
    then show "e - a < FRAME_SIZE_2M" "e - a < FRAME_SIZE_1G" by (simp_all add: word_less_nat_alt)
  qed
  have unfold: "range_alloc_loop a0 len flags a e s = do {
      (s, frame) \<leftarrow> vm_allocs SIZE_4K s;
      if frame = 0 then map_option (\<lambda>s. (s, False)) (range_free a0 len s)
      else do {
        (s, ok) \<leftarrow> vmm_map a frame flags s;
        if \<not> ok then do {
          s \<leftarrow> vm_frees (int SIZE_4K) frame s;
          map_option (\<lambda>s. (s, False)) (range_free a0 len s)}
        else range_alloc_loop a0 len flags (a + FRAME_SIZE) e s}}"
  proof -
    have "\<not> 0x200000 \<le> e - a" "\<not> 0x40000000 \<le> e - a" using ae(2,3) by (simp_all add: not_le)
    then show ?thesis using ae(1) by (subst range_alloc_loop.simps) (simp add: Let_def)
  qed
  have rf: "range_free a0 len s = range_free_loop a0 e s" for s using len by (simp add: range_free_def)
  show ?thesis
  proof (cases rule: vm_allocs_ok [OF ai(1), of 0, consumes 0, case_names le none some])
    case (none pm)
    have "range_free_loop a0 e (s\<lparr>vm_pmm := pm\<rparr>) = None" by (rule alloc_inv_gap [OF inv lt none(2)]) simp_all
    then show ?thesis using none(1,3) unfolding unfold by (simp add: rf)
  next
    case (some pm f M')
    let ?R = "R \<union> set_mset (tile_frames ps) \<union> set_mset (fr 0 f)"
    have phy: "f AND PG_ADDR_MASK = f" by (rule block_page_addr [OF some(3)])
    obtain s2 ok where s2: "vmm_maps a f flags (int 0) (s\<lparr>vm_pmm := pm\<rparr>) = Some (s2, ok)"
      and c: "if ok then (\<exists>M2. vm_inv ?R s2 M2 \<and> M2 \<subseteq># M' \<and> size M' \<le> size M2 + 3)
          \<and> (\<forall>v. mappable v \<longrightarrow> mapping_of s2 v =
              (if page_no 0 v = page_no 0 a then Some (0, map_entry a f flags 0) else mapping_of (s\<lparr>vm_pmm := pm\<rparr>) v))
       else vm_inv ?R s2 M' \<and> (\<forall>v. mappable v \<longrightarrow> mapping_of s2 v = mapping_of (s\<lparr>vm_pmm := pm\<rparr>) v)
          \<and> map_refused (s\<lparr>vm_pmm := pm\<rparr>) M' a 0"
      using vmm_maps_ok [OF some(5) ma _ phy, of 0 flags] by blast
    have vm: "vmm_map a f flags (s\<lparr>vm_pmm := pm\<rparr>) = Some (s2, ok)" using s2 by (simp add: vmm_map_def vmm_map'_def vmm_maps_def)
    have disj: "set_mset (tile_frames ps) \<inter> set_mset (fr 0 f) = {}"
      using ai(1) some(4) by (auto simp: vm_inv_def)
    show ?thesis
    proof (cases ok)
      case False
      obtain pm2 where pm2: "vm_frees (int 0) f s2 = Some (s2\<lparr>vm_pmm := pm2\<rparr>)"
          "vm_inv (?R - set_mset (fr 0 f)) (s2\<lparr>vm_pmm := pm2\<rparr>) (M' + fr 0 f)"
        using vm_frees_ok [of ?R s2 M' 0 f] c False some(3) by auto
      have "range_free_loop a0 e (s2\<lparr>vm_pmm := pm2\<rparr>) = None"
        by (rule alloc_inv_gap [OF inv lt pm2(2)]) (use disj c False in auto)
      moreover have "size M' \<le> 522" using c False spec [OF fb, of a] lt u by (simp add: map_refused_def)
      then have "size M \<le> 523" by (simp add: some(4) fr_4K)
      ultimately show ?thesis using some(1,2) vm pm2(1) False unfolding unfold by (simp add: rf)
    next
      case True
      then obtain M2 where M2: "vm_inv ?R s2 M2" "M2 \<subseteq># M'" "size M' \<le> size M2 + 3"
        and m2: "\<And>v. mappable v \<Longrightarrow> mapping_of s2 v =
            (if unat a \<le> unat v \<and> unat v < unat a + 4096 then Some (0, map_entry a f flags 0) else mapping_of s v)"
        using c page_no_eq [of a 0] am by auto
      have "range_alloc_loop a0 len flags a e s = range_alloc_loop a0 len flags (a + FRAME_SIZE) e s2"
        using some(1,2) vm True unfolding unfold by simp
      moreover have "alloc_inv R a0 e (ps @ [(0, f)]) s2 M2"
      proof -
        have "tiled s2 a0 ps" by (rule tiled_cong [OF ai(2)]) (use lt e64 m2 u in auto)
        moreover have "mapping_of s2 a = Some (0, map_entry a f flags 0)" using m2 [OF ma] by simp
        ultimately have t: "tiled s2 a0 (ps @ [(0, f)])"
          using ma am some(3) map_entry_bits(3) [OF phy] by (simp add: tiled_append flip: a)
        have "nodup (tile_frames ps + fr 0 f)" by (rule nodup_disjoint [OF ai(3) nodup_fr disj])
        moreover have "unat a + 4096 \<le> unat e" using page_step [OF am e] lt u by simp
        moreover have "(tile_bytes ps + 4096) mod 4096 = 0" using ai(5) by simp
        moreover have "mappable v \<and> mapping_of s2 v = None" if "unat a + 4096 \<le> unat v" "unat v < unat e" for v
          using spec [OF fb, of v] that m2 [of v] unfolding u by simp
        ultimately show ?thesis
          using M2(1) t ai(4,5) unfolding alloc_inv_def u by (simp add: Un_assoc add.assoc)
      qed
      moreover have "M2 + fr 0 f \<subseteq># M" "size M \<le> size M2 + 4" using M2(2,3) by (simp_all add: some(4) fr_4K)
      ultimately show ?thesis using m2 by blast
    qed
  qed simp
qed

lemma range_alloc_pages:
  assumes "alloc_inv R a0 e ps s M" "unat a0 + tile_bytes ps + 4096 * n = unat e"
    "unat e - unat a0 < 0x200000" "len mod FRAME_SIZE = 0" "a0 + len = e"
  shows "range_alloc_loop a0 len flags (a0 + of_nat (tile_bytes ps)) e s = None \<and> size M < 524 + 4 * n
    \<or> (\<exists>s' M' qs. range_alloc_loop a0 len flags (a0 + of_nat (tile_bytes ps)) e s = Some (s', True)
        \<and> alloc_inv R a0 e (ps @ qs) s' M' \<and> tile_bytes qs = 4096 * n \<and> M' + tile_frames qs \<subseteq># M
        \<and> (\<forall>v. mappable v \<longrightarrow> (if unat a0 + tile_bytes ps \<le> unat v \<and> unat v < unat e
              then \<exists>m. mapping_of s' v = Some (0, m) \<and> access_bits flags m else mapping_of s' v = mapping_of s v)))"
  using assms(1,2)
proof (induction n arbitrary: ps s M)
  case 0
  have "unat (a0 + of_nat (tile_bytes ps)) = unat e"
    using 0(2) unsigned_less [of e, where 'a = nat] by (subst unat_step) simp_all
  then have "range_alloc_loop a0 len flags (a0 + of_nat (tile_bytes ps)) e s = Some (s, True)"
    by (subst range_alloc_loop.simps) (simp add: word_less_nat_alt)
  then show ?case using 0 by (intro disjI2 exI [of _ s] exI [of _ M] exI [of _ "[]"]) auto
next
  case (Suc n)
  let ?a = "a0 + of_nat (tile_bytes ps)"
  have lt: "unat a0 + tile_bytes ps < unat e" using Suc.prems(2) by simp
  have u: "unat ?a = unat a0 + tile_bytes ps"
    using lt unsigned_less [of e, where 'a = nat] by (intro unat_step) simp
  have "unat a0 mod 4096 = 0" "tile_bytes ps mod 4096 = 0" using Suc.prems(1) by (auto simp: alloc_inv_def)
  then have e: "unat e mod 4096 = 0" unfolding Suc.prems(2) [symmetric] by (auto simp: mod_eq_0_iff_dvd intro: dvd_add)
  from alloc_step [OF Suc.prems(1) lt e assms(3) refl assms(4,5), of flags] show ?case
  proof (elim disjE exE conjE, goal_cases)
    case 1
    then show ?thesis by simp
  next
    case (2 s1 M1 f)
    let ?ps = "ps @ [(0, f)]"
    have b: "?a + FRAME_SIZE = a0 + of_nat (tile_bytes ?ps)" "unat a0 + tile_bytes ?ps + 4096 * n = unat e"
      using Suc.prems(2) by (simp_all add: add.assoc)
    have loop: "range_alloc_loop a0 len flags ?a e s = range_alloc_loop a0 len flags (a0 + of_nat (tile_bytes ?ps)) e s1"
      using 2(1) by (simp only: b(1))
    have phy: "f AND PG_ADDR_MASK = f" using 2(2) by (intro block_page_addr) (auto simp: alloc_inv_def tiled_append)
    from Suc.IH [OF 2(2) b(2)] show ?thesis
    proof (elim disjE exE conjE, goal_cases)
      case 1
      then show ?thesis using loop 2(4) by simp
    next
      case IH: (2 s2 M2 qs)
      have "M2 + tile_frames ((0, f) # qs) \<subseteq># M"
        using IH(4) 2(3) by (simp add: add.assoc [symmetric]) (metis add.commute add.left_commute subset_mset.add_right_mono subset_mset.trans)
      moreover have "if unat a0 + tile_bytes ps \<le> unat v \<and> unat v < unat e
          then \<exists>m. mapping_of s2 v = Some (0, m) \<and> access_bits flags m else mapping_of s2 v = mapping_of s v" if "mappable v" for v
        using spec [OF IH(5), of v] spec [OF 2(5), of v] that lt map_entry_bits(1,4,5) [OF phy] b(2)
        unfolding u by (auto simp: access_bits_def split: if_splits)
      ultimately show ?thesis
        using loop IH by (intro disjI2 exI [of _ s2] exI [of _ M2] exI [of _ "(0, f) # qs"]) simp
    qed
  qed
qed

section \<open>Results\<close>

text \<open>A free, page-aligned range below 2 MiB in length.\<close>

definition free_range :: "vm \<Rightarrow> u64 \<Rightarrow> u64 \<Rightarrow> bool" where
  "free_range s a len \<longleftrightarrow> unat a mod 4096 = 0 \<and> unat len mod 4096 = 0 \<and> unat len < 0x200000 \<and> unat a + unat len < 2 ^ 64
     \<and> (\<forall>v. unat a \<le> unat v \<and> unat v < unat a + unat len \<longrightarrow> mappable v \<and> mapping_of s v = None)"

lemma range_alloc_ok:
  assumes inv: "vm_inv R s M" and free: "free_range s a len"
  shows "range_alloc a len flags s = None \<and> size M < 524 + unat len div 1024
    \<or> (\<exists>s' M' ps. range_alloc a len flags s = Some (s', True) \<and> vm_inv (R \<union> set_mset (tile_frames ps)) s' M'
        \<and> M' + tile_frames ps \<subseteq># M \<and> nodup (tile_frames ps) \<and> tiled s' a ps \<and> tile_bytes ps = unat len
        \<and> (\<forall>v. mappable v \<longrightarrow> (if unat a \<le> unat v \<and> unat v < unat a + unat len
              then \<exists>m. mapping_of s' v = Some (0, m) \<and> access_bits flags m else mapping_of s' v = mapping_of s v)))"
proof -
  have f: "unat a mod 4096 = 0" "unat len mod 4096 = 0" "unat len < 0x200000" "unat a + unat len < 2 ^ 64"
    and fr: "\<forall>v. unat a \<le> unat v \<and> unat v < unat a + unat len \<longrightarrow> mappable v \<and> mapping_of s v = None"
    using free by (auto simp: free_range_def)
  have e: "unat (a + len) = unat a + unat len" using f(4) by (simp add: unat_word_ariths)
  have lm: "len mod FRAME_SIZE = 0" using f(2) by (simp add: word_unat_eq_iff unat_mod_distrib)
  obtain n where n: "unat len = 4096 * n" using f(2) by (auto elim!: dvdE)
  have "alloc_inv R a (a + len) [] s M" using inv f fr by (simp add: alloc_inv_def e nodup_def)
  from range_alloc_pages [OF this, of n len flags]
  show ?thesis using lm n f(3) unfolding e range_alloc_def by (auto simp: alloc_inv_def)
qed


text \<open>An address space with more free memory: two blocks of 2 MiB.\<close>

lemma vm_large_example:
  obtains s M where "vm_inv {} s M" "size M = 1036" "\<forall>v. mapping_of s v = mapping_of vm_example v"
proof -
  let ?M = "pmem pview_example"
  have ok: "pmm_ok pmm_example ?M" using pmm_example_wf by (auto simp: pmm_ok_def)
  have sm: "set_mset (fr 1 0x40000000) = {0x40000..<0x40200}" "set_mset (fr 1 0x40200000) = {0x40200..<0x40400}"
    "size (fr 1 0x40000000) = 512" "size (fr 1 0x40200000) = 512"
    by (simp_all add: fr_def del: upt_rec_numeral)
  have M: "set_mset ?M = {0x100, 0x101, 0x102, 0x103, 0x104, 0x105, 0x106, 0x107, 0x108, 0x109, 5, 6}" "size ?M = 12"
    unfolding pmm_example_mem by simp_all
  have n1: "nodup (?M + fr 1 0x40000000)"
    by (rule nodup_disjoint [OF pmm_alloc.ok_nodup [OF ok] nodup_fr]) (simp only: sm M, auto)
  obtain p1 where p1: "pmm_ok p1 (?M + fr 1 0x40000000)"
    using pmm_alloc.free_law [OF ok _ _ n1] by (auto simp: block_ok_def)
  have n2: "nodup (?M + fr 1 0x40000000 + fr 1 0x40200000)"
    by (rule nodup_disjoint [OF n1 nodup_fr]) (simp only: sm M set_mset_union, auto)
  obtain p2 where p2: "pmm_ok p2 (?M + fr 1 0x40000000 + fr 1 0x40200000)"
    using pmm_alloc.free_law [OF p1 _ _ n2] by (auto simp: block_ok_def)
  let ?s = "vm_example\<lparr>vm_pmm := p2\<rparr>"
  have "unat f div 4096 \<notin># ?M + fr 1 0x40000000 + fr 1 0x40200000"
    if "valid_path p" "tab (tables vm_example) (cr3 vm_example) p = Some f" for p f
  proof -
    have "f \<in> {0x200000, 0x201000, 0x202000, 0x203000}"
      using vm_example_tabs [OF that(1)] that(2) by (auto simp: vm_example_def)
    then show ?thesis by (simp only: union_iff sm M flip: set_mset_def) auto
  qed
  then have "vm_inv {} ?s (?M + fr 1 0x40000000 + fr 1 0x40200000)"
    using vm_example_inv p2 by (auto simp: vm_inv_def self_ref_def)
  then show thesis by (rule that) (simp_all only: size_union sm M, simp_all)
qed

lemma low_mappable: "unat v < 0x10000 \<Longrightarrow> mappable v"
  by (rule user_mappable) simp

lemma vm_example_free: "free_range vm_example 0x1000 0x2000"
proof -
  have "mapping_of vm_example v = None" if v: "0x1000 \<le> unat v" "unat v < 0x3000" for v
  proof -
    have "unat v div 4096 = 1 \<or> unat v div 4096 = 2" using v by linarith
    then have i: "pt_index 12 v = 1 \<or> pt_index 12 v = 2" by (auto simp: pt_index_def)
    have "unat v div 2 ^ 39 = 0" "unat v div 2 ^ 30 = 0" "unat v div 2 ^ 21 = 0" using v by simp_all
    then have "pt_index 39 v = 0" "pt_index 30 v = 0" "pt_index 21 v = 0" by (simp_all add: pt_index_def)
    with i show ?thesis
      by (auto simp: mapping_of_def mmu_leaf_def vm_example_def present_def big_def entry_frame_def PG_PRESENT_def PG_BIG_def PG_ADDR_MASK_def)
  qed
  then show ?thesis using low_mappable by (simp add: free_range_def)
qed

lemma vm_large_free: "\<forall>v. mapping_of s v = mapping_of vm_example v \<Longrightarrow> free_range s 0x1000 0x2000"
  using vm_example_free by (simp add: free_range_def)


lemma range_free_restores:
  assumes "vm_inv R s M" "free_range s a len" "range_alloc a len flags s = Some (s1, ok)"
  shows "\<exists>s2 M2 ps. range_free a len s1 = Some s2 \<and> tiled s1 a ps \<and> tile_bytes ps = unat len
    \<and> vm_inv R s2 M2 \<and> tile_frames ps \<subseteq># M2 \<and> (\<forall>v. mappable v \<longrightarrow> mapping_of s2 v = mapping_of s v)"
proof -
  from range_alloc_ok [OF assms(1,2), of flags] assms(3)
  obtain M' ps where c: "vm_inv (R \<union> set_mset (tile_frames ps)) s1 M'" "M' + tile_frames ps \<subseteq># M" "nodup (tile_frames ps)"
      "tiled s1 a ps" "tile_bytes ps = unat len"
    and m: "\<forall>v. mappable v \<longrightarrow> (if unat a \<le> unat v \<and> unat v < unat a + unat len
        then \<exists>m. mapping_of s1 v = Some (0, m) \<and> access_bits flags m else mapping_of s1 v = mapping_of s v)" by auto
  have f: "unat len mod 4096 = 0" "unat a + unat len < 2 ^ 64"
    and none: "\<forall>v. unat a \<le> unat v \<and> unat v < unat a + unat len \<longrightarrow> mappable v \<and> mapping_of s v = None"
    using assms(2) by (auto simp: free_range_def)
  have e: "unat (a + len) = unat a + unat len" using f(2) by (simp add: unat_word_ariths)
  have lm: "len mod FRAME_SIZE = 0" using f(1) by (simp add: word_unat_eq_iff unat_mod_distrib)
  have en: "a + of_nat (tile_bytes ps) = a + len" by (simp add: c(5))
  have le: "unat a + tile_bytes ps \<le> unat (a + len)" by (simp add: c(5) e)
  obtain s2 M2 where s2: "range_free_loop a (a + len) s1 = range_free_loop (a + len) (a + len) s2"
      "vm_inv (R \<union> set_mset (tile_frames ps) - set_mset (tile_frames ps)) s2 M2" "M' + tile_frames ps \<subseteq># M2"
    and m2: "\<forall>v. mappable v \<longrightarrow> mapping_of s2 v = (if unat a \<le> unat v \<and> unat v < unat a + tile_bytes ps then None else mapping_of s1 v)"
    using range_free_tiles [OF c(1,4) le _ c(3)] unfolding en by blast
  have "range_free a len s1 = Some s2" using lm s2(1) by (simp add: range_free_def range_free_loop.simps [of "a + len" "a + len"])
  moreover have "R \<union> set_mset (tile_frames ps) - set_mset (tile_frames ps) = R"
    using assms(1) set_mset_mono [OF c(2)] by (auto simp: vm_inv_def)
  moreover have "tile_frames ps \<subseteq># M2" using s2(3) by (metis mset_subset_eq_add_right subset_mset.trans)
  moreover have "mapping_of s2 v = mapping_of s v" if "mappable v" for v
    using m2 m none that by (auto simp: c(5) split: if_splits)
  ultimately show ?thesis using s2(2) c(4,5) by metis
qed



text \<open>
  The check of user buffers is exact: it accepts precisely the buffers whose end, computed without wrap-around, does not
  exceed the last user address, so no accepted buffer contains a kernel address.
\<close>

theorem valid_buffer_exact:
  "valid_buffer ptr len \<longleftrightarrow> unat ptr + unat len \<le> unat VM_USER_END"
proof -
  have p: "unat ptr < 2 ^ 64" "unat len < 2 ^ 64" using unsigned_less [of ptr, where 'a = nat] unsigned_less [of len, where 'a = nat] by simp_all
  show ?thesis
  proof (cases "unat ptr + unat len < 2 ^ 64")
    case True
    then have "unat (ptr + len) = unat ptr + unat len" by (simp add: unat_word_ariths)
    then show ?thesis by (auto simp: valid_buffer_def Let_def word_le_nat_alt)
  next
    case False
    then have "unat (ptr + len) = unat ptr + unat len - 2 ^ 64" using p by (simp add: unat_word_ariths mod_if)
    then show ?thesis using False p by (auto simp: valid_buffer_def Let_def word_le_nat_alt VM_USER_END_def)
  qed
qed

text \<open>
  C23. The scan of a user string always ends, and accepts the string exactly when a terminator is found before the end of
  the user addresses.
\<close>

theorem valid_string_terminates:
  "\<exists>b. valid_string m str = Some b \<and> (b \<longleftrightarrow> (\<exists>k. unat str + k \<le> unat VM_USER_END \<and> m (str + of_nat k) = 0))"
proof (induction "unat VM_USER_END + 1 - unat str" arbitrary: str rule: less_induct)
  case less
  show ?case
  proof (cases "str > VM_USER_END")
    case True
    then show ?thesis by (subst valid_string.simps) (auto simp: word_less_nat_alt)
  next
    case False
    then have le: "unat str \<le> unat VM_USER_END" by (simp add: word_less_nat_alt)
    show ?thesis
    proof (cases "m str = 0")
      case True
      then show ?thesis using False le by (subst valid_string.simps) (auto intro!: exI [of _ 0])
    next
      case nz: False
      have u: "unat (str + 1) = unat str + 1" using le by (simp add: unat_word_ariths VM_USER_END_def)
      then obtain b where b: "valid_string m (str + 1) = Some b"
          "b \<longleftrightarrow> (\<exists>k. unat (str + 1) + k \<le> unat VM_USER_END \<and> m (str + 1 + of_nat k) = 0)"
        using less [of "str + 1"] le by auto
      have "(\<exists>k. unat (str + 1) + k \<le> unat VM_USER_END \<and> m (str + 1 + of_nat k) = 0)
          \<longleftrightarrow> (\<exists>k. unat str + k \<le> unat VM_USER_END \<and> m (str + of_nat k) = 0)" (is "?l \<longleftrightarrow> ?r")
      proof
        assume ?l
        then obtain k where "unat (str + 1) + k \<le> unat VM_USER_END" "m (str + 1 + of_nat k) = 0" by blast
        then show ?r by (intro exI [of _ "Suc k"]) (simp add: u add.assoc)
      next
        assume ?r
        then obtain k where k: "unat str + k \<le> unat VM_USER_END" "m (str + of_nat k) = 0" by blast
        then obtain j where "k = Suc j" using nz by (cases k) auto
        then show ?l using k by (intro exI [of _ j]) (simp add: u add.assoc)
      qed
      then show ?thesis using b False nz by (subst valid_string.simps) simp
    qed
  qed
qed

end
