(* ===== verification/Seg.thy ===== *)
theory Seg
  imports Klist Range "HOL-Library.Monad_Syntax"
begin

text \<open>
  The segments of the user part of an address space, \<^verbatim>\<open>kernel/mm/seg.c\<close>: an intrusive list of blocks that are free or
  allocated.  The blocks are a heap from addresses to structures; \<open>None\<close> as the result of an operation is a panic, an
  access to a block that is not allocated, or a lock that is never released.  The results of \<^verbatim>\<open>malloc\<close> are a parameter.
\<close>

section \<open>Data\<close>

datatype seg_state = SEG_FREE | SEG_ALLOCATED

record seg_block =
  sb_start :: u64
  sb_end :: u64
  sb_state :: seg_state
  sb_flags :: u64

record seg =
  seg_lock :: bool
  block_list :: list_t
  seg_nodes :: nodes
  seg_blocks :: "addr \<Rightarrow> seg_block option"
  seg_vm :: vm
  seg_mallocs :: nat
  seg_heap :: "nat \<Rightarrow> addr"
  seg_junk :: "nat \<Rightarrow> seg_block"

definition seg_malloc :: "seg \<Rightarrow> seg \<times> addr" where
  "seg_malloc s = (let p = seg_heap s (seg_mallocs s) in
     (s\<lparr>seg_mallocs := seg_mallocs s + 1,
        seg_blocks := (if p = 0 then seg_blocks s else (seg_blocks s)(p := Some (seg_junk s (seg_mallocs s))))\<rparr>, p))"

definition seg_mfree :: "addr \<Rightarrow> seg \<Rightarrow> seg" where
  "seg_mfree p s = s\<lparr>seg_blocks := (seg_blocks s)(p := None)\<rparr>"

definition seg_put :: "addr \<Rightarrow> seg_block \<Rightarrow> seg \<Rightarrow> seg" where
  "seg_put p b s = s\<lparr>seg_blocks := (seg_blocks s)(p := Some b)\<rparr>"

definition seg_range_alloc :: "u64 \<Rightarrow> u64 \<Rightarrow> u64 \<Rightarrow> seg \<Rightarrow> (seg \<times> bool) option" where
  "seg_range_alloc a n flags s = map_option (\<lambda>(vm, ok). (s\<lparr>seg_vm := vm\<rparr>, ok)) (range_alloc a n flags (seg_vm s))"

definition seg_range_free :: "u64 \<Rightarrow> u64 \<Rightarrow> seg \<Rightarrow> seg option" where
  "seg_range_free a n s = map_option (\<lambda>vm. s\<lparr>seg_vm := vm\<rparr>) (range_free a n (seg_vm s))"

section \<open>Operations\<close>

definition split_left :: "addr \<Rightarrow> addr \<Rightarrow> u64 \<Rightarrow> seg \<Rightarrow> seg option" where
  "split_left block left_block a s = do {
     b \<leftarrow> seg_blocks s block;
     l \<leftarrow> seg_blocks s left_block;
     let s = seg_put left_block (l\<lparr>sb_start := sb_start b, sb_end := a - 1, sb_state := SEG_FREE\<rparr>) s;
     let s = seg_put block (b\<lparr>sb_start := a\<rparr>) s;
     let (m, lst) = list_insert_before (seg_nodes s) (block_list s) block left_block;
     Some (s\<lparr>seg_nodes := m, block_list := lst\<rparr>)}"

definition split_right :: "addr \<Rightarrow> addr \<Rightarrow> u64 \<Rightarrow> seg \<Rightarrow> seg option" where
  "split_right block right_block e s = do {
     b \<leftarrow> seg_blocks s block;
     r \<leftarrow> seg_blocks s right_block;
     let s = seg_put right_block (r\<lparr>sb_start := e, sb_end := sb_end b, sb_state := SEG_FREE\<rparr>) s;
     let s = seg_put block (b\<lparr>sb_end := e - 1\<rparr>) s;
     let (m, lst) = list_insert_after (seg_nodes s) (block_list s) block right_block;
     Some (s\<lparr>seg_nodes := m, block_list := lst\<rparr>)}"

definition set_allocated :: "addr \<Rightarrow> u64 \<Rightarrow> seg \<Rightarrow> seg option" where
  "set_allocated block flags s = do {
     b \<leftarrow> seg_blocks s block;
     Some (seg_put block (b\<lparr>sb_state := SEG_ALLOCATED, sb_flags := flags\<rparr>) s)}"

text \<open>The body of the loop of \<^verbatim>\<open>_seg_alloc_at\<close> for a block that contains the addresses.\<close>

definition alloc_at_block :: "addr \<Rightarrow> u64 \<Rightarrow> u64 \<Rightarrow> u64 \<Rightarrow> seg \<Rightarrow> (seg \<times> bool) option" where
  "alloc_at_block block a n flags s = do {
     (s, ok) \<leftarrow> seg_range_alloc a n flags s;
     if \<not> ok then Some (s, False)
     else do {
       b \<leftarrow> seg_blocks s block;
       let left_split = (a \<noteq> sb_start b);
       let right_split = (a + n - 1 \<noteq> sb_end b);
       let (s, left_block) = (if left_split then seg_malloc s else (s, 0));
       if left_split \<and> left_block = 0 then do {
         s \<leftarrow> seg_range_free a n s;
         Some (s, False)}
       else do {
         let (s, right_block) = (if right_split then seg_malloc s else (s, 0));
         if right_split \<and> right_block = 0 then do {
           s \<leftarrow> seg_range_free a n s;
           Some (if left_split then seg_mfree left_block s else s, False)}
         else do {
           s \<leftarrow> (if left_split then split_left block left_block a s else Some s);
           s \<leftarrow> (if right_split then split_right block right_block (a + n) s else Some s);
           s \<leftarrow> set_allocated block flags s;
           Some (s, True)}}}}"

definition seg_alloc_at' :: "u64 \<Rightarrow> u64 \<Rightarrow> u64 \<Rightarrow> seg \<Rightarrow> (seg \<times> bool) option" where
  "seg_alloc_at' a n flags s =
     (if n mod FRAME_SIZE \<noteq> 0 then None
      else map_option (case_sum id (\<lambda>s. (s, False)))
       (list_for_each (n_next \<circ> seg_nodes)
         (\<lambda>block s. do {
            b \<leftarrow> seg_blocks s block;
            if a \<ge> sb_start b \<and> a + n - 1 \<le> sb_end b then map_option Inl (alloc_at_block block a n flags s)
            else Some (Inr s)})
         (l_head (block_list s)) s))"

definition alloc_block :: "addr \<Rightarrow> u64 \<Rightarrow> u64 \<Rightarrow> seg \<Rightarrow> (seg \<times> u64) option" where
  "alloc_block block n flags s = do {
     b \<leftarrow> seg_blocks s block;
     let a = sb_start b;
     let block_size = sb_end b - sb_start b + 1;
     (s, ok) \<leftarrow> seg_range_alloc a n flags s;
     if \<not> ok then Some (s, 0)
     else do {
       let (s, right_block) = (if block_size \<noteq> n then seg_malloc s else (s, 0));
       if block_size \<noteq> n \<and> right_block = 0 then do {
         s \<leftarrow> seg_range_free a n s;
         Some (s, 0)}
       else do {
         s \<leftarrow> (if block_size \<noteq> n then split_right block right_block (a + n) s else Some s);
         s \<leftarrow> set_allocated block flags s;
         Some (s, a)}}}"

definition seg_alloc' :: "u64 \<Rightarrow> u64 \<Rightarrow> seg \<Rightarrow> (seg \<times> u64) option" where
  "seg_alloc' n flags s =
     (if n mod FRAME_SIZE \<noteq> 0 then None
      else map_option (case_sum id (\<lambda>s. (s, 0)))
       (list_for_each (n_next \<circ> seg_nodes)
         (\<lambda>block s. do {
            b \<leftarrow> seg_blocks s block;
            if sb_state b = SEG_FREE \<and> sb_end b - sb_start b + 1 \<ge> n then map_option Inl (alloc_block block n flags s)
            else Some (Inr s)})
         (l_head (block_list s)) s))"

definition seg_unlink :: "addr \<Rightarrow> seg \<Rightarrow> seg" where
  "seg_unlink block s =
     (let (m, lst) = list_remove (seg_nodes s) (block_list s) block in seg_mfree block (s\<lparr>seg_nodes := m, block_list := lst\<rparr>))"

definition merge_left :: "addr \<Rightarrow> seg \<Rightarrow> seg option" where
  "merge_left block s =
     (let left_block = n_prev (seg_nodes s) block in
      if left_block = 0 then Some s
      else do {
        l \<leftarrow> seg_blocks s left_block;
        if sb_state l = SEG_FREE then do {
          b \<leftarrow> seg_blocks s block;
          Some (seg_unlink left_block (seg_put block (b\<lparr>sb_start := sb_start l\<rparr>) s))}
        else Some s})"

definition merge_right :: "addr \<Rightarrow> seg \<Rightarrow> seg option" where
  "merge_right block s =
     (let right_block = n_next (seg_nodes s) block in
      if right_block = 0 then Some s
      else do {
        r \<leftarrow> seg_blocks s right_block;
        if sb_state r = SEG_FREE then do {
          b \<leftarrow> seg_blocks s block;
          Some (seg_unlink right_block (seg_put block (b\<lparr>sb_end := sb_end r\<rparr>) s))}
        else Some s})"

definition free_block :: "addr \<Rightarrow> u64 \<Rightarrow> seg \<Rightarrow> seg option" where
  "free_block block a s = do {
     b \<leftarrow> seg_blocks s block;
     s \<leftarrow> seg_range_free a (sb_end b - sb_start b + 1) s;
     let s = seg_put block (b\<lparr>sb_state := SEG_FREE\<rparr>) s;
     s \<leftarrow> merge_left block s;
     merge_right block s}"

definition seg_free' :: "u64 \<Rightarrow> seg \<Rightarrow> seg option" where
  "seg_free' a s =
     map_option (case_sum id id)
       (list_for_each (n_next \<circ> seg_nodes)
         (\<lambda>block s. do {
            b \<leftarrow> seg_blocks s block;
            if sb_state b \<noteq> SEG_FREE \<and> sb_start b = a then map_option Inl (free_block block a s)
            else Some (Inr s)})
         (l_head (block_list s)) s)"

definition seg_init :: "seg \<Rightarrow> (seg \<times> bool) option" where
  "seg_init s =
     (let (s, block) = seg_malloc s in
      if block = 0 then Some (s, False)
      else do {
        b \<leftarrow> seg_blocks s block;
        let s = seg_put block (b\<lparr>sb_start := 0x1000, sb_end := VM_USER_END, sb_state := SEG_FREE\<rparr>) s;
        let s = s\<lparr>seg_lock := False, block_list := list_init (block_list s)\<rparr>;
        (m, lst) \<leftarrow> list_add_head (seg_nodes s) (block_list s) block;
        Some (s\<lparr>seg_nodes := m, block_list := lst\<rparr>, True)})"

definition seg_spin_lock :: "seg \<Rightarrow> seg option" where
  "seg_spin_lock s = (if seg_lock s then None else Some (s\<lparr>seg_lock := True\<rparr>))"

definition seg_spin_unlock :: "seg \<Rightarrow> seg" where
  "seg_spin_unlock s = s\<lparr>seg_lock := False\<rparr>"

definition seg_destroy :: "seg \<Rightarrow> seg option" where
  "seg_destroy s = do {
     s \<leftarrow> seg_spin_lock s;
     r \<leftarrow> list_for_each (n_next \<circ> seg_nodes)
       (\<lambda>block s. do {
          b \<leftarrow> seg_blocks s block;
          s \<leftarrow> (if sb_state b \<noteq> SEG_FREE then seg_range_free (sb_start b) (sb_end b - sb_start b + 1) s else Some s);
          Some (Inr (seg_unlink block s) :: unit + seg)})
       (l_head (block_list s)) s;
     case r of Inl _ \<Rightarrow> None
     | Inr s \<Rightarrow> if l_size (block_list s) \<noteq> 0 then None else Some (seg_spin_unlock s)}"

text \<open>The public functions; \<open>p\<close> says whether there is a current process.\<close>

definition seg_alloc_at :: "bool \<Rightarrow> u64 \<Rightarrow> u64 \<Rightarrow> u64 \<Rightarrow> seg \<Rightarrow> (seg \<times> bool) option" where
  "seg_alloc_at p a n flags s =
     (if \<not> p then Some (s, False)
      else do {
        s \<leftarrow> seg_spin_lock s;
        (s, ok) \<leftarrow> seg_alloc_at' a n flags s;
        Some (seg_spin_unlock s, ok)})"

definition seg_alloc :: "bool \<Rightarrow> u64 \<Rightarrow> u64 \<Rightarrow> seg \<Rightarrow> (seg \<times> u64) option" where
  "seg_alloc p n flags s =
     (if \<not> p then Some (s, 0)
      else do {
        s \<leftarrow> seg_spin_lock s;
        (s, ptr) \<leftarrow> seg_alloc' n flags s;
        Some (seg_spin_unlock s, ptr)})"

definition seg_free :: "bool \<Rightarrow> u64 \<Rightarrow> seg \<Rightarrow> seg option" where
  "seg_free p a s =
     (if \<not> p then Some s
      else do {
        s \<leftarrow> seg_spin_lock s;
        s \<leftarrow> seg_free' a s;
        Some (seg_spin_unlock s)})"

section \<open>The partition of the address space\<close>

abbreviation blk :: "seg \<Rightarrow> addr \<Rightarrow> seg_block" where
  "blk s x \<equiv> the (seg_blocks s x)"

text \<open>The blocks follow each other without gaps from \<open>a\<close> up to the address before \<open>z\<close>.\<close>

fun tiles :: "u64 \<Rightarrow> seg_block list \<Rightarrow> u64 \<Rightarrow> bool" where
  "tiles a [] z \<longleftrightarrow> a = z"
| "tiles a (b # bs) z \<longleftrightarrow> sb_start b = a \<and> a \<le> sb_end b \<and> sb_end b < z \<and> tiles (sb_end b + 1) bs z"

definition seg_inv :: "seg \<Rightarrow> addr list \<Rightarrow> bool" where
  "seg_inv s xs \<longleftrightarrow> dll (seg_nodes s) (block_list s) xs \<and> (\<forall>x \<in> set xs. seg_blocks s x \<noteq> None)
     \<and> tiles 0x1000 (map (blk s) xs) (VM_USER_END + 1)"

lemma tiles_le: "tiles a bs z \<Longrightarrow> a \<le> z"
  by (cases bs) auto

lemma less_succ: "(x :: u64) < z \<Longrightarrow> x < x + 1"
proof -
  assume "x < z"
  then have "x \<noteq> -1" using word_order.extremum [of z] by (metis leD)
  then show ?thesis using word_inc_le [of x "x + 1"] by simp
qed

lemma less_pred:
  assumes "(a :: u64) < e"
  shows "a \<le> e - 1" "e - 1 < e"
proof -
  have "0 < e" using assms word_zero_le [of a] by (rule le_less_trans [rotated])
  then have "unat (e - 1) = unat e - 1" "0 < unat e" by (auto simp: unat_minus_one unat_gt_0)
  then show "a \<le> e - 1" "e - 1 < e" using assms by (simp_all add: word_le_nat_alt word_less_nat_alt)
qed

lemma tiles_append: "tiles a (xs @ ys) z \<longleftrightarrow> (\<exists>m. tiles a xs m \<and> tiles m ys z)"
proof (induction xs arbitrary: a)
  case Nil
  then show ?case by simp
next
  case (Cons b xs)
  have 1: "sb_end b < z" if "sb_end b < m" "tiles m ys z" for m using that tiles_le by (metis less_le_trans)
  have 2: "sb_end b < m" if "sb_end b < z" "tiles (sb_end b + 1) xs m" for m
  proof -
    have "sb_end b < sb_end b + 1" using less_succ [OF that(1)] .
    then show ?thesis using tiles_le [OF that(2)] by (metis less_le_trans)
  qed
  show ?case unfolding append_Cons tiles.simps Cons.IH using 1 2 by blast
qed

lemma seg_put_simps [simp]: "seg_nodes (seg_put p b s) = seg_nodes s" "block_list (seg_put p b s) = block_list s"
  "seg_blocks (seg_put p b s) = (seg_blocks s)(p := Some b)" "seg_vm (seg_put p b s) = seg_vm s" "seg_lock (seg_put p b s) = seg_lock s"
  "seg_mallocs (seg_put p b s) = seg_mallocs s" "seg_heap (seg_put p b s) = seg_heap s"
  by (simp_all add: seg_put_def)

lemma map_blk_cong: "(\<And>x. x \<in> set xs \<Longrightarrow> seg_blocks s' x = seg_blocks s x) \<Longrightarrow> map (blk s') xs = map (blk s) xs"
  by simp

lemma tiles_split:
  "tiles a (xs @ b # ys) z \<longleftrightarrow> tiles a xs (sb_start b) \<and> sb_start b \<le> sb_end b \<and> sb_end b < z \<and> tiles (sb_end b + 1) ys z"
  unfolding tiles_append tiles.simps by blast

lemma split_right_ok:
  assumes "seg_inv s (xs @ x # ys)" "y \<noteq> 0" "y \<notin> set (xs @ x # ys)" "seg_blocks s y = Some r"
    "sb_start (blk s x) < e" "e \<le> sb_end (blk s x)"
  shows "\<exists>s'. split_right x y e s = Some s' \<and> seg_inv s' (xs @ x # y # ys) \<and> blk s' x = (blk s x)\<lparr>sb_end := e - 1\<rparr>
    \<and> blk s' y = r\<lparr>sb_start := e, sb_end := sb_end (blk s x), sb_state := SEG_FREE\<rparr>
    \<and> (\<forall>z. z \<noteq> x \<and> z \<noteq> y \<longrightarrow> seg_blocks s' z = seg_blocks s z)
    \<and> seg_vm s' = seg_vm s \<and> seg_lock s' = seg_lock s \<and> seg_mallocs s' = seg_mallocs s \<and> seg_heap s' = seg_heap s"
proof -
  have i: "dll (seg_nodes s) (block_list s) (xs @ x # ys)" "\<forall>z \<in> set (xs @ x # ys). seg_blocks s z \<noteq> None"
    "tiles 0x1000 (map (blk s) (xs @ x # ys)) (VM_USER_END + 1)" using assms(1) by (simp_all add: seg_inv_def)
  obtain b where b: "seg_blocks s x = Some b" using i(2) by auto
  have d: "distinct (xs @ x # ys)" using i(1) by (simp add: dll_def)
  obtain m l where ml: "list_insert_after (seg_nodes s) (block_list s) x y = (m, l)" by fastforce
  have dl: "dll m l (xs @ x # y # ys)" using list_insert_after_ok [OF ml i(1) assms(2,3)] by simp
  let ?x = "b\<lparr>sb_end := e - 1\<rparr>" and ?y = "r\<lparr>sb_start := e, sb_end := sb_end b, sb_state := SEG_FREE\<rparr>"
  define s' where "s' = (seg_put x ?x (seg_put y ?y s))\<lparr>seg_nodes := m, block_list := l\<rparr>"
  have sp: "split_right x y e s = Some s'"
    using b assms(4) ml by (simp add: split_right_def s'_def)
  have yx: "y \<noteq> x" using assms(3) by auto
  have bl: "seg_blocks s' = (seg_blocks s)(y := Some ?y, x := Some ?x)" by (simp add: s'_def)
  have m1: "map (blk s') xs = map (blk s) xs" "map (blk s') ys = map (blk s) ys"
    using d assms(3) by (intro map_blk_cong, auto simp: bl)+
  have e0: "sb_start b < e" "e \<le> sb_end b" using assms(5,6) b by simp_all
  note e1 = less_pred [OF e0(1)]
  have t: "tiles 0x1000 (map (blk s) xs) (sb_start b)" "sb_start b \<le> sb_end b" "sb_end b < VM_USER_END + 1"
    "tiles (sb_end b + 1) (map (blk s) ys) (VM_USER_END + 1)" using i(3) b by (simp_all add: tiles_split)
  have "e - 1 < VM_USER_END + 1" by (rule less_trans [OF less_le_trans [OF e1(2) e0(2)] t(3)])
  then have "tiles 0x1000 (map (blk s') (xs @ x # y # ys)) (VM_USER_END + 1)"
    using t e1 e0 yx unfolding map_append list.map m1 tiles_split tiles.simps by (simp add: bl)
  moreover have "\<forall>z \<in> set (xs @ x # y # ys). seg_blocks s' z \<noteq> None" using i(2) by (auto simp: bl)
  moreover have "dll (seg_nodes s') (block_list s') (xs @ x # y # ys)" using dl by (simp add: s'_def)
  ultimately have "seg_inv s' (xs @ x # y # ys)" by (simp add: seg_inv_def)
  then show ?thesis using sp yx b by (intro exI [of _ s']) (simp add: bl, simp add: s'_def)
qed

lemma split_left_ok:
  assumes "seg_inv s (xs @ x # ys)" "y \<noteq> 0" "y \<notin> set (xs @ x # ys)" "seg_blocks s y = Some r"
    "sb_start (blk s x) < e" "e \<le> sb_end (blk s x)"
  shows "\<exists>s'. split_left x y e s = Some s' \<and> seg_inv s' (xs @ y # x # ys) \<and> blk s' x = (blk s x)\<lparr>sb_start := e\<rparr>
    \<and> blk s' y = r\<lparr>sb_start := sb_start (blk s x), sb_end := e - 1, sb_state := SEG_FREE\<rparr>
    \<and> (\<forall>z. z \<noteq> x \<and> z \<noteq> y \<longrightarrow> seg_blocks s' z = seg_blocks s z)
    \<and> seg_vm s' = seg_vm s \<and> seg_lock s' = seg_lock s \<and> seg_mallocs s' = seg_mallocs s \<and> seg_heap s' = seg_heap s"
proof -
  have i: "dll (seg_nodes s) (block_list s) (xs @ x # ys)" "\<forall>z \<in> set (xs @ x # ys). seg_blocks s z \<noteq> None"
    "tiles 0x1000 (map (blk s) (xs @ x # ys)) (VM_USER_END + 1)" using assms(1) by (simp_all add: seg_inv_def)
  obtain b where b: "seg_blocks s x = Some b" using i(2) by auto
  have d: "distinct (xs @ x # ys)" using i(1) by (simp add: dll_def)
  obtain m l where ml: "list_insert_before (seg_nodes s) (block_list s) x y = (m, l)" by fastforce
  have dl: "dll m l (xs @ y # x # ys)" using list_insert_before_ok [OF ml i(1) assms(2,3)] by simp
  let ?x = "b\<lparr>sb_start := e\<rparr>" and ?y = "r\<lparr>sb_start := sb_start b, sb_end := e - 1, sb_state := SEG_FREE\<rparr>"
  define s' where "s' = (seg_put x ?x (seg_put y ?y s))\<lparr>seg_nodes := m, block_list := l\<rparr>"
  have sp: "split_left x y e s = Some s'"
    using b assms(4) ml by (simp add: split_left_def s'_def)
  have yx: "y \<noteq> x" using assms(3) by auto
  have bl: "seg_blocks s' = (seg_blocks s)(y := Some ?y, x := Some ?x)" by (simp add: s'_def)
  have m1: "map (blk s') xs = map (blk s) xs" "map (blk s') ys = map (blk s) ys"
    using d assms(3) by (intro map_blk_cong, auto simp: bl)+
  have e0: "sb_start b < e" "e \<le> sb_end b" using assms(5,6) b by simp_all
  note e1 = less_pred [OF e0(1)]
  have t: "tiles 0x1000 (map (blk s) xs) (sb_start b)" "sb_start b \<le> sb_end b" "sb_end b < VM_USER_END + 1"
    "tiles (sb_end b + 1) (map (blk s) ys) (VM_USER_END + 1)" using i(3) b by (simp_all add: tiles_split)
  have "e - 1 < VM_USER_END + 1" by (rule less_trans [OF less_le_trans [OF e1(2) e0(2)] t(3)])
  then have "tiles 0x1000 (map (blk s') (xs @ y # x # ys)) (VM_USER_END + 1)"
    using t e1 e0 yx unfolding map_append list.map m1 tiles_split tiles.simps by (simp add: bl)
  moreover have "\<forall>z \<in> set (xs @ y # x # ys). seg_blocks s' z \<noteq> None" using i(2) by (auto simp: bl)
  moreover have "dll (seg_nodes s') (block_list s') (xs @ y # x # ys)" using dl by (simp add: s'_def)
  ultimately have "seg_inv s' (xs @ y # x # ys)" by (simp add: seg_inv_def)
  then show ?thesis using sp yx b by (intro exI [of _ s']) (simp add: bl, simp add: s'_def)
qed

lemma seg_put_inv:
  assumes "seg_inv s xs" "seg_blocks s x = Some b" "sb_start b' = sb_start b" "sb_end b' = sb_end b"
  shows "seg_inv (seg_put x b' s) xs"
proof -
  have "tiles a (map (blk (seg_put x b' s)) ys) z = tiles a (map (blk s) ys) z" for a ys z
    using assms(2-4) by (induction ys arbitrary: a) auto
  then show ?thesis using assms(1) unfolding seg_inv_def by auto
qed

lemma set_allocated_ok:
  assumes "seg_inv s xs" "x \<in> set xs"
  shows "\<exists>s'. set_allocated x flags s = Some s' \<and> seg_inv s' xs \<and> blk s' x = (blk s x)\<lparr>sb_state := SEG_ALLOCATED, sb_flags := flags\<rparr>
    \<and> (\<forall>z. z \<noteq> x \<longrightarrow> seg_blocks s' z = seg_blocks s z) \<and> seg_vm s' = seg_vm s \<and> seg_lock s' = seg_lock s"
proof -
  obtain b where b: "seg_blocks s x = Some b" using assms by (auto simp: seg_inv_def)
  let ?s = "seg_put x (b\<lparr>sb_state := SEG_ALLOCATED, sb_flags := flags\<rparr>) s"
  have "seg_inv ?s xs" by (rule seg_put_inv [OF assms(1) b]) simp_all
  then show ?thesis using b by (simp add: set_allocated_def)
qed

lemma merge_left_ok:
  assumes "seg_inv s (as @ y # x # bs)"
  shows "\<exists>s'. merge_left x s = Some s' \<and>
    (if sb_state (blk s y) = SEG_FREE
     then seg_inv s' (as @ x # bs) \<and> blk s' x = (blk s x)\<lparr>sb_start := sb_start (blk s y)\<rparr>
       \<and> (\<forall>z. z \<noteq> x \<and> z \<noteq> y \<longrightarrow> seg_blocks s' z = seg_blocks s z) \<and> seg_vm s' = seg_vm s \<and> seg_lock s' = seg_lock s
     else s' = s)"
proof -
  have i: "dll (seg_nodes s) (block_list s) (as @ y # x # bs)" "\<forall>z \<in> set (as @ y # x # bs). seg_blocks s z \<noteq> None"
    "tiles 0x1000 (map (blk s) (as @ y # x # bs)) (VM_USER_END + 1)" using assms by (simp_all add: seg_inv_def)
  obtain b r where b: "seg_blocks s x = Some b" "seg_blocks s y = Some r" using i(2) by auto
  have p: "n_prev (seg_nodes s) x = y" "y \<noteq> 0" "x \<noteq> y" "distinct (as @ y # x # bs)" using i(1) by (auto simp: dll_def)
  obtain m l where ml: "list_remove (seg_nodes s) (block_list s) y = (m, l)" by fastforce
  have dl: "dll m l (as @ x # bs)" using list_remove_ok [OF ml i(1)] by simp
  define s' where "s' = seg_unlink y (seg_put x (b\<lparr>sb_start := sb_start r\<rparr>) s)"
  have f: "seg_nodes s' = m" "block_list s' = l" "seg_blocks s' = (seg_blocks s)(x := Some (b\<lparr>sb_start := sb_start r\<rparr>), y := None)"
    "seg_vm s' = seg_vm s" "seg_lock s' = seg_lock s"
    by (simp_all add: s'_def seg_unlink_def seg_mfree_def ml)
  have m1: "map (blk s') as = map (blk s) as" "map (blk s') bs = map (blk s) bs"
    using p(4) by (intro map_blk_cong, auto simp: f)+
  have t: "tiles 0x1000 (map (blk s) as) (sb_start r)" "sb_start r \<le> sb_end r" "sb_end r < VM_USER_END + 1"
    "sb_start b = sb_end r + 1" "sb_start b \<le> sb_end b" "sb_end b < VM_USER_END + 1"
    "tiles (sb_end b + 1) (map (blk s) bs) (VM_USER_END + 1)" using i(3) b by (simp_all add: tiles_split)
  have "sb_start r \<le> sb_end b" using less_succ [OF t(3)] t(2,4,5) by (metis less_imp_le order.trans)
  then have "tiles 0x1000 (map (blk s') (as @ x # bs)) (VM_USER_END + 1)"
    using t p(3) unfolding map_append list.map m1 tiles_split by (simp add: f)
  moreover have "\<forall>z \<in> set (as @ x # bs). seg_blocks s' z \<noteq> None" using i(2) p(3,4) by (auto simp: f)
  ultimately have "seg_inv s' (as @ x # bs)" using dl by (simp add: seg_inv_def f(1,2))
  moreover have "merge_left x s = Some (if sb_state r = SEG_FREE then s' else s)"
    using p b by (simp add: merge_left_def s'_def)
  ultimately show ?thesis using b p(3) by (simp add: f)
qed

lemma merge_right_ok:
  assumes "seg_inv s (as @ x # y # bs)"
  shows "\<exists>s'. merge_right x s = Some s' \<and>
    (if sb_state (blk s y) = SEG_FREE
     then seg_inv s' (as @ x # bs) \<and> blk s' x = (blk s x)\<lparr>sb_end := sb_end (blk s y)\<rparr>
       \<and> (\<forall>z. z \<noteq> x \<and> z \<noteq> y \<longrightarrow> seg_blocks s' z = seg_blocks s z) \<and> seg_vm s' = seg_vm s \<and> seg_lock s' = seg_lock s
     else s' = s)"
proof -
  have i: "dll (seg_nodes s) (block_list s) (as @ x # y # bs)" "\<forall>z \<in> set (as @ x # y # bs). seg_blocks s z \<noteq> None"
    "tiles 0x1000 (map (blk s) (as @ x # y # bs)) (VM_USER_END + 1)" using assms by (simp_all add: seg_inv_def)
  obtain b r where b: "seg_blocks s x = Some b" "seg_blocks s y = Some r" using i(2) by auto
  have p: "n_next (seg_nodes s) x = y" "y \<noteq> 0" "x \<noteq> y" "distinct (as @ x # y # bs)" using i(1) by (auto simp: dll_def)
  obtain m l where ml: "list_remove (seg_nodes s) (block_list s) y = (m, l)" by fastforce
  have dl: "dll m l (as @ x # bs)" using list_remove_ok [OF ml, of "as @ [x]" bs] i(1) by simp
  define s' where "s' = seg_unlink y (seg_put x (b\<lparr>sb_end := sb_end r\<rparr>) s)"
  have f: "seg_nodes s' = m" "block_list s' = l" "seg_blocks s' = (seg_blocks s)(x := Some (b\<lparr>sb_end := sb_end r\<rparr>), y := None)"
    "seg_vm s' = seg_vm s" "seg_lock s' = seg_lock s"
    by (simp_all add: s'_def seg_unlink_def seg_mfree_def ml)
  have m1: "map (blk s') as = map (blk s) as" "map (blk s') bs = map (blk s) bs"
    using p(4) by (intro map_blk_cong, auto simp: f)+
  have t: "tiles 0x1000 (map (blk s) as) (sb_start b)" "sb_start b \<le> sb_end b" "sb_end b < VM_USER_END + 1"
    "sb_start r = sb_end b + 1" "sb_start r \<le> sb_end r" "sb_end r < VM_USER_END + 1"
    "tiles (sb_end r + 1) (map (blk s) bs) (VM_USER_END + 1)" using i(3) b by (simp_all add: tiles_split)
  have "sb_start b \<le> sb_end r" using less_succ [OF t(3)] t(2,4,5) by (metis less_imp_le order.trans)
  then have "tiles 0x1000 (map (blk s') (as @ x # bs)) (VM_USER_END + 1)"
    using t p(3) unfolding map_append list.map m1 tiles_split by (simp add: f)
  moreover have "\<forall>z \<in> set (as @ x # bs). seg_blocks s' z \<noteq> None" using i(2) p(3,4) by (auto simp: f)
  ultimately have "seg_inv s' (as @ x # bs)" using dl by (simp add: seg_inv_def f(1,2))
  moreover have "merge_right x s = Some (if sb_state r = SEG_FREE then s' else s)"
    using p b by (simp add: merge_right_def s'_def)
  ultimately show ?thesis using b p(3) by (simp add: f)
qed

section \<open>Searching a block\<close>

lemma bind_Inl: "Option.bind (map_option Inl v) (case_sum (\<lambda>v. Some (Inl v)) g) = map_option Inl v"
  by (cases v) auto

lemma seg_loop:
  assumes "seg_inv s xs"
  shows "list_for_each (n_next \<circ> seg_nodes)
      (\<lambda>block s. do {b \<leftarrow> seg_blocks s block; if P b then map_option Inl (f block s) else Some (Inr s)}) (l_head (block_list s)) s
    = (case find (P \<circ> blk s) xs of None \<Rightarrow> Some (Inr s) | Some x \<Rightarrow> map_option Inl (f x s))"
    (is "list_for_each _ ?body _ _ = _")
proof -
  have i: "dll (seg_nodes s) (block_list s) xs" "\<forall>x \<in> set xs. seg_blocks s x \<noteq> None" using assms by (simp_all add: seg_inv_def)
  have "list_for_each (n_next \<circ> seg_nodes) ?body (l_head (block_list s)) s = lfold ?body xs s"
    using i(1) by (rule kl.for_each_lfold) (auto split: Option.bind_splits if_splits)
  also have "\<dots> = (case find (P \<circ> blk s) xs of None \<Rightarrow> Some (Inr s) | Some x \<Rightarrow> map_option Inl (f x s))"
    using i(2) by (induction xs) (auto simp: bind_Inl split: option.split)
  finally show ?thesis .
qed

text \<open>The partition as a client sees it: first and last address, and the access rights of an allocated region.\<close>

type_synonym region = "u64 \<times> u64 \<times> u64 option"

definition region :: "seg_block \<Rightarrow> region" where
  "region b = (sb_start b, sb_end b, if sb_state b = SEG_ALLOCATED then Some (sb_flags b) else None)"

definition regions :: "seg \<Rightarrow> addr list \<Rightarrow> region list" where
  "regions s xs = map (\<lambda>x. region (blk s x)) xs"

text \<open>First fit: the first free region that is large enough is cut down to the size, the rest stays free.\<close>

definition fits :: "u64 \<Rightarrow> region \<Rightarrow> bool" where
  "fits n r = (case r of (a, e, st) \<Rightarrow> st = None \<and> n \<le> e - a + 1)"

fun spec_alloc :: "u64 \<Rightarrow> u64 \<Rightarrow> region list \<Rightarrow> (u64 \<times> bool \<times> region list) option" where
  "spec_alloc n flags [] = None"
| "spec_alloc n flags ((a, e, st) # rs) =
     (if fits n (a, e, st)
      then Some (a, e - a + 1 \<noteq> n, (a, a + n - 1, Some flags) # (if e - a + 1 = n then [] else [(a + n, e, None)]) @ rs)
      else map_option (\<lambda>(p, c, rs'). (p, c, (a, e, st) # rs')) (spec_alloc n flags rs))"

lemma spec_alloc_None: "spec_alloc n flags rs = None \<longleftrightarrow> find (fits n) rs = None"
  by (induction n flags rs rule: spec_alloc.induct) auto

lemma spec_alloc_first:
  assumes "\<forall>r \<in> set ls. \<not> fits n r" "fits n (a, e, st)"
  shows "spec_alloc n flags (ls @ (a, e, st) # rs)
    = Some (a, e - a + 1 \<noteq> n, ls @ (a, a + n - 1, Some flags) # (if e - a + 1 = n then [] else [(a + n, e, None)]) @ rs)"
  using assms(1)
proof (induction ls)
  case Nil
  then show ?case using assms(2) by simp
next
  case (Cons r ls)
  then show ?case by (cases r) simp
qed

lemma regions_append [simp]: "regions s (xs @ ys) = regions s xs @ regions s ys" "regions s [] = []"
  "regions s (x # xs) = region (blk s x) # regions s xs"
  by (simp_all add: regions_def)

lemma regions_cong: "(\<And>x. x \<in> set xs \<Longrightarrow> seg_blocks s' x = seg_blocks s x) \<Longrightarrow> regions s' xs = regions s xs"
  by (simp add: regions_def)

lemma fits_region: "fits n (region b) \<longleftrightarrow> sb_state b = SEG_FREE \<and> sb_end b - sb_start b + 1 \<ge> n"
  by (cases "sb_state b") (auto simp: fits_def region_def)

lemma block_bounds:
  assumes "(a :: u64) \<le> e" "e < z" "n \<noteq> 0" "n \<le> e - a + 1" "e - a + 1 \<noteq> n"
  shows "a < a + n" "a + n \<le> e"
proof -
  have z: "unat e < unat z" "unat z < 2 ^ 64" using assms(2) unsigned_less [of z, where 'a = nat] by (simp_all add: word_less_nat_alt)
  have u: "unat (e - a) = unat e - unat a" "unat a \<le> unat e" using assms(1) by (simp_all add: unat_sub word_le_nat_alt)
  have s: "unat (e - a + 1) = unat e - unat a + 1" using u z by (simp add: unat_word_ariths)
  have "unat n \<noteq> unat (e - a + 1)" using assms(5) by (metis word_unat_eq_iff)
  then have n: "unat n \<le> unat e - unat a + 1" "unat n \<noteq> unat e - unat a + 1" "unat n \<noteq> 0"
    using assms(3,4) unfolding s by (simp_all add: word_le_nat_alt unat_eq_0 s)
  have "unat (a + n) = unat a + unat n" using n u z by (simp add: unat_word_ariths)
  then show "a < a + n" "a + n \<le> e" using n u by (simp_all add: word_less_nat_alt word_le_nat_alt)
qed

lemma seg_inv_block:
  assumes "seg_inv s (as @ x # bs)"
  shows "sb_start (blk s x) \<le> sb_end (blk s x)" "sb_end (blk s x) < VM_USER_END + 1" "x \<notin> set as" "x \<notin> set bs"
    "distinct (as @ x # bs)" "0 \<notin> set (as @ x # bs)"
  using assms by (auto simp: seg_inv_def tiles_split dll_def)

lemma seg_inv_vm [simp]: "seg_inv (s\<lparr>seg_vm := vm\<rparr>) xs = seg_inv s xs" "seg_inv (s\<lparr>seg_lock := l\<rparr>) xs = seg_inv s xs"
  "seg_inv (s\<lparr>seg_mallocs := k\<rparr>) xs = seg_inv s xs"
  "regions (s\<lparr>seg_vm := vm\<rparr>) xs = regions s xs" "regions (s\<lparr>seg_lock := l\<rparr>) xs = regions s xs"
  "regions (s\<lparr>seg_mallocs := k\<rparr>) xs = regions s xs"
  by (simp_all add: seg_inv_def regions_def)

section \<open>Allocation\<close>

lemma seg_malloc_ok:
  assumes "seg_inv s xs" "seg_heap s (seg_mallocs s) \<notin> set xs"
  shows "seg_inv (fst (seg_malloc s)) xs" "regions (fst (seg_malloc s)) xs = regions s xs" "x \<in> set xs \<Longrightarrow> blk (fst (seg_malloc s)) x = blk s x"
    "snd (seg_malloc s) = seg_heap s (seg_mallocs s)"
    "seg_vm (fst (seg_malloc s)) = seg_vm s" "seg_lock (fst (seg_malloc s)) = seg_lock s" "seg_mallocs (fst (seg_malloc s)) = seg_mallocs s + 1"
    "seg_heap (fst (seg_malloc s)) = seg_heap s"
    "seg_heap s (seg_mallocs s) \<noteq> 0 \<Longrightarrow> seg_blocks (fst (seg_malloc s)) (seg_heap s (seg_mallocs s)) = Some (seg_junk s (seg_mallocs s))"
proof -
  have b: "seg_blocks (fst (seg_malloc s)) y = seg_blocks s y" if "y \<in> set xs" for y
    using that assms(2) by (auto simp: seg_malloc_def Let_def)
  have l: "seg_nodes (fst (seg_malloc s)) = seg_nodes s" "block_list (fst (seg_malloc s)) = block_list s"
    by (simp_all add: seg_malloc_def Let_def)
  have "map (blk (fst (seg_malloc s))) xs = map (blk s) xs" using b by simp
  then show "seg_inv (fst (seg_malloc s)) xs" using assms(1) b unfolding seg_inv_def l by metis
  show "regions (fst (seg_malloc s)) xs = regions s xs" by (rule regions_cong) (rule b)
  show "blk (fst (seg_malloc s)) x = blk s x" if "x \<in> set xs" using b that by simp
qed (simp_all add: seg_malloc_def Let_def)

lemma split_step:
  assumes "seg_inv s (as @ x # bs)" "n \<noteq> 0" "n \<le> sb_end (blk s x) - sb_start (blk s x) + 1"
    "seg_heap s (seg_mallocs s) \<notin> set (as @ x # bs)" "sb_end (blk s x) - sb_start (blk s x) + 1 \<noteq> n" "seg_heap s (seg_mallocs s) \<noteq> 0"
  shows "\<exists>s' y. split_right x (snd (seg_malloc s)) (sb_start (blk s x) + n) (fst (seg_malloc s)) = Some s' \<and> seg_inv s' (as @ x # y # bs)
    \<and> blk s' x = (blk s x)\<lparr>sb_end := sb_start (blk s x) + n - 1\<rparr> \<and> region (blk s' y) = (sb_start (blk s x) + n, sb_end (blk s x), None)
    \<and> regions s' as = regions s as \<and> regions s' bs = regions s bs \<and> seg_vm s' = seg_vm s \<and> seg_lock s' = seg_lock s"
proof -
  let ?p = "seg_heap s (seg_mallocs s)" and ?s = "fst (seg_malloc s)"
  note m = seg_malloc_ok [OF assms(1,4)]
  have bx: "blk ?s x = blk s x" by (rule m(3)) simp
  note bb = block_bounds [OF seg_inv_block(1,2) [OF assms(1)] assms(2,3,5)]
  obtain s' where s': "split_right x ?p (sb_start (blk s x) + n) ?s = Some s'" "seg_inv s' (as @ x # ?p # bs)"
    "blk s' x = (blk ?s x)\<lparr>sb_end := sb_start (blk s x) + n - 1\<rparr>"
    "blk s' ?p = (seg_junk s (seg_mallocs s))\<lparr>sb_start := sb_start (blk s x) + n, sb_end := sb_end (blk ?s x), sb_state := SEG_FREE\<rparr>"
    "\<forall>z. z \<noteq> x \<and> z \<noteq> ?p \<longrightarrow> seg_blocks s' z = seg_blocks ?s z" "seg_vm s' = seg_vm ?s" "seg_lock s' = seg_lock ?s"
    using split_right_ok [OF m(1) assms(6,4) m(9) [OF assms(6)], of "sb_start (blk s x) + n"] bb unfolding bx by blast
  have "regions s' as = regions ?s as" "regions s' bs = regions ?s bs"
    using s'(5) seg_inv_block(3,4) [OF assms(1)] assms(4) by (intro regions_cong, auto)+
  moreover have "regions ?s as = regions s as" "regions ?s bs = regions s bs"
    using m(3) by (simp_all add: regions_def)
  ultimately show ?thesis using s' m(4,5,6) by (intro exI [of _ s'] exI [of _ ?p]) (simp add: bx region_def)
qed

lemma alloc_block_fails:
  assumes "seg_blocks s x = Some b"
  shows "range_alloc (sb_start b) n flags (seg_vm s) = None \<Longrightarrow> alloc_block x n flags s = None"
    "range_alloc (sb_start b) n flags (seg_vm s) = Some (vm, False) \<Longrightarrow> alloc_block x n flags s = Some (s\<lparr>seg_vm := vm\<rparr>, 0)"
    "range_alloc (sb_start b) n flags (seg_vm s) = Some (vm, True) \<Longrightarrow> sb_end b - sb_start b + 1 \<noteq> n
      \<Longrightarrow> seg_heap s (seg_mallocs s) = 0
      \<Longrightarrow> alloc_block x n flags s = map_option (\<lambda>vm. (s\<lparr>seg_vm := vm, seg_mallocs := seg_mallocs s + 1\<rparr>, 0)) (range_free (sb_start b) n vm)"
  using assms by (simp_all add: alloc_block_def seg_range_alloc_def seg_range_free_def seg_malloc_def Let_def)
    (simp add: map_option_case split: option.split)

lemma alloc_block_ok:
  assumes i: "seg_inv s (as @ x # bs)" and n: "n \<noteq> 0" "n \<le> sb_end (blk s x) - sb_start (blk s x) + 1"
    and fr: "seg_heap s (seg_mallocs s) \<notin> set (as @ x # bs)"
    and r: "range_alloc (sb_start (blk s x)) n flags (seg_vm s) = Some (vm, True)"
    and m: "sb_end (blk s x) - sb_start (blk s x) + 1 \<noteq> n \<Longrightarrow> seg_heap s (seg_mallocs s) \<noteq> 0"
  shows "\<exists>s' xs'. alloc_block x n flags s = Some (s', sb_start (blk s x)) \<and> seg_inv s' xs'
    \<and> regions s' xs' = regions s as @ (sb_start (blk s x), sb_start (blk s x) + n - 1, Some flags)
        # (if sb_end (blk s x) - sb_start (blk s x) + 1 = n then [] else [(sb_start (blk s x) + n, sb_end (blk s x), None)]) @ regions s bs
    \<and> seg_vm s' = vm \<and> seg_lock s' = seg_lock s"
proof -
  let ?a = "sb_start (blk s x)" and ?e = "sb_end (blk s x)" and ?s = "s\<lparr>seg_vm := vm\<rparr>"
  obtain b where b: "seg_blocks s x = Some b" using i by (auto simp: seg_inv_def)
  have i': "seg_inv ?s (as @ x # bs)" using i by simp
  obtain s1 xs1 where s1: "alloc_block x n flags s = Option.bind (set_allocated x flags s1) (\<lambda>s. Some (s, ?a))"
    "seg_inv s1 (as @ x # xs1)" "blk s1 x = (blk s x)\<lparr>sb_end := ?a + n - 1\<rparr>" "regions s1 as = regions s as"
    "regions s1 xs1 = (if ?e - ?a + 1 = n then [] else [(?a + n, ?e, None)]) @ regions s bs" "seg_vm s1 = vm" "seg_lock s1 = seg_lock s"
  proof (cases "?e - ?a + 1 = n")
    case True
    then have "?a + n - 1 = ?e" by (simp flip: True)
    then show ?thesis using True b r i' by (intro that [of ?s bs]) (simp_all add: alloc_block_def seg_range_alloc_def regions_def)
  next
    case False
    have "seg_malloc ?s = (fst (seg_malloc ?s), snd (seg_malloc ?s))" by simp
    moreover have "snd (seg_malloc ?s) \<noteq> 0" using m [OF False] by (simp add: seg_malloc_def Let_def)
    moreover obtain s1 y where "split_right x (snd (seg_malloc ?s)) (?a + n) (fst (seg_malloc ?s)) = Some s1 \<and> seg_inv s1 (as @ x # y # bs)
        \<and> blk s1 x = (blk s x)\<lparr>sb_end := ?a + n - 1\<rparr> \<and> region (blk s1 y) = (?a + n, ?e, None)
        \<and> regions s1 as = regions s as \<and> regions s1 bs = regions s bs \<and> seg_vm s1 = vm \<and> seg_lock s1 = seg_lock s"
      using split_step [OF i', of n] n fr False m [OF False] by auto
    ultimately show ?thesis using False b r
      by (intro that [of s1 "y # bs"]) (simp_all add: alloc_block_def seg_range_alloc_def split_beta)
  qed
  obtain s2 where s2: "set_allocated x flags s1 = Some s2" "seg_inv s2 (as @ x # xs1)"
    "blk s2 x = (blk s1 x)\<lparr>sb_state := SEG_ALLOCATED, sb_flags := flags\<rparr>" "\<forall>z. z \<noteq> x \<longrightarrow> seg_blocks s2 z = seg_blocks s1 z"
    "seg_vm s2 = seg_vm s1" "seg_lock s2 = seg_lock s1" using set_allocated_ok [OF s1(2), of x flags] by auto
  have "regions s2 as = regions s1 as" "regions s2 xs1 = regions s1 xs1"
    using s2(4) seg_inv_block(3,4) [OF s1(2)] by (intro regions_cong, auto)+
  then show ?thesis using s1 s2 by (intro exI [of _ s2] exI [of _ "as @ x # xs1"]) (simp add: region_def)
qed

lemma find_split: "find P xs = Some x \<Longrightarrow> \<exists>as bs. xs = as @ x # bs \<and> P x \<and> (\<forall>y \<in> set as. \<not> P y)"
proof (induction xs)
  case (Cons z xs)
  show ?case
  proof (cases "P z")
    case True
    then show ?thesis using Cons.prems by (intro exI [of _ "[]"] exI [of _ xs]) simp
  next
    case False
    then obtain as bs where "xs = as @ x # bs \<and> P x \<and> (\<forall>y \<in> set as. \<not> P y)" using Cons by auto
    then show ?thesis using False by (intro exI [of _ "z # as"] exI [of _ bs]) simp
  qed
qed simp

lemma seg_alloc'_spec:
  assumes i: "seg_inv s xs" and n: "n \<noteq> 0" "n mod FRAME_SIZE = 0" and fr: "seg_heap s (seg_mallocs s) \<notin> set xs"
  shows "case spec_alloc n flags (regions s xs) of None \<Rightarrow> seg_alloc' n flags s = Some (s, 0)
    | Some (a, cutoff, rs) \<Rightarrow> (case range_alloc a n flags (seg_vm s) of None \<Rightarrow> seg_alloc' n flags s = None
      | Some (vm, ok) \<Rightarrow>
        if \<not> ok then seg_alloc' n flags s = Some (s\<lparr>seg_vm := vm\<rparr>, 0)
        else if cutoff \<and> seg_heap s (seg_mallocs s) = 0
        then seg_alloc' n flags s = map_option (\<lambda>vm. (s\<lparr>seg_vm := vm, seg_mallocs := seg_mallocs s + 1\<rparr>, 0)) (range_free a n vm)
        else \<exists>s' xs'. seg_alloc' n flags s = Some (s', a) \<and> seg_inv s' xs' \<and> regions s' xs' = rs \<and> seg_vm s' = vm \<and> seg_lock s' = seg_lock s)"
proof -
  let ?P = "\<lambda>b. sb_state b = SEG_FREE \<and> sb_end b - sb_start b + 1 \<ge> n"
  have a: "seg_alloc' n flags s = map_option (case_sum id (\<lambda>s. (s, 0)))
      (case find (?P \<circ> blk s) xs of None \<Rightarrow> Some (Inr s) | Some x \<Rightarrow> map_option Inl (alloc_block x n flags s))"
    using n(2) unfolding seg_alloc'_def seg_loop [OF i, where P = ?P] by simp
  show ?thesis
  proof (cases "find (?P \<circ> blk s) xs")
    case None
    then have "spec_alloc n flags (regions s xs) = None" by (simp add: spec_alloc_None find_None_iff regions_def fits_region)
    then show ?thesis using None a by simp
  next
    case (Some x)
    then obtain as bs where xs: "xs = as @ x # bs" "?P (blk s x)" "\<forall>y \<in> set as. \<not> ?P (blk s y)"
      using find_split [OF Some] by auto
    obtain b where b: "seg_blocks s x = Some b" using i xs(1) by (auto simp: seg_inv_def)
    have f: "\<forall>r \<in> set (regions s as). \<not> fits n r" "fits n (sb_start b, sb_end b, None)"
      using xs(3) xs(2) b by (simp add: regions_def fits_region, simp add: fits_def)
    have rg: "regions s xs = regions s as @ (sb_start b, sb_end b, None) # regions s bs"
      using xs(1,2) b by (simp add: region_def)
    have al: "seg_alloc' n flags s = alloc_block x n flags s" using a Some by (simp add: option.map_comp comp_def option.map_ident)
    have i': "seg_inv s (as @ x # bs)" and fr': "seg_heap s (seg_mallocs s) \<notin> set (as @ x # bs)" using i fr xs(1) by simp_all
    show ?thesis unfolding rg al spec_alloc_first [OF f]
      using alloc_block_fails [OF b, of n flags] alloc_block_ok [OF i' n(1) _ fr', of flags] xs(2) b
      by (cases "range_alloc (sb_start b) n flags (seg_vm s)") auto
  qed
qed

section \<open>Release\<close>

text \<open>A released region is joined with the free regions next to it.\<close>

definition join_left :: "region list \<Rightarrow> u64 \<Rightarrow> region list \<times> u64" where
  "join_left ls a = (if ls \<noteq> [] \<and> snd (snd (last ls)) = None then (butlast ls, fst (last ls)) else (ls, a))"

definition join_right :: "u64 \<Rightarrow> region list \<Rightarrow> u64 \<times> region list" where
  "join_right e rs = (if rs \<noteq> [] \<and> snd (snd (hd rs)) = None then (fst (snd (hd rs)), tl rs) else (e, rs))"

definition joined :: "region list \<Rightarrow> u64 \<Rightarrow> u64 \<Rightarrow> region list \<Rightarrow> region list" where
  "joined ls a e rs = (let (ls, a) = join_left ls a; (e, rs) = join_right e rs in ls @ (a, e, None) # rs)"

lemma region_free [simp]: "snd (snd (region b)) = None \<longleftrightarrow> sb_state b = SEG_FREE"
  "fst (region b) = sb_start b" "fst (snd (region b)) = sb_end b"
  by (cases "sb_state b"; simp add: region_def)+

lemma merge_left_joins:
  assumes "seg_inv s (as @ x # bs)"
  shows "\<exists>s' as'. merge_left x s = Some s' \<and> seg_inv s' (as' @ x # bs) \<and> (regions s' as', sb_start (blk s' x)) = join_left (regions s as) (sb_start (blk s x))
    \<and> sb_end (blk s' x) = sb_end (blk s x) \<and> sb_state (blk s' x) = sb_state (blk s x) \<and> regions s' bs = regions s bs
    \<and> seg_vm s' = seg_vm s \<and> seg_lock s' = seg_lock s"
proof (cases as rule: rev_cases)
  case Nil
  have "n_prev (seg_nodes s) x = 0" using assms Nil by (simp add: seg_inv_def dll_def)
  then show ?thesis using assms Nil by (intro exI [of _ s] exI [of _ "[]"]) (simp add: merge_left_def join_left_def)
next
  case (snoc as' y)
  then have i: "seg_inv s (as' @ y # x # bs)" using assms by simp
  obtain s' where s': "merge_left x s = Some s'" "if sb_state (blk s y) = SEG_FREE
     then seg_inv s' (as' @ x # bs) \<and> blk s' x = (blk s x)\<lparr>sb_start := sb_start (blk s y)\<rparr>
       \<and> (\<forall>z. z \<noteq> x \<and> z \<noteq> y \<longrightarrow> seg_blocks s' z = seg_blocks s z) \<and> seg_vm s' = seg_vm s \<and> seg_lock s' = seg_lock s
     else s' = s" using merge_left_ok [OF i] by blast
  show ?thesis
  proof (cases "sb_state (blk s y) = SEG_FREE")
    case True
    have "\<forall>z \<in> set as' \<union> set bs. z \<noteq> x \<and> z \<noteq> y" using seg_inv_block(5) [OF i] by auto
    then have "regions s' as' = regions s as'" "regions s' bs = regions s bs"
      using s'(2) True by (simp_all add: regions_def)
    then show ?thesis using s' True snoc by (intro exI [of _ s'] exI [of _ as']) (simp add: join_left_def)
  next
    case False
    then show ?thesis using s' assms snoc by (intro exI [of _ s] exI [of _ as]) (simp add: join_left_def)
  qed
qed

lemma merge_right_joins:
  assumes "seg_inv s (as @ x # bs)"
  shows "\<exists>s' bs'. merge_right x s = Some s' \<and> seg_inv s' (as @ x # bs') \<and> (sb_end (blk s' x), regions s' bs') = join_right (sb_end (blk s x)) (regions s bs)
    \<and> sb_start (blk s' x) = sb_start (blk s x) \<and> sb_state (blk s' x) = sb_state (blk s x) \<and> regions s' as = regions s as
    \<and> seg_vm s' = seg_vm s \<and> seg_lock s' = seg_lock s"
proof (cases bs)
  case Nil
  have "n_next (seg_nodes s) x = 0" using assms Nil by (simp add: seg_inv_def dll_def)
  then show ?thesis using assms Nil by (intro exI [of _ s] exI [of _ "[]"]) (simp add: merge_right_def join_right_def)
next
  case (Cons y bs')
  then have i: "seg_inv s (as @ x # y # bs')" using assms by simp
  obtain s' where s': "merge_right x s = Some s'" "if sb_state (blk s y) = SEG_FREE
     then seg_inv s' (as @ x # bs') \<and> blk s' x = (blk s x)\<lparr>sb_end := sb_end (blk s y)\<rparr>
       \<and> (\<forall>z. z \<noteq> x \<and> z \<noteq> y \<longrightarrow> seg_blocks s' z = seg_blocks s z) \<and> seg_vm s' = seg_vm s \<and> seg_lock s' = seg_lock s
     else s' = s" using merge_right_ok [OF i] by blast
  show ?thesis
  proof (cases "sb_state (blk s y) = SEG_FREE")
    case True
    have "\<forall>z \<in> set as \<union> set bs'. z \<noteq> x \<and> z \<noteq> y" using seg_inv_block(5) [OF i] by auto
    then have "regions s' as = regions s as" "regions s' bs' = regions s bs'"
      using s'(2) True by (simp_all add: regions_def)
    then show ?thesis using s' True Cons by (intro exI [of _ s'] exI [of _ bs']) (simp add: join_right_def)
  next
    case False
    then show ?thesis using s' assms Cons by (intro exI [of _ s] exI [of _ bs]) (simp add: join_right_def)
  qed
qed

lemma free_block_ok:
  assumes i: "seg_inv s (as @ x # bs)" and b: "seg_blocks s x = Some b"
    and r: "range_free a (sb_end b - sb_start b + 1) (seg_vm s) = Some vm"
  shows "\<exists>s' xs'. free_block x a s = Some s' \<and> seg_inv s' xs' \<and> regions s' xs' = joined (regions s as) (sb_start b) (sb_end b) (regions s bs)
    \<and> seg_vm s' = vm \<and> seg_lock s' = seg_lock s"
proof -
  let ?s = "seg_put x (b\<lparr>sb_state := SEG_FREE\<rparr>) (s\<lparr>seg_vm := vm\<rparr>)"
  have i1: "seg_inv ?s (as @ x # bs)" by (rule seg_put_inv [where b = b]) (use i b in simp_all)
  have rg: "regions ?s as = regions s as" "regions ?s bs = regions s bs"
    using seg_inv_block(3,4) [OF i] by (intro regions_cong, auto)+
  obtain s1 as' where s1: "merge_left x ?s = Some s1" "seg_inv s1 (as' @ x # bs)"
    "(regions s1 as', sb_start (blk s1 x)) = join_left (regions s as) (sb_start b)"
    "sb_end (blk s1 x) = sb_end b" "sb_state (blk s1 x) = SEG_FREE" "regions s1 bs = regions s bs" "seg_vm s1 = vm" "seg_lock s1 = seg_lock s"
    using merge_left_joins [OF i1] rg by auto
  obtain s2 bs' where s2: "merge_right x s1 = Some s2" "seg_inv s2 (as' @ x # bs')"
    "(sb_end (blk s2 x), regions s2 bs') = join_right (sb_end b) (regions s bs)"
    "sb_start (blk s2 x) = sb_start (blk s1 x)" "sb_state (blk s2 x) = SEG_FREE" "regions s2 as' = regions s1 as'" "seg_vm s2 = vm" "seg_lock s2 = seg_lock s"
    using merge_right_joins [OF s1(2)] s1 by auto
  have "free_block x a s = Some s2" using b r s1(1) s2(1) by (simp add: free_block_def seg_range_free_def)
  moreover have "regions s2 (as' @ x # bs') = joined (regions s as) (sb_start b) (sb_end b) (regions s bs)"
    using s2(4,5,6) by (simp add: joined_def flip: s1(3) s2(3)) (simp add: region_def)
  ultimately show ?thesis using s2 by blast
qed

lemma tiles_lower: "tiles a bs z \<Longrightarrow> b \<in> set bs \<Longrightarrow> a \<le> sb_start b"
proof (induction bs arbitrary: a)
  case (Cons c bs)
  show ?case
  proof (cases "b = c")
    case False
    then have "sb_end c + 1 \<le> sb_start b" using Cons by simp
    moreover have "a \<le> sb_end c" "sb_end c < sb_end c + 1" using Cons.prems(1) less_succ [of "sb_end c" z] by simp_all
    ultimately show ?thesis by (meson less_imp_le order.trans)
  qed (use Cons in simp)
qed simp

lemma tiles_distinct: "tiles a bs z \<Longrightarrow> distinct (map sb_start bs)"
proof (induction bs arbitrary: a)
  case (Cons b bs)
  have t: "sb_start b \<le> sb_end b" "sb_end b < z" "tiles (sb_end b + 1) bs z" using Cons.prems by auto
  have "sb_start b \<noteq> sb_start c" if "c \<in> set bs" for c
    using less_le_trans [OF le_less_trans [OF t(1) less_succ [OF t(2)]] tiles_lower [OF t(3) that]] by simp
  then show ?case using Cons.IH [OF t(3)] by auto
qed simp

lemma seg_free'_other:
  assumes "seg_inv s xs" "\<forall>r \<in> set (regions s xs). fst r = a \<longrightarrow> snd (snd r) = None"
  shows "seg_free' a s = Some s"
proof -
  have "find ((\<lambda>b. sb_state b \<noteq> SEG_FREE \<and> sb_start b = a) \<circ> blk s) xs = None"
    using assms(2) by (auto simp: find_None_iff regions_def)
  then show ?thesis unfolding seg_free'_def seg_loop [OF assms(1), where P = "\<lambda>b. sb_state b \<noteq> SEG_FREE \<and> sb_start b = a"] by simp
qed

lemma find_append_None: "find P xs = None \<Longrightarrow> find P (xs @ ys) = find P ys"
  by (induction xs) (auto split: if_splits)

lemma seg_free'_ok:
  assumes i: "seg_inv s xs" and r: "regions s xs = ls @ (a, e, Some f) # rs" and v: "range_free a (e - a + 1) (seg_vm s) = Some vm"
  shows "\<exists>s' xs'. seg_free' a s = Some s' \<and> seg_inv s' xs' \<and> regions s' xs' = joined ls a e rs \<and> seg_vm s' = vm \<and> seg_lock s' = seg_lock s"
proof -
  let ?P = "\<lambda>b. sb_state b \<noteq> SEG_FREE \<and> sb_start b = a"
  obtain as x bs where xs: "xs = as @ x # bs" "regions s as = ls" "region (blk s x) = (a, e, Some f)" "regions s bs = rs"
    using r by (auto simp: regions_def map_eq_append_conv map_eq_Cons_conv)
  have d: "distinct (map sb_start (map (blk s) xs))" by (rule tiles_distinct) (use i in \<open>unfold seg_inv_def, blast\<close>)
  obtain b where b: "seg_blocks s x = Some b" "sb_start b = a" "sb_end b = e" "sb_state b \<noteq> SEG_FREE"
    using i xs(1,3) by (auto simp: seg_inv_def region_def split: if_splits)
  have "a \<notin> (\<lambda>y. sb_start (blk s y)) ` set as" using d xs(1) b by simp
  then have "\<forall>y \<in> set as. sb_start (blk s y) \<noteq> a" by (auto simp: image_iff)
  then have "find (?P \<circ> blk s) as = None" by (auto simp: find_None_iff)
  then have "find (?P \<circ> blk s) xs = Some x" using b xs(1) by (simp add: find_append_None)
  then have "seg_free' a s = free_block x a s"
    unfolding seg_free'_def seg_loop [OF i, where P = ?P] by (simp add: option.map_comp comp_def option.map_ident)
  then show ?thesis using free_block_ok [OF _ b(1), of as bs a vm] i v xs b by simp
qed

section \<open>The public operations\<close>

lemma seg_init_ok:
  assumes "seg_heap s (seg_mallocs s) \<noteq> 0"
  shows "\<exists>s' x. seg_init s = Some (s', True) \<and> seg_inv s' [x] \<and> regions s' [x] = [(0x1000, VM_USER_END, None)] \<and> \<not> seg_lock s'
    \<and> seg_vm s' = seg_vm s \<and> x = seg_heap s (seg_mallocs s) \<and> seg_mallocs s' = seg_mallocs s + 1 \<and> seg_heap s' = seg_heap s"
proof -
  let ?x = "seg_heap s (seg_mallocs s)"
  have "dll m (list_init l) []" for m l by (simp add: dll_def list_init_def hd0_def last0_def)
  from list_add_head_ok [OF this assms, of "seg_nodes s" "block_list s"]
  obtain m l where ml: "list_add_head (seg_nodes s) (list_init (block_list s)) ?x = Some (m, l)" "dll m l [?x]" by auto
  show ?thesis using ml assms
    by (simp add: seg_init_def seg_malloc_def Let_def seg_put_def seg_inv_def regions_def region_def VM_USER_END_def)
qed

text \<open>
  C33. Allocating a segment is first fit on the partition of the user address space: the call fails without any effect when
  no free region is large enough; otherwise it maps pages at the start of the first one that is, and on success turns
  exactly the requested part into an allocated region with the given access rights and leaves the rest of the region free
  and all others as they are.  When the pages cannot be mapped or the structure for the rest cannot be allocated, the
  partition stays as it is.
\<close>

theorem seg_alloc_correct:
  assumes "seg_inv s xs" "\<not> seg_lock s" "n \<noteq> 0" "n mod FRAME_SIZE = 0" "seg_heap s (seg_mallocs s) \<notin> set xs"
  shows "case spec_alloc n flags (regions s xs) of None \<Rightarrow> seg_alloc True n flags s = Some (s, 0)
    | Some (a, cutoff, rs) \<Rightarrow> (case range_alloc a n flags (seg_vm s) of None \<Rightarrow> seg_alloc True n flags s = None
      | Some (vm, ok) \<Rightarrow>
        if \<not> ok then seg_alloc True n flags s = Some (s\<lparr>seg_vm := vm\<rparr>, 0)
        else if cutoff \<and> seg_heap s (seg_mallocs s) = 0
        then seg_alloc True n flags s = map_option (\<lambda>vm. (s\<lparr>seg_vm := vm, seg_mallocs := seg_mallocs s + 1\<rparr>, 0)) (range_free a n vm)
        else \<exists>s' xs'. seg_alloc True n flags s = Some (s', a) \<and> seg_inv s' xs' \<and> regions s' xs' = rs \<and> seg_vm s' = vm \<and> \<not> seg_lock s')"
proof -
  let ?s = "s\<lparr>seg_lock := True\<rparr>"
  have c: "seg_alloc True n flags s = map_option (\<lambda>(s, p). (s\<lparr>seg_lock := False\<rparr>, p)) (seg_alloc' n flags ?s)"
    using assms(2) by (simp add: seg_alloc_def seg_spin_lock_def seg_spin_unlock_def map_option_case split_beta split: option.split)
  have u: "s\<lparr>seg_vm := v, seg_lock := False\<rparr> = s\<lparr>seg_vm := v\<rparr>" "s\<lparr>seg_lock := False\<rparr> = s"
    "s\<lparr>seg_vm := v, seg_mallocs := k, seg_lock := False\<rparr> = s\<lparr>seg_vm := v, seg_mallocs := k\<rparr>" for v k using assms(2) by simp_all
  have i: "seg_inv ?s xs" "seg_heap ?s (seg_mallocs ?s) \<notin> set xs" using assms(1,5) by simp_all
  note sp = seg_alloc'_spec [OF i(1) assms(3,4) i(2), of flags]
  show ?thesis
  proof (cases "spec_alloc n flags (regions s xs)")
    case None
    then show ?thesis using sp by (simp add: c u)
  next
    case (Some t)
    obtain a k rs where t: "t = (a, k, rs)" by (rule prod_cases3)
    show ?thesis
    proof (cases "range_alloc a n flags (seg_vm s)")
      case None
      then show ?thesis using sp Some t by (simp add: c)
    next
      case (Some r)
      obtain vm ok where r: "r = (vm, ok)" by fastforce
      note sp = sp [unfolded seg_inv_vm seg.simps \<open>spec_alloc n flags (regions s xs) = Some t\<close> t Some r option.case prod.case]
      show ?thesis
      proof (cases "\<not> ok \<or> k \<and> seg_heap s (seg_mallocs s) = 0")
        case True
        then show ?thesis using sp \<open>spec_alloc n flags (regions s xs) = Some t\<close> t Some r
          by (cases ok) (simp_all add: c u option.map_comp comp_def)
      next
        case False
        then obtain s' xs' where "seg_alloc' n flags ?s = Some (s', a)" "seg_inv s' xs'" "regions s' xs' = rs" "seg_vm s' = vm"
          using sp Some r by auto
        then show ?thesis using False \<open>spec_alloc n flags (regions s xs) = Some t\<close> t Some r
          by (simp add: c) blast
      qed
    qed
  qed
qed

text \<open>
  C34. Releasing the address of an allocated segment unmaps exactly its pages and makes its region free again, joined with the
  free regions on both sides; any other address leaves the segments as they are.
\<close>

theorem seg_free_correct:
  assumes "seg_inv s xs" "\<not> seg_lock s"
  shows "((\<forall>r \<in> set (regions s xs). fst r = a \<longrightarrow> snd (snd r) = None) \<longrightarrow> seg_free True a s = Some s)
    \<and> (\<forall>ls e f rs vm. regions s xs = ls @ (a, e, Some f) # rs \<and> range_free a (e - a + 1) (seg_vm s) = Some vm \<longrightarrow>
      (\<exists>s' xs'. seg_free True a s = Some s' \<and> seg_inv s' xs' \<and> regions s' xs' = joined ls a e rs \<and> seg_vm s' = vm \<and> \<not> seg_lock s'))"
proof (intro conjI allI impI)
  let ?s = "s\<lparr>seg_lock := True\<rparr>"
  have f: "seg_free True a s = map_option (\<lambda>s. s\<lparr>seg_lock := False\<rparr>) (seg_free' a ?s)"
    using assms(2) by (simp add: seg_free_def seg_spin_lock_def seg_spin_unlock_def map_option_case split: option.split)
  have i: "seg_inv ?s xs" using assms(1) by simp
  show "seg_free True a s = Some s" if "\<forall>r \<in> set (regions s xs). fst r = a \<longrightarrow> snd (snd r) = None"
    using seg_free'_other [OF i, of a] that assms(2) by (simp add: f)
  fix ls e g rs vm
  assume "regions s xs = ls @ (a, e, Some g) # rs \<and> range_free a (e - a + 1) (seg_vm s) = Some vm"
  then obtain s' xs' where "seg_free' a ?s = Some s'" "seg_inv s' xs'" "regions s' xs' = joined ls a e rs" "seg_vm s' = vm"
    using seg_free'_ok [OF i, of ls a e g rs vm] by auto
  then show "\<exists>s' xs'. seg_free True a s = Some s' \<and> seg_inv s' xs' \<and> regions s' xs' = joined ls a e rs \<and> seg_vm s' = vm \<and> \<not> seg_lock s'"
    by (intro exI [of _ "s'\<lparr>seg_lock := False\<rparr>"] exI [of _ xs']) (simp add: f)
qed

text \<open>A process with fresh segments whose address space has enough memory for two pages.\<close>

definition seg_empty :: "vm \<Rightarrow> seg" where
  "seg_empty vm = \<lparr>seg_lock = False, block_list = \<lparr>l_head = 0, l_tail = 0, l_size = 0\<rparr>, seg_nodes = \<lparr>n_next = (\<lambda>_. 0), n_prev = (\<lambda>_. 0)\<rparr>,
     seg_blocks = (\<lambda>_. None), seg_vm = vm, seg_mallocs = 0, seg_heap = (\<lambda>k. of_nat k + 1),
     seg_junk = (\<lambda>_. \<lparr>sb_start = 0, sb_end = 0, sb_state = SEG_FREE, sb_flags = 0\<rparr>)\<rparr>"

lemma seg_example:
  obtains s vm vm1 vm2 where "seg_inv s [1]" "regions s [1] = [(0x1000, VM_USER_END, None)]" "\<not> seg_lock s" "seg_heap s (seg_mallocs s) = 2"
    "seg_vm s = vm" "range_alloc 0x1000 0x2000 VM_W vm = Some (vm1, True)" "range_free 0x1000 0x2000 vm1 = Some vm2"
proof -
  obtain vm M where s: "vm_inv {} vm M" "size M = 1036" "\<forall>v. mapping_of vm v = mapping_of vm_example v" by (rule vm_large_example)
  note free = vm_large_free [OF s(3)]
  obtain vm1 where vm1: "range_alloc 0x1000 0x2000 VM_W vm = Some (vm1, True)" using range_alloc_ok [OF s(1) free, of VM_W] s(2) by auto
  obtain vm2 where vm2: "range_free 0x1000 0x2000 vm1 = Some vm2" using range_free_restores [OF s(1) free vm1] by blast
  show thesis using seg_init_ok [of "seg_empty vm"] that [of _ vm vm1 vm2, OF _ _ _ _ _ vm1 vm2] by (auto simp: seg_empty_def)
qed

lemma spec_alloc_example:
  "spec_alloc 0x2000 VM_W [(0x1000, VM_USER_END, None)] = Some (0x1000, True, [(0x1000, 0x2FFF, Some VM_W), (0x3000, VM_USER_END, None)])"
  by (simp add: fits_def VM_USER_END_def)

theorem seg_alloc_correct_witness:
  "\<exists>s s' xs. seg_alloc True 0x2000 VM_W s = Some (s', 0x1000)
     \<and> regions s' xs = [(0x1000, 0x2FFF, Some VM_W), (0x3000, VM_USER_END, None)]"
proof -
  obtain s vm vm1 vm2 where s: "seg_inv s [1]" "regions s [1] = [(0x1000, VM_USER_END, None)]" "\<not> seg_lock s" "seg_heap s (seg_mallocs s) = 2"
    "seg_vm s = vm" "range_alloc 0x1000 0x2000 VM_W vm = Some (vm1, True)" by (rule seg_example)
  have h: "(0x2000 :: u64) \<noteq> 0" "(0x2000 :: u64) mod FRAME_SIZE = 0" "seg_heap s (seg_mallocs s) \<notin> set [1]" using s(4) by simp_all
  from seg_alloc_correct [OF s(1,3) h, of VM_W] show ?thesis unfolding s spec_alloc_example
    by (simp add: s) blast
qed

lemma seg_allocated_example:
  obtains s xs vm1 vm2 where "seg_inv s xs" "regions s xs = [(0x1000, 0x2FFF, Some VM_W), (0x3000, VM_USER_END, None)]" "\<not> seg_lock s"
    "seg_vm s = vm1" "range_free 0x1000 0x2000 vm1 = Some vm2"
proof -
  obtain s vm vm1 vm2 where s: "seg_inv s [1]" "regions s [1] = [(0x1000, VM_USER_END, None)]" "\<not> seg_lock s" "seg_heap s (seg_mallocs s) = 2"
    "seg_vm s = vm" "range_alloc 0x1000 0x2000 VM_W vm = Some (vm1, True)" "range_free 0x1000 0x2000 vm1 = Some vm2" by (rule seg_example)
  have h: "(0x2000 :: u64) \<noteq> 0" "(0x2000 :: u64) mod FRAME_SIZE = 0" "seg_heap s (seg_mallocs s) \<notin> set [1]" using s(4) by simp_all
  obtain s1 xs where "seg_inv s1 xs" "regions s1 xs = [(0x1000, 0x2FFF, Some VM_W), (0x3000, VM_USER_END, None)]" "seg_vm s1 = vm1" "\<not> seg_lock s1"
    using seg_alloc'_spec [OF s(1) h, of VM_W] s(3) unfolding s spec_alloc_example by (auto simp: s)
  then show thesis using s(7) by (intro that [of s1 xs vm1 vm2])
qed

theorem seg_free_correct_witness:
  "\<exists>s s' xs. regions s xs = [(0x1000, 0x2FFF, Some VM_W), (0x3000, VM_USER_END, None)] \<and> seg_free True 0x1000 s = Some s'
     \<and> seg_free True 0x3000 s = Some s \<and> (\<exists>xs'. regions s' xs' = [(0x1000, VM_USER_END, None)])"
proof -
  obtain s1 xs vm1 vm2 where s1: "seg_inv s1 xs" "regions s1 xs = [(0x1000, 0x2FFF, Some VM_W), (0x3000, VM_USER_END, None)]" "\<not> seg_lock s1"
    "seg_vm s1 = vm1" "range_free 0x1000 0x2000 vm1 = Some vm2" by (rule seg_allocated_example)
  have j: "joined [] 0x1000 0x2FFF [(0x3000, VM_USER_END, None)] = [(0x1000, VM_USER_END, None)]"
    by (simp add: joined_def join_left_def join_right_def)
  have "seg_free True 0x3000 s1 = Some s1" using seg_free_correct [OF s1(1,3), of "0x3000"] s1(2) by simp
  moreover obtain s' xs' where "seg_free True 0x1000 s1 = Some s'" "regions s' xs' = [(0x1000, VM_USER_END, None)]"
    using seg_free_correct [OF s1(1,3), of "0x1000", THEN conjunct2, rule_format, of "[]" "0x2FFF" VM_W "[(0x3000, VM_USER_END, None)]" vm2] s1 j
    by auto
  ultimately show ?thesis using s1(2) by blast
qed

end
