(* ===== verification/Sched.thy ===== *)
theory Sched
  imports Klist "HOL-Library.Monad_Syntax"
begin

text \<open>
  The scheduler, \<^verbatim>\<open>kernel/proc/sched.c\<close>: one queue of runnable threads for all processors, and the switch of a
  processor from one thread to another on a timer tick.  Threads and processes are heaps from addresses to structures; the
  links of the queue's nodes are a separate heap.  \<open>None\<close> as a result is an access to a structure that is not allocated, a
  panic, or a loop or lock that never ends.
\<close>

section \<open>Data\<close>

text \<open>The contents of the vector registers as the instruction \<^verbatim>\<open>xsave64\<close> stores them.\<close>

type_synonym vregs = "u64 list"

record cpu_state =
  st_regs :: "u64 list"
  st_id :: u64
  st_error :: u64
  st_rip :: u64
  st_cs :: u64
  st_rflags :: u64
  st_rsp :: u64
  st_ss :: u64

datatype thread_state = THREAD_RUNNING | THREAD_SUSPENDED | THREAD_ZOMBIE

record thread =
  kernel_rsp :: u64
  syscall_rsp :: u64
  kstack :: addr
  stack :: addr
  t_flags :: u32
  t_lock :: bool
  t_state :: thread_state
  t_proc :: addr
  t_coreId :: int
  t_name :: "u8 list"
  t_regs :: "u64 list"
  t_rip :: u64
  t_rsp :: u64
  t_rflags :: u64
  t_cs :: u64
  t_ss :: u64
  xsave_state :: addr

record proc =
  pml4_table :: u64
  thread_list :: list_t
  vbeContext :: int
  messageQueue :: list_t
  p_name :: "u8 list"
  processListNode :: addr

text \<open>A processor: its structure \<^verbatim>\<open>cpu_t\<close>, the address space register and the vector registers.\<close>

record cpu =
  cpu_thread :: addr
  idle_thread :: addr
  cpu_proc :: addr
  coreId :: int
  rsp0 :: u64
  cpu_cr3 :: u64
  cpu_vec :: vregs

record sched =
  thread_queue :: list_t
  thread_queue_lock :: bool
  sched_nodes :: nodes
  threads :: "addr \<Rightarrow> thread option"
  procs :: "addr \<Rightarrow> proc option"
  cpus :: "cpu list"
  xareas :: "addr \<Rightarrow> vregs option"

section \<open>Operations\<close>

definition queue_spin_lock :: "'a sched_scheme \<Rightarrow> 'a sched_scheme option" where
  "queue_spin_lock s = (if thread_queue_lock s then None else Some (s\<lparr>thread_queue_lock := True\<rparr>))"

definition queue_spin_unlock :: "'a sched_scheme \<Rightarrow> 'a sched_scheme" where
  "queue_spin_unlock s = s\<lparr>thread_queue_lock := False\<rparr>"

definition put_thread :: "addr \<Rightarrow> thread \<Rightarrow> 'a sched_scheme \<Rightarrow> 'a sched_scheme" where
  "put_thread p t s = s\<lparr>threads := (threads s)(p := Some t)\<rparr>"

definition put_cpu :: "nat \<Rightarrow> cpu \<Rightarrow> 'a sched_scheme \<Rightarrow> 'a sched_scheme" where
  "put_cpu me c s = s\<lparr>cpus := (cpus s)[me := c]\<rparr>"

definition queue_add_tail :: "addr \<Rightarrow> 'a sched_scheme \<Rightarrow> 'a sched_scheme option" where
  "queue_add_tail t s = map_option (\<lambda>(m, l). s\<lparr>sched_nodes := m, thread_queue := l\<rparr>) (list_add_tail (sched_nodes s) (thread_queue s) t)"

definition queue_remove :: "addr \<Rightarrow> 'a sched_scheme \<Rightarrow> 'a sched_scheme" where
  "queue_remove t s = (let (m, l) = list_remove (sched_nodes s) (thread_queue s) t in s\<lparr>sched_nodes := m, thread_queue := l\<rparr>)"

definition sched_thread_resume :: "addr \<Rightarrow> 'a sched_scheme \<Rightarrow> 'a sched_scheme option" where
  "sched_thread_resume t s = do {
     s \<leftarrow> queue_spin_lock s;
     s \<leftarrow> queue_add_tail t s;
     Some (queue_spin_unlock s)}"

definition sched_thread_suspend :: "addr \<Rightarrow> 'a sched_scheme \<Rightarrow> 'a sched_scheme option" where
  "sched_thread_suspend t s = do {
     s \<leftarrow> queue_spin_lock s;
     Some (queue_spin_unlock (queue_remove t s))}"

definition proc_switch :: "nat \<Rightarrow> addr \<Rightarrow> 'a sched_scheme \<Rightarrow> 'a sched_scheme option" where
  "proc_switch me p s = do {
     pr \<leftarrow> procs s p;
     Some (put_cpu me ((cpus s ! me)\<lparr>cpu_proc := p, cpu_cr3 := pml4_table pr\<rparr>) s)}"

text \<open>The vector state is stored to and loaded from the area of a thread.\<close>

definition xsave :: "nat \<Rightarrow> addr \<Rightarrow> 'a sched_scheme \<Rightarrow> 'a sched_scheme option" where
  "xsave me area s = do {
     _ \<leftarrow> xareas s area;
     Some (s\<lparr>xareas := (xareas s)(area := Some (cpu_vec (cpus s ! me)))\<rparr>)}"

definition xrstor :: "nat \<Rightarrow> addr \<Rightarrow> 'a sched_scheme \<Rightarrow> 'a sched_scheme option" where
  "xrstor me area s = do {
     v \<leftarrow> xareas s area;
     Some (put_cpu me ((cpus s ! me)\<lparr>cpu_vec := v\<rparr>) s)}"

definition tss_set_rsp0 :: "nat \<Rightarrow> u64 \<Rightarrow> 'a sched_scheme \<Rightarrow> 'a sched_scheme" where
  "tss_set_rsp0 me v s = put_cpu me ((cpus s ! me)\<lparr>rsp0 := v\<rparr>) s"

text \<open>The search for the first queued thread of a core; \<open>0\<close> when the end of the queue is reached.\<close>

partial_function (option) pick_next :: "nodes \<Rightarrow> (addr \<Rightarrow> thread option) \<Rightarrow> int \<Rightarrow> addr \<Rightarrow> addr option" where
  "pick_next m ths core node =
     (if node = 0 then Some 0
      else do {
        t \<leftarrow> ths node;
        if t_coreId t \<noteq> core then pick_next m ths core (n_next m node) else Some node})"

definition save_regs :: "nat \<Rightarrow> addr \<Rightarrow> cpu_state \<Rightarrow> 'a sched_scheme \<Rightarrow> 'a sched_scheme option" where
  "save_regs me currThread state s = do {
     t \<leftarrow> threads s currThread;
     let s = put_thread currThread (t\<lparr>t_regs := st_regs state, t_rip := st_rip state, t_rsp := st_rsp state,
       t_rflags := st_rflags state, t_cs := st_cs state, t_ss := st_ss state\<rparr>) s;
     xsave me (xsave_state t) s}"

definition restore_regs :: "nat \<Rightarrow> addr \<Rightarrow> cpu_state \<Rightarrow> 'a sched_scheme \<Rightarrow> ('a sched_scheme \<times> cpu_state) option" where
  "restore_regs me nextThread state s = do {
     t \<leftarrow> threads s nextThread;
     let state = state\<lparr>st_regs := t_regs t, st_rip := t_rip t, st_rsp := t_rsp t, st_rflags := t_rflags t,
       st_cs := t_cs t, st_ss := t_ss t\<rparr>;
     s \<leftarrow> xrstor me (xsave_state t) s;
     Some (s, state)}"

definition switch_thread :: "nat \<Rightarrow> addr \<Rightarrow> addr \<Rightarrow> cpu_state \<Rightarrow> 'a sched_scheme \<Rightarrow> ('a sched_scheme \<times> cpu_state) option" where
  "switch_thread me currThread nextThread state s = do {
     let s = put_cpu me ((cpus s ! me)\<lparr>cpu_thread := nextThread\<rparr>) s;
     s \<leftarrow> (if currThread \<noteq> 0 then save_regs me currThread state s else Some s);
     (s, state) \<leftarrow> restore_regs me nextThread state s;
     nt \<leftarrow> threads s nextThread;
     s \<leftarrow> (if currThread = 0 then proc_switch me (t_proc nt) s
           else do {
             ct \<leftarrow> threads s currThread;
             if t_proc ct \<noteq> t_proc nt then proc_switch me (t_proc nt) s else Some s});
     Some (tss_set_rsp0 me (kernel_rsp nt) s, state)}"

definition queue_current :: "addr \<Rightarrow> 'a sched_scheme \<Rightarrow> 'a sched_scheme option" where
  "queue_current currThread s =
     (if currThread \<noteq> 0 then do {
        ct \<leftarrow> threads s currThread;
        if t_state ct = THREAD_RUNNING then queue_add_tail currThread s else Some s}
      else Some s)"

definition sched_tick :: "nat \<Rightarrow> cpu_state \<Rightarrow> 'a sched_scheme \<Rightarrow> ('a sched_scheme \<times> cpu_state) option" where
  "sched_tick me state s = do {
     let currThread = cpu_thread (cpus s ! me);
     s \<leftarrow> queue_spin_lock s;
     s \<leftarrow> queue_current currThread s;
     nextThreadNode \<leftarrow> pick_next (sched_nodes s) (threads s) (coreId (cpus s ! me)) (l_head (thread_queue s));
     let s = (if nextThreadNode \<noteq> 0 then queue_remove nextThreadNode s else s);
     let nextThread = (if nextThreadNode = 0 then idle_thread (cpus s ! me) else nextThreadNode);
     (s, state) \<leftarrow> (if currThread \<noteq> nextThread then switch_thread me currThread nextThread state s else Some (s, state));
     Some (queue_spin_unlock s, state)}"

section \<open>Well-formed states\<close>

abbreviation th :: "'a sched_scheme \<Rightarrow> addr \<Rightarrow> thread" where
  "th s t \<equiv> the (threads s t)"

definition thread_ok :: "'a sched_scheme \<Rightarrow> addr \<Rightarrow> bool" where
  "thread_ok s t \<longleftrightarrow> (case threads s t of None \<Rightarrow> False
     | Some h \<Rightarrow> length (t_regs h) = 15 \<and> procs s (t_proc h) \<noteq> None \<and> xareas s (xsave_state h) \<noteq> None)"

text \<open>
  The state of a processor: it runs nothing or a thread that is not queued, in the address space of the thread's process
  and with the thread's kernel stack; its idle thread is never runnable.
\<close>

definition cpu_ok :: "'a sched_scheme \<Rightarrow> addr list \<Rightarrow> cpu \<Rightarrow> bool" where
  "cpu_ok s q c \<longleftrightarrow> thread_ok s (idle_thread c) \<and> idle_thread c \<noteq> 0 \<and> t_state (th s (idle_thread c)) \<noteq> THREAD_RUNNING
     \<and> (cpu_thread c \<noteq> 0 \<longrightarrow> thread_ok s (cpu_thread c) \<and> cpu_thread c \<notin> set q \<and> cpu_proc c = t_proc (th s (cpu_thread c))
        \<and> cpu_cr3 c = pml4_table (the (procs s (cpu_proc c))) \<and> rsp0 c = kernel_rsp (th s (cpu_thread c)))"

text \<open>No thread runs on two processors, and the idle thread of a processor on no other one.\<close>

definition cpus_apart :: "cpu list \<Rightarrow> bool" where
  "cpus_apart cs \<longleftrightarrow> (\<forall>i < length cs. \<forall>j < length cs. i \<noteq> j \<longrightarrow>
     idle_thread (cs ! i) \<noteq> idle_thread (cs ! j) \<and> cpu_thread (cs ! i) \<noteq> idle_thread (cs ! j)
     \<and> (cpu_thread (cs ! i) = cpu_thread (cs ! j) \<longrightarrow> cpu_thread (cs ! i) = 0))"

definition areas_apart :: "(addr \<Rightarrow> thread option) \<Rightarrow> bool" where
  "areas_apart ths \<longleftrightarrow> (\<forall>t t' h h'. ths t = Some h \<and> ths t' = Some h' \<and> t \<noteq> t' \<longrightarrow> xsave_state h \<noteq> xsave_state h')"

lemma areas_apart_mono:
  assumes "areas_apart ths" "\<And>x z. ths' x = Some z \<Longrightarrow> \<exists>y. ths x = Some y \<and> xsave_state y = xsave_state z"
  shows "areas_apart ths'"
  using assms unfolding areas_apart_def by metis

definition sched_wf :: "'a sched_scheme \<Rightarrow> addr list \<Rightarrow> bool" where
  "sched_wf s q \<longleftrightarrow> \<not> thread_queue_lock s \<and> dll (sched_nodes s) (thread_queue s) q
     \<and> (\<forall>t \<in> set q. thread_ok s t \<and> t_state (th s t) = THREAD_RUNNING)
     \<and> (\<forall>c \<in> set (cpus s). cpu_ok s q c) \<and> cpus_apart (cpus s) \<and> areas_apart (threads s)"

lemma thread_ok_alloc: "thread_ok s t \<Longrightarrow> \<exists>h. threads s t = Some h"
  by (auto simp: thread_ok_def split: option.splits)

section \<open>The choice of the next thread\<close>

definition requeue :: "'a sched_scheme \<Rightarrow> nat \<Rightarrow> addr list \<Rightarrow> addr list" where
  "requeue s me q = (let c = cpu_thread (cpus s ! me) in q @ (if c \<noteq> 0 \<and> t_state (th s c) = THREAD_RUNNING then [c] else []))"

definition chosen :: "'a sched_scheme \<Rightarrow> nat \<Rightarrow> addr list \<Rightarrow> addr" where
  "chosen s me q = (case find (\<lambda>t. t_coreId (th s t) = coreId (cpus s ! me)) (requeue s me q) of
     None \<Rightarrow> idle_thread (cpus s ! me) | Some t \<Rightarrow> t)"

lemma pick_next_find:
  assumes "dls m p q 0" "0 \<notin> set q" "\<forall>t \<in> set q. ths t \<noteq> None"
  shows "pick_next m ths core (hd0 q) = Some (case find (\<lambda>t. t_coreId (the (ths t)) = core) q of None \<Rightarrow> 0 | Some t \<Rightarrow> t)"
  using assms
proof (induction q arbitrary: p)
  case Nil
  then show ?case by (simp add: pick_next.simps)
next
  case (Cons t q)
  then obtain h where h: "ths t = Some h" by auto
  have "pick_next m ths core (hd0 q) = Some (case find (\<lambda>t. t_coreId (the (ths t)) = core) q of None \<Rightarrow> 0 | Some t \<Rightarrow> t)"
    using Cons by auto
  then show ?case using Cons.prems h by (subst pick_next.simps) auto
qed

lemma find_in_set: "find P xs = Some x \<Longrightarrow> x \<in> set xs \<and> P x"
  by (induction xs) (auto split: if_splits)

section \<open>The switch\<close>

text \<open>What is kept of a thread that does not run, and what a processor works with.\<close>

type_synonym ctx = "u64 list \<times> u64 \<times> u64 \<times> u64 \<times> u64 \<times> u64 \<times> vregs option"

definition saved :: "'a sched_scheme \<Rightarrow> addr \<Rightarrow> ctx" where
  "saved s t = (let h = th s t in (t_regs h, t_rip h, t_rsp h, t_rflags h, t_cs h, t_ss h, xareas s (xsave_state h)))"

definition live :: "cpu_state \<Rightarrow> cpu \<Rightarrow> ctx" where
  "live st c = (st_regs st, st_rip st, st_rsp st, st_rflags st, st_cs st, st_ss st, Some (cpu_vec c))"

definition with_regs :: "cpu_state \<Rightarrow> thread \<Rightarrow> thread" where
  "with_regs st h = h\<lparr>t_regs := st_regs st, t_rip := st_rip st, t_rsp := st_rsp st, t_rflags := st_rflags st, t_cs := st_cs st, t_ss := st_ss st\<rparr>"

lemma with_regs_simps [simp]: "t_state (with_regs st h) = t_state h" "t_proc (with_regs st h) = t_proc h"
  "t_coreId (with_regs st h) = t_coreId h" "xsave_state (with_regs st h) = xsave_state h" "kernel_rsp (with_regs st h) = kernel_rsp h"
  "t_regs (with_regs st h) = st_regs st"
  by (simp_all add: with_regs_def)

lemma put_simps [simp]: "threads (put_cpu i c s) = threads s" "cpus (put_cpu i c s) = (cpus s)[i := c]" "procs (put_cpu i c s) = procs s"
  "xareas (put_cpu i c s) = xareas s" "thread_queue (put_cpu i c s) = thread_queue s" "sched_nodes (put_cpu i c s) = sched_nodes s"
  "thread_queue_lock (put_cpu i c s) = thread_queue_lock s" "sched.more (put_cpu i c s) = sched.more s"
  "threads (put_thread t h s) = (threads s)(t := Some h)" "cpus (put_thread t h s) = cpus s" "procs (put_thread t h s) = procs s"
  "xareas (put_thread t h s) = xareas s" "thread_queue (put_thread t h s) = thread_queue s" "sched_nodes (put_thread t h s) = sched_nodes s"
  "thread_queue_lock (put_thread t h s) = thread_queue_lock s" "sched.more (put_thread t h s) = sched.more s"
  by (simp_all add: put_cpu_def put_thread_def)

lemma switch_thread_ok:
  assumes me: "me < length (cpus s)" and n: "thread_ok s n" and c: "c \<noteq> 0 \<Longrightarrow> thread_ok s c" and ne: "c \<noteq> n"
    and ap: "areas_apart (threads s)"
    and pr: "c \<noteq> 0 \<Longrightarrow> cpu_proc (cpus s ! me) = t_proc (th s c) \<and> cpu_cr3 (cpus s ! me) = pml4_table (the (procs s (t_proc (th s c))))"
  shows "\<exists>s' st'. switch_thread me c n st s = Some (s', st')
    \<and> threads s' = (if c \<noteq> 0 then (threads s)(c := Some (with_regs st (th s c))) else threads s)
    \<and> cpus s' = (cpus s)[me := cpus s' ! me] \<and> procs s' = procs s \<and> thread_queue s' = thread_queue s \<and> sched_nodes s' = sched_nodes s
    \<and> thread_queue_lock s' = thread_queue_lock s \<and> sched.more s' = sched.more s
    \<and> xareas s' = (if c \<noteq> 0 then (xareas s)(xsave_state (th s c) := Some (cpu_vec (cpus s ! me))) else xareas s)
    \<and> cpu_thread (cpus s' ! me) = n \<and> idle_thread (cpus s' ! me) = idle_thread (cpus s ! me) \<and> coreId (cpus s' ! me) = coreId (cpus s ! me)
    \<and> cpu_proc (cpus s' ! me) = t_proc (th s n) \<and> cpu_cr3 (cpus s' ! me) = pml4_table (the (procs s (t_proc (th s n)))) \<and> rsp0 (cpus s' ! me) = kernel_rsp (th s n)
    \<and> live st' (cpus s' ! me) = saved s n"
proof -
  obtain hn where hn: "threads s n = Some hn" "procs s (t_proc hn) \<noteq> None" "xareas s (xsave_state hn) \<noteq> None"
    using n by (auto simp: thread_ok_def split: option.splits)
  show ?thesis
  proof (cases "c = 0")
    case True
    then show ?thesis using hn me
      by (auto simp: switch_thread_def restore_regs_def xrstor_def proc_switch_def tss_set_rsp0_def live_def saved_def)
  next
    case False
    obtain hc where hc: "threads s c = Some hc" "procs s (t_proc hc) \<noteq> None" "xareas s (xsave_state hc) \<noteq> None"
      using c False by (auto simp: thread_ok_def split: option.splits)
    have "xsave_state hn \<noteq> xsave_state hc" using ap ne hn(1) hc(1) unfolding areas_apart_def by metis
    then show ?thesis using False hn hc me ne pr [OF False]
      by (cases "t_proc hc = t_proc hn") (auto simp: Let_def switch_thread_def restore_regs_def save_regs_def xsave_def xrstor_def proc_switch_def tss_set_rsp0_def live_def
          saved_def with_regs_def)
  qed
qed

section \<open>The tick\<close>

lemma queue_add_tail_ok:
  assumes "dll (sched_nodes s) (thread_queue s) q" "t \<noteq> 0" "t \<notin> set q"
  shows "\<exists>m l. queue_add_tail t s = Some (s\<lparr>sched_nodes := m, thread_queue := l\<rparr>) \<and> dll m l (q @ [t])"
  using list_add_tail_ok [OF assms] by (auto simp: queue_add_tail_def)

lemma queue_remove_ok:
  assumes "dll (sched_nodes s) (thread_queue s) q" "t \<in> set q"
  shows "\<exists>m l. queue_remove t s = s\<lparr>sched_nodes := m, thread_queue := l\<rparr> \<and> dll m l (remove1 t q)"
proof -
  obtain as bs where q: "q = as @ t # bs" "t \<notin> set as" using split_list_first [OF assms(2)] by blast
  obtain m l where ml: "list_remove (sched_nodes s) (thread_queue s) t = (m, l)" by fastforce
  have "dll m l (as @ bs)" using list_remove_ok [OF ml] assms(1) q(1) by blast
  then show ?thesis using q ml by (intro exI [of _ m] exI [of _ l]) (simp add: queue_remove_def remove1_append)
qed

text \<open>The part of the tick before the switch.\<close>

lemma tick_queue:
  assumes wf: "sched_wf s q" and me: "me < length (cpus s)"
  defines "c \<equiv> cpu_thread (cpus s ! me)" and "n \<equiv> chosen s me q"
  shows "\<exists>m l. sched_tick me st s = map_option (\<lambda>(s, st). (queue_spin_unlock s, st))
      (if c \<noteq> n then switch_thread me c n st (s\<lparr>thread_queue_lock := True, sched_nodes := m, thread_queue := l\<rparr>)
       else Some (s\<lparr>thread_queue_lock := True, sched_nodes := m, thread_queue := l\<rparr>, st))
    \<and> dll m l (remove1 n (requeue s me q)) \<and> thread_ok s n \<and> (n = idle_thread (cpus s ! me) \<or> n \<in> set (requeue s me q))"
proof -
  let ?core = "coreId (cpus s ! me)"
  have w: "\<not> thread_queue_lock s" "dll (sched_nodes s) (thread_queue s) q" "\<forall>t \<in> set q. thread_ok s t \<and> t_state (th s t) = THREAD_RUNNING"
    "cpu_ok s q (cpus s ! me)" using wf me by (auto simp: sched_wf_def)
  have c: "c \<noteq> 0 \<Longrightarrow> thread_ok s c \<and> c \<notin> set q" and idle: "thread_ok s (idle_thread (cpus s ! me))" "idle_thread (cpus s ! me) \<noteq> 0"
    "t_state (th s (idle_thread (cpus s ! me))) \<noteq> THREAD_RUNNING" using w(4) by (auto simp: cpu_ok_def c_def)
  obtain m1 l1 where a: "dll m1 l1 (requeue s me q)"
    "queue_current c (s\<lparr>thread_queue_lock := True\<rparr>) = Some (s\<lparr>thread_queue_lock := True, sched_nodes := m1, thread_queue := l1\<rparr>)"
  proof (cases "c \<noteq> 0 \<and> t_state (th s c) = THREAD_RUNNING")
    case True
    obtain h where h: "threads s c = Some h" using c True by (auto simp: thread_ok_def split: option.splits)
    obtain m l where "queue_add_tail c (s\<lparr>thread_queue_lock := True\<rparr>) = Some (s\<lparr>thread_queue_lock := True, sched_nodes := m, thread_queue := l\<rparr>)"
      "dll m l (q @ [c])" using queue_add_tail_ok [of "s\<lparr>thread_queue_lock := True\<rparr>" q c] w(2) c True by auto
    then show ?thesis using True h by (intro that [of m l]) (simp_all add: requeue_def queue_current_def flip: c_def)
  next
    case False
    then show ?thesis using c w(2)
      by (intro that [of "sched_nodes s" "thread_queue s"]) (auto simp: requeue_def queue_current_def thread_ok_def split: option.splits simp flip: c_def)
  qed
  have ok: "thread_ok s t \<and> t_state (th s t) = THREAD_RUNNING" if "t \<in> set (requeue s me q)" for t
    using that w(3) c by (auto simp: requeue_def split: if_splits simp flip: c_def)
  have al: "\<forall>t \<in> set (requeue s me q). threads s t \<noteq> None" using ok thread_ok_alloc by fastforce
  have p: "pick_next m1 (threads s) ?core (l_head l1)
      = Some (case find (\<lambda>t. t_coreId (th s t) = ?core) (requeue s me q) of None \<Rightarrow> 0 | Some t \<Rightarrow> t)"
    using pick_next_find [of m1 0 "requeue s me q" "threads s" ?core, OF _ _ al] a(1) by (simp add: dll_def)
  show ?thesis
  proof (cases "find (\<lambda>t. t_coreId (th s t) = ?core) (requeue s me q)")
    case None
    then have n: "n = idle_thread (cpus s ! me)" by (simp add: n_def chosen_def)
    then have "n \<notin> set (requeue s me q)" using ok idle(3) by auto
    then show ?thesis using a p None idle n w(1)
      by (intro exI [of _ m1] exI [of _ l1])
        (simp add: sched_tick_def queue_spin_lock_def remove1_idem map_option_case split_beta Let_def split: option.split flip: c_def)
  next
    case (Some t)
    have t: "t \<in> set (requeue s me q)" "n = t" using find_in_set [OF Some] Some by (simp_all add: n_def chosen_def)
    have "t \<noteq> 0" using a(1) t(1) by (auto simp: dll_def)
    obtain m2 l2 where "queue_remove t (s\<lparr>thread_queue_lock := True, sched_nodes := m1, thread_queue := l1\<rparr>)
        = s\<lparr>thread_queue_lock := True, sched_nodes := m2, thread_queue := l2\<rparr>" "dll m2 l2 (remove1 t (requeue s me q))"
      using queue_remove_ok [of "s\<lparr>thread_queue_lock := True, sched_nodes := m1, thread_queue := l1\<rparr>", OF _ t(1)] a(1) by auto
    then show ?thesis using a(2) p Some t ok [OF t(1)] w(1) \<open>t \<noteq> 0\<close>
      by (intro exI [of _ m2] exI [of _ l2])
        (simp add: sched_tick_def queue_spin_lock_def map_option_case split_beta Let_def split: option.split flip: c_def)
  qed
qed

text \<open>
  One tick: which thread runs next, what is saved and restored, and that the state stays well formed.
\<close>

definition tick_post :: "nat \<Rightarrow> cpu_state \<Rightarrow> addr list \<Rightarrow> 'a sched_scheme \<Rightarrow> 'a sched_scheme \<Rightarrow> cpu_state \<Rightarrow> bool" where
  "tick_post me st q s s' st' \<longleftrightarrow>
     (let c = cpu_thread (cpus s ! me); n = chosen s me q in
      cpu_thread (cpus s' ! me) = n \<and> coreId (cpus s' ! me) = coreId (cpus s ! me) \<and> cpus s' = (cpus s)[me := cpus s' ! me]
      \<and> (\<forall>t. t \<noteq> c \<or> t = 0 \<longrightarrow> threads s' t = threads s t \<and> (threads s t \<noteq> None \<longrightarrow> saved s' t = saved s t))
      \<and> (c \<noteq> 0 \<longrightarrow> threads s' c \<noteq> None \<and> t_state (th s' c) = t_state (th s c) \<and> t_coreId (th s' c) = t_coreId (th s c))
      \<and> (if c = n then st' = st \<and> cpus s' ! me = cpus s ! me
         else live st' (cpus s' ! me) = saved s n \<and> (c \<noteq> 0 \<longrightarrow> saved s' c = live st (cpus s ! me))))"

lemma cpus_apart_update:
  assumes "cpus_apart cs" "me < length cs" "idle_thread c = idle_thread (cs ! me)"
    "cpu_thread c = idle_thread (cs ! me) \<or> (\<forall>j < length cs. j \<noteq> me \<longrightarrow> cpu_thread c \<noteq> cpu_thread (cs ! j) \<and> cpu_thread c \<noteq> idle_thread (cs ! j))"
  shows "cpus_apart (cs[me := c])"
  using assms unfolding cpus_apart_def by (auto simp: nth_list_update)

lemma thread_ok_mono:
  assumes "thread_ok s t" "procs s' = procs s" "\<And>a. xareas s a \<noteq> None \<Longrightarrow> xareas s' a \<noteq> None"
    "\<And>h. threads s t = Some h \<Longrightarrow> \<exists>h'. threads s' t = Some h' \<and> length (t_regs h') = 15 \<and> t_proc h' = t_proc h \<and> xsave_state h' = xsave_state h"
  shows "thread_ok s' t"
  using assms by (fastforce simp: thread_ok_def split: option.splits)

lemma tick_keeps_wf:
  assumes wf: "sched_wf s q" and me: "me < length (cpus s)" and st: "length (st_regs st) = 15"
  defines "c \<equiv> cpu_thread (cpus s ! me)"
  assumes n: "thread_ok s n" "n = idle_thread (cpus s ! me) \<or> n \<in> set (requeue s me q)"
    and lk: "\<not> thread_queue_lock s'" and dl: "dll (sched_nodes s') (thread_queue s') (remove1 n (requeue s me q))"
    and dq: "distinct (requeue s me q)"
    and T: "threads s' = (if c \<noteq> 0 \<and> c \<noteq> n then (threads s)(c := Some (with_regs st (th s c))) else threads s)"
    and X: "\<And>a. xareas s a \<noteq> None \<Longrightarrow> xareas s' a \<noteq> None" and P: "procs s' = procs s"
    and C: "cpus s' = (cpus s)[me := c']" "cpu_thread c' = n" "idle_thread c' = idle_thread (cpus s ! me)" "cpu_proc c' = t_proc (th s n)"
      "cpu_cr3 c' = pml4_table (the (procs s (t_proc (th s n))))" "rsp0 c' = kernel_rsp (th s n)"
  shows "sched_wf s' (remove1 n (requeue s me q))"
proof -
  let ?q = "remove1 n (requeue s me q)"
  have w: "\<forall>t \<in> set q. thread_ok s t \<and> t_state (th s t) = THREAD_RUNNING" "\<And>j. j < length (cpus s) \<Longrightarrow> cpu_ok s q (cpus s ! j)"
    "cpus_apart (cpus s)" "areas_apart (threads s)" using wf by (auto simp: sched_wf_def)
  have ap: "j < length (cpus s) \<Longrightarrow> j \<noteq> me \<Longrightarrow> idle_thread (cpus s ! j) \<noteq> c \<and> (cpu_thread (cpus s ! j) = c \<longrightarrow> c = 0)
      \<and> idle_thread (cpus s ! me) \<noteq> cpu_thread (cpus s ! j) \<and> idle_thread (cpus s ! j) \<noteq> idle_thread (cpus s ! me)" for j
    using w(3) me unfolding cpus_apart_def c_def by metis
  have c: "c \<noteq> 0 \<Longrightarrow> thread_ok s c" using w(2) [OF me] by (auto simp: cpu_ok_def c_def)
  have rq: "t \<in> set (requeue s me q) \<longleftrightarrow> t \<in> set q \<or> t = c \<and> c \<noteq> 0 \<and> t_state (th s c) = THREAD_RUNNING" for t
    by (auto simp: requeue_def c_def Let_def)
  have ok: "thread_ok s' t" if "thread_ok s t" for t
    using that T st c by (intro thread_ok_mono [OF that P X]) (auto simp: thread_ok_def split: option.splits if_splits)
  have sm: "t_state (th s' t) = t_state (th s t) \<and> t_proc (th s' t) = t_proc (th s t) \<and> kernel_rsp (th s' t) = kernel_rsp (th s t)" for t
    using T by auto
  have "thread_ok s' t \<and> t_state (th s' t) = THREAD_RUNNING" if "t \<in> set ?q" for t
    using that set_remove1_subset [of n "requeue s me q"] ok sm w(1) c unfolding rq by (metis notin_set_remove1 rq)
  moreover have "cpu_ok s' ?q d" if ds: "d \<in> set (cpus s')" for d
  proof -
    obtain j where j: "j < length (cpus s)" "d = (cpus s)[me := c'] ! j" using ds by (auto simp: C(1) in_set_conv_nth)
    show ?thesis
    proof (cases "j = me")
      case True
      then have "d = c'" using j me by simp
      moreover have "n \<notin> set ?q" using dq by (simp add: set_remove1_eq)
      ultimately show ?thesis using C ok n(1) sm w(2) [OF me] P by (auto simp: cpu_ok_def)
    next
      case False
      then have d: "d = cpus s ! j" using j by simp
      have "cpu_thread d \<noteq> 0 \<longrightarrow> cpu_thread d \<notin> set ?q"
        using w(2) [OF j(1)] ap [OF j(1) False] by (auto simp: cpu_ok_def d dest: notin_set_remove1 [THEN contrapos_pp] simp: rq set_remove1_eq dq)
      then show ?thesis using w(2) [OF j(1)] ok sm P by (auto simp: cpu_ok_def d)
    qed
  qed
  moreover have "cpus_apart (cpus s')" unfolding C(1)
  proof (rule cpus_apart_update [OF w(3) me C(3)])
    have "n \<noteq> cpu_thread (cpus s ! j) \<and> n \<noteq> idle_thread (cpus s ! j)" if "n \<in> set (requeue s me q)" "j < length (cpus s)" "j \<noteq> me" for j
    proof -
      have "0 \<notin> set q" using wf by (simp add: sched_wf_def dll_def)
      then show ?thesis using that(1) w(1) w(2) [OF that(2)] ap [OF that(2,3)] unfolding rq cpu_ok_def by auto
    qed
    then show "cpu_thread c' = idle_thread (cpus s ! me) \<or>
        (\<forall>j < length (cpus s). j \<noteq> me \<longrightarrow> cpu_thread c' \<noteq> cpu_thread (cpus s ! j) \<and> cpu_thread c' \<noteq> idle_thread (cpus s ! j))"
      using n(2) C(2) by blast
  qed
  moreover have "areas_apart (threads s')"
    by (rule areas_apart_mono [OF w(4)]) (use T c in \<open>auto simp: thread_ok_def split: option.splits if_splits\<close>)
  ultimately show ?thesis using lk dl by (simp add: sched_wf_def)
qed

lemma sched_tick_ok:
  assumes wf: "sched_wf s q" and me: "me < length (cpus s)" and st: "length (st_regs st) = 15"
  shows "\<exists>s' st'. sched_tick me st s = Some (s', st') \<and> sched_wf s' (remove1 (chosen s me q) (requeue s me q)) \<and> tick_post me st q s s' st'
    \<and> length (st_regs st') = 15 \<and> procs s' = procs s \<and> sched.more s' = sched.more s"
proof -
  define c where "c = cpu_thread (cpus s ! me)"
  define n where "n = chosen s me q"
  obtain m l where t: "sched_tick me st s = map_option (\<lambda>(s, st). (queue_spin_unlock s, st))
      (if c \<noteq> n then switch_thread me c n st (s\<lparr>thread_queue_lock := True, sched_nodes := m, thread_queue := l\<rparr>)
       else Some (s\<lparr>thread_queue_lock := True, sched_nodes := m, thread_queue := l\<rparr>, st))"
    "dll m l (remove1 n (requeue s me q))" "thread_ok s n" "n = idle_thread (cpus s ! me) \<or> n \<in> set (requeue s me q)"
    using tick_queue [OF wf me, of st, folded c_def n_def] by blast
  have w: "cpu_ok s q (cpus s ! me)" "areas_apart (threads s)" "dll (sched_nodes s) (thread_queue s) q" using wf me by (auto simp: sched_wf_def)
  have c: "c \<noteq> 0 \<Longrightarrow> thread_ok s c \<and> c \<notin> set q \<and> cpu_proc (cpus s ! me) = t_proc (th s c)
      \<and> cpu_cr3 (cpus s ! me) = pml4_table (the (procs s (t_proc (th s c)))) \<and> rsp0 (cpus s ! me) = kernel_rsp (th s c)"
    using w(1) by (auto simp: cpu_ok_def c_def)
  have ca: "c \<noteq> 0 \<Longrightarrow> threads s c \<noteq> None" using c thread_ok_alloc by fastforce
  have dq: "distinct (requeue s me q)" using w(3) c by (auto simp: requeue_def dll_def Let_def simp flip: c_def)
  have n0: "n \<noteq> 0" using t(4) w(1,3) c by (auto simp: cpu_ok_def requeue_def dll_def Let_def split: if_splits simp flip: c_def)
  have rn: "length (t_regs (th s n)) = 15" using t(3) by (auto simp: thread_ok_def split: option.splits)
  let ?s = "s\<lparr>thread_queue_lock := True, sched_nodes := m, thread_queue := l\<rparr>"
  show ?thesis
  proof (cases "c = n")
    case True
    have "sched_wf (queue_spin_unlock ?s) (remove1 n (requeue s me q))"
      by (rule tick_keeps_wf [OF wf me st t(3,4), where c' = "cpus s ! me"])
        (use True t(2) dq c n0 in \<open>simp_all add: queue_spin_unlock_def flip: c_def\<close>)
    moreover have "tick_post me st q s (queue_spin_unlock ?s) st"
      using True me ca by (simp add: tick_post_def queue_spin_unlock_def saved_def flip: c_def n_def)
    ultimately show ?thesis using t(1) True st unfolding n_def [symmetric] by (simp add: queue_spin_unlock_def)
  next
    case False
    have ok: "thread_ok ?s x = thread_ok s x" for x by (simp add: thread_ok_def split: option.split)
    obtain s' st' where s': "switch_thread me c n st ?s = Some (s', st')"
      "threads s' = (if c \<noteq> 0 then (threads s)(c := Some (with_regs st (th s c))) else threads s)"
      "cpus s' = (cpus s)[me := cpus s' ! me]" "procs s' = procs s" "thread_queue s' = l" "sched_nodes s' = m" "sched.more s' = sched.more s"
      "xareas s' = (if c \<noteq> 0 then (xareas s)(xsave_state (th s c) := Some (cpu_vec (cpus s ! me))) else xareas s)"
      "cpu_thread (cpus s' ! me) = n" "idle_thread (cpus s' ! me) = idle_thread (cpus s ! me)" "coreId (cpus s' ! me) = coreId (cpus s ! me)"
      "cpu_proc (cpus s' ! me) = t_proc (th s n)" "cpu_cr3 (cpus s' ! me) = pml4_table (the (procs s (t_proc (th s n))))"
      "rsp0 (cpus s' ! me) = kernel_rsp (th s n)" "live st' (cpus s' ! me) = saved ?s n"
      using switch_thread_ok [of me ?s n c st] False t(3) c w(2) me unfolding ok by auto
    have "sched_wf (queue_spin_unlock s') (remove1 n (requeue s me q))"
      by (rule tick_keeps_wf [OF wf me st t(3,4), where c' = "cpus s' ! me"])
        (use False t(2) dq s' in \<open>simp_all add: queue_spin_unlock_def flip: c_def\<close>)
    moreover have "saved s' x = saved s x" if x: "x \<noteq> c \<or> x = 0" "threads s x \<noteq> None" for x
    proof (cases "c = 0")
      case True
      then show ?thesis using s'(2,8) by (simp add: saved_def)
    next
      case False
      obtain hc hx where "threads s c = Some hc" "threads s x = Some hx" using c [OF False] thread_ok_alloc x(2) by blast
      then show ?thesis using s'(2,8) w(2) x(1) False unfolding areas_apart_def saved_def by (auto simp: Let_def)
    qed
    then have "tick_post me st q s (queue_spin_unlock s') st'" using False s'
      by (auto simp: tick_post_def queue_spin_unlock_def saved_def live_def with_regs_def Let_def simp flip: c_def n_def)
    moreover have "length (st_regs st') = 15" using s'(15) rn by (simp add: live_def saved_def Let_def)
    ultimately show ?thesis using t(1) False s'(1,4,7) unfolding n_def [symmetric] by (simp add: queue_spin_unlock_def)
  qed
qed

section \<open>Sequences of ticks\<close>

text \<open>
  A timer interrupt on a processor: the interrupt frame and the vector registers hold what the running thread left there.
\<close>

definition tick_event :: "nat \<Rightarrow> cpu_state \<Rightarrow> vregs \<Rightarrow> 'a sched_scheme \<Rightarrow> ('a sched_scheme \<times> cpu_state) option" where
  "tick_event me st v s = sched_tick me st (put_cpu me ((cpus s ! me)\<lparr>cpu_vec := v\<rparr>) s)"

fun run_ticks :: "(nat \<times> cpu_state \<times> vregs) list \<Rightarrow> 'a sched_scheme \<Rightarrow> 'a sched_scheme option" where
  "run_ticks [] s = Some s"
| "run_ticks ((me, st, v) # evs) s = do {(s, _) \<leftarrow> tick_event me st v s; run_ticks evs s}"

definition valid_ticks :: "nat \<Rightarrow> (nat \<times> cpu_state \<times> vregs) list \<Rightarrow> bool" where
  "valid_ticks k evs \<longleftrightarrow> (\<forall>(me, st, v) \<in> set evs. me < k \<and> length (st_regs st) = 15)"

lemma put_vec_wf:
  assumes "sched_wf s q" "me < length (cpus s)"
  shows "sched_wf (put_cpu me ((cpus s ! me)\<lparr>cpu_vec := v\<rparr>) s) q"
proof -
  let ?s = "put_cpu me ((cpus s ! me)\<lparr>cpu_vec := v\<rparr>) s"
  have ok: "thread_ok ?s = thread_ok s" by (rule ext) (simp add: thread_ok_def split: option.split)
  have ck: "cpu_ok ?s q (c\<lparr>cpu_vec := v\<rparr>) = cpu_ok s q c" "cpu_ok ?s q c = cpu_ok s q c" for c by (simp_all add: cpu_ok_def ok)
  have "cpu_ok ?s q c" if "c \<in> set (cpus ?s)" for c
  proof -
    have "c = (cpus s ! me)\<lparr>cpu_vec := v\<rparr> \<or> c \<in> set (cpus s)"
      using that set_update_subset_insert [of "cpus s" me "(cpus s ! me)\<lparr>cpu_vec := v\<rparr>"] by auto
    moreover have "cpu_ok s q (cpus s ! me)" "\<forall>c \<in> set (cpus s). cpu_ok s q c" using assms by (simp_all add: sched_wf_def)
    ultimately show ?thesis using ck by auto
  qed
  moreover have "cpus_apart (cpus ?s)"
    using assms unfolding sched_wf_def cpus_apart_def by (simp add: nth_list_update)
  ultimately show ?thesis using assms(1) by (simp add: sched_wf_def ok)
qed

lemma put_vec_same:
  assumes "me < length (cpus s)"
  shows "requeue (put_cpu me ((cpus s ! me)\<lparr>cpu_vec := v\<rparr>) s) j q = requeue s j q" "chosen (put_cpu me ((cpus s ! me)\<lparr>cpu_vec := v\<rparr>) s) j q = chosen s j q"
  "saved (put_cpu me ((cpus s ! me)\<lparr>cpu_vec := v\<rparr>) s) t = saved s t"
  using assms by (cases "j = me"; simp add: requeue_def chosen_def saved_def Let_def split: option.split)+

text \<open>What one interrupt does to the well-formed state.\<close>

definition event_post :: "nat \<Rightarrow> cpu_state \<Rightarrow> vregs \<Rightarrow> addr list \<Rightarrow> 'a sched_scheme \<Rightarrow> 'a sched_scheme \<Rightarrow> cpu_state \<Rightarrow> bool" where
  "event_post me st v q s s' st' \<longleftrightarrow>
     (let c = cpu_thread (cpus s ! me); n = chosen s me q in
      cpu_thread (cpus s' ! me) = n \<and> length (cpus s') = length (cpus s) \<and> (\<forall>j. coreId (cpus s' ! j) = coreId (cpus s ! j))
      \<and> (\<forall>j. j \<noteq> me \<longrightarrow> cpus s' ! j = cpus s ! j)
      \<and> (\<forall>t. threads s t \<noteq> None \<longrightarrow> threads s' t \<noteq> None \<and> t_coreId (th s' t) = t_coreId (th s t))
      \<and> (\<forall>t. t \<noteq> c \<and> threads s t \<noteq> None \<longrightarrow> threads s' t = threads s t \<and> saved s' t = saved s t)
      \<and> (c \<noteq> n \<longrightarrow> live st' (cpus s' ! me) = saved s n \<and> (c \<noteq> 0 \<longrightarrow> saved s' c = live st ((cpus s ! me)\<lparr>cpu_vec := v\<rparr>))))"

lemma tick_event_ok:
  assumes wf: "sched_wf s q" and me: "me < length (cpus s)" and st: "length (st_regs st) = 15"
  shows "\<exists>s' st'. tick_event me st v s = Some (s', st') \<and> sched_wf s' (remove1 (chosen s me q) (requeue s me q)) \<and> event_post me st v q s s' st'"
proof -
  let ?s = "put_cpu me ((cpus s ! me)\<lparr>cpu_vec := v\<rparr>) s"
  obtain s' st' where s': "sched_tick me st ?s = Some (s', st')" "sched_wf s' (remove1 (chosen s me q) (requeue s me q))" "tick_post me st q ?s s' st'"
    using sched_tick_ok [OF put_vec_wf [OF wf me, where v = v] _ st, of me] me by (auto simp: put_vec_same [OF me])
  have c: "cpu_thread (cpus s ! me) \<noteq> 0 \<Longrightarrow> threads s (cpu_thread (cpus s ! me)) \<noteq> None"
    using wf me thread_ok_alloc by (fastforce simp: sched_wf_def cpu_ok_def)
  have p: "cpus s' = ((cpus s)[me := (cpus s ! me)\<lparr>cpu_vec := v\<rparr>])[me := cpus s' ! me]" "coreId (cpus s' ! me) = coreId (cpus s ! me)"
    using s'(3) me by (simp_all add: tick_post_def Let_def)
  have "cpus s' = (cpus s)[me := cpus s' ! me]" using p(1) by simp
  then have "length (cpus s') = length (cpus s)" "j \<noteq> me \<Longrightarrow> cpus s' ! j = cpus s ! j" for j
    by (metis length_list_update, metis nth_list_update_neq)
  moreover have "coreId (cpus s' ! j) = coreId (cpus s ! j)" for j using p(2) calculation(2) by (cases "j = me") auto
  moreover have "threads s' t \<noteq> None \<and> t_coreId (th s' t) = t_coreId (th s t)" if "threads s t \<noteq> None" for t
    using s'(3) me that unfolding tick_post_def by (cases "t = cpu_thread (cpus s ! me)"; cases "t = 0") (auto simp: Let_def)
  ultimately have "event_post me st v q s s' st'"
    using s'(3) me unfolding tick_post_def event_post_def Let_def put_vec_same [OF me] by (simp split: if_splits)
  then show ?thesis using s' by (auto simp: tick_event_def)
qed

lemma valid_ticks_Cons [simp]:
  "valid_ticks k ((me, st, v) # evs) \<longleftrightarrow> me < k \<and> length (st_regs st) = 15 \<and> valid_ticks k evs" "valid_ticks k []"
  by (auto simp: valid_ticks_def)

lemma run_ticks_ok:
  assumes "sched_wf s q" "valid_ticks (length (cpus s)) evs"
  shows "\<exists>s' q'. run_ticks evs s = Some s' \<and> sched_wf s' q' \<and> length (cpus s') = length (cpus s)"
  using assms
proof (induction evs arbitrary: s q)
  case Nil
  then show ?case by auto
next
  case (Cons e evs)
  obtain me st v where e: "e = (me, st, v)" by (rule prod_cases3)
  obtain s1 st1 where s1: "tick_event me st v s = Some (s1, st1)" "sched_wf s1 (remove1 (chosen s me q) (requeue s me q))" "event_post me st v q s s1 st1"
    using tick_event_ok [OF Cons.prems(1), of me st v] Cons.prems(2) by (auto simp: e)
  have l: "length (cpus s1) = length (cpus s)" using s1(3) by (simp add: event_post_def Let_def)
  show ?case using Cons.IH [OF s1(2)] Cons.prems(2) s1(1) l by (auto simp: e)
qed

section \<open>Round robin\<close>

text \<open>How many threads of the same core are in front of a thread.\<close>

definition ahead :: "(addr \<Rightarrow> bool) \<Rightarrow> addr \<Rightarrow> addr list \<Rightarrow> nat" where
  "ahead P t q = length (filter P (takeWhile (\<lambda>x. x \<noteq> t) q))"

lemma ahead_append: "t \<in> set q \<Longrightarrow> ahead P t (q @ r) = ahead P t q"
  by (simp add: ahead_def takeWhile_append1)

lemma ahead_remove_other: "n \<noteq> t \<Longrightarrow> \<not> P n \<Longrightarrow> ahead P t (remove1 n q) = ahead P t q"
  by (induction q) (auto simp: ahead_def)

lemma ahead_find:
  assumes "t \<in> set q" "P t"
  shows "\<exists>n. find P q = Some n \<and> P n \<and> n \<in> set q \<and> (if ahead P t q = 0 then n = t else n \<noteq> t \<and> ahead P t (remove1 n q) = ahead P t q - 1)"
  using assms
proof (induction q)
  case (Cons x q)
  show ?case
  proof (cases "P x")
    case True
    then show ?thesis by (auto simp: ahead_def)
  next
    case False
    then have "x \<noteq> t" "t \<in> set q" using Cons.prems by auto
    then obtain n where "find P q = Some n" "P n" "n \<in> set q" "if ahead P t q = 0 then n = t else n \<noteq> t \<and> ahead P t (remove1 n q) = ahead P t q - 1"
      using Cons by blast
    moreover have "ahead P t (x # q) = ahead P t q" using False \<open>x \<noteq> t\<close> by (simp add: ahead_def)
    moreover have "n \<noteq> x \<Longrightarrow> ahead P t (x # remove1 n q) = ahead P t (remove1 n q)" for n using False \<open>x \<noteq> t\<close> by (simp add: ahead_def)
    ultimately show ?thesis using False by (auto split: if_splits)
  qed
qed simp

abbreviation core_of :: "'a sched_scheme \<Rightarrow> nat \<Rightarrow> addr \<Rightarrow> bool" where
  "core_of s me \<equiv> \<lambda>t. t_coreId (th s t) = coreId (cpus s ! me)"

lemma in_requeue: "t \<in> set q \<Longrightarrow> t \<in> set (requeue s me q)" "t \<in> set q \<Longrightarrow> ahead P t (requeue s me q) = ahead P t q"
  by (simp_all add: requeue_def Let_def ahead_append)

text \<open>A tick of the processor of a queued thread either runs it or brings it one place to the front.\<close>

lemma own_tick:
  assumes "t \<in> set q" "core_of s me t"
  shows "if ahead (core_of s me) t q = 0 then chosen s me q = t
    else t \<in> set (remove1 (chosen s me q) (requeue s me q))
      \<and> ahead (core_of s me) t (remove1 (chosen s me q) (requeue s me q)) = ahead (core_of s me) t q - 1"
proof -
  obtain n where n: "find (core_of s me) (requeue s me q) = Some n"
    "if ahead (core_of s me) t q = 0 then n = t
     else n \<noteq> t \<and> ahead (core_of s me) t (remove1 n (requeue s me q)) = ahead (core_of s me) t q - 1"
    using ahead_find [of t "requeue s me q" "core_of s me"] in_requeue(1) [OF assms(1), of s me] in_requeue(2) [OF assms(1), of "core_of s me" s me] assms(2)
    by auto
  then have "chosen s me q = n" by (simp add: chosen_def)
  then show ?thesis using n(2) in_requeue(1) [OF assms(1), of s me] by (auto simp: in_set_remove1 split: if_splits)
qed

text \<open>A tick of another processor leaves its place unchanged.\<close>

lemma other_tick:
  assumes wf: "sched_wf s q" and t: "t \<in> set q" "core_of s me t" and j: "j < length (cpus s)" "coreId (cpus s ! j) \<noteq> coreId (cpus s ! me)"
  shows "t \<in> set (remove1 (chosen s j q) (requeue s j q)) \<and> ahead (core_of s me) t (remove1 (chosen s j q) (requeue s j q)) = ahead (core_of s me) t q"
proof (cases "find (core_of s j) (requeue s j q)")
  case None
  have ok: "cpu_ok s q (cpus s ! j)" "\<forall>t \<in> set q. t_state (th s t) = THREAD_RUNNING" using wf j by (auto simp: sched_wf_def)
  have "chosen s j q \<notin> set (requeue s j q)" using None ok by (auto simp: chosen_def cpu_ok_def requeue_def Let_def)
  then show ?thesis using in_requeue(1) [OF t(1), of s j] in_requeue(2) [OF t(1), of "core_of s me" s j] by (simp add: remove1_idem)
next
  case (Some n)
  have n: "chosen s j q = n" "core_of s j n" using Some find_in_set [OF Some] by (simp_all add: chosen_def)
  then have "n \<noteq> t" "\<not> core_of s me n" using t(2) j(2) by auto
  then show ?thesis using in_requeue(1) [OF t(1), of s j] in_requeue(2) [OF t(1), of "core_of s me" s j] by (simp add: n(1) in_set_remove1 ahead_remove_other)
qed

lemma event_keeps_cores:
  assumes "sched_wf s q" "event_post j st v q s s' st'" "j < length (cpus s)"
  shows "threads s x \<noteq> None \<Longrightarrow> core_of s' me x = core_of s me x"
  using assms(2) by (auto simp: event_post_def Let_def)

lemma round_robin_run:
  assumes "sched_wf s q" "t \<in> set q" "core_of s me t" "me < length (cpus s)"
    "\<forall>j < length (cpus s). j \<noteq> me \<longrightarrow> coreId (cpus s ! j) \<noteq> coreId (cpus s ! me)" "valid_ticks (length (cpus s)) evs"
    "ahead (core_of s me) t q < length (filter (\<lambda>e. fst e = me) evs)"
  shows "\<exists>k s'. k \<le> length evs \<and> run_ticks (take k evs) s = Some s' \<and> cpu_thread (cpus s' ! me) = t"
  using assms
proof (induction evs arbitrary: s q)
  case (Cons e evs)
  obtain j st v where e: "e = (j, st, v)" by (rule prod_cases3)
  have j: "j < length (cpus s)" "length (st_regs st) = 15" using Cons.prems(6) by (simp_all add: e)
  let ?q = "remove1 (chosen s j q) (requeue s j q)"
  obtain s1 st1 where s1: "tick_event j st v s = Some (s1, st1)" "sched_wf s1 ?q" "event_post j st v q s s1 st1"
    using tick_event_ok [OF Cons.prems(1) j, of v] by auto
  have p: "cpu_thread (cpus s1 ! j) = chosen s j q" "length (cpus s1) = length (cpus s)" "\<forall>i. coreId (cpus s1 ! i) = coreId (cpus s ! i)"
    using s1(3) by (simp_all add: event_post_def Let_def)
  have al: "threads s x \<noteq> None" if "x \<in> set (requeue s j q)" for x
    using that Cons.prems(1) j(1) thread_ok_alloc
    by (fastforce simp: sched_wf_def requeue_def cpu_ok_def Let_def split: if_splits)
  have co: "core_of s1 me x = core_of s me x" if "x \<in> set (requeue s j q)" for x
    using event_keeps_cores [OF Cons.prems(1) s1(3) j(1) al [OF that]] .
  have ah: "ahead (core_of s1 me) t ?q = ahead (core_of s me) t ?q"
    unfolding ahead_def by (rule arg_cong [where f = length], rule filter_cong [OF refl], rule co)
      (meson set_takeWhileD notin_set_remove1)
  have tc: "core_of s1 me t" using co [OF in_requeue(1) [OF Cons.prems(2)]] Cons.prems(3) by simp
  have IH: ?case if a: "t \<in> set ?q" and b: "ahead (core_of s1 me) t ?q < length (filter (\<lambda>e. fst e = me) evs)"
  proof -
    obtain k s' where "k \<le> length evs" "run_ticks (take k evs) s1 = Some s'" "cpu_thread (cpus s' ! me) = t"
      using Cons.IH [OF s1(2) a tc _ _ _ b] Cons.prems(4,5,6) p by (auto simp: e)
    then show ?thesis using s1(1) by (intro exI [of _ "Suc k"]) (simp add: e)
  qed
  show ?case
  proof (cases "j = me")
    case True
    show ?thesis
    proof (cases "ahead (core_of s me) t q = 0")
      case True
      then have "cpu_thread (cpus s1 ! me) = t" using own_tick [OF Cons.prems(2,3)] p(1) \<open>j = me\<close> by simp
      then show ?thesis using s1(1) by (intro exI [of _ "Suc 0"]) (simp add: e)
    next
      case False
      then show ?thesis using own_tick [OF Cons.prems(2,3)] \<open>j = me\<close> Cons.prems(7) ah by (intro IH) (auto simp: e)
    qed
  next
    case False
    then show ?thesis using other_tick [OF Cons.prems(1,2,3) j(1)] Cons.prems(5,7) j(1) by (intro IH) (auto simp: ah e)
  qed
qed simp

section \<open>The context of a thread\<close>

text \<open>While no processor runs a thread its saved context does not change.\<close>

lemma saved_while_waiting:
  assumes "sched_wf s q" "valid_ticks (length (cpus s)) evs" "run_ticks evs s = Some s'" "threads s t \<noteq> None"
    "\<forall>k s1. k < length evs \<and> run_ticks (take k evs) s = Some s1 \<longrightarrow> (\<forall>c \<in> set (cpus s1). cpu_thread c \<noteq> t)"
  shows "saved s' t = saved s t \<and> (\<exists>q'. sched_wf s' q') \<and> length (cpus s') = length (cpus s)"
  using assms
proof (induction evs arbitrary: s q)
  case Nil
  then show ?case by auto
next
  case (Cons e evs)
  obtain j st v where e: "e = (j, st, v)" by (rule prod_cases3)
  have j: "j < length (cpus s)" "length (st_regs st) = 15" using Cons.prems(2) by (simp_all add: e)
  obtain s1 st1 where s1: "tick_event j st v s = Some (s1, st1)" "sched_wf s1 (remove1 (chosen s j q) (requeue s j q))" "event_post j st v q s s1 st1"
    using tick_event_ok [OF Cons.prems(1) j, of v] by auto
  have "\<forall>c \<in> set (cpus s). cpu_thread c \<noteq> t" using Cons.prems(5) [rule_format, of 0 s] by simp
  then have n: "t \<noteq> cpu_thread (cpus s ! j)" using j(1) nth_mem by blast
  have p: "threads s1 t = threads s t" "saved s1 t = saved s t" "length (cpus s1) = length (cpus s)"
    using s1(3) n Cons.prems(4) by (simp_all add: event_post_def Let_def)
  have "\<forall>k s2. k < length evs \<and> run_ticks (take k evs) s1 = Some s2 \<longrightarrow> (\<forall>c \<in> set (cpus s2). cpu_thread c \<noteq> t)"
  proof (intro allI impI)
    fix k s2 assume "k < length evs \<and> run_ticks (take k evs) s1 = Some s2"
    then show "\<forall>c \<in> set (cpus s2). cpu_thread c \<noteq> t" using Cons.prems(5) [rule_format, of "Suc k" s2] s1(1) by (simp add: e)
  qed
  then show ?case using Cons.IH [OF s1(2)] Cons.prems(2,3,4) s1(1) p by (simp add: e)
qed

text \<open>
  C19. Every tick of the scheduler finds what it dereferences: from a well-formed state (the queue holds runnable threads,
  every thread has a process, a register file and a vector area of its own, every processor runs a thread that is neither
  queued nor run elsewhere, in the address space and on the kernel stack of this thread) any interleaving of ticks on all
  processors returns, and the state it reaches is well formed.
\<close>

theorem sched_ticks_well_formed:
  assumes "sched_wf s q" "valid_ticks (length (cpus s)) evs"
  shows "\<exists>s' q'. run_ticks evs s = Some s' \<and> sched_wf s' q'"
  using run_ticks_ok [OF assms] by blast

text \<open>
  C18. The scheduler is fair: whatever the order of the ticks of the processors, a queued thread runs at the latest when its own
  processor has had one tick more than there are threads of the same core in front of it.
\<close>

theorem sched_tick_round_robin:
  assumes "sched_wf s q" "t \<in> set q" "core_of s me t" "me < length (cpus s)"
    "\<forall>j < length (cpus s). j \<noteq> me \<longrightarrow> coreId (cpus s ! j) \<noteq> coreId (cpus s ! me)" "valid_ticks (length (cpus s)) evs"
    "ahead (core_of s me) t q < length (filter (\<lambda>e. fst e = me) evs)"
  shows "\<exists>k s'. k \<le> length evs \<and> run_ticks (take k evs) s = Some s' \<and> cpu_thread (cpus s' ! me) = t"
  using assms by (rule round_robin_run)

text \<open>
  C20. A thread does not notice that it was interrupted: when a tick takes a processor away from it, and after any sequence of
  ticks in which no processor runs it a tick gives it a processor, that processor continues with exactly the general and
  vector registers, instruction and stack pointer, flags and segment selectors of the moment of the interruption.
\<close>

theorem sched_tick_context_roundtrip:
  assumes "sched_wf s q" "me < length (cpus s)" "length (st_regs st) = 15"
    "cpu_thread (cpus s ! me) = t" "t \<noteq> 0" "tick_event me st v s = Some (s1, st1)"
    "valid_ticks (length (cpus s)) evs" "run_ticks evs s1 = Some s2"
    "\<forall>k s'. k \<le> length evs \<and> run_ticks (take k evs) s1 = Some s' \<longrightarrow> (\<forall>c \<in> set (cpus s'). cpu_thread c \<noteq> t)"
    "me2 < length (cpus s)" "length (st_regs st2) = 15" "tick_event me2 st2 v2 s2 = Some (s3, st3)" "cpu_thread (cpus s3 ! me2) = t"
  shows "st_regs st3 = st_regs st \<and> st_rip st3 = st_rip st \<and> st_rsp st3 = st_rsp st \<and> st_rflags st3 = st_rflags st
    \<and> st_cs st3 = st_cs st \<and> st_ss st3 = st_ss st \<and> cpu_vec (cpus s3 ! me2) = v"
proof -
  have s1: "sched_wf s1 (remove1 (chosen s me q) (requeue s me q))" "event_post me st v q s s1 st1"
    using tick_event_ok [OF assms(1-3), of v] assms(6) by auto
  have l1: "length (cpus s1) = length (cpus s)" "cpu_thread (cpus s1 ! me) = chosen s me q" using s1(2) by (simp_all add: event_post_def Let_def)
  have "thread_ok s t" using assms(1,2,4,5) by (fastforce simp: sched_wf_def cpu_ok_def)
  then have al: "threads s t \<noteq> None" using thread_ok_alloc by fastforce
  have al1: "threads s1 t \<noteq> None" using s1(2) al by (simp add: event_post_def Let_def)
  have "\<forall>c \<in> set (cpus s1). cpu_thread c \<noteq> t" using assms(9) [rule_format, of 0 s1] by simp
  then have "cpu_thread (cpus s1 ! me) \<noteq> t" using nth_mem [of me "cpus s1"] assms(2) l1(1) by auto
  then have sv: "saved s1 t = live st ((cpus s ! me)\<lparr>cpu_vec := v\<rparr>)" using s1(2) assms(4,5) l1(2) by (simp add: event_post_def Let_def)
  obtain q2 where s2: "saved s2 t = saved s1 t" "sched_wf s2 q2" "length (cpus s2) = length (cpus s)"
    using saved_while_waiting [OF s1(1) _ assms(8) al1] assms(7,9) l1(1) less_imp_le by metis
  have p: "event_post me2 st2 v2 q2 s2 s3 st3" using tick_event_ok [OF s2(2) _ assms(11), of me2 v2] assms(10,12) s2(3) by auto
  have "\<forall>c \<in> set (cpus s2). cpu_thread c \<noteq> t" using assms(8) assms(9) [rule_format, of "length evs" s2] by simp
  then have "cpu_thread (cpus s2 ! me2) \<noteq> t" using nth_mem [of me2 "cpus s2"] assms(10) s2(3) by auto
  then have "live st3 (cpus s3 ! me2) = saved s2 t" using p assms(13) by (simp add: event_post_def Let_def)
  then show ?thesis using sv s2(1) by (simp add: live_def)
qed

section \<open>An example\<close>

text \<open>One processor that runs a thread, a second thread in the queue, and the idle thread.\<close>

definition thread_example :: "addr \<Rightarrow> thread_state \<Rightarrow> thread" where
  "thread_example t ts = \<lparr>kernel_rsp = t, syscall_rsp = 0, kstack = 0, stack = 0, t_flags = 0, t_lock = False, t_state = ts, t_proc = 9,
     t_coreId = 0, t_name = [], t_regs = replicate 15 t, t_rip = t, t_rsp = t, t_rflags = 0x200, t_cs = 8, t_ss = 0x10, xsave_state = t\<rparr>"

definition sched_example :: sched where
  "sched_example = \<lparr>thread_queue = \<lparr>l_head = 2, l_tail = 2, l_size = 1\<rparr>, thread_queue_lock = False,
     sched_nodes = \<lparr>n_next = (\<lambda>_. 0), n_prev = (\<lambda>_. 0)\<rparr>,
     threads = [1 \<mapsto> thread_example 1 THREAD_RUNNING, 2 \<mapsto> thread_example 2 THREAD_RUNNING, 3 \<mapsto> thread_example 3 THREAD_SUSPENDED],
     procs = [9 \<mapsto> \<lparr>pml4_table = 0x5000, thread_list = LIST_EMPTY, vbeContext = 0, messageQueue = LIST_EMPTY, p_name = [], processListNode = 0\<rparr>],
     cpus = [\<lparr>cpu_thread = 1, idle_thread = 3, cpu_proc = 9, coreId = 0, rsp0 = 1, cpu_cr3 = 0x5000, cpu_vec = []\<rparr>],
     xareas = [1 \<mapsto> [], 2 \<mapsto> [], 3 \<mapsto> []]\<rparr>"

definition frame_example :: "u64 \<Rightarrow> cpu_state" where
  "frame_example v = \<lparr>st_regs = replicate 15 v, st_id = 0, st_error = 0, st_rip = v, st_cs = 8, st_rflags = 0x200, st_rsp = v, st_ss = 0x10\<rparr>"

lemma sched_example_wf: "sched_wf sched_example [2]"
proof -
  have "cpu_ok sched_example [2] c" if "c \<in> set (cpus sched_example)" for c
    using that by (auto simp: sched_example_def cpu_ok_def thread_ok_def thread_example_def)
  moreover have "areas_apart (threads sched_example)"
    by (auto simp: areas_apart_def sched_example_def thread_example_def split: if_splits)
  ultimately show ?thesis
    by (simp add: sched_wf_def) (simp add: sched_example_def dll_def thread_ok_def thread_example_def cpus_apart_def)
qed

lemma example_valid: "valid_ticks (length (cpus sched_example)) [(0, frame_example x, v), (0, frame_example y, w)]"
  "valid_ticks (length (cpus sched_example)) [(0, frame_example x, v)]" "length (st_regs (frame_example x)) = 15"
  by (simp_all add: sched_example_def frame_example_def)

theorem sched_ticks_well_formed_witness:
  "\<exists>s' q'. run_ticks [(0, frame_example 5, [1]), (0, frame_example 6, [2])] sched_example = Some s' \<and> sched_wf s' q'"
  by (rule sched_ticks_well_formed [OF sched_example_wf example_valid(1)])

theorem sched_tick_round_robin_witness:
  "\<exists>k s'. k \<le> 1 \<and> run_ticks (take k [(0, frame_example 5, [1])]) sched_example = Some s' \<and> cpu_thread (cpus s' ! 0) = 2"
  using sched_tick_round_robin [OF sched_example_wf, of 2 0 "[(0, frame_example 5, [1])]"] example_valid(2) [of 5 "[1]"]
  by (simp add: ahead_def) (simp add: sched_example_def thread_example_def)

lemma example_first_tick:
  "\<exists>s1 st1. tick_event 0 (frame_example 5) [1] sched_example = Some (s1, st1) \<and> cpu_thread (cpus s1 ! 0) = 2 \<and> length (cpus s1) = 1
     \<and> sched_wf s1 [1] \<and> chosen s1 0 [1] = 1"
proof -
  have l: "0 < length (cpus sched_example)" by (simp add: sched_example_def)
  have c: "chosen sched_example 0 [2] = 2" "requeue sched_example 0 [2] = [2, 1]"
    by (simp_all add: chosen_def requeue_def sched_example_def thread_example_def)
  obtain s1 st1 where s1: "tick_event 0 (frame_example 5) [1] sched_example = Some (s1, st1)" "sched_wf s1 [1]"
    "event_post 0 (frame_example 5) [1] [2] sched_example s1 st1"
    using tick_event_ok [OF sched_example_wf l example_valid(3), of 5 "[1]"] by (auto simp: c)
  have p: "cpu_thread (cpus s1 ! 0) = 2" "length (cpus s1) = 1" "coreId (cpus s1 ! 0) = 0" "t_coreId (th s1 1) = 0"
    using s1(3) unfolding event_post_def Let_def c by (simp_all add: sched_example_def thread_example_def)
  have "chosen s1 0 [1] = 1" using p by (simp add: chosen_def requeue_def Let_def)
  then show ?thesis using s1 p(1,2) by blast
qed

theorem sched_tick_context_roundtrip_witness:
  "\<exists>s1 st1 s3 st3. tick_event 0 (frame_example 5) [1] sched_example = Some (s1, st1) \<and> tick_event 0 (frame_example 6) [2] s1 = Some (s3, st3)
     \<and> st_regs st3 = replicate 15 5 \<and> st_rip st3 = 5 \<and> cpu_vec (cpus s3 ! 0) = [1]"
proof -
  obtain s1 st1 where s1: "tick_event 0 (frame_example 5) [1] sched_example = Some (s1, st1)" "cpu_thread (cpus s1 ! 0) = 2"
    "length (cpus s1) = 1" "sched_wf s1 [1]" "chosen s1 0 [1] = 1" using example_first_tick by blast
  obtain s3 st3 where s3: "tick_event 0 (frame_example 6) [2] s1 = Some (s3, st3)" "cpu_thread (cpus s3 ! 0) = 1"
    using tick_event_ok [OF s1(4) _ example_valid(3), of 0 6 "[2]"] s1(3,5) by (auto simp: event_post_def Let_def)
  have r: "cpu_thread c \<noteq> 1" if "c \<in> set (cpus s1)" for c
    using that s1(2,3) by (auto simp: in_set_conv_nth)
  show ?thesis
    using sched_tick_context_roundtrip [OF sched_example_wf _ example_valid(3) _ _ s1(1) _ _ _ _ example_valid(3) s3, of "[]"] s1 s3 r
    by (auto simp: sched_example_def frame_example_def)
qed

end
