(* ===== verification/Thread.thy ===== *)
theory Thread
  imports Seg Sched
begin

text \<open>
  Threads, \<^verbatim>\<open>kernel/proc/thread.c\<close>, and the system calls that create and end them.  The state extends that of the
  scheduler by the segments of the current process and the links of the threads' nodes in the thread lists of the
  processes.  The results of \<^verbatim>\<open>malloc\<close> and \<^verbatim>\<open>memalign\<close> are a parameter.
\<close>

section \<open>Data\<close>

definition THREAD_KERNEL :: u32 where "THREAD_KERNEL = 0x1"
definition USER_STACK_SIZE :: u64 where "USER_STACK_SIZE = 128 * 1024"
definition KERNEL_STACK_SIZE :: u64 where "KERNEL_STACK_SIZE = 16 * 1024"

definition FLAGS_IF :: u64 where "FLAGS_IF = 0x200"
definition FLAGS_IOPL3 :: u64 where "FLAGS_IOPL3 = 0x3000"
definition SLTR_KERNEL_CODE :: u64 where "SLTR_KERNEL_CODE = 0x8"
definition SLTR_KERNEL_DATA :: u64 where "SLTR_KERNEL_DATA = 0x10"
definition SLTR_USER_DATA :: u64 where "SLTR_USER_DATA = 0x18"
definition SLTR_USER_CODE :: u64 where "SLTR_USER_CODE = 0x20"
definition RPL0 :: u64 where "RPL0 = 0"
definition RPL3 :: u64 where "RPL3 = 3"

record tsys = sched +
  t_seg :: seg
  proc_nodes :: nodes
  k_mallocs :: nat
  k_heap :: "nat \<Rightarrow> addr"
  thread_junk :: "nat \<Rightarrow> thread"

definition k_malloc :: "'a tsys_scheme \<Rightarrow> 'a tsys_scheme \<times> addr" where
  "k_malloc s = (s\<lparr>k_mallocs := k_mallocs s + 1\<rparr>, k_heap s (k_mallocs s))"

section \<open>Creation\<close>

text \<open>The loop that lowers the stack pointer until it ends in the digit 8.\<close>

partial_function (option) align_stack :: "u64 \<Rightarrow> u64 option" where
  "align_stack userSpaceStackPtr =
     (if userSpaceStackPtr AND 0xF \<noteq> 0x8 then align_stack (userSpaceStackPtr - 1) else Some userSpaceStackPtr)"

definition proc_thread_add :: "addr \<Rightarrow> addr \<Rightarrow> tsys \<Rightarrow> tsys option" where
  "proc_thread_add p t s = do {
     pr \<leftarrow> procs s p;
     (m, l) \<leftarrow> list_add_tail (proc_nodes s) (thread_list pr) t;
     Some (s\<lparr>proc_nodes := m, procs := (procs s)(p := Some (pr\<lparr>thread_list := l\<rparr>))\<rparr>)}"

definition proc_thread_remove :: "addr \<Rightarrow> addr \<Rightarrow> tsys \<Rightarrow> tsys option" where
  "proc_thread_remove p t s = do {
     pr \<leftarrow> procs s p;
     let (m, l) = list_remove (proc_nodes s) (thread_list pr) t;
     Some (s\<lparr>proc_nodes := m, procs := (procs s)(p := Some (pr\<lparr>thread_list := l\<rparr>))\<rparr>)}"

definition xsave_alloc :: "nat \<Rightarrow> tsys \<Rightarrow> (tsys \<times> addr) option" where
  "xsave_alloc me s =
     (let (s, mem) = k_malloc s in
      if mem = 0 then None
      else do {
        s \<leftarrow> xsave me mem (s\<lparr>xareas := (xareas s)(mem := Some [])\<rparr>);
        Some (s, mem)})"

text \<open>The stack in user space; the result \<open>None\<close> in the pair is the failed allocation.\<close>

definition user_stack :: "nat \<Rightarrow> tsys \<Rightarrow> (tsys \<times> addr option) option" where
  "user_stack me s = do {
     (g, ustk) \<leftarrow> seg_alloc (cpu_proc (cpus s ! me) \<noteq> 0) USER_STACK_SIZE (VM_R OR VM_W) (t_seg s);
     let s = s\<lparr>t_seg := g\<rparr>;
     if ustk = 0 then Some (s, None)
     else do {
       ustk \<leftarrow> align_stack ustk;
       Some (s, Some ustk)}}"

definition strncpy_name :: "u8 list \<Rightarrow> u8 list" where
  "strncpy_name name = take 32 (name @ replicate 32 0)"

definition thread_init :: "addr \<Rightarrow> u32 \<Rightarrow> addr \<Rightarrow> addr \<Rightarrow> thread \<Rightarrow> thread" where
  "thread_init pr flags ks ustk h =
     (let h = h\<lparr>kstack := ks, stack := ustk, t_lock := False, t_state := THREAD_SUSPENDED, t_proc := pr, t_flags := flags,
            t_rsp := (if flags AND THREAD_KERNEL \<noteq> 0 then ks + KERNEL_STACK_SIZE else ustk + USER_STACK_SIZE),
            kernel_rsp := ks + KERNEL_STACK_SIZE, t_rflags := FLAGS_IF, t_coreId := 0\<rparr>
      in if flags AND THREAD_KERNEL \<noteq> 0 then h\<lparr>t_cs := SLTR_KERNEL_CODE OR RPL0, t_ss := SLTR_KERNEL_DATA OR RPL0\<rparr>
         else h\<lparr>t_rflags := FLAGS_IF OR FLAGS_IOPL3, t_cs := SLTR_USER_CODE OR RPL3, t_ss := SLTR_USER_DATA OR RPL3\<rparr>)"

definition thread_create :: "nat \<Rightarrow> addr \<Rightarrow> u32 \<Rightarrow> u8 list \<Rightarrow> tsys \<Rightarrow> (tsys \<times> addr) option" where
  "thread_create me pr flags name s =
     (let h = thread_junk s (k_mallocs s); (s, thread) = k_malloc s in
      if thread = 0 then Some (s, 0)
      else let (s, ks) = k_malloc s in
      if ks = 0 then Some (s, 0)
      else do {
        (s, ustk) \<leftarrow> (if flags AND THREAD_KERNEL = 0 then user_stack me s else Some (s, Some (stack h)));
        case ustk of None \<Rightarrow> Some (s, 0)
        | Some ustk \<Rightarrow> do {
            (s, area) \<leftarrow> xsave_alloc me s;
            let h = (thread_init pr flags ks ustk h)\<lparr>xsave_state := area, t_name := strncpy_name name\<rparr>;
            s \<leftarrow> proc_thread_add pr thread (put_thread thread h s);
            Some (s, thread)}})"

section \<open>State changes\<close>

definition thread_get :: "nat \<Rightarrow> tsys \<Rightarrow> addr" where
  "thread_get me s = cpu_thread (cpus s ! me)"

definition thread_spin_lock :: "addr \<Rightarrow> tsys \<Rightarrow> tsys option" where
  "thread_spin_lock t s = do {
     h \<leftarrow> threads s t;
     if t_lock h then None else Some (put_thread t (h\<lparr>t_lock := True\<rparr>) s)}"

definition thread_spin_unlock :: "addr \<Rightarrow> tsys \<Rightarrow> tsys option" where
  "thread_spin_unlock t s = do {
     h \<leftarrow> threads s t;
     Some (put_thread t (h\<lparr>t_lock := False\<rparr>) s)}"

definition set_state :: "addr \<Rightarrow> thread_state \<Rightarrow> tsys \<Rightarrow> tsys option" where
  "set_state t ts s = do {
     h \<leftarrow> threads s t;
     Some (put_thread t (h\<lparr>t_state := ts\<rparr>) s)}"

definition thread_suspend :: "addr \<Rightarrow> tsys \<Rightarrow> tsys option" where
  "thread_suspend t s = do {
     s \<leftarrow> thread_spin_lock t s;
     s \<leftarrow> set_state t THREAD_SUSPENDED s;
     s \<leftarrow> sched_thread_suspend t s;
     thread_spin_unlock t s}"

definition thread_resume :: "addr \<Rightarrow> tsys \<Rightarrow> tsys option" where
  "thread_resume t s = do {
     s \<leftarrow> thread_spin_lock t s;
     s \<leftarrow> set_state t THREAD_RUNNING s;
     s \<leftarrow> sched_thread_resume t s;
     thread_spin_unlock t s}"

definition thread_kill :: "nat \<Rightarrow> addr \<Rightarrow> tsys \<Rightarrow> tsys option" where
  "thread_kill me t s = do {
     s \<leftarrow> thread_spin_lock t s;
     h \<leftarrow> threads s t;
     s \<leftarrow> (if t_state h = THREAD_RUNNING then sched_thread_suspend t s else Some s);
     s \<leftarrow> set_state t THREAD_ZOMBIE s;
     s \<leftarrow> (if t_flags h AND THREAD_KERNEL = 0
           then map_option (\<lambda>g. s\<lparr>t_seg := g\<rparr>) (seg_free (cpu_proc (cpus s ! me) \<noteq> 0) (stack h) (t_seg s)) else Some s);
     thread_spin_unlock t s}"

definition thread_destroy :: "addr \<Rightarrow> tsys \<Rightarrow> tsys option" where
  "thread_destroy t s = do {
     h \<leftarrow> threads s t;
     s \<leftarrow> proc_thread_remove (t_proc h) t s;
     Some (s\<lparr>xareas := (xareas s)(xsave_state h := None), threads := (threads s)(t := None)\<rparr>)}"

section \<open>System calls\<close>

definition sys_run_thread :: "nat \<Rightarrow> u64 \<Rightarrow> u8 list \<Rightarrow> tsys \<Rightarrow> tsys option" where
  "sys_run_thread me rip name s = do {
     (s, thread) \<leftarrow> thread_create me (cpu_proc (cpus s ! me)) 0 name s;
     h \<leftarrow> threads s thread;
     thread_resume thread (put_thread thread (h\<lparr>t_rip := rip\<rparr>) s)}"

definition sys_exit_thread :: "nat \<Rightarrow> cpu_state \<Rightarrow> tsys \<Rightarrow> (tsys \<times> cpu_state) option" where
  "sys_exit_thread me state s = do {
     s \<leftarrow> thread_kill me (thread_get me s) s;
     sched_tick me state s}"

definition sys_exit :: "nat \<Rightarrow> cpu_state \<Rightarrow> tsys \<Rightarrow> (tsys \<times> cpu_state) option" where
  "sys_exit me state s = do {
     let thread = thread_get me s;
     s \<leftarrow> thread_kill me thread s;
     sched_tick me state s}"

definition sys_yield :: "nat \<Rightarrow> cpu_state \<Rightarrow> tsys \<Rightarrow> (tsys \<times> cpu_state) option" where
  "sys_yield me state s = sched_tick me (state\<lparr>st_regs := (st_regs state)[0 := 0]\<rparr>) s"

definition sys_set_affinity :: "nat \<Rightarrow> int \<Rightarrow> int \<Rightarrow> tsys \<Rightarrow> tsys option" where
  "sys_set_affinity me cpuCount core s =
     (if core < 0 \<or> core \<ge> cpuCount then Some s
      else do {
        h \<leftarrow> threads s (thread_get me s);
        Some (put_thread (thread_get me s) (h\<lparr>t_coreId := core\<rparr>) s)})"

section \<open>The stack of a user thread\<close>

lemma align_stack_eq: "align_stack a = (if a AND 0xF \<noteq> 0x8 then align_stack (a - 1) else Some a)"
  by (rule align_stack.simps)

lemma low_nibble: "unat (a AND 0xF :: u64) = unat a mod 16"
proof -
  have "a AND 0xF = take_bit 4 a" by (simp add: take_bit_eq_mask mask_eq_exp_minus_1)
  then show ?thesis by (simp add: take_bit_eq_mod unat_mod_distrib)
qed

lemma nibble_step:
  assumes "unat a mod 16 = Suc k"
  shows "unat (a - 1 :: u64) mod 16 = k"
proof -
  have p: "0 < unat a" using assms by (cases "unat a = 0") auto
  then have u: "unat (a - 1) = unat a - 1" by (simp add: unat_minus_one unat_gt_0)
  have "unat a = 16 * (unat a div 16) + Suc k" using mult_div_mod_eq [of 16 "unat a"] assms by simp
  moreover have "k < 16" using mod_less_divisor [of 16 "unat a"] assms by simp
  ultimately have "unat a - 1 = 16 * (unat a div 16) + k" by linarith
  then show ?thesis unfolding u using \<open>k < 16\<close> by simp
qed

text \<open>The loop ends for every pointer.\<close>

lemma align_stack_down: "unat a mod 16 = 8 + k \<Longrightarrow> k < 8 \<Longrightarrow> \<exists>b. align_stack a = Some b \<and> unat b mod 16 = 8"
proof (induction k arbitrary: a)
  case 0
  then have "a AND 0xF = 8" by (simp add: word_unat_eq_iff low_nibble)
  then show ?case using 0 by (subst align_stack_eq) simp
next
  case (Suc k)
  then have "a AND 0xF \<noteq> 8" by (simp add: word_unat_eq_iff low_nibble)
  then show ?case using Suc.IH [of "a - 1"] nibble_step [of a "8 + k"] Suc.prems by (subst align_stack_eq) simp
qed

lemma align_stack_low: "unat a mod 16 = k \<Longrightarrow> k < 8 \<Longrightarrow> \<exists>b. align_stack a = Some b \<and> unat b mod 16 = 8"
proof (induction k arbitrary: a)
  case 0
  then have n: "a AND 0xF \<noteq> 8" by (simp add: word_unat_eq_iff low_nibble)
  have "unat (a - 1) mod 16 = 8 + 7"
  proof (cases "a = 0")
    case False
    then have u: "unat (a - 1) = unat a - 1" "0 < unat a" by (simp_all add: unat_minus_one unat_gt_0 word_neq_0_conv)
    have "unat a = 16 * (unat a div 16)" using mult_div_mod_eq [of 16 "unat a"] 0 by simp
    then have "unat a - 1 = 16 * (unat a div 16 - 1) + 15" using u(2) by linarith
    then show ?thesis unfolding u by simp
  qed (simp add: unsigned_minus_1_eq_mask mask_eq_exp_minus_1)
  then show ?case using align_stack_down [of "a - 1" 7] n by (subst align_stack_eq) simp
next
  case (Suc k)
  then have "a AND 0xF \<noteq> 8" by (simp add: word_unat_eq_iff low_nibble)
  then show ?case using Suc.IH [of "a - 1"] nibble_step [of a k] Suc.prems by (subst align_stack_eq) simp
qed

lemma align_stack_returns: "\<exists>b. align_stack a = Some b \<and> unat b mod 16 = 8"
proof (cases "unat a mod 16 < 8")
  case True
  then show ?thesis by (rule align_stack_low [OF refl])
next
  case False
  then show ?thesis using align_stack_down [of a "unat a mod 16 - 8"] by simp
qed

lemma unlocked_same: "\<not> t_lock h \<Longrightarrow> h\<lparr>t_state := ts, t_lock := False\<rparr> = (h\<lparr>t_state := ts\<rparr> :: thread)"
  by (rule thread.equality) simp_all

lemma list_t_all: "l\<lparr>l_head := a, l_tail := b, l_size := n\<rparr> = \<lparr>l_head = a, l_tail = b, l_size = n\<rparr>"
  by (rule list_t.equality) simp_all

lemma thread_kill_idle:
  assumes "threads s t = Some h" "\<not> t_lock h" "t_state h \<noteq> THREAD_RUNNING" "t_flags h AND THREAD_KERNEL = 0"
    "seg_free (cpu_proc (cpus s ! me) \<noteq> 0) (stack h) (t_seg s) = Some g"
  shows "\<exists>s'. thread_kill me t s = Some s' \<and> t_seg s' = g \<and> threads s' = (threads s)(t := Some (h\<lparr>t_state := THREAD_ZOMBIE\<rparr>))"
  using assms by (simp add: thread_kill_def thread_spin_lock_def thread_spin_unlock_def set_state_def put_thread_def unlocked_same)


section \<open>A thread that ends itself\<close>

lemma resume_empty:
  assumes "\<not> thread_queue_lock s" "l_head (thread_queue s) = 0" "l_tail (thread_queue s) = 0" "l_size (thread_queue s) = 0"
    "threads s d = Some hdd" "\<not> t_lock hdd"
  shows "thread_resume d s = Some (s\<lparr>threads := (threads s)(d := Some (hdd\<lparr>t_state := THREAD_RUNNING\<rparr>)), thread_queue_lock := False,
    sched_nodes := set_prev (set_next (sched_nodes s) d 0) d 0, thread_queue := \<lparr>l_head = d, l_tail = d, l_size = 1\<rparr>\<rparr>)"
  using assms by (simp add: thread_resume_def thread_spin_lock_def set_state_def sched_thread_resume_def queue_spin_lock_def queue_spin_unlock_def
      queue_add_tail_def list_add_tail_def list_add_head_def thread_spin_unlock_def put_thread_def unlocked_same list_t_all)

text \<open>\<^verbatim>\<open>thread_kill\<close> on a thread that is not queued and has null links.\<close>

lemma kill_stale:
  assumes "\<not> thread_queue_lock s" "threads s t = Some h" "t_state h = THREAD_RUNNING" "\<not> t_lock h"
    "n_next (sched_nodes s) t = 0" "n_prev (sched_nodes s) t = 0"
    "t_flags h AND THREAD_KERNEL = 0 \<Longrightarrow> \<exists>g. seg_free (cpu_proc (cpus s ! me) \<noteq> 0) (stack h) (t_seg s) = Some g"
  shows "\<exists>g. thread_kill me t s = Some (s\<lparr>threads := (threads s)(t := Some (h\<lparr>t_state := THREAD_ZOMBIE\<rparr>)), thread_queue_lock := False,
    thread_queue := \<lparr>l_head = 0, l_tail = 0, l_size = l_size (thread_queue s) - 1\<rparr>, t_seg := g\<rparr>)"
proof -
  obtain g where g: "(if t_flags h AND THREAD_KERNEL = 0 then seg_free (cpu_proc (cpus s ! me) \<noteq> 0) (stack h) (t_seg s) else Some (t_seg s)) = Some g"
    using assms(7) by (cases "t_flags h AND THREAD_KERNEL = 0") auto
  have "thread_kill me t s = Some (s\<lparr>threads := (threads s)(t := Some (h\<lparr>t_state := THREAD_ZOMBIE\<rparr>)), thread_queue_lock := False,
      thread_queue := \<lparr>l_head = 0, l_tail = 0, l_size = l_size (thread_queue s) - 1\<rparr>, t_seg := g\<rparr>)"
  proof (cases "t_flags h AND THREAD_KERNEL = 0")
    case True
    then show ?thesis using assms(1-6) g
      by (simp add: thread_kill_def thread_spin_lock_def set_state_def sched_thread_suspend_def queue_spin_lock_def queue_spin_unlock_def
        queue_remove_def list_remove_def thread_spin_unlock_def put_thread_def unlocked_same list_t_all)
  next
    case False
    then have "thread_kill me t s = Some (s\<lparr>threads := (threads s)(t := Some (h\<lparr>t_state := THREAD_ZOMBIE\<rparr>)), thread_queue_lock := False,
        thread_queue := \<lparr>l_head = 0, l_tail = 0, l_size = l_size (thread_queue s) - 1\<rparr>\<rparr>)" using assms(1-6)
      by (simp add: thread_kill_def thread_spin_lock_def set_state_def sched_thread_suspend_def queue_spin_lock_def queue_spin_unlock_def
        queue_remove_def list_remove_def thread_spin_unlock_def put_thread_def unlocked_same list_t_all)
    then show ?thesis using False g by simp
  qed
  then show ?thesis by blast
qed

text \<open>
  C36. A thread that was alone in the queue when it got the processor, makes another thread runnable and then ends takes that
  thread with it: \<^verbatim>\<open>thread_kill\<close> removes a thread from the queue that is not in it, and its stale links (both null) empty the queue.
  The other thread stays runnable but is in no queue and on no processor.
\<close>

theorem sys_exit_loses_thread:
  assumes wf: "sched_wf s []" and me: "me < length (cpus s)" "length (st_regs st) = 15"
    and t: "cpu_thread (cpus s ! me) = t" "t \<noteq> 0" "threads s t = Some h" "t_state h = THREAD_RUNNING" "\<not> t_lock h"
    and links: "n_next (sched_nodes s) t = 0" "n_prev (sched_nodes s) t = 0"
    and d: "threads s d = Some hdd" "d \<noteq> 0" "d \<noteq> t" "\<not> t_lock hdd" "\<forall>c \<in> set (cpus s). cpu_thread c \<noteq> d \<and> idle_thread c \<noteq> d"
    and seg: "t_flags h AND THREAD_KERNEL = 0 \<Longrightarrow> \<exists>g. seg_free (cpu_proc (cpus s ! me) \<noteq> 0) (stack h) (t_seg s) = Some g"
  shows "\<exists>s1 s2 st2. thread_resume d s = Some s1 \<and> l_head (thread_queue s1) = d \<and> sys_exit me st s1 = Some (s2, st2)
    \<and> l_head (thread_queue s2) = 0 \<and> l_tail (thread_queue s2) = 0 \<and> t_state (th s2 d) = THREAD_RUNNING \<and> (\<forall>c \<in> set (cpus s2). cpu_thread c \<noteq> d)"
proof -
  let ?s1 = "s\<lparr>threads := (threads s)(d := Some (hdd\<lparr>t_state := THREAD_RUNNING\<rparr>)), thread_queue_lock := False,
    sched_nodes := set_prev (set_next (sched_nodes s) d 0) d 0, thread_queue := \<lparr>l_head = d, l_tail = d, l_size = 1\<rparr>\<rparr>"
  have w: "\<not> thread_queue_lock s" "dll (sched_nodes s) (thread_queue s) []" "\<forall>c \<in> set (cpus s). cpu_ok s [] c" "cpus_apart (cpus s)" "areas_apart (threads s)"
    using wf by (auto simp: sched_wf_def)
  have r: "thread_resume d s = Some ?s1" using w(1,2) d by (intro resume_empty) (simp_all add: dll_def)
  obtain g where k: "thread_kill me t ?s1 = Some (?s1\<lparr>threads := (threads ?s1)(t := Some (h\<lparr>t_state := THREAD_ZOMBIE\<rparr>)), thread_queue_lock := False,
      thread_queue := \<lparr>l_head = 0, l_tail = 0, l_size = l_size (thread_queue ?s1) - 1\<rparr>, t_seg := g\<rparr>)" (is "_ = Some ?s2")
    using kill_stale [of ?s1 t h me] t links d seg by (auto simp: set_next_def set_prev_def)
  have ok: "thread_ok ?s2 x" if "thread_ok s x" for x using that t(3) d(1) by (auto simp: thread_ok_def split: option.splits)
  have it: "idle_thread c \<noteq> t" if "c \<in> set (cpus s)" for c using w(3) that t(3,4) by (auto simp: cpu_ok_def)
  have "cpu_ok ?s2 [] c" if "c \<in> set (cpus s)" for c
    using bspec [OF w(3) that] ok it [OF that] d t(3) that by (auto simp: cpu_ok_def)
  moreover have "areas_apart (threads ?s2)"
    by (rule areas_apart_mono [OF w(5)]) (use t(3) d(1) in \<open>auto split: if_splits\<close>)
  ultimately have wf2: "sched_wf ?s2 []" using w(4) by (simp add: sched_wf_def dll_def)
  have rq: "requeue ?s2 me [] = []" "remove1 x [] = []" for x :: addr using t(1) by (simp_all add: requeue_def)
  obtain s2 st2 where s2: "sched_tick me st ?s2 = Some (s2, st2)" "sched_wf s2 []" "tick_post me st [] ?s2 s2 st2"
    using sched_tick_ok [OF wf2 _ me(2), of me] me(1) unfolding rq by auto
  have c: "chosen ?s2 me [] = idle_thread (cpus s ! me)" using t(1) by (simp add: chosen_def requeue_def)
  have "threads s2 d = Some (hdd\<lparr>t_state := THREAD_RUNNING\<rparr>)" using s2(3) d(3) t(1) by (simp add: tick_post_def Let_def)
  moreover have "cpu_thread x \<noteq> d" if "x \<in> set (cpus s2)" for x
  proof -
    have "cpus s2 = (cpus s)[me := cpus s2 ! me]" "cpu_thread (cpus s2 ! me) = idle_thread (cpus s ! me)"
      using s2(3) unfolding tick_post_def Let_def c by simp_all
    then have "x = cpus s2 ! me \<or> x \<in> set (cpus s)" using that set_update_subset_insert [of "cpus s" me "cpus s2 ! me"] by auto
    then show ?thesis using d(5) me(1) \<open>cpu_thread (cpus s2 ! me) = _\<close> by auto
  qed
  moreover have "l_head (thread_queue s2) = 0" "l_tail (thread_queue s2) = 0" using s2(2) by (simp_all add: sched_wf_def dll_def)
  moreover have "sys_exit me st ?s1 = Some (s2, st2)" using k s2(1) t(1) by (simp add: sys_exit_def thread_get_def)
  ultimately show ?thesis using r by (intro exI [of _ ?s1] exI [of _ s2] exI [of _ st2]) simp
qed

section \<open>Examples\<close>

definition tsys_example :: "seg \<Rightarrow> tsys" where
  "tsys_example g = sched.extend (sched_example\<lparr>thread_queue := LIST_EMPTY,
       threads := [1 \<mapsto> thread_example 1 THREAD_RUNNING\<lparr>t_flags := 1\<rparr>, 2 \<mapsto> thread_example 2 THREAD_SUSPENDED\<lparr>stack := 0xFF8\<rparr>,
         3 \<mapsto> thread_example 3 THREAD_SUSPENDED]\<rparr>)
     (tsys.fields g \<lparr>n_next = (\<lambda>_. 0), n_prev = (\<lambda>_. 0)\<rparr> 0 (\<lambda>k. of_nat k + 0x100) (\<lambda>_. thread_example 0 THREAD_ZOMBIE))"


lemma tsys_example_wf: "sched_wf (tsys_example g) []"
proof -
  have "cpu_ok (tsys_example g) [] c" if "c \<in> set (cpus (tsys_example g))" for c
    using that by (auto simp: tsys_example_def sched.extend_def tsys.fields_def sched_example_def cpu_ok_def thread_ok_def thread_example_def)
  moreover have "areas_apart (threads (tsys_example g))"
    by (auto simp: areas_apart_def tsys_example_def sched.extend_def sched_example_def thread_example_def split: if_splits)
  ultimately show ?thesis
    by (simp add: sched_wf_def) (simp add: tsys_example_def sched.extend_def sched_example_def dll_def LIST_EMPTY_def cpus_apart_def)
qed

theorem sys_exit_loses_thread_witness:
  "\<exists>s1 s2 st2. thread_resume 2 (tsys_example (seg_empty vm_example)) = Some s1 \<and> sys_exit 0 (frame_example 5) s1 = Some (s2, st2)
     \<and> l_head (thread_queue s2) = 0 \<and> t_state (th s2 2) = THREAD_RUNNING"
  using sys_exit_loses_thread [OF tsys_example_wf, of 0 "seg_empty vm_example" "frame_example 5" 1
      "thread_example 1 THREAD_RUNNING\<lparr>t_flags := 1\<rparr>" 2 "thread_example 2 THREAD_SUSPENDED\<lparr>stack := 0xFF8\<rparr>"]
  by (auto simp: tsys_example_def sched.extend_def tsys.fields_def sched_example_def thread_example_def frame_example_def THREAD_KERNEL_def)

end
