(* ===== verification/Msg.thy ===== *)
theory Msg
  imports Keycodes Thread
begin

text \<open>
  Messages and the keyboard: the message queues of the processes in \<^verbatim>\<open>kernel/proc/proc.c\<close> and \<^verbatim>\<open>kernel/proc/msg.c\<close>, the key
  press handler in \<^verbatim>\<open>kernel/io/keyboard.c\<close>, and the timer interrupt of \<^verbatim>\<open>kernel/proc/sched.c\<close> that polls the keyboard.
  The byte that the keyboard controller delivers is an argument.
\<close>

section \<open>Data\<close>

datatype msg_dest = MSG_DEST_UI_PROCESS | MSG_DEST_VISIBLE_PROCESS

definition MSG_INVALID :: u32 where "MSG_INVALID = 0"
definition MSG_KEY_PRESS :: u32 where "MSG_KEY_PRESS = 1"

text \<open>A key press message with its header; the structure has 16 bytes.\<close>

record msg_key_press =
  msg_type :: u32
  msg_size :: u32
  shiftModifier :: bool
  keyCode :: vkey

record ksys = tsys +
  uiProcess :: addr
  processDisplayed :: addr
  processListLock :: bool
  mlinks :: nodes
  mnodes :: "addr \<Rightarrow> addr option"
  msgs :: "addr \<Rightarrow> msg_key_press option"
  pressedKeys :: "bool list"
  receivedE0 :: bool
  pollWorkaround :: bool
  lastKeyboardPoll :: u64
  elapsedMsSinceStart :: "nat \<Rightarrow> u64"
  bsp :: "nat \<Rightarrow> bool"

section \<open>Messages\<close>

definition proc_set_ui_process :: "addr \<Rightarrow> ksys \<Rightarrow> ksys" where
  "proc_set_ui_process uiProc s = s\<lparr>uiProcess := uiProc\<rparr>"

definition dest_process :: "msg_dest \<Rightarrow> ksys \<Rightarrow> addr option" where
  "dest_process dest s = (case dest of
     MSG_DEST_UI_PROCESS \<Rightarrow> Some (uiProcess s)
   | MSG_DEST_VISIBLE_PROCESS \<Rightarrow> if processListLock s then None else Some (processDisplayed s))"

definition proc_send_message :: "msg_dest \<Rightarrow> addr \<Rightarrow> ksys \<Rightarrow> ksys option" where
  "proc_send_message dest msg s =
     (let (s, msgNode) = k_malloc s in
      if msgNode = 0 then None
      else do {
        let s = s\<lparr>mnodes := (mnodes s)(msgNode := Some msg)\<rparr>;
        destProc \<leftarrow> dest_process dest s;
        pr \<leftarrow> (if destProc = 0 then None else procs s destProc);
        (m, l) \<leftarrow> list_add_tail (mlinks s) (messageQueue pr) msgNode;
        Some (s\<lparr>mlinks := m, procs := (procs s)(destProc := Some (pr\<lparr>messageQueue := l\<rparr>))\<rparr>)})"

definition proc_peek_message :: "addr \<Rightarrow> ksys \<Rightarrow> u32 option" where
  "proc_peek_message p s = do {
     pr \<leftarrow> procs s p;
     let msgNode = l_head (messageQueue pr);
     if msgNode \<noteq> 0 then do {
       m \<leftarrow> mnodes s msgNode;
       h \<leftarrow> msgs s m;
       Some (msg_type h)}
     else Some MSG_INVALID}"

definition proc_retrieve_message :: "addr \<Rightarrow> ksys \<Rightarrow> (ksys \<times> addr) option" where
  "proc_retrieve_message p s = do {
     pr \<leftarrow> procs s p;
     let msgNode = l_head (messageQueue pr);
     if msgNode \<noteq> 0 then do {
       let (m, l) = list_remove (mlinks s) (messageQueue pr) msgNode;
       let s = s\<lparr>mlinks := m, procs := (procs s)(p := Some (pr\<lparr>messageQueue := l\<rparr>))\<rparr>;
       msg \<leftarrow> mnodes s msgNode;
       Some (s\<lparr>mnodes := (mnodes s)(msgNode := None)\<rparr>, msg)}
     else Some (s, 0)}"

definition msg_send :: "msg_dest \<Rightarrow> addr \<Rightarrow> ksys \<Rightarrow> ksys option" where
  "msg_send dest msg s = proc_send_message dest msg s"

definition msg_create_keypress :: "vkey \<Rightarrow> bool \<Rightarrow> ksys \<Rightarrow> (ksys \<times> addr) option" where
  "msg_create_keypress key shift s =
     (let (s, msg) = k_malloc s in
      if msg = 0 then None
      else Some (s\<lparr>msgs := (msgs s)(msg := Some \<lparr>msg_type = MSG_KEY_PRESS, msg_size = 16, shiftModifier = shift, keyCode = key\<rparr>)\<rparr>, msg))"

definition msg_free :: "addr \<Rightarrow> ksys \<Rightarrow> ksys" where
  "msg_free msg s = s\<lparr>msgs := (msgs s)(msg := None)\<rparr>"

text \<open>The system calls; the message that is copied to the buffer of the caller is part of the result.\<close>

definition sys_next_message :: "nat \<Rightarrow> ksys \<Rightarrow> (ksys \<times> msg_key_press) option" where
  "sys_next_message me s = do {
     (s, msg) \<leftarrow> proc_retrieve_message (cpu_proc (cpus s ! me)) s;
     h \<leftarrow> (if msg = 0 then None else msgs s msg);
     Some (msg_free msg s, h)}"

definition sys_next_message_type :: "nat \<Rightarrow> ksys \<Rightarrow> u32 option" where
  "sys_next_message_type me s = proc_peek_message (cpu_proc (cpus s ! me)) s"

section \<open>The keyboard\<close>

definition send_key :: "vkey \<Rightarrow> ksys \<Rightarrow> ksys option" where
  "send_key key s = do {
     let shift = (pressedKeys s ! VKEY_LSHIFT \<or> pressedKeys s ! VKEY_RSHIFT);
     (s, msg) \<leftarrow> msg_create_keypress key shift s;
     if VKEY_F1 \<le> key \<and> key \<le> VKEY_F12 then
       (if \<not> pressedKeys s ! key then msg_send MSG_DEST_UI_PROCESS msg s else Some s)
     else msg_send MSG_DEST_VISIBLE_PROCESS msg s}"

definition handle_key_press :: "u8 \<Rightarrow> ksys \<Rightarrow> ksys option" where
  "handle_key_press scanCode s =
     (if scanCode = 0xE0 then Some (s\<lparr>receivedE0 := True\<rparr>)
      else do {
        let key = (if receivedE0 s then e0ScanCodeConversionTable else oneByteScanCodeConversionTable) ! unat (scanCode AND 0x7F);
        let s = s\<lparr>receivedE0 := False\<rparr>;
        let pressed = (scanCode AND 0x80 = 0);
        s \<leftarrow> (if pressed then send_key key s else Some s);
        Some (s\<lparr>pressedKeys := (pressedKeys s)[key := pressed]\<rparr>)})"

definition keyboard_poll :: "u8 \<Rightarrow> ksys \<Rightarrow> ksys option" where
  "keyboard_poll scanCode s = (if \<not> pollWorkaround s then Some s else handle_key_press scanCode s)"

section \<open>The timer interrupt\<close>

definition SCHED_TIMESLICE :: u64 where "SCHED_TIMESLICE = 10"
definition SCHED_KEYBOARD_POLL_DELAY :: u64 where "SCHED_KEYBOARD_POLL_DELAY = 80"

definition sched_handle_interrupt :: "nat \<Rightarrow> u8 \<Rightarrow> cpu_state \<Rightarrow> ksys \<Rightarrow> (ksys \<times> cpu_state) option" where
  "sched_handle_interrupt me scanCode state s = do {
     let now = elapsedMsSinceStart s me + SCHED_TIMESLICE;
     let s = s\<lparr>elapsedMsSinceStart := (elapsedMsSinceStart s)(me := now)\<rparr>;
     s \<leftarrow> (if bsp s me \<and> now - lastKeyboardPoll s \<ge> SCHED_KEYBOARD_POLL_DELAY
           then keyboard_poll scanCode (s\<lparr>lastKeyboardPoll := now\<rparr>) else Some s);
     sched_tick me state s}"

section \<open>The queues\<close>

text \<open>The next \<open>N\<close> allocations succeed and give addresses that are not in use.\<close>

definition heap_fresh :: "nat \<Rightarrow> ksys \<Rightarrow> bool" where
  "heap_fresh N s \<longleftrightarrow> (\<forall>i \<in> {k_mallocs s..<k_mallocs s + N}. k_heap s i \<noteq> 0 \<and> mnodes s (k_heap s i) = None \<and> msgs s (k_heap s i) = None)
     \<and> inj_on (k_heap s) {k_mallocs s..<k_mallocs s + N}"

text \<open>\<open>Q p\<close> is the list of message nodes of process \<open>p\<close>.\<close>

definition queue_ok :: "ksys \<Rightarrow> (addr \<Rightarrow> addr list) \<Rightarrow> addr \<Rightarrow> bool" where
  "queue_ok s Q p \<longleftrightarrow> (\<forall>pr. procs s p = Some pr \<longrightarrow> dll (mlinks s) (messageQueue pr) (Q p)) \<and> (procs s p = None \<longrightarrow> Q p = [])
     \<and> (\<forall>n \<in> set (Q p). \<exists>m h. mnodes s n = Some m \<and> m \<noteq> 0 \<and> msgs s m = Some h)"

definition msgs_wf :: "nat \<Rightarrow> ksys \<Rightarrow> (addr \<Rightarrow> addr list) \<Rightarrow> bool" where
  "msgs_wf N s Q \<longleftrightarrow> (\<forall>p. queue_ok s Q p) \<and> (\<forall>p p'. p \<noteq> p' \<longrightarrow> set (Q p) \<inter> set (Q p') = {})
     \<and> inj_on (mnodes s) (\<Union>p. set (Q p)) \<and> heap_fresh N s"

definition ksys_wf :: "nat \<Rightarrow> ksys \<Rightarrow> (addr \<Rightarrow> addr list) \<Rightarrow> bool" where
  "ksys_wf N s Q \<longleftrightarrow> msgs_wf N s Q \<and> \<not> processListLock s \<and> length (pressedKeys s) = VKEY_MAX_VALUE + 1
     \<and> uiProcess s \<noteq> 0 \<and> procs s (uiProcess s) \<noteq> None \<and> processDisplayed s \<noteq> 0 \<and> procs s (processDisplayed s) \<noteq> None"

definition mq :: "ksys \<Rightarrow> (addr \<Rightarrow> addr list) \<Rightarrow> addr \<Rightarrow> msg_key_press list" where
  "mq s Q p = map (\<lambda>n. the (msgs s (the (mnodes s n)))) (Q p)"

lemma in_queue: "msgs_wf N s Q \<Longrightarrow> n \<in> set (Q p) \<Longrightarrow> \<exists>m h. mnodes s n = Some m \<and> m \<noteq> 0 \<and> msgs s m = Some h"
  by (auto simp: msgs_wf_def queue_ok_def)

lemma msgs_wf_dll: "msgs_wf N s Q \<Longrightarrow> procs s p = Some pr \<Longrightarrow> dll (mlinks s) (messageQueue pr) (Q p)"
  by (simp add: msgs_wf_def queue_ok_def)

lemma fresh_node:
  assumes "msgs_wf (Suc N) s Q"
  shows "k_heap s (k_mallocs s) \<noteq> 0" "k_heap s (k_mallocs s) \<notin> set (Q p)" "mnodes s (k_heap s (k_mallocs s)) = None"
    "msgs s (k_heap s (k_mallocs s)) = None"
proof -
  have f: "k_heap s (k_mallocs s) \<noteq> 0 \<and> mnodes s (k_heap s (k_mallocs s)) = None \<and> msgs s (k_heap s (k_mallocs s)) = None"
    using assms by (simp add: msgs_wf_def heap_fresh_def)
  then show "k_heap s (k_mallocs s) \<noteq> 0" "mnodes s (k_heap s (k_mallocs s)) = None" "msgs s (k_heap s (k_mallocs s)) = None" by simp_all
  show "k_heap s (k_mallocs s) \<notin> set (Q p)" using in_queue [OF assms, of _ p] f by fastforce
qed

lemma heap_next:
  assumes "msgs_wf (Suc N) s Q" "i \<in> {Suc (k_mallocs s)..<Suc (k_mallocs s) + N}"
  shows "k_heap s i \<noteq> k_heap s (k_mallocs s)"
proof
  assume "k_heap s i = k_heap s (k_mallocs s)"
  moreover have "inj_on (k_heap s) {k_mallocs s..<k_mallocs s + Suc N}" using assms(1) by (simp add: msgs_wf_def heap_fresh_def)
  ultimately have "i = k_mallocs s" using assms(2) by (auto dest: inj_onD)
  then show False using assms(2) by simp
qed

lemma heap_fresh_Suc:
  assumes "msgs_wf (Suc N) s Q" "k_heap s' = k_heap s" "k_mallocs s' = Suc (k_mallocs s)"
    "\<And>a. a \<noteq> k_heap s (k_mallocs s) \<Longrightarrow> mnodes s' a = mnodes s a \<and> msgs s' a = msgs s a"
  shows "heap_fresh N s'"
proof -
  have f: "heap_fresh (Suc N) s" using assms(1) by (simp add: msgs_wf_def)
  then have "inj_on (k_heap s) {Suc (k_mallocs s)..<Suc (k_mallocs s) + N}"
    unfolding heap_fresh_def by (auto intro: inj_on_subset)
  then show ?thesis using f heap_next [OF assms(1)] assms(2-4) by (auto simp: heap_fresh_def)
qed

lemma inj_on_upd_insert: "inj_on f A \<Longrightarrow> x \<notin> A \<Longrightarrow> y \<notin> f ` A \<Longrightarrow> inj_on (f(x := y)) (insert x A)"
  by (simp add: inj_on_def image_iff) metis

lemma send_ok:
  assumes w: "msgs_wf (Suc N) s Q" and lk: "\<not> processListLock s" and dp: "dest_process d s = Some dp" "dp \<noteq> 0" "procs s dp = Some pr"
    and m: "msgs s m = Some h" "m \<noteq> 0" "\<forall>p. \<forall>n \<in> set (Q p). mnodes s n \<noteq> Some m"
  defines "n \<equiv> k_heap s (k_mallocs s)"
  shows "\<exists>ml l. proc_send_message d m s = Some (s\<lparr>k_mallocs := k_mallocs s + 1, mnodes := (mnodes s)(n := Some m), mlinks := ml,
      procs := (procs s)(dp := Some (pr\<lparr>messageQueue := l\<rparr>))\<rparr>)
    \<and> msgs_wf N (s\<lparr>k_mallocs := k_mallocs s + 1, mnodes := (mnodes s)(n := Some m), mlinks := ml,
      procs := (procs s)(dp := Some (pr\<lparr>messageQueue := l\<rparr>))\<rparr>) (Q(dp := Q dp @ [n]))"
proof -
  have n: "n \<noteq> 0" "\<And>p. n \<notin> set (Q p)" using fresh_node [OF w] by (simp_all add: n_def)
  obtain ml l where ml: "list_add_tail (mlinks s) (messageQueue pr) n = Some (ml, l)" "dll ml l (Q dp @ [n])" "agree_off (insert n (set (Q dp))) (mlinks s) ml"
    using list_add_tail_ok [OF msgs_wf_dll [OF w dp(3)] n] by blast
  let ?s = "s\<lparr>k_mallocs := k_mallocs s + 1, mnodes := (mnodes s)(n := Some m), mlinks := ml, procs := (procs s)(dp := Some (pr\<lparr>messageQueue := l\<rparr>))\<rparr>"
  let ?Q = "Q(dp := Q dp @ [n])"
  have ds: "dest_process d (s\<lparr>k_mallocs := Suc (k_mallocs s), mnodes := x\<rparr>) = Some dp" for x
    using dp(1) lk by (cases d) (simp_all add: dest_process_def)
  have "proc_send_message d m s = Some ?s"
    using n(1) ml(1) dp(2,3) ds by (simp add: proc_send_message_def k_malloc_def flip: n_def)
  moreover have "msgs_wf N ?s ?Q" unfolding msgs_wf_def
  proof (intro conjI allI impI)
    fix p p' :: addr
    have dj: "set (Q p) \<inter> set (Q p') = {}" if "p \<noteq> p'" for p p' using w that by (auto simp: msgs_wf_def)
    have nin: "\<forall>x \<in> set (Q p). x \<noteq> n" for p using n(2) by auto
    show "queue_ok ?s ?Q p"
    proof (cases "p = dp")
      case True
      then show ?thesis using ml(2) in_queue [OF w, of _ dp] m nin by (auto simp: queue_ok_def)
    next
      case False
      have "dll ml (messageQueue pr') (Q p)" if "procs s p = Some pr'" for pr'
        using msgs_wf_dll [OF w that] ml(3) by (rule dll_frame) (use dj [OF False] n(2) in auto)
      moreover have "procs s p = None \<Longrightarrow> Q p = []" using w by (simp add: msgs_wf_def queue_ok_def)
      ultimately show ?thesis using False in_queue [OF w, of _ p] nin by (auto simp: queue_ok_def)
    qed
    show "p \<noteq> p' \<Longrightarrow> set (?Q p) \<inter> set (?Q p') = {}" using dj n(2) by auto
  next
    have un: "(\<Union>p. set (?Q p)) = insert n (\<Union>p. set (Q p))" by (auto split: if_splits)
    have "inj_on (mnodes s) (\<Union>p. set (Q p))" using w by (simp add: msgs_wf_def)
    moreover have "n \<notin> (\<Union>p. set (Q p))" using n(2) by blast
    moreover have "Some m \<notin> mnodes s ` (\<Union>p. set (Q p))" by (rule notI, elim imageE UN_E, metis m(3))
    ultimately have "inj_on ((mnodes s)(n := Some m)) (insert n (\<Union>p. set (Q p)))" by (rule inj_on_upd_insert)
    then show "inj_on (mnodes ?s) (\<Union>p. set (?Q p))" unfolding un by simp
    show "heap_fresh N ?s" by (rule heap_fresh_Suc [OF w]) (simp_all add: n_def)
  qed
  ultimately show ?thesis by blast
qed

lemma next_message_ok:
  assumes w: "msgs_wf N s Q" and p: "cpu_proc (cpus s ! me) = p" "procs s p = Some pr" "Q p = n # ns"
  shows "\<exists>m h ml l. sys_next_message me s = Some (s\<lparr>mlinks := ml, procs := (procs s)(p := Some (pr\<lparr>messageQueue := l\<rparr>)),
      mnodes := (mnodes s)(n := None), msgs := (msgs s)(m := None)\<rparr>, h) \<and> mnodes s n = Some m \<and> msgs s m = Some h
    \<and> msgs_wf N (s\<lparr>mlinks := ml, procs := (procs s)(p := Some (pr\<lparr>messageQueue := l\<rparr>)),
      mnodes := (mnodes s)(n := None), msgs := (msgs s)(m := None)\<rparr>) (Q(p := ns))"
proof -
  obtain m h where m: "mnodes s n = Some m" "m \<noteq> 0" "msgs s m = Some h" using in_queue [OF w, of n p] p(3) by auto
  have dl: "dll (mlinks s) (messageQueue pr) ([] @ n # ns)" using msgs_wf_dll [OF w p(2)] p(3) by simp
  then have n: "n \<noteq> 0" "l_head (messageQueue pr) = n" "n \<notin> set ns" by (auto simp: dll_def)
  obtain ml l where ml: "list_remove (mlinks s) (messageQueue pr) n = (ml, l)" by fastforce
  have ml': "dll ml l ns" "agree_off (set ns) (mlinks s) ml" using list_remove_ok [OF ml dl] by simp_all
  let ?s = "s\<lparr>mlinks := ml, procs := (procs s)(p := Some (pr\<lparr>messageQueue := l\<rparr>)), mnodes := (mnodes s)(n := None), msgs := (msgs s)(m := None)\<rparr>"
  have "sys_next_message me s = Some (?s, h)"
    using p m n ml by (simp add: sys_next_message_def proc_retrieve_message_def msg_free_def)
  moreover have "msgs_wf N ?s (Q(p := ns))" unfolding msgs_wf_def
  proof (intro conjI allI impI)
    fix r r' :: addr
    have dj: "set (Q r) \<inter> set (Q r') = {}" if "r \<noteq> r'" for r r' using w that by (auto simp: msgs_wf_def)
    have other: "x \<noteq> n \<and> mnodes s x \<noteq> Some m" if "x \<in> set ((Q(p := ns)) r)" for x r
    proof -
      have x: "x \<noteq> n" "x \<in> set (Q r)" using that n(3) p(3) dj [of r p] by (auto split: if_splits)
      moreover have "inj_on (mnodes s) (\<Union>r. set (Q r))" using w by (simp add: msgs_wf_def)
      moreover have "n \<in> set (Q p)" using p(3) by simp
      then have "n \<in> (\<Union>r. set (Q r))" "x \<in> (\<Union>r. set (Q r))" using x(2) by blast+
      ultimately show ?thesis using m(1) by (metis inj_onD)
    qed
    show "queue_ok ?s (Q(p := ns)) r"
    proof (cases "r = p")
      case True
      have "\<exists>m' h. mnodes s x = Some m' \<and> m' \<noteq> 0 \<and> msgs s m' = Some h" if "x \<in> set ns" for x using in_queue [OF w, of x p] that p(3) by simp
      then show ?thesis using True ml'(1) other [of _ p] by (fastforce simp: queue_ok_def)
    next
      case False
      have "dll ml (messageQueue pr') (Q r)" if "procs s r = Some pr'" for pr'
        using msgs_wf_dll [OF w that] ml'(2) by (rule dll_frame) (use dj [OF False] p(3) in auto)
      moreover have "procs s r = None \<Longrightarrow> Q r = []" using w by (simp add: msgs_wf_def queue_ok_def)
      ultimately show ?thesis using False in_queue [OF w, of _ r] other [of _ r] by (fastforce simp: queue_ok_def)
    qed
    show "r \<noteq> r' \<Longrightarrow> set ((Q(p := ns)) r) \<inter> set ((Q(p := ns)) r') = {}" using dj [of r r'] p(3) by auto
  next
    have "(\<Union>r. set ((Q(p := ns)) r)) \<subseteq> (\<Union>r. set (Q r)) - {n}"
    proof -
      have "n \<notin> set (Q r)" if "r \<noteq> p" for r using w that p(3) by (force simp: msgs_wf_def)
      then show ?thesis using n(3) p(3) by (auto split: if_splits)
    qed
    moreover have "inj_on ((mnodes s)(n := None)) ((\<Union>r. set (Q r)) - {n})" using w by (auto simp: msgs_wf_def inj_on_def)
    ultimately show "inj_on (mnodes ?s) (\<Union>r. set ((Q(p := ns)) r))" by (simp add: inj_on_subset)
    show "heap_fresh N ?s" using w by (auto simp: msgs_wf_def heap_fresh_def)
  qed
  ultimately show ?thesis using m by blast
qed

section \<open>Keys in order\<close>

text \<open>
  What the keyboard should do with a scan code, as a function of the prefix flag and the pressed keys: the new values, and the
  message with its destination.
\<close>

type_synonym kbd = "bool \<times> bool list"

definition key_out :: "bool list \<Rightarrow> vkey \<Rightarrow> (msg_dest \<times> vkey \<times> bool) option" where
  "key_out keys key = (let shift = (keys ! VKEY_LSHIFT \<or> keys ! VKEY_RSHIFT) in
     if VKEY_F1 \<le> key \<and> key \<le> VKEY_F12 then (if keys ! key then None else Some (MSG_DEST_UI_PROCESS, key, shift))
     else Some (MSG_DEST_VISIBLE_PROCESS, key, shift))"

definition kbd_step :: "u8 \<Rightarrow> kbd \<Rightarrow> kbd \<times> (msg_dest \<times> vkey \<times> bool) option" where
  "kbd_step c k = (case k of (e0, keys) \<Rightarrow>
     if c = 0xE0 then ((True, keys), None)
     else let key = (if e0 then e0ScanCodeConversionTable else oneByteScanCodeConversionTable) ! unat (c AND 0x7F)
          in if c AND 0x80 \<noteq> 0 then ((False, keys[key := False]), None) else ((False, keys[key := True]), key_out keys key))"

fun kbd_run :: "u8 list \<Rightarrow> kbd \<Rightarrow> (msg_dest \<times> vkey \<times> bool) list" where
  "kbd_run [] k = []"
| "kbd_run (c # cs) k = (case kbd_step c k of (k, None) \<Rightarrow> kbd_run cs k | (k, Some m) \<Rightarrow> m # kbd_run cs k)"

definition key_msg :: "msg_dest \<times> vkey \<times> bool \<Rightarrow> msg_key_press" where
  "key_msg x = (case x of (d, k, sh) \<Rightarrow> \<lparr>msg_type = MSG_KEY_PRESS, msg_size = 16, shiftModifier = sh, keyCode = k\<rparr>)"

definition dest_of :: "ksys \<Rightarrow> msg_dest \<times> vkey \<times> bool \<Rightarrow> addr" where
  "dest_of s x = (case fst x of MSG_DEST_UI_PROCESS \<Rightarrow> uiProcess s | MSG_DEST_VISIBLE_PROCESS \<Rightarrow> processDisplayed s)"

text \<open>Everything but the queues of messages is as before.\<close>

definition same_env :: "ksys \<Rightarrow> ksys \<Rightarrow> bool" where
  "same_env s s' \<longleftrightarrow> uiProcess s' = uiProcess s \<and> processDisplayed s' = processDisplayed s \<and> cpus s' = cpus s
     \<and> (\<forall>p. procs s p \<noteq> None \<longrightarrow> procs s' p \<noteq> None)"

lemma create_wf:
  assumes w: "msgs_wf (Suc N) s Q"
  defines "m \<equiv> k_heap s (k_mallocs s)"
  shows "msgs_wf N (s\<lparr>k_mallocs := k_mallocs s + 1, msgs := (msgs s)(m := Some h)\<rparr>) Q" "m \<noteq> 0" "\<forall>p. \<forall>n \<in> set (Q p). mnodes s n \<noteq> Some m"
proof -
  have f: "m \<noteq> 0" "msgs s m = None" using fresh_node(1,4) [OF w] by (simp_all add: m_def)
  show "m \<noteq> 0" by (rule f)
  show "\<forall>p. \<forall>n \<in> set (Q p). mnodes s n \<noteq> Some m" using in_queue [OF w] f(2) by fastforce
  then have "queue_ok (s\<lparr>k_mallocs := k_mallocs s + 1, msgs := (msgs s)(m := Some h)\<rparr>) Q p" for p
  proof -
    have "\<exists>m' h'. mnodes s n = Some m' \<and> m' \<noteq> 0 \<and> ((msgs s)(m := Some h)) m' = Some h'" if "n \<in> set (Q p)" for n
      using in_queue [OF w that] by auto
    then show ?thesis using w by (simp add: msgs_wf_def queue_ok_def)
  qed
  moreover have "heap_fresh N (s\<lparr>k_mallocs := k_mallocs s + 1, msgs := (msgs s)(m := Some h)\<rparr>)"
    by (rule heap_fresh_Suc [OF w]) (simp_all add: m_def)
  ultimately show "msgs_wf N (s\<lparr>k_mallocs := k_mallocs s + 1, msgs := (msgs s)(m := Some h)\<rparr>) Q" using w by (simp add: msgs_wf_def)
qed

definition appended :: "ksys \<Rightarrow> (msg_dest \<times> vkey \<times> bool) option \<Rightarrow> addr \<Rightarrow> msg_key_press list" where
  "appended s x p = (case x of None \<Rightarrow> [] | Some x \<Rightarrow> if dest_of s x = p then [key_msg x] else [])"

lemma mq_cong:
  assumes "\<And>n. n \<in> set (Q p) \<Longrightarrow> msgs s' (the (mnodes s' n)) = msgs s (the (mnodes s n))"
  shows "mq s' Q p = mq s Q p"
  using assms by (simp add: mq_def)

text \<open>A key that is not sent: the message is allocated and forgotten.\<close>

lemma create_ok:
  assumes w: "ksys_wf (Suc N) s Q"
  shows "\<exists>s' m. msg_create_keypress key shift s = Some (s', m) \<and> ksys_wf N s' Q \<and> same_env s s' \<and> receivedE0 s' = receivedE0 s \<and> pressedKeys s' = pressedKeys s
    \<and> (\<forall>p. mq s' Q p = mq s Q p) \<and> m \<noteq> 0 \<and> (\<forall>p. \<forall>n \<in> set (Q p). mnodes s' n \<noteq> Some m)
    \<and> msgs s' m = Some \<lparr>msg_type = MSG_KEY_PRESS, msg_size = 16, shiftModifier = shift, keyCode = key\<rparr>"
proof -
  have w': "msgs_wf (Suc N) s Q" using w by (simp add: ksys_wf_def)
  let ?m = "k_heap s (k_mallocs s)" and ?h = "\<lparr>msg_type = MSG_KEY_PRESS, msg_size = 16, shiftModifier = shift, keyCode = key\<rparr>"
  let ?s = "s\<lparr>k_mallocs := k_mallocs s + 1, msgs := (msgs s)(?m := Some ?h)\<rparr>"
  note c = create_wf(1) [OF w', of ?h] create_wf(2,3) [OF w']
  have "mq ?s Q p = mq s Q p" for p
    using in_queue [OF w'] fresh_node(4) [OF w'] by (intro mq_cong) fastforce
  moreover have "msg_create_keypress key shift s = Some (?s, ?m)" using c(2) by (simp add: msg_create_keypress_def k_malloc_def)
  ultimately show ?thesis using c w by (intro exI [of _ ?s] exI [of _ ?m]) (simp add: ksys_wf_def same_env_def)
qed

lemma msg_send_ok:
  assumes w: "ksys_wf (Suc N) s Q" and m: "msgs s m = Some (key_msg (d, key, shift))" "m \<noteq> 0" "\<forall>p. \<forall>n \<in> set (Q p). mnodes s n \<noteq> Some m"
  shows "\<exists>s' Q'. msg_send d m s = Some s' \<and> ksys_wf N s' Q' \<and> same_env s s' \<and> receivedE0 s' = receivedE0 s \<and> pressedKeys s' = pressedKeys s
    \<and> (\<forall>p. mq s' Q' p = mq s Q p @ appended s (Some (d, key, shift)) p)"
proof -
  have w': "msgs_wf (Suc N) s Q" "\<not> processListLock s" using w by (simp_all add: ksys_wf_def)
  define dp where "dp = dest_of s (d, key, shift)"
  have dp: "dest_process d s = Some dp" "dp \<noteq> 0" using w by (cases d; simp add: dest_process_def dp_def dest_of_def ksys_wf_def)+
  obtain pr where pr: "procs s dp = Some pr" using w by (cases d) (auto simp: dp_def dest_of_def ksys_wf_def)
  define n where "n = k_heap s (k_mallocs s)"
  let ?S = "\<lambda>ml l. s\<lparr>k_mallocs := k_mallocs s + 1, mnodes := (mnodes s)(n := Some m), mlinks := ml,
      procs := (procs s)(dp := Some (pr\<lparr>messageQueue := l\<rparr>))\<rparr>"
  obtain ml l where s': "proc_send_message d m s = Some (?S ml l)" "msgs_wf N (?S ml l) (Q(dp := Q dp @ [n]))"
    using send_ok [OF w' dp pr m, folded n_def] by blast
  let ?s = "?S ml l"
  have nq: "n \<notin> set (Q p)" for p using fresh_node(2) [OF w'(1)] by (simp add: n_def)
  have q: "mq ?s Q p = mq s Q p" for p using nq [of p] by (intro mq_cong) auto
  have "mq ?s (Q(dp := Q dp @ [n])) p = mq s Q p @ appended s (Some (d, key, shift)) p" for p
    using q [of p] m(1) by (auto simp: mq_def appended_def dp_def)
  moreover have "ksys_wf N ?s (Q(dp := Q dp @ [n]))" using s'(2) w by (auto simp: ksys_wf_def)
  ultimately show ?thesis using s'(1) by (intro exI [of _ ?s] exI [of _ "Q(dp := Q dp @ [n])"]) (simp add: msg_send_def same_env_def)
qed

lemma set_key_wf: "ksys_wf N s Q \<Longrightarrow> ksys_wf N (s\<lparr>pressedKeys := (pressedKeys s)[k := b]\<rparr>) Q" "ksys_wf N s Q \<Longrightarrow> ksys_wf N (s\<lparr>receivedE0 := e\<rparr>) Q"
  "mq (s\<lparr>pressedKeys := ks\<rparr>) Q p = mq s Q p" "mq (s\<lparr>receivedE0 := e\<rparr>) Q p = mq s Q p"
  by (simp_all add: ksys_wf_def msgs_wf_def queue_ok_def heap_fresh_def mq_def)

lemma ksys_wf_less: "ksys_wf M s Q \<Longrightarrow> N \<le> M \<Longrightarrow> ksys_wf N s Q"
  by (auto simp: ksys_wf_def msgs_wf_def heap_fresh_def intro: inj_on_subset)

lemma send_key_ok:
  assumes w: "ksys_wf (Suc (Suc N)) s Q"
  shows "\<exists>s' Q'. send_key key s = Some s' \<and> ksys_wf N s' Q' \<and> same_env s s' \<and> receivedE0 s' = receivedE0 s \<and> pressedKeys s' = pressedKeys s
    \<and> (\<forall>p. mq s' Q' p = mq s Q p @ appended s (key_out (pressedKeys s) key) p)"
proof -
  let ?sh = "pressedKeys s ! VKEY_LSHIFT \<or> pressedKeys s ! VKEY_RSHIFT"
  obtain s1 m where s1: "msg_create_keypress key ?sh s = Some (s1, m)" "ksys_wf (Suc N) s1 Q" "same_env s s1" "receivedE0 s1 = receivedE0 s"
    "pressedKeys s1 = pressedKeys s" "\<forall>p. mq s1 Q p = mq s Q p" "m \<noteq> 0" "\<forall>p. \<forall>n \<in> set (Q p). mnodes s1 n \<noteq> Some m"
    "msgs s1 m = Some (key_msg (d, key, ?sh))" for d
    using create_ok [OF w, of key ?sh] by (auto simp: key_msg_def)
  show ?thesis
  proof (cases "key_out (pressedKeys s) key")
    case None
    then have "send_key key s = Some s1" using s1(1,5) by (auto simp: send_key_def key_out_def Let_def split: if_splits)
    then show ?thesis using None s1 ksys_wf_less [OF s1(2), of N] by (auto simp: appended_def)
  next
    case (Some y)
    then obtain d where y: "y = (d, key, ?sh)" "send_key key s = msg_send d m s1"
      using s1(1,5) by (auto simp: send_key_def key_out_def Let_def split: if_splits)
    obtain s2 Q2 where s2: "msg_send d m s1 = Some s2" "ksys_wf N s2 Q2" "same_env s1 s2" "receivedE0 s2 = receivedE0 s1" "pressedKeys s2 = pressedKeys s1"
      "\<forall>p. mq s2 Q2 p = mq s1 Q p @ appended s1 (Some (d, key, ?sh)) p" using msg_send_ok [OF s1(2,9,7,8)] by blast
    have "appended s1 (Some (d, key, ?sh)) p = appended s (key_out (pressedKeys s) key) p" for p
      using s1(3) Some y(1) by (cases d) (simp_all add: appended_def dest_of_def same_env_def)
    moreover have "same_env s s2" using s1(3) s2(3) by (simp add: same_env_def)
    ultimately show ?thesis using s1 s2 y(2) by (intro exI [of _ s2] exI [of _ Q2]) simp
  qed
qed

lemma handle_ok:
  assumes w: "ksys_wf (Suc (Suc N)) s Q"
  shows "\<exists>s' Q'. handle_key_press c s = Some s' \<and> ksys_wf N s' Q' \<and> same_env s s'
    \<and> (receivedE0 s', pressedKeys s') = fst (kbd_step c (receivedE0 s, pressedKeys s))
    \<and> (\<forall>p. mq s' Q' p = mq s Q p @ appended s (snd (kbd_step c (receivedE0 s, pressedKeys s))) p)"
proof (cases "c = 0xE0")
  case True
  then show ?thesis using set_key_wf(2) [OF ksys_wf_less [OF w, of N]]
    by (intro exI [of _ "s\<lparr>receivedE0 := True\<rparr>"] exI [of _ Q]) (simp add: handle_key_press_def kbd_step_def same_env_def appended_def set_key_wf(4))
next
  case False
  define key where "key = (if receivedE0 s then e0ScanCodeConversionTable else oneByteScanCodeConversionTable) ! unat (c AND 0x7F)"
  let ?s = "s\<lparr>receivedE0 := False\<rparr>"
  have w1: "ksys_wf (Suc (Suc N)) ?s Q" by (rule set_key_wf(2) [OF w])
  show ?thesis
  proof (cases "c AND 0x80 = 0")
    case True
    obtain s1 Q1 where s1: "send_key key ?s = Some s1" "ksys_wf N s1 Q1" "same_env ?s s1" "receivedE0 s1 = False" "pressedKeys s1 = pressedKeys s"
      "\<forall>p. mq s1 Q1 p = mq s Q p @ appended ?s (key_out (pressedKeys s) key) p"
      using send_key_ok [OF w1, of key] by (auto simp: set_key_wf(4))
    have ap: "appended ?s x p = appended s x p" for x p by (simp add: appended_def dest_of_def split: option.split msg_dest.split)
    show ?thesis using False True s1 set_key_wf(1) [OF s1(2)]
      by (intro exI [of _ "s1\<lparr>pressedKeys := (pressedKeys s1)[key := True]\<rparr>"] exI [of _ Q1])
        (simp add: handle_key_press_def kbd_step_def Let_def same_env_def set_key_wf(3) ap flip: key_def)
  next
    case False
    then show ?thesis using \<open>c \<noteq> 0xE0\<close> set_key_wf(1) [OF ksys_wf_less [OF w1, of N]]
      by (intro exI [of _ "?s\<lparr>pressedKeys := (pressedKeys ?s)[key := False]\<rparr>"] exI [of _ Q])
        (simp add: handle_key_press_def kbd_step_def Let_def same_env_def appended_def set_key_wf(3,4) flip: key_def)
  qed
qed

fun run_keys :: "u8 list \<Rightarrow> ksys \<Rightarrow> ksys option" where
  "run_keys [] s = Some s"
| "run_keys (c # cs) s = do {s \<leftarrow> handle_key_press c s; run_keys cs s}"

fun next_messages :: "nat \<Rightarrow> nat \<Rightarrow> ksys \<Rightarrow> (ksys \<times> msg_key_press list) option" where
  "next_messages me 0 s = Some (s, [])"
| "next_messages me (Suc n) s = do {
     (s, h) \<leftarrow> sys_next_message me s;
     (s, hs) \<leftarrow> next_messages me n s;
     Some (s, h # hs)}"

definition messages_for :: "ksys \<Rightarrow> addr \<Rightarrow> u8 list \<Rightarrow> kbd \<Rightarrow> msg_key_press list" where
  "messages_for s p cs k = map key_msg (filter (\<lambda>x. dest_of s x = p) (kbd_run cs k))"

lemma run_keys_ok:
  assumes "ksys_wf (2 * length cs) s Q"
  shows "\<exists>s' Q'. run_keys cs s = Some s' \<and> ksys_wf 0 s' Q' \<and> same_env s s'
    \<and> (\<forall>p. mq s' Q' p = mq s Q p @ messages_for s p cs (receivedE0 s, pressedKeys s))"
  using assms
proof (induction cs arbitrary: s Q)
  case Nil
  then show ?case by (auto simp: same_env_def messages_for_def)
next
  case (Cons c cs)
  let ?k = "(receivedE0 s, pressedKeys s)"
  obtain s1 Q1 where s1: "handle_key_press c s = Some s1" "ksys_wf (2 * length cs) s1 Q1" "same_env s s1" "(receivedE0 s1, pressedKeys s1) = fst (kbd_step c ?k)"
    "\<forall>p. mq s1 Q1 p = mq s Q p @ appended s (snd (kbd_step c ?k)) p" using handle_ok [of "2 * length cs" s Q c] Cons.prems by auto
  obtain s2 Q2 where s2: "run_keys cs s1 = Some s2" "ksys_wf 0 s2 Q2" "same_env s1 s2"
    "\<forall>p. mq s2 Q2 p = mq s1 Q1 p @ messages_for s1 p cs (receivedE0 s1, pressedKeys s1)" using Cons.IH [OF s1(2)] by blast
  have d: "dest_of s1 = dest_of s" using s1(3) by (auto simp: dest_of_def same_env_def split: msg_dest.split)
  have "appended s (snd (kbd_step c ?k)) p @ messages_for s1 p cs (receivedE0 s1, pressedKeys s1) = messages_for s p (c # cs) ?k" for p
    unfolding s1(4) by (cases "kbd_step c ?k") (auto simp: messages_for_def appended_def d split: option.split)
  moreover have "same_env s s2" using s1(3) s2(3) by (simp add: same_env_def)
  ultimately show ?case using s1 s2 by (intro exI [of _ s2] exI [of _ Q2]) simp
qed

lemma next_messages_ok:
  assumes "msgs_wf N s Q" "cpu_proc (cpus s ! me) = p" "procs s p \<noteq> None"
  shows "\<exists>s'. next_messages me (length (mq s Q p)) s = Some (s', mq s Q p) \<and> sys_next_message_type me s' = Some MSG_INVALID"
  using assms
proof (induction "Q p" arbitrary: s Q)
  case Nil
  obtain pr where pr: "procs s p = Some pr" using Nil.prems(3) by auto
  have "l_head (messageQueue pr) = 0" using msgs_wf_dll [OF Nil.prems(1) pr] Nil.hyps by (simp add: dll_def)
  then show ?case using Nil pr by (simp add: mq_def sys_next_message_type_def proc_peek_message_def)
next
  case (Cons n ns)
  obtain pr where pr: "procs s p = Some pr" using Cons.prems(3) by auto
  note q = Cons.hyps(2) [symmetric]
  let ?S = "\<lambda>ml l m. s\<lparr>mlinks := ml, procs := (procs s)(p := Some (pr\<lparr>messageQueue := l\<rparr>)), mnodes := (mnodes s)(n := None), msgs := (msgs s)(m := None)\<rparr>"
  obtain m h ml l where s1: "sys_next_message me s = Some (?S ml l m, h)" "mnodes s n = Some m" "msgs s m = Some h" "msgs_wf N (?S ml l m) (Q(p := ns))"
    using next_message_ok [OF Cons.prems(1,2) pr q] by blast
  have ne: "x \<noteq> n \<and> mnodes s x \<noteq> Some m" if "x \<in> set ns" for x
  proof -
    have "n \<notin> set ns" using msgs_wf_dll [OF Cons.prems(1) pr] by (simp add: q dll_def)
    moreover have "inj_on (mnodes s) (\<Union>r. set (Q r))" using Cons.prems(1) by (simp add: msgs_wf_def)
    moreover have "x \<in> set (Q p)" "n \<in> set (Q p)" using that by (simp_all add: q)
    ultimately have "mnodes s x = mnodes s n \<Longrightarrow> x = n" by (meson UN_I UNIV_I inj_onD)
    then show ?thesis using that s1(2) \<open>n \<notin> set ns\<close> by metis
  qed
  have r: "mq (?S ml l m) (Q(p := ns)) p = map (\<lambda>n. the (msgs s (the (mnodes s n)))) ns"
  proof -
    have "((msgs s)(m := None)) (the (((mnodes s)(n := None)) x)) = msgs s (the (mnodes s x))" if "x \<in> set ns" for x
      using ne [OF that] in_queue [OF Cons.prems(1), of x p] that by (auto simp: q)
    then show ?thesis by (simp add: mq_def)
  qed
  have "\<exists>s'. next_messages me (length (mq (?S ml l m) (Q(p := ns)) p)) (?S ml l m) = Some (s', mq (?S ml l m) (Q(p := ns)) p)
      \<and> sys_next_message_type me s' = Some MSG_INVALID"
    by (rule Cons.hyps(1)) (use s1(4) Cons.prems(2) in simp_all)
  then show ?case unfolding r using s1(1-3) by (auto simp: mq_def q)
qed

text \<open>
  C37. Key presses reach the programs in order: for every sequence of scan codes the handler returns, and the process that
  runs on a processor then retrieves, with as many calls as there are messages, first the messages that were waiting and
  then exactly the key presses addressed to it (provided that memory for two allocations per key is left; function keys to the user interface, when they were not already pressed,
  all others to the visible process), in the order of the keys and each with the state of the shift keys; after that the
  queue is reported empty.
\<close>

theorem keyboard_messages_in_order:
  assumes "ksys_wf (2 * length cs) s Q" "cpu_proc (cpus s ! me) = p" "procs s p \<noteq> None"
  shows "\<exists>s1 s2. run_keys cs s = Some s1
    \<and> next_messages me (length (mq s Q p @ messages_for s p cs (receivedE0 s, pressedKeys s))) s1
        = Some (s2, mq s Q p @ messages_for s p cs (receivedE0 s, pressedKeys s))
    \<and> sys_next_message_type me s2 = Some MSG_INVALID"
proof -
  obtain s1 Q1 where s1: "run_keys cs s = Some s1" "ksys_wf 0 s1 Q1" "same_env s s1"
    "\<forall>p. mq s1 Q1 p = mq s Q p @ messages_for s p cs (receivedE0 s, pressedKeys s)" using run_keys_ok [OF assms(1)] by blast
  have "cpu_proc (cpus s1 ! me) = p" "procs s1 p \<noteq> None" "msgs_wf 0 s1 Q1" using s1(2,3) assms(2,3) by (auto simp: same_env_def ksys_wf_def)
  then show ?thesis using next_messages_ok [of 0 s1 Q1 me p] s1(1,4) by auto
qed

definition ksys_example :: ksys where
  "ksys_example = tsys.extend (tsys_example (seg_empty vm_example)\<lparr>k_heap := (\<lambda>k. if k < 100 then of_nat k + 1 else 0)\<rparr>)
     (ksys.fields 9 9 False \<lparr>n_next = (\<lambda>_. 0), n_prev = (\<lambda>_. 0)\<rparr> (\<lambda>_. None) (\<lambda>_. None) (replicate 114 False) False False 0 (\<lambda>_. 0) (\<lambda>i. i = 0))"

lemma ksys_example_fresh: "heap_fresh 6 ksys_example"
proof -
  have r: "{0..<6 :: nat} = {0, 1, 2, 3, 4, 5}" by auto
  show ?thesis
    by (simp add: heap_fresh_def ksys_example_def tsys.extend_def ksys.fields_def tsys_example_def sched.extend_def tsys.fields_def r)
qed

lemma ksys_example_wf: "ksys_wf 6 ksys_example (\<lambda>_. [])"
  using ksys_example_fresh
  by (simp add: ksys_wf_def msgs_wf_def queue_ok_def)
    (simp add: ksys_example_def tsys.extend_def ksys.fields_def tsys_example_def sched.extend_def tsys.fields_def sched_example_def vkey_defs)

theorem keyboard_messages_in_order_witness:
  "\<exists>s1 s2. run_keys [0x2A, 0x1E, 0x3B] ksys_example = Some s1
     \<and> next_messages 0 3 s1 = Some (s2, [\<lparr>msg_type = 1, msg_size = 16, shiftModifier = False, keyCode = VKEY_LSHIFT\<rparr>,
         \<lparr>msg_type = 1, msg_size = 16, shiftModifier = True, keyCode = VKEY_A\<rparr>, \<lparr>msg_type = 1, msg_size = 16, shiftModifier = True, keyCode = VKEY_F1\<rparr>])"
proof -
  have e: "cpu_proc (cpus ksys_example ! 0) = 9" "procs ksys_example 9 \<noteq> None" "uiProcess ksys_example = 9" "processDisplayed ksys_example = 9"
    "receivedE0 ksys_example = False" "pressedKeys ksys_example = replicate 114 False"
    by (simp_all add: ksys_example_def tsys.extend_def ksys.fields_def tsys_example_def sched.extend_def tsys.fields_def sched_example_def)
  have t: "oneByteScanCodeConversionTable ! 42 = VKEY_LSHIFT" "oneByteScanCodeConversionTable ! 30 = VKEY_A" "oneByteScanCodeConversionTable ! 59 = VKEY_F1"
    by (simp_all add: oneByteScanCodeConversionTable_def)
  have "kbd_run [0x2A, 0x1E, 0x3B] (False, replicate 114 False)
      = [(MSG_DEST_VISIBLE_PROCESS, VKEY_LSHIFT, False), (MSG_DEST_VISIBLE_PROCESS, VKEY_A, True), (MSG_DEST_UI_PROCESS, VKEY_F1, True)]"
    by (simp add: kbd_step_def key_out_def t) (simp add: vkey_defs)
  then have "messages_for ksys_example 9 [0x2A, 0x1E, 0x3B] (False, replicate 114 False)
      = [\<lparr>msg_type = 1, msg_size = 16, shiftModifier = False, keyCode = VKEY_LSHIFT\<rparr>,
         \<lparr>msg_type = 1, msg_size = 16, shiftModifier = True, keyCode = VKEY_A\<rparr>, \<lparr>msg_type = 1, msg_size = 16, shiftModifier = True, keyCode = VKEY_F1\<rparr>]"
    by (simp add: messages_for_def dest_of_def e key_msg_def MSG_KEY_PRESS_def)
  moreover have w: "ksys_wf (2 * length [0x2A :: u8, 0x1E, 0x3B]) ksys_example (\<lambda>_. [])"
  proof -
    have l: "2 * length [0x2A :: u8, 0x1E, 0x3B] = 6" by simp
    show ?thesis unfolding l by (rule ksys_example_wf)
  qed
  note keyboard_messages_in_order [OF w e(1,2)]
  ultimately show ?thesis unfolding e by (simp add: mq_def numeral_3_eq_3) blast
qed

end
