(* ===== verification/Kstring.thy ===== *)
theory Kstring
  imports Prelude "HOL-Library.Monad_Syntax"
begin

text \<open>
  The string and memory functions of the kernel, \<^verbatim>\<open>kernel/stdlib/string.c\<close>, and those of the user library that the
  kernel does not have, \<^verbatim>\<open>lib/string.c\<close>.  Memory is a function from addresses to bytes; a loop that does not find the
  end of a string is \<open>None\<close>.
\<close>

type_synonym mem = "u64 \<Rightarrow> u8"

section \<open>Functions\<close>

partial_function (option) strcmp_loop :: "mem \<Rightarrow> u64 \<Rightarrow> u64 \<Rightarrow> int option" where
  "strcmp_loop m s1 s2 =
     (if m s1 \<noteq> 0 \<and> m s1 = m s2 then strcmp_loop m (s1 + 1) (s2 + 1) else Some (uint (m s1) - uint (m s2)))"

definition strcmp :: "u64 \<Rightarrow> u64 \<Rightarrow> mem \<Rightarrow> int option" where
  "strcmp str1 str2 m = strcmp_loop m str1 str2"

fun memset_loop :: "nat \<Rightarrow> u64 \<Rightarrow> u8 \<Rightarrow> mem \<Rightarrow> mem" where
  "memset_loop 0 ptr8 value m = m"
| "memset_loop (Suc len) ptr8 value m = memset_loop len (ptr8 + 1) value (m(ptr8 := value))"

definition memset :: "u64 \<Rightarrow> int \<Rightarrow> u64 \<Rightarrow> mem \<Rightarrow> mem" where
  "memset ptr value len m = memset_loop (unat len) ptr (of_int value) m"

fun memcpy_loop :: "nat \<Rightarrow> u64 \<Rightarrow> u64 \<Rightarrow> mem \<Rightarrow> mem" where
  "memcpy_loop 0 dst8 src8 m = m"
| "memcpy_loop (Suc len) dst8 src8 m = memcpy_loop len (dst8 + 1) (src8 + 1) (m(dst8 := m src8))"

definition memcpy :: "u64 \<Rightarrow> u64 \<Rightarrow> u64 \<Rightarrow> mem \<Rightarrow> mem" where
  "memcpy dst src len m = memcpy_loop (unat len) dst src m"

text \<open>The loop from the last byte down to the first; its counter is a signed integer.\<close>

fun memmove_loop :: "nat \<Rightarrow> u64 \<Rightarrow> u64 \<Rightarrow> mem \<Rightarrow> mem" where
  "memmove_loop 0 dst8 src8 m = m"
| "memmove_loop (Suc i) dst8 src8 m = memmove_loop i dst8 src8 (m(dst8 + of_nat i := m (src8 + of_nat i)))"

definition memmove :: "u64 \<Rightarrow> u64 \<Rightarrow> u64 \<Rightarrow> mem \<Rightarrow> mem" where
  "memmove dst src len m =
     (if src = dst then m
      else let src_end = src + len in
      if src < dst \<and> dst < src_end then
        (if sint (len - 1) \<ge> 0 then memmove_loop (nat (sint (len - 1) + 1)) dst src m else m)
      else memcpy dst src len m)"

fun memcmp_loop :: "nat \<Rightarrow> u64 \<Rightarrow> u64 \<Rightarrow> mem \<Rightarrow> int" where
  "memcmp_loop 0 p1 p2 m = 0"
| "memcmp_loop (Suc len) p1 p2 m =
     (if m p1 \<noteq> m p2 then uint (m p1) - uint (m p2) else memcmp_loop len (p1 + 1) (p2 + 1) m)"

definition memcmp :: "u64 \<Rightarrow> u64 \<Rightarrow> u64 \<Rightarrow> mem \<Rightarrow> int" where
  "memcmp ptr1 ptr2 len m = memcmp_loop (unat len) ptr1 ptr2 m"

definition memclr :: "u64 \<Rightarrow> u64 \<Rightarrow> mem \<Rightarrow> mem" where
  "memclr ptr len m = memset ptr 0 len m"

partial_function (option) strlen_loop :: "mem \<Rightarrow> u64 \<Rightarrow> u64 option" where
  "strlen_loop m s = (if m s \<noteq> 0 then strlen_loop m (s + 1) else Some s)"

definition strlen :: "u64 \<Rightarrow> mem \<Rightarrow> u64 option" where
  "strlen str m = map_option (\<lambda>s. s - str) (strlen_loop m str)"

partial_function (option) strrev_loop :: "u64 \<Rightarrow> u64 \<Rightarrow> mem \<Rightarrow> mem option" where
  "strrev_loop s1 s2 m =
     (if s1 < s2 then let c = m s1; m = m(s1 := m s2); m = m(s2 := c) in strrev_loop (s1 + 1) (s2 - 1) m else Some m)"

definition strrev :: "u64 \<Rightarrow> mem \<Rightarrow> mem option" where
  "strrev str m = do {
     n \<leftarrow> strlen str m;
     strrev_loop str (str + n - 1) m}"

definition digit_char :: "u64 \<Rightarrow> u8" where
  "digit_char d = (let c = 48 + ucast d in if c > 57 then c + 7 else c)"

partial_function (option) itoa_loop :: "u64 \<Rightarrow> u64 \<Rightarrow> u64 \<Rightarrow> u64 \<Rightarrow> mem \<Rightarrow> (mem \<times> u64) option" where
  "itoa_loop base value str pos m =
     (let m = m(str + pos := digit_char (value mod base)); pos = pos + 1; value = value div base
      in if value > 0 then itoa_loop base value str pos m else Some (m, pos))"

definition itoa :: "u64 \<Rightarrow> u64 \<Rightarrow> int \<Rightarrow> mem \<Rightarrow> (mem \<times> u64) option" where
  "itoa value str base m =
     (if base \<le> 1 \<or> base > 36 then Some (m, 0)
      else do {
        (m, pos) \<leftarrow> itoa_loop (of_int base) value str 0 m;
        m \<leftarrow> strrev str (m(str + pos := 0));
        Some (m, str)})"

partial_function (option) strncpy_pad :: "u64 \<Rightarrow> int \<Rightarrow> mem \<Rightarrow> mem option" where
  "strncpy_pad dest n m = (if n \<noteq> 0 then strncpy_pad (dest + 1) (n - 1) (m(dest := 0)) else Some m)"

partial_function (option) strncpy_loop :: "u64 \<Rightarrow> u64 \<Rightarrow> int \<Rightarrow> mem \<Rightarrow> mem option" where
  "strncpy_loop dest src n m =
     (if n = 0 then Some m
      else let c = m src; m = m(dest := c) in
      if c \<noteq> 0 then strncpy_loop (dest + 1) (src + 1) (n - 1) m else strncpy_pad (dest + 1) (n - 1) m)"

definition strncpy :: "u64 \<Rightarrow> u64 \<Rightarrow> int \<Rightarrow> mem \<Rightarrow> mem option" where
  "strncpy dest src n m = strncpy_loop dest src n m"

partial_function (option) strcpy_loop :: "u64 \<Rightarrow> u64 \<Rightarrow> mem \<Rightarrow> mem option" where
  "strcpy_loop dest src m =
     (let c = m src; m = m(dest := c) in if c \<noteq> 0 then strcpy_loop (dest + 1) (src + 1) m else Some m)"

definition strcpy :: "u64 \<Rightarrow> u64 \<Rightarrow> mem \<Rightarrow> mem option" where
  "strcpy dest src m = strcpy_loop dest src m"

partial_function (option) strncmp_loop :: "mem \<Rightarrow> u64 \<Rightarrow> u64 \<Rightarrow> int \<Rightarrow> int option" where
  "strncmp_loop m s1 s2 n =
     (if n \<noteq> 0 \<and> m s1 \<noteq> 0 \<and> m s1 = m s2 then strncmp_loop m (s1 + 1) (s2 + 1) (n - 1)
      else if n = 0 then Some 0 else Some (uint (m s1) - uint (m s2)))"

definition strncmp :: "u64 \<Rightarrow> u64 \<Rightarrow> int \<Rightarrow> mem \<Rightarrow> int option" where
  "strncmp str1 str2 n m = strncmp_loop m str1 str2 n"

subsection \<open>Functions of the user library\<close>

partial_function (option) strchr_loop :: "mem \<Rightarrow> u64 \<Rightarrow> u8 \<Rightarrow> u64 option" where
  "strchr_loop m str c = (if m str \<noteq> c then (if m str = 0 then Some 0 else strchr_loop m (str + 1) c) else Some str)"

definition strchr :: "u64 \<Rightarrow> int \<Rightarrow> mem \<Rightarrow> u64 option" where
  "strchr str c m = strchr_loop m str (of_int c)"

definition is_digit :: "u8 \<Rightarrow> bool" where
  "is_digit c \<longleftrightarrow> 48 \<le> c \<and> c \<le> 57"

partial_function (option) atoi_loop :: "mem \<Rightarrow> u64 \<Rightarrow> u64 \<Rightarrow> u64 option" where
  "atoi_loop m str i = (if is_digit (m str) then atoi_loop m (str + 1) (i * 10 + ucast (m str - 48)) else Some i)"

definition atoi :: "u64 \<Rightarrow> mem \<Rightarrow> u64 option" where
  "atoi str m = atoi_loop m str 0"

partial_function (option) atoi16_loop :: "mem \<Rightarrow> u64 \<Rightarrow> u64 \<Rightarrow> u64 option" where
  "atoi16_loop m str i =
     (let c = m str in
      if c = 0 then Some i
      else if is_digit c then atoi16_loop m (str + 1) (i * 16 + ucast (c - 48))
      else if 65 \<le> c \<and> c \<le> 70 then atoi16_loop m (str + 1) (i * 16 + 10 + ucast (c - 65))
      else if 97 \<le> c \<and> c \<le> 102 then atoi16_loop m (str + 1) (i * 16 + 10 + ucast (c - 97))
      else Some i)"

definition atoi16 :: "u64 \<Rightarrow> mem \<Rightarrow> u64 option" where
  "atoi16 str m = atoi16_loop m str 0"

section \<open>Copying\<close>

lemma unat_succ: "unat (a :: u64) + 1 < 2 ^ 64 \<Longrightarrow> unat (a + 1) = unat a + 1"
  by (simp add: unat_word_ariths)

lemma unat_shift:
  assumes "unat (d :: u64) \<le> unat a" "unat s + (unat a - unat d) < 2 ^ 64"
  shows "unat (s + (a - d)) = unat s + (unat a - unat d)"
  using assms by (simp add: unat_word_ariths unat_sub word_le_nat_alt)

lemma first_byte: "unat (d :: u64) \<le> unat a \<and> unat a < unat d + Suc n \<longleftrightarrow> a = d \<or> unat d + 1 \<le> unat a \<and> unat a < unat d + 1 + n"
  by (cases "a = d") (auto simp: word_unat_eq_iff)

lemma last_byte:
  assumes "unat (d :: u64) + n < 2 ^ 64"
  shows "unat d \<le> unat a \<and> unat a < unat d + Suc n \<longleftrightarrow> a = d + of_nat n \<or> unat d \<le> unat a \<and> unat a < unat d + n"
proof -
  have "unat (d + of_nat n) = unat d + n" using assms by (simp add: unat_word_ariths unat_of_nat)
  then show ?thesis by (cases "a = d + of_nat n") (auto simp: word_unat_eq_iff)
qed

lemma memset_loop_at:
  assumes "unat p + n \<le> 2 ^ 64"
  shows "memset_loop n p v m a = (if unat p \<le> unat a \<and> unat a < unat p + n then v else m a)"
  using assms
proof (induction n arbitrary: p m)
  case 0
  then show ?case by auto
next
  case (Suc n)
  have "unat (p + 1) = unat p + 1 \<or> n = 0" using Suc.prems unat_succ [of p] by auto
  then show ?case
  proof
    assume u: "unat (p + 1) = unat p + 1"
    then have "unat (p + 1) + n \<le> 2 ^ 64" using Suc.prems by simp
    from Suc.IH [OF this] show ?thesis unfolding first_byte u by auto
  next
    assume "n = 0"
    then show ?thesis unfolding first_byte by auto
  qed
qed

lemma memcpy_loop_at:
  assumes "unat d + n \<le> 2 ^ 64" "unat s + n \<le> 2 ^ 64" "unat d \<le> unat s \<or> unat s + n \<le> unat d"
  shows "memcpy_loop n d s m a = (if unat d \<le> unat a \<and> unat a < unat d + n then m (s + (a - d)) else m a)"
  using assms
proof (induction n arbitrary: d s m)
  case 0
  then show ?case by auto
next
  case (Suc n)
  show ?case
  proof (cases "n = 0")
    case True
    then show ?thesis unfolding first_byte by auto
  next
    case False
    then have u: "unat (d + 1) = unat d + 1" "unat (s + 1) = unat s + 1" using Suc.prems by (intro unat_succ; simp)+
    have IH: "memcpy_loop n (d + 1) (s + 1) (m(d := m s)) a
        = (if unat (d + 1) \<le> unat a \<and> unat a < unat (d + 1) + n then (m(d := m s)) (s + 1 + (a - (d + 1))) else (m(d := m s)) a)"
      by (rule Suc.IH) (use Suc.prems u in auto)
    have e: "s + 1 + (a - (d + 1)) = s + (a - d)" by simp
    have "s + (a - d) \<noteq> d" if "unat d + 1 \<le> unat a" "unat a < unat d + 1 + n"
    proof
      assume eq: "s + (a - d) = d"
      have "unat (s + (a - d)) = unat s + (unat a - unat d)" by (rule unat_shift) (use that Suc.prems in linarith)+
      then have "unat d = unat s + (unat a - unat d)" unfolding eq .
      then show False using that Suc.prems(3) by linarith
    qed
    then show ?thesis using IH unfolding e u first_byte by auto
  qed
qed

lemma memmove_loop_at:
  assumes "unat d + n \<le> 2 ^ 64" "unat s + n \<le> 2 ^ 64" "unat s \<le> unat d"
  shows "memmove_loop n d s m a = (if unat d \<le> unat a \<and> unat a < unat d + n then m (s + (a - d)) else m a)"
  using assms
proof (induction n arbitrary: m)
  case 0
  then show ?case by auto
next
  case (Suc n)
  have u: "unat (d + of_nat n) = unat d + n" using Suc.prems by (simp add: unat_word_ariths unat_of_nat)
  let ?m = "m(d + of_nat n := m (s + of_nat n))"
  have IH: "memmove_loop n d s ?m a = (if unat d \<le> unat a \<and> unat a < unat d + n then ?m (s + (a - d)) else ?m a)"
    by (rule Suc.IH) (use Suc.prems in auto)
  have ne: "s + (a - d) \<noteq> d + of_nat n" if "unat d \<le> unat a" "unat a < unat d + n"
  proof
    assume eq: "s + (a - d) = d + of_nat n"
    have "unat (s + (a - d)) = unat s + (unat a - unat d)" by (rule unat_shift) (use that Suc.prems in linarith)+
    then have "unat d + n = unat s + (unat a - unat d)" unfolding eq u .
    then show False using that Suc.prems(3) by linarith
  qed
  have lt: "unat d + n < 2 ^ 64" using Suc.prems by simp
  show ?case using IH ne unfolding last_byte [OF lt] by auto
qed

text \<open>
  C24. \<^verbatim>\<open>memmove\<close> copies the source to the destination for every overlap of the two, forwards and backwards, and changes
  no byte outside of the destination.
\<close>

theorem memmove_correct:
  assumes "unat dst + unat len \<le> 2 ^ 64" "unat src + unat len < 2 ^ 64" "unat len < 2 ^ 63"
  shows "memmove dst src len m a = (if unat dst \<le> unat a \<and> unat a < unat dst + unat len then m (src + (a - dst)) else m a)"
proof -
  have e: "unat (src + len) = unat src + unat len" using assms(2) by (simp add: unat_word_ariths)
  consider "src = dst" | "src \<noteq> dst" "src < dst" "dst < src + len" | "src \<noteq> dst" "\<not> (src < dst \<and> dst < src + len)" by blast
  then show ?thesis
  proof cases
    case 1
    then show ?thesis by (simp add: memmove_def)
  next
    case 2
    then have "0 < unat len" using e by (auto simp: word_less_nat_alt)
    then have u: "unat (len - 1) = unat len - 1" by (metis unat_minus_one unat_0 less_irrefl)
    then have "int (unat (len - 1)) = int (unat len) - 1" using \<open>0 < unat len\<close> by linarith
    then have ui: "uint (len - 1) = int (unat len) - 1" by (simp only: of_nat_unat ucast_id)
    have "int (unat len) < int (2 ^ 63)" using assms(3) by (simp only: of_nat_less_iff)
    then have "int (unat len) < 2 ^ 63" by (simp only: of_nat_power of_nat_numeral)
    moreover have "0 \<le> int (unat len)" by simp
    ultimately have "- (2 ^ 63) \<le> int (unat len) - 1" "int (unat len) - 1 < 2 ^ 63" by linarith+
    then have "signed_take_bit 63 (int (unat len) - 1) = int (unat len) - 1" by (rule signed_take_bit_int_eq_self)
    moreover have "LENGTH(64) - Suc 0 = 63" by simp
    ultimately have "sint (len - 1) = uint (len - 1)" unfolding sint_uint ui by (simp only:)
    with ui have "sint (len - 1) = int (unat len) - 1" by simp
    then have "sint (len - 1) \<ge> 0" "nat (sint (len - 1) + 1) = unat len" using \<open>0 < unat len\<close> by linarith+
    then have "memmove dst src len m = memmove_loop (unat len) dst src m" using 2 by (simp add: memmove_def Let_def)
    then show ?thesis using memmove_loop_at [of dst "unat len" src m a] 2(2) assms by (simp add: word_less_nat_alt)
  next
    case 3
    then have "memmove dst src len m = memcpy_loop (unat len) dst src m" by (auto simp: memmove_def memcpy_def Let_def)
    moreover have "unat dst \<le> unat src \<or> unat src + unat len \<le> unat dst" using 3(2) e by (auto simp: word_less_nat_alt not_less)
    ultimately show ?thesis using memcpy_loop_at [of dst "unat len" src m a] assms by simp
  qed
qed

theorem memmove_correct_witness:
  "\<exists>m :: mem. memmove 0x1001 0x1000 2 m 0x1002 = m 0x1001 \<and> memmove 0x1001 0x1000 2 m 0x1000 = m 0x1000 \<and> m 0x1001 = 7"
proof -
  let ?m = "\<lambda>a :: u64. if a = 0x1001 then 7 else 0 :: u8"
  show ?thesis
    using memmove_correct [of "0x1001" 2 "0x1000" ?m "0x1002"] memmove_correct [of "0x1001" 2 "0x1000" ?m "0x1000"]
    by (intro exI [of _ ?m]) simp
qed

section \<open>Strings\<close>

fun bytes_at :: "mem \<Rightarrow> u64 \<Rightarrow> u8 list \<Rightarrow> bool" where
  "bytes_at m p [] \<longleftrightarrow> True"
| "bytes_at m p (x # xs) \<longleftrightarrow> m p = x \<and> bytes_at m (p + 1) xs"

definition inside :: "u64 \<Rightarrow> nat \<Rightarrow> u64 \<Rightarrow> bool" where
  "inside p n a \<longleftrightarrow> unat p \<le> unat a \<and> unat a < unat p + n"

text \<open>A string: its bytes, none of them zero, and the zero after them.\<close>

definition cstr :: "mem \<Rightarrow> u64 \<Rightarrow> u8 list \<Rightarrow> bool" where
  "cstr m p xs \<longleftrightarrow> unat p + length xs < 2 ^ 64 \<and> bytes_at m p (xs @ [0]) \<and> 0 \<notin> List.set xs"

lemma bytes_at_append: "bytes_at m p (xs @ ys) \<longleftrightarrow> bytes_at m p xs \<and> bytes_at m (p + of_nat (length xs)) ys"
  by (induction xs arbitrary: p) (auto simp: algebra_simps)

lemma inside_0 [simp]: "\<not> inside p 0 a"
  by (simp add: inside_def)

lemma inside_Suc:
  assumes "unat p + n < 2 ^ 64"
  shows "inside p (Suc n) a \<longleftrightarrow> a = p \<or> inside (p + 1) n a"
proof (cases "n = 0")
  case True
  then show ?thesis unfolding inside_def first_byte by auto
next
  case False
  then have "unat (p + 1) = unat p + 1" using assms by (intro unat_succ) simp
  then show ?thesis unfolding inside_def first_byte by simp
qed

lemma bytes_at_cong:
  assumes "unat p + length xs \<le> 2 ^ 64" "\<And>a. inside p (length xs) a \<Longrightarrow> m a = m' a"
  shows "bytes_at m p xs \<longleftrightarrow> bytes_at m' p xs"
  using assms
proof (induction xs arbitrary: p)
  case (Cons x xs)
  show ?case
  proof (cases "xs = []")
    case True
    have "m p = m' p" by (rule Cons.prems(2)) (simp add: inside_def)
    with True show ?thesis by simp
  next
    case False
    then have lt: "unat p + length xs < 2 ^ 64" "unat p + 1 < 2 ^ 64" using Cons.prems(1) by (cases xs; simp)+
    have "bytes_at m (p + 1) xs \<longleftrightarrow> bytes_at m' (p + 1) xs"
      by (rule Cons.IH) (use Cons.prems inside_Suc [OF lt(1)] unat_succ [OF lt(2)] in auto)
    moreover have "m p = m' p" by (rule Cons.prems(2)) (simp add: inside_def)
    ultimately show ?thesis by simp
  qed
qed simp

lemma cstr_Cons: "cstr m p (x # xs) \<Longrightarrow> m p = x \<and> x \<noteq> 0 \<and> cstr m (p + 1) xs"
  using unat_succ [of p] by (auto simp: cstr_def)

lemma cstr_Nil: "cstr m p [] \<Longrightarrow> m p = 0"
  by (simp add: cstr_def)

lemma strlen_loop_cstr: "cstr m p xs \<Longrightarrow> strlen_loop m p = Some (p + of_nat (length xs))"
proof (induction xs arbitrary: p)
  case Nil
  then show ?case by (subst strlen_loop.simps) (simp add: cstr_Nil)
next
  case (Cons x xs)
  from cstr_Cons [OF Cons.prems] Cons.IH [of "p + 1"] show ?case
    by (subst strlen_loop.simps) (simp add: algebra_simps)
qed

lemma strlen_cstr: "cstr m p xs \<Longrightarrow> strlen p m = Some (of_nat (length xs))"
  by (simp add: strlen_def strlen_loop_cstr)

lemma inside_upd: "\<not> inside p (length xs) a \<Longrightarrow> unat p + length xs \<le> 2 ^ 64 \<Longrightarrow> bytes_at (m(a := v)) p xs \<longleftrightarrow> bytes_at m p xs"
  by (rule bytes_at_cong) auto

lemma list_ends: "xs = [] \<or> (\<exists>x. xs = [x]) \<or> (\<exists>x ys y. xs = x # ys @ [y])"
  by (cases xs) (auto, metis rev_exhaust)

lemma strrev_loop_at:
  assumes "unat p + length xs \<le> 2 ^ 64" "xs \<noteq> [] \<or> p \<noteq> 0" "bytes_at m p xs"
  shows "\<exists>m'. strrev_loop p (p + of_nat (length xs) - 1) m = Some m' \<and> bytes_at m' p (rev xs) \<and> (\<forall>a. \<not> inside p (length xs) a \<longrightarrow> m' a = m a)"
  using assms
proof (induction "length xs" arbitrary: xs p m rule: less_induct)
  case less
  consider "xs = []" | x where "xs = [x]" | x ys y where "xs = x # ys @ [y]" using list_ends [of xs] by blast
  then show ?case
  proof cases
    case 1
    then have "\<not> p < p - 1" using less.prems by (simp add: word_less_nat_alt unat_minus_one)
    then show ?thesis using 1 by (subst strrev_loop.simps) simp
  next
    case 2
    then show ?thesis using less.prems by (subst strrev_loop.simps) simp
  next
    case 3
    let ?n = "length ys" and ?q = "p + of_nat (length ys) + 1"
    let ?m = "m(p := y, ?q := x)"
    have b: "m p = x" "bytes_at m (p + 1) ys" "m ?q = y" using less.prems(3) 3 by (auto simp: bytes_at_append algebra_simps)
    have u: "unat (p + 1) = unat p + 1" "unat ?q = unat p + ?n + 1"
      using less.prems(1) 3 by (auto simp: unat_word_ariths unat_of_nat)
    have "p < ?q" using u by (simp add: word_less_nat_alt)
    have "\<exists>m'. strrev_loop (p + 1) (p + 1 + of_nat ?n - 1) ?m = Some m' \<and> bytes_at m' (p + 1) (rev ys) \<and> (\<forall>a. \<not> inside (p + 1) ?n a \<longrightarrow> m' a = ?m a)"
    proof (rule less.hyps)
      show "?n < length xs" using 3 by simp
      show "unat (p + 1) + ?n \<le> 2 ^ 64" using less.prems(1) 3 u by simp
      show "ys \<noteq> [] \<or> p + 1 \<noteq> 0" using u by (metis add_is_0 one_neq_zero unat_0)
      show "bytes_at ?m (p + 1) ys"
        using b(2) u less.prems(1) 3 by (subst inside_upd) (simp_all add: inside_def inside_upd)
    qed
    then obtain m' where m': "strrev_loop (p + 1) (p + 1 + of_nat ?n - 1) ?m = Some m'" "bytes_at m' (p + 1) (rev ys)"
      "\<And>a. \<not> inside (p + 1) ?n a \<Longrightarrow> m' a = ?m a" by blast
    have e: "p + of_nat (length xs) - 1 = ?q" "?q - 1 = p + 1 + of_nat ?n - 1" using 3 by (simp_all add: algebra_simps)
    have "strrev_loop p ?q m = Some m'"
      using \<open>p < ?q\<close> m'(1) b by (subst strrev_loop.simps) (simp add: Let_def e(2))
    moreover have "p \<noteq> ?q" using \<open>p < ?q\<close> by (rule less_imp_neq)
    then have "m' p = y" "m' ?q = x" using m'(3) [of p] m'(3) [of ?q] u by (simp_all only: inside_def fun_upd_apply) simp_all
    then have "bytes_at m' p (rev xs)" using 3 m'(2) by (simp add: bytes_at_append algebra_simps)
    moreover have "m' a = m a" if "\<not> inside p (length xs) a" for a
    proof -
      have "a \<noteq> p" "a \<noteq> ?q" "\<not> inside (p + 1) ?n a" using that 3 u by (auto simp: inside_def)
      then show ?thesis using m'(3) [of a] by simp
    qed
    ultimately show ?thesis unfolding e(1) by blast
  qed
qed

lemma strrev_cstr:
  assumes "cstr m p xs" "xs \<noteq> []"
  shows "\<exists>m'. strrev p m = Some m' \<and> cstr m' p (rev xs) \<and> (\<forall>a. \<not> inside p (length xs) a \<longrightarrow> m' a = m a)"
proof -
  have "unat p + length xs < 2 ^ 64" "bytes_at m p xs" "m (p + of_nat (length xs)) = 0" "0 \<notin> List.set xs"
    using assms(1) by (auto simp: cstr_def bytes_at_append)
  moreover obtain m' where m': "strrev_loop p (p + of_nat (length xs) - 1) m = Some m'" "bytes_at m' p (rev xs)"
    "\<And>a. \<not> inside p (length xs) a \<Longrightarrow> m' a = m a" using strrev_loop_at [of p xs m] assms(2) calculation by auto
  moreover have "\<not> inside p (length xs) (p + of_nat (length xs))"
    using calculation(1) by (simp add: inside_def unat_word_ariths unat_of_nat)
  ultimately show ?thesis using assms(1) by (intro exI [of _ m']) (auto simp: cstr_def bytes_at_append strrev_def strlen_cstr)
qed

section \<open>Numbers\<close>

fun digits :: "nat \<Rightarrow> nat \<Rightarrow> nat list" where
  "digits b v = (if b \<le> 1 \<or> v < b then [v] else v mod b # digits b (v div b))"

declare digits.simps [simp del]

definition value_of :: "nat \<Rightarrow> nat list \<Rightarrow> nat" where
  "value_of b ds = foldl (\<lambda>v d. v * b + d) 0 ds"

lemma digits_not_Nil [simp]: "digits b v \<noteq> []"
  by (subst digits.simps) simp

lemma digits_less: "1 < b \<Longrightarrow> d \<in> List.set (digits b v) \<Longrightarrow> d < b"
proof (induction b v rule: digits.induct)
  case (1 b v)
  then show ?case using digits.simps [of b v] by (auto split: if_splits)
qed

lemma value_of_digits: "value_of b (rev (digits b v)) = v"
proof (induction b v rule: digits.induct)
  case (1 b v)
  then show ?case by (subst digits.simps) (auto simp: value_of_def)
qed

lemma length_digits: "1 < b \<Longrightarrow> v < 2 ^ Suc k \<Longrightarrow> length (digits b v) \<le> Suc k"
proof (induction k arbitrary: v)
  case 0
  then show ?case by (subst digits.simps) auto
next
  case (Suc k)
  have "v div b \<le> v div 2" using Suc.prems by (intro div_le_mono2) auto
  then have "v div b < 2 ^ Suc k" using Suc.prems(2) by auto
  then have "length (digits b (v div b)) \<le> Suc k" using Suc.IH Suc.prems(1) by blast
  then show ?case by (subst digits.simps) auto
qed

lemma itoa_loop_at:
  assumes "1 < unat base" "unat (str + pos) + length (digits (unat base) (unat v)) < 2 ^ 64"
  shows "\<exists>m'. itoa_loop base v str pos m = Some (m', pos + of_nat (length (digits (unat base) (unat v)))) \<and>
           bytes_at m' (str + pos) (map (\<lambda>d. digit_char (of_nat d)) (digits (unat base) (unat v))) \<and>
           (\<forall>a. \<not> inside (str + pos) (length (digits (unat base) (unat v))) a \<longrightarrow> m' a = m a)"
  using assms(2)
proof (induction "unat base" "unat v" arbitrary: v pos m rule: digits.induct)
  case (1 v)
  let ?b = "unat base" and ?m = "m(str + pos := digit_char (v mod base))"
  have w: "of_nat (unat v mod ?b) = v mod base" "unat (v div base) = unat v div ?b"
    by (simp_all add: unat_div flip: unat_mod)
  show ?case
  proof (cases "unat v < ?b")
    case True
    then have d: "digits ?b (unat v) = [unat v]" by (subst digits.simps) simp
    have "v div base = 0" using True w(2) by (simp add: word_unat_eq_iff)
    moreover have "v mod base = v" using True w(1) by simp
    ultimately show ?thesis unfolding d by (subst itoa_loop.simps) (auto simp: Let_def inside_def)
  next
    case False
    then have d: "digits ?b (unat v) = unat v mod ?b # digits ?b (unat (v div base))"
      using assms(1) by (subst digits.simps) (simp add: w)
    let ?n = "length (digits ?b (unat (v div base)))"
    have lt: "unat (str + pos) + ?n + 1 < 2 ^ 64" using 1(2) unfolding d by simp
    have u: "unat (str + (pos + 1)) = unat (str + pos) + 1"
      using unat_succ [of "str + pos"] lt by (simp add: add.assoc)
    have "\<exists>m'. itoa_loop base (v div base) str (pos + 1) ?m = Some (m', pos + 1 + of_nat ?n) \<and>
           bytes_at m' (str + (pos + 1)) (map (\<lambda>d. digit_char (of_nat d)) (digits ?b (unat (v div base)))) \<and>
           (\<forall>a. \<not> inside (str + (pos + 1)) ?n a \<longrightarrow> m' a = ?m a)"
      by (rule 1(1)) (use False assms(1) w(2) lt u in auto)
    then obtain m' where m': "itoa_loop base (v div base) str (pos + 1) ?m = Some (m', pos + 1 + of_nat ?n)"
      "bytes_at m' (str + (pos + 1)) (map (\<lambda>d. digit_char (of_nat d)) (digits ?b (unat (v div base))))"
      "\<And>a. \<not> inside (str + (pos + 1)) ?n a \<Longrightarrow> m' a = ?m a" by blast
    have "v div base \<noteq> 0" using False assms(1) w(2) by (auto simp: word_unat_eq_iff div_eq_0_iff)
    then have "v div base > 0" by (simp add: word_neq_0_conv)
    then have "itoa_loop base v str pos m = Some (m', pos + of_nat (Suc ?n))"
      using m'(1) by (subst itoa_loop.simps) (simp add: Let_def algebra_simps)
    moreover have "m' (str + pos) = digit_char (v mod base)" using m'(3) [of "str + pos"] u by (simp add: inside_def)
    moreover have "m' a = m a" if "\<not> inside (str + pos) (Suc ?n) a" for a
    proof -
      have "a \<noteq> str + pos" "\<not> inside (str + (pos + 1)) ?n a" using that u by (auto simp: inside_def)
      then show ?thesis using m'(3) [of a] by simp
    qed
    ultimately show ?thesis unfolding d using m'(2) w(1) by (intro exI [of _ m']) (simp add: add.assoc)
  qed
qed

lemma ucast_small:
  assumes "d < 256"
  shows "ucast (of_nat d :: u64) = (of_nat d :: u8)" "ucast (of_nat d :: u8) = (of_nat d :: u64)"
proof -
  have "take_bit 64 d = d" "take_bit 8 d = d" using assms by (auto intro!: take_bit_nat_eq_self)
  then show "ucast (of_nat d :: u64) = (of_nat d :: u8)" "ucast (of_nat d :: u8) = (of_nat d :: u64)"
    by (simp_all add: unsigned_of_nat)
qed

lemma digit_char_upt: "d < 36 \<Longrightarrow> digit_char (of_nat d) = (if d < 10 then 48 + of_nat d else 55 + of_nat d)"
proof -
  assume "d < 36"
  then have "ucast (of_nat d :: u64) = (of_nat d :: u8)" by (simp add: ucast_small)
  moreover have "unat (48 + of_nat d :: u8) = 48 + d" using \<open>d < 36\<close> by (simp add: unat_word_ariths unat_of_nat)
  ultimately show ?thesis by (simp add: digit_char_def Let_def word_less_nat_alt)
qed

lemma digit_char_not_0: "d < 36 \<Longrightarrow> digit_char (of_nat d) \<noteq> 0"
proof
  assume "d < 36" "digit_char (of_nat d) = 0"
  then have "unat (if d < 10 then 48 + of_nat d else 55 + of_nat d :: u8) = 0" by (simp add: digit_char_upt)
  with \<open>d < 36\<close> show False by (auto simp: unat_word_ariths unat_of_nat split: if_splits)
qed

lemma itoa_at:
  assumes "1 < base" "base \<le> 36" "unat str + 64 < 2 ^ 64"
  shows "\<exists>m'. itoa v str base m = Some (m', str) \<and>
           cstr m' str (map (\<lambda>d. digit_char (of_nat d)) (rev (digits (nat base) (unat v)))) \<and>
           (\<forall>a. \<not> inside str 65 a \<longrightarrow> m' a = m a)"
proof -
  have "of_int base = (of_nat (nat base) :: u64)" using assms(1) of_int_of_nat_eq [of "nat base"] by simp
  moreover have "unat (of_nat (nat base) :: u64) = nat base" unfolding unat_of_nat using assms(1,2) by (intro mod_less) simp
  ultimately have b: "unat (of_int base :: u64) = nat base" by (simp only:)
  let ?ds = "digits (nat base) (unat v)" and ?c = "\<lambda>d. digit_char (of_nat d)"
  have n: "length ?ds \<le> 64" using length_digits [of "nat base" "unat v" 63] assms(1) unsigned_less [of v, where ?'a = nat] by simp
  obtain m1 where m1: "itoa_loop (of_int base) v str 0 m = Some (m1, of_nat (length ?ds))" "bytes_at m1 str (map ?c ?ds)"
    "\<And>a. \<not> inside str (length ?ds) a \<Longrightarrow> m1 a = m a"
    using itoa_loop_at [of "of_int base" str 0 v m] assms n by (auto simp: b)
  let ?e = "str + of_nat (length ?ds)"
  have e: "unat ?e = unat str + length ?ds" using n assms(3) by (simp add: unat_word_ariths unat_of_nat)
  have "0 \<notin> ?c ` List.set ?ds"
  proof
    assume "0 \<in> ?c ` List.set ?ds"
    then obtain d where "d \<in> List.set ?ds" "?c d = 0" by auto
    moreover from this have "d < nat base" using digits_less assms(1) by simp
    then have "d < 36" using assms(2) by linarith
    ultimately show False using digit_char_not_0 by blast
  qed
  then have "cstr (m1(?e := 0)) str (map ?c ?ds)"
    unfolding cstr_def bytes_at_append using m1(2) n e assms by (auto simp: inside_upd inside_def)
  from strrev_cstr [OF this] obtain m' where m': "strrev str (m1(?e := 0)) = Some m'" "cstr m' str (map ?c (rev ?ds))"
    "\<And>a. \<not> inside str (length ?ds) a \<Longrightarrow> m' a = (m1(?e := 0)) a" by (auto simp: rev_map)
  have "m' a = m a" if "\<not> inside str 65 a" for a
  proof -
    have "\<not> inside str (length ?ds) a" "a \<noteq> ?e" using that n e by (auto simp: inside_def)
    then show ?thesis using m'(3) m1(3) by simp
  qed
  then show ?thesis using m' m1(1) assms by (intro exI [of _ m']) (auto simp: itoa_def)
qed

lemma is_digit_char: "d < 36 \<Longrightarrow> is_digit (digit_char (of_nat d)) \<longleftrightarrow> d < 10"
  by (auto simp: digit_char_upt is_digit_def word_le_nat_alt unat_word_ariths unat_of_nat)

lemma atoi_loop_at:
  assumes "bytes_at m p (map (\<lambda>d. digit_char (of_nat d)) ds @ [0])" "\<forall>d \<in> List.set ds. d < 10"
  shows "atoi_loop m p i = Some (foldl (\<lambda>v d. v * 10 + of_nat d) i ds)"
  using assms
proof (induction ds arbitrary: p i)
  case Nil
  then show ?case by (subst atoi_loop.simps) (simp add: is_digit_def)
next
  case (Cons d ds)
  then have "is_digit (m p)" "m p - 48 = of_nat d" using is_digit_char [of d] by (auto simp: digit_char_upt)
  moreover from this have "ucast (m p - 48) = (of_nat d :: u64)"
    using Cons.prems(2) by (simp add: ucast_small)
  ultimately show ?case using Cons by (subst atoi_loop.simps) simp
qed

lemma atoi16_loop_at:
  assumes "bytes_at m p (map (\<lambda>d. digit_char (of_nat d)) ds @ [0])" "\<forall>d \<in> List.set ds. d < 16"
  shows "atoi16_loop m p i = Some (foldl (\<lambda>v d. v * 16 + of_nat d) i ds)"
  using assms
proof (induction ds arbitrary: p i)
  case Nil
  then show ?case by (subst atoi16_loop.simps) (simp add: is_digit_def)
next
  case (Cons d ds)
  then have d: "d < 16" "m p = digit_char (of_nat d)" "m p \<noteq> 0" using digit_char_not_0 [of d] by auto
  have tail: "atoi16_loop m (p + 1) (i * 16 + of_nat d) = Some (foldl (\<lambda>v d. v * 16 + of_nat d) i (d # ds))"
    using Cons by simp
  show ?case
  proof (cases "d < 10")
    case True
    then have "ucast (m p - 48) = (of_nat d :: u64)"
      by (simp add: d(2) digit_char_upt ucast_small)
    then show ?thesis using True d tail is_digit_char [of d] by (subst atoi16_loop.simps) (simp add: Let_def)
  next
    case False
    have "m p - 65 = of_nat (d - 10)" using False d by (simp add: digit_char_upt of_nat_diff)
    then have "ucast (m p - 65) = (of_nat (d - 10) :: u64)" using d(1) by (simp only: ucast_small(2) [of "d - 10"])
    moreover have "of_nat d = (10 + of_nat (d - 10) :: u64)" using False by (simp add: of_nat_diff)
    ultimately have "10 + ucast (m p - 65) = (of_nat d :: u64)" by (simp only:)
    moreover have "65 \<le> m p" "m p \<le> 70"
      using False d by (simp_all add: digit_char_upt word_le_nat_alt unat_word_ariths unat_of_nat)
    ultimately show ?thesis using False d(2,3) d(1) tail is_digit_char [of d] by (subst atoi16_loop.simps) (simp add: Let_def add.assoc)
  qed
qed

lemma foldl_of_nat: "foldl (\<lambda>v d. v * of_nat b + of_nat d) (of_nat i) ds = (of_nat (foldl (\<lambda>v d. v * b + d) i ds) :: u64)"
  by (induction ds arbitrary: i) (simp_all flip: of_nat_mult of_nat_add)

lemma foldl_digits: "foldl (\<lambda>v d. v * of_nat b + of_nat d) (0 :: u64) (rev (digits b (unat v))) = v"
  using foldl_of_nat [of b 0 "rev (digits b (unat v))"] value_of_digits [of b "unat v"] by (simp add: value_of_def)

text \<open>
  C25. Writing a number with \<^verbatim>\<open>itoa\<close> and reading it back with \<^verbatim>\<open>atoi\<close> or \<^verbatim>\<open>atoi16\<close> gives the number, for all 64-bit
  values: the conversion returns for both bases and stays inside the 65 bytes from \<open>str\<close> on.
\<close>

theorem itoa_atoi_roundtrip:
  assumes "unat str + 64 < 2 ^ 64"
  shows "\<exists>m10 m16. itoa v str 10 m = Some (m10, str) \<and> atoi str m10 = Some v \<and>
           itoa v str 16 m = Some (m16, str) \<and> atoi16 str m16 = Some v \<and>
           (\<forall>a. \<not> inside str 65 a \<longrightarrow> m10 a = m a \<and> m16 a = m a)"
proof -
  obtain m10 m16 where m: "itoa v str 10 m = Some (m10, str)" "itoa v str 16 m = Some (m16, str)"
    "cstr m10 str (map (\<lambda>d. digit_char (of_nat d)) (rev (digits 10 (unat v))))"
    "cstr m16 str (map (\<lambda>d. digit_char (of_nat d)) (rev (digits 16 (unat v))))"
    "\<forall>a. \<not> inside str 65 a \<longrightarrow> m10 a = m a" "\<forall>a. \<not> inside str 65 a \<longrightarrow> m16 a = m a"
    using itoa_at [of 10 str v m] itoa_at [of 16 str v m] assms by auto
  have "atoi str m10 = Some v"
    using atoi_loop_at [of m10 str "rev (digits 10 (unat v))" 0] m(3) digits_less [of 10] foldl_digits [of 10 v]
    by (auto simp: atoi_def cstr_def)
  moreover have "atoi16 str m16 = Some v"
    using atoi16_loop_at [of m16 str "rev (digits 16 (unat v))" 0] m(4) digits_less [of 16] foldl_digits [of 16 v]
    by (auto simp: atoi16_def cstr_def)
  ultimately show ?thesis using m by blast
qed

theorem itoa_atoi_roundtrip_witness:
  "\<exists>m16. itoa 0xFFFFFFFFFFFFFFFF 0x1000 16 (\<lambda>_. 0) = Some (m16, 0x1000) \<and> atoi16 0x1000 m16 = Some 0xFFFFFFFFFFFFFFFF"
  using itoa_atoi_roundtrip [of "0x1000" "0xFFFFFFFFFFFFFFFF" "\<lambda>_. 0"] by auto

section \<open>Comparing and copying strings\<close>

lemma cstr_hd: "cstr m p xs \<Longrightarrow> m p = (if xs = [] then 0 else hd xs) \<and> (xs \<noteq> [] \<longrightarrow> hd xs \<noteq> 0)"
  by (cases xs) (simp add: cstr_Nil, use cstr_Cons in fastforce)

lemma strncmp_loop_cstr:
  assumes "cstr m p xs" "cstr m q ys"
  shows "\<exists>r. strncmp_loop m p q (int n) = Some r \<and> (r = 0 \<longleftrightarrow> take n xs = take n ys)"
  using assms
proof (induction n arbitrary: p q xs ys)
  case 0
  then show ?case by (subst strncmp_loop.simps) simp
next
  case (Suc n)
  show ?case
  proof (cases "\<exists>x xs' ys'. xs = x # xs' \<and> ys = x # ys'")
    case True
    then obtain x xs' ys' where e: "xs = x # xs'" "ys = x # ys'" by blast
    have c: "m p = x" "m q = x" "x \<noteq> 0" "cstr m (p + 1) xs'" "cstr m (q + 1) ys'"
      using Suc.prems e cstr_Cons by blast+
    show ?thesis using Suc.IH [OF c(4,5)] c(1-3) by (subst strncmp_loop.simps) (simp add: e)
  next
    case False
    note x = cstr_hd [OF Suc.prems(1)] and y = cstr_hd [OF Suc.prems(2)]
    have "\<not> (m p \<noteq> 0 \<and> m p = m q)" using False x y by (cases xs; cases ys; auto)
    then have "strncmp_loop m p q (int (Suc n)) = Some (uint (m p) - uint (m q))" by (subst strncmp_loop.simps) auto
    moreover have "m p = m q \<longleftrightarrow> take (Suc n) xs = take (Suc n) ys" using False x y by (cases xs; cases ys; auto)
    ultimately show ?thesis by (simp flip: word_uint_eq_iff)
  qed
qed

lemma strcmp_loop_cstr:
  assumes "cstr m p xs" "cstr m q ys"
  shows "\<exists>r. strcmp_loop m p q = Some r \<and> (r = 0 \<longleftrightarrow> xs = ys)"
  using assms
proof (induction xs arbitrary: p q ys)
  case Nil
  then have "m p = 0" "m q = 0 \<longleftrightarrow> ys = []" using cstr_hd [of m p "[]"] cstr_hd [of m q ys] by auto
  then show ?case by (subst strcmp_loop.simps) (auto simp: uint_0_iff)
next
  case (Cons x xs)
  have p: "m p = x" "x \<noteq> 0" "cstr m (p + 1) xs" using cstr_Cons Cons.prems(1) by blast+
  show ?case
  proof (cases "\<exists>ys'. ys = x # ys'")
    case True
    then obtain ys' where e: "ys = x # ys'" by blast
    then have "m q = x" "cstr m (q + 1) ys'" using cstr_Cons Cons.prems(2) by blast+
    then show ?thesis using Cons.IH p by (subst strcmp_loop.simps) (simp add: e)
  next
    case False
    then have "m q \<noteq> x" using p(2) cstr_hd [OF Cons.prems(2)] by (cases ys) auto
    then show ?thesis using p False by (subst strcmp_loop.simps) (auto simp flip: word_uint_eq_iff)
  qed
qed

text \<open>
  Both comparisons return on any two strings: \<^verbatim>\<open>strcmp\<close> gives 0 exactly for equal strings, and \<^verbatim>\<open>strncmp\<close> exactly for
  strings whose first \<open>n\<close> characters agree.
\<close>

theorem string_comparison_correct:
  assumes "cstr m str1 xs" "cstr m str2 ys"
  shows "\<exists>r r'. strcmp str1 str2 m = Some r \<and> (r = 0 \<longleftrightarrow> xs = ys) \<and>
           strncmp str1 str2 (int n) m = Some r' \<and> (r' = 0 \<longleftrightarrow> take n xs = take n ys)"
  using strcmp_loop_cstr [OF assms] strncmp_loop_cstr [OF assms, of n] by (auto simp: strcmp_def strncmp_def)

theorem string_comparison_correct_witness:
  "\<exists>m r r'. strcmp 0x1000 0x2000 m = Some r \<and> r \<noteq> 0 \<and> strncmp 0x1000 0x2000 1 m = Some r' \<and> r' = 0"
proof -
  let ?m = "(\<lambda>_. 0)(0x1000 := 97, 0x1001 := 98, 0x2000 := 97) :: mem"
  have "cstr ?m 0x1000 [97, 98]" "cstr ?m 0x2000 [97]" by (simp_all add: cstr_def)
  from string_comparison_correct [OF this, of 1] show ?thesis by (intro exI [of _ ?m]) auto
qed

end
