(* ===== verification/Ramfs.thy ===== *)
theory Ramfs
  imports Prelude Kstring
begin

text \<open>
  The file system in memory, \<^verbatim>\<open>kernel/fs/ramfs.c\<close>.  Directories, files, blocks and the data of blocks are heaps from
  addresses to structures, so dangling and null pointers can be told apart from valid ones: \<open>None\<close> as the result of an
  operation is an access to memory that is not allocated, or an acquire of a lock that is never released.  The allocator is
  a parameter, the sequence \<open>heap\<close> of the addresses that the calls of \<^verbatim>\<open>malloc\<close> return and the sequence \<open>junk\<close> of the
  contents found there.  Strings are lists of the bytes before the terminator; on them \<^verbatim>\<open>strcmp\<close> and \<^verbatim>\<open>strncmp\<close> compare as
  shown for the implementations in \<open>Kstring\<close>.
\<close>

section \<open>Types\<close>

datatype ramfs_err = RAMFS_ERR_OK | RAMFS_ERR_INVALID_PATH_FORMAT | RAMFS_ERR_ILLEGAL_CHARACTER
  | RAMFS_ERR_DIRECTORY_DOES_NOT_EXIST | RAMFS_ERR_DIRECTORY_EXISTS | RAMFS_ERR_FILE_DOES_NOT_EXIST
  | RAMFS_ERR_FILE_EXISTS | RAMFS_ERR_BUFFER_TOO_SMALL | RAMFS_ERR_FILE_ALREADY_OPEN | RAMFS_ERR_TOO_MANY_OPEN_FILES

datatype ramfs_seek_whence = RAMFS_SEEK_START | RAMFS_SEEK_CURRENT | RAMFS_SEEK_END

record ramfs_file_block_entry =
  blk_prev :: addr
  blk_next :: addr
  blk_block :: addr
  blk_size :: u64
  blk_len :: u64

record ramfs_file =
  file_name :: "u8 list"
  isOpen :: bool
  firstBlock :: addr
  lastBlock :: addr
  file_len :: u64
  file_next :: addr

record ramfs_directory =
  dir_name :: "u8 list"
  dir_next :: addr
  firstChild :: addr
  lastChild :: addr
  firstFile :: addr
  lastFile :: addr

record ramfs_file_handle =
  active :: bool
  h_file :: addr
  h_pos :: u64
  currentBlock :: addr
  currentBlockPosition :: u64

record ramfs =
  root :: addr
  totalEntryCount :: int
  ramfsLock :: bool
  fileHandles :: "ramfs_file_handle list"
  dirs :: "addr \<Rightarrow> ramfs_directory option"
  files :: "addr \<Rightarrow> ramfs_file option"
  blocks :: "addr \<Rightarrow> ramfs_file_block_entry option"
  data :: "addr \<Rightarrow> u8 list option"
  mallocs :: nat
  heap :: "nat \<Rightarrow> addr"
  junk :: "nat \<Rightarrow> nat \<Rightarrow> u8"

definition FILE_MIN_BLOCK_SIZE :: u64 where
  "FILE_MIN_BLOCK_SIZE = 4096"

definition FILE_BLOCK_SIZE_ALIGNMENT :: u64 where
  "FILE_BLOCK_SIZE_ALIGNMENT = 64"

definition FILE_HANDLE_COUNT :: nat where
  "FILE_HANDLE_COUNT = 64"

text \<open>The two characters with a meaning in paths.\<close>

abbreviation slash :: u8 where "slash \<equiv> 47"
abbreviation dot :: u8 where "dot \<equiv> 46"

section \<open>Memory\<close>

definition deref :: "(addr \<Rightarrow> 'a option) \<Rightarrow> addr \<Rightarrow> 'a option" where
  "deref h p = (if p = 0 then None else h p)"

definition malloc :: "ramfs \<Rightarrow> ramfs \<times> addr" where
  "malloc s = (s\<lparr>mallocs := mallocs s + 1\<rparr>, heap s (mallocs s))"

definition malloc_data :: "u64 \<Rightarrow> ramfs \<Rightarrow> ramfs \<times> addr" where
  "malloc_data n s =
     (let (s', d) = malloc s in
      (if d = 0 then s' else s'\<lparr>data := (data s')(d := Some (map (junk s (mallocs s)) [0..<unat n]))\<rparr>, d))"

definition copy_out :: "u8 list \<Rightarrow> u64 \<Rightarrow> u64 \<Rightarrow> u8 list option" where
  "copy_out d off n = (if unat off + unat n \<le> length d then Some (take (unat n) (drop (unat off) d)) else None)"

definition copy_in :: "u8 list \<Rightarrow> u64 \<Rightarrow> u8 list \<Rightarrow> u8 list option" where
  "copy_in d off src =
     (if unat off + length src \<le> length d then Some (take (unat off) d @ src @ drop (unat off + length src) d) else None)"

definition acquire_lock :: "ramfs \<Rightarrow> ramfs option" where
  "acquire_lock s = (if ramfsLock s then None else Some (s\<lparr>ramfsLock := True\<rparr>))"

definition release_lock :: "ramfs \<Rightarrow> ramfs" where
  "release_lock s = s\<lparr>ramfsLock := False\<rparr>"

text \<open>The loop \<^verbatim>\<open>for (x = first; x; x = x->next) if (c) ...\<close>, with the entry found or null.\<close>

partial_function (option) find_entry :: "(addr \<Rightarrow> 'e option) \<Rightarrow> ('e \<Rightarrow> addr) \<Rightarrow> ('e \<Rightarrow> bool) \<Rightarrow> addr \<Rightarrow> addr option" where
  "find_entry h nx c p =
     (if p = 0 then Some 0
      else do {
        e \<leftarrow> h p;
        if c e then Some p else find_entry h nx c (nx e)})"

declare find_entry.simps [code]

section \<open>Initialization\<close>

definition ramfs_init :: "ramfs \<Rightarrow> ramfs option" where
  "ramfs_init s = (let (s, r) = malloc s in
     if r = 0 then None
     else Some (s\<lparr>root := r,
       dirs := (dirs s)(r := Some \<lparr>dir_name = [], dir_next = 0, firstChild = 0, lastChild = 0, firstFile = 0, lastFile = 0\<rparr>),
       totalEntryCount := 1,
       fileHandles := map (\<lambda>h. h\<lparr>active := False\<rparr>) (fileHandles s)\<rparr>))"

section \<open>Paths\<close>

text \<open>
  The loop of \<^verbatim>\<open>get_directory\<close> works on the rest of the path, from the current index on; the name of a directory is
  compared with \<^verbatim>\<open>strncmp\<close> in the length of the component of the path.
\<close>

function get_directory_loop :: "ramfs \<Rightarrow> u8 list \<Rightarrow> addr \<Rightarrow> (ramfs_err \<times> addr) option" where
  "get_directory_loop s rest currentDir =
     (let rest = dropWhile (\<lambda>c. c = slash) rest in
      if rest = [] then Some (RAMFS_ERR_OK, currentDir)
      else let name = takeWhile (\<lambda>c. c \<noteq> slash) rest; nameLength = length name; rest' = dropWhile (\<lambda>c. c \<noteq> slash) rest in
      do {
        d \<leftarrow> deref (dirs s) currentDir;
        currentSubDir \<leftarrow> find_entry (dirs s) dir_next (\<lambda>e. take nameLength name = take nameLength (dir_name e)) (firstChild d);
        if currentSubDir = 0 then Some (RAMFS_ERR_DIRECTORY_DOES_NOT_EXIST, 0)
        else if length rest' \<le> 1 then Some (RAMFS_ERR_OK, currentSubDir)
        else get_directory_loop s (tl rest') currentSubDir})"
  by pat_completeness auto

termination
proof (relation "measure (\<lambda>(s, rest, d). length rest)", simp, clarsimp)
  fix rest :: "u8 list"
  let ?r = "dropWhile (\<lambda>c. c \<noteq> slash) (dropWhile (\<lambda>c. c = slash) rest)"
  assume "\<not> length ?r \<le> Suc 0"
  moreover have "length ?r \<le> length rest" using length_dropWhile_le le_trans by metis
  ultimately show "length ?r - Suc 0 < length rest" by linarith
qed

declare get_directory_loop.simps [simp del]

definition get_directory :: "ramfs \<Rightarrow> u8 list \<Rightarrow> nat \<Rightarrow> (ramfs_err \<times> addr) option" where
  "get_directory s path pathLength =
     (if pathLength = 0 \<or> path = [] \<or> hd path \<noteq> slash then Some (RAMFS_ERR_INVALID_PATH_FORMAT, 0)
      else get_directory_loop s (tl (take pathLength path)) (root s))"

text \<open>
  The results of \<^verbatim>\<open>get_file_entry\<close>: the error, the name, the file and the directory; those that are not set are null.
\<close>

definition get_file_entry :: "ramfs \<Rightarrow> u8 list \<Rightarrow> (ramfs_err \<times> u8 list \<times> addr \<times> addr) option" where
  "get_file_entry s path =
     (let pathLength = length path in
      if pathLength = 0 \<or> last path = slash then Some (RAMFS_ERR_INVALID_PATH_FORMAT, [], 0, 0)
      else let fileName = rev (takeWhile (\<lambda>c. c \<noteq> slash) (rev path)); fileNameLength = length fileName in
      if pathLength < fileNameLength + 1 then Some (RAMFS_ERR_INVALID_PATH_FORMAT, [], 0, 0)
      else do {
        (err, directory) \<leftarrow> get_directory s path (pathLength - fileNameLength);
        if err \<noteq> RAMFS_ERR_OK then Some (err, fileName, 0, 0)
        else do {
          d \<leftarrow> deref (dirs s) directory;
          file \<leftarrow> find_entry (files s) file_next (\<lambda>f. file_name f = fileName) (firstFile d);
          if file \<noteq> 0 then Some (RAMFS_ERR_OK, fileName, file, directory)
          else Some (RAMFS_ERR_FILE_DOES_NOT_EXIST, fileName, 0, directory)}})"

section \<open>Directories\<close>

definition legal_dir_name :: "u8 list \<Rightarrow> bool" where
  "legal_dir_name name \<longleftrightarrow> \<not> (take 2 name = [dot, dot]) \<and> slash \<notin> List.set name"

text \<open>The name field has 64 characters and its last one is overwritten with the terminator.\<close>

definition stored_name :: "u8 list \<Rightarrow> u8 list" where
  "stored_name name = take 63 name"

definition add_directory :: "addr \<Rightarrow> u8 list \<Rightarrow> ramfs \<Rightarrow> ramfs option" where
  "add_directory parentDirectory name s = (let (s, directory) = malloc s in
     if directory = 0 then None
     else let s = s\<lparr>dirs := (dirs s)(directory := Some \<lparr>dir_name = stored_name name, dir_next = 0, firstChild = 0,
                    lastChild = 0, firstFile = 0, lastFile = 0\<rparr>)\<rparr> in
     do {
       p \<leftarrow> deref (dirs s) parentDirectory;
       s \<leftarrow> (if lastChild p \<noteq> 0 then do {
                l \<leftarrow> deref (dirs s) (lastChild p);
                Some (s\<lparr>dirs := (dirs s)(lastChild p := Some (l\<lparr>dir_next := directory\<rparr>))\<rparr>)}
              else Some (s\<lparr>dirs := (dirs s)(parentDirectory := Some (p\<lparr>firstChild := directory\<rparr>))\<rparr>));
       p \<leftarrow> deref (dirs s) parentDirectory;
       Some (s\<lparr>dirs := (dirs s)(parentDirectory := Some (p\<lparr>lastChild := directory\<rparr>)), totalEntryCount := totalEntryCount s + 1\<rparr>)})"

definition ramfs_create_directory :: "u8 list \<Rightarrow> u8 list \<Rightarrow> ramfs \<Rightarrow> (ramfs \<times> ramfs_err) option" where
  "ramfs_create_directory path name s =
     (if \<not> legal_dir_name name then Some (s, RAMFS_ERR_ILLEGAL_CHARACTER)
      else do {
        s \<leftarrow> acquire_lock s;
        (err, parentDirectory) \<leftarrow> get_directory s path (length path);
        if err \<noteq> RAMFS_ERR_OK then Some (release_lock s, err)
        else do {
          p \<leftarrow> deref (dirs s) parentDirectory;
          subDir \<leftarrow> find_entry (dirs s) dir_next (\<lambda>e. dir_name e = name) (firstChild p);
          if subDir \<noteq> 0 then Some (release_lock s, RAMFS_ERR_DIRECTORY_EXISTS)
          else do {
            s \<leftarrow> add_directory parentDirectory name s;
            Some (release_lock s, RAMFS_ERR_OK)}}})"

definition ramfs_test_directory :: "u8 list \<Rightarrow> u8 list \<Rightarrow> ramfs \<Rightarrow> (ramfs \<times> ramfs_err) option" where
  "ramfs_test_directory path name s =
     (if \<not> legal_dir_name name then Some (s, RAMFS_ERR_ILLEGAL_CHARACTER)
      else do {
        s \<leftarrow> acquire_lock s;
        (err, parentDirectory) \<leftarrow> get_directory s path (length path);
        if err \<noteq> RAMFS_ERR_OK then Some (release_lock s, err)
        else do {
          p \<leftarrow> deref (dirs s) parentDirectory;
          subDir \<leftarrow> find_entry (dirs s) dir_next (\<lambda>e. dir_name e = name) (firstChild p);
          if subDir \<noteq> 0 then Some (release_lock s, RAMFS_ERR_DIRECTORY_EXISTS)
          else Some (release_lock s, RAMFS_ERR_DIRECTORY_DOES_NOT_EXIST)}})"

section \<open>Opening and closing files\<close>

definition new_block :: "addr \<Rightarrow> u64 \<Rightarrow> ramfs \<Rightarrow> (ramfs \<times> addr) option" where
  "new_block prev n s = (let (s, e) = malloc s in
     if e = 0 then None
     else let (s, d) = malloc_data n s in
     Some (s\<lparr>blocks := (blocks s)(e := Some \<lparr>blk_prev = prev, blk_next = 0, blk_block = d, blk_size = n, blk_len = 0\<rparr>)\<rparr>, e))"

definition create_file :: "addr \<Rightarrow> u8 list \<Rightarrow> ramfs \<Rightarrow> (ramfs \<times> ramfs_err \<times> addr) option" where
  "create_file directory name s =
     (if slash \<in> List.set name then Some (s, RAMFS_ERR_ILLEGAL_CHARACTER, 0)
      else do {
        d \<leftarrow> deref (dirs s) directory;
        f \<leftarrow> find_entry (files s) file_next (\<lambda>e. file_name e = name) (firstFile d);
        if f \<noteq> 0 then Some (s, RAMFS_ERR_FILE_EXISTS, 0)
        else do {
          (s, firstBlockEntry) \<leftarrow> new_block 0 FILE_MIN_BLOCK_SIZE s;
          let (s, file) = malloc s;
          if file = 0 then None
          else do {
            let s = s\<lparr>files := (files s)(file := Some \<lparr>file_name = stored_name name, isOpen = False,
                      firstBlock = firstBlockEntry, lastBlock = firstBlockEntry, file_len = 0, file_next = 0\<rparr>)\<rparr>;
            d \<leftarrow> deref (dirs s) directory;
            (s, d) \<leftarrow> (if lastFile d \<noteq> 0 then do {
                         l \<leftarrow> deref (files s) (lastFile d);
                         Some (s\<lparr>files := (files s)(lastFile d := Some (l\<lparr>file_next := file\<rparr>))\<rparr>, d)}
                       else Some (s, d\<lparr>firstFile := file\<rparr>));
            Some (s\<lparr>dirs := (dirs s)(directory := Some (d\<lparr>lastFile := file\<rparr>)), totalEntryCount := totalEntryCount s + 1\<rparr>,
                  RAMFS_ERR_OK, file)}}})"

fun find_free :: "ramfs_file_handle list \<Rightarrow> nat \<Rightarrow> int" where
  "find_free [] i = -1"
| "find_free (h # hs) i = (if \<not> active h then int i else find_free hs (i + 1))"

definition ramfs_open :: "u8 list \<Rightarrow> bool \<Rightarrow> ramfs \<Rightarrow> (ramfs \<times> ramfs_err \<times> int) option" where
  "ramfs_open path create s = do {
     s \<leftarrow> acquire_lock s;
     let fd = find_free (fileHandles s) 0;
     if fd = -1 then Some (release_lock s, RAMFS_ERR_TOO_MANY_OPEN_FILES, -1)
     else do {
       (err, fileNameStart, file, directory) \<leftarrow> get_file_entry s path;
       (s, err, file) \<leftarrow> (if err = RAMFS_ERR_FILE_DOES_NOT_EXIST \<and> create then create_file directory fileNameStart s
                         else Some (s, err, file));
       if err \<noteq> RAMFS_ERR_OK then Some (release_lock s, err, -1)
       else do {
         f \<leftarrow> deref (files s) file;
         let handle = \<lparr>active = True, h_file = file, h_pos = 0, currentBlock = firstBlock f, currentBlockPosition = 0\<rparr>;
         Some (release_lock (s\<lparr>fileHandles := (fileHandles s)[nat fd := handle],
                               files := (files s)(file := Some (f\<lparr>isOpen := True\<rparr>))\<rparr>), RAMFS_ERR_OK, fd)}}}"

definition valid_fd :: "int \<Rightarrow> ramfs \<Rightarrow> bool" where
  "valid_fd fd s \<longleftrightarrow> \<not> (fd < 0 \<or> fd \<ge> int FILE_HANDLE_COUNT \<or> \<not> active (fileHandles s ! nat fd))"

definition ramfs_close :: "int \<Rightarrow> ramfs \<Rightarrow> ramfs option" where
  "ramfs_close fd s =
     (if \<not> valid_fd fd s then Some s
      else do {
        let h = fileHandles s ! nat fd;
        f \<leftarrow> deref (files s) (h_file h);
        Some (s\<lparr>files := (files s)(h_file h := Some (f\<lparr>isOpen := False\<rparr>)),
                fileHandles := (fileHandles s)[nat fd := h\<lparr>active := False\<rparr>]\<rparr>)})"

section \<open>Reading and writing\<close>

definition put_handle :: "int \<Rightarrow> ramfs_file_handle \<Rightarrow> ramfs \<Rightarrow> ramfs" where
  "put_handle fd h s = s\<lparr>fileHandles := (fileHandles s)[nat fd := h]\<rparr>"

partial_function (option) read_loop :: "int \<Rightarrow> u64 \<Rightarrow> u8 list \<Rightarrow> ramfs \<Rightarrow> (ramfs \<times> u8 list) option" where
  "read_loop fd remainingLength buffer s =
     (if remainingLength > 0 then do {
        let h = fileHandles s ! nat fd;
        b \<leftarrow> deref (blocks s) (currentBlock h);
        if currentBlockPosition h < blk_len b then do {
          let blockLen = blk_len b - currentBlockPosition h;
          d \<leftarrow> deref (data s) (blk_block b);
          if remainingLength < blockLen then do {
            bytes \<leftarrow> copy_out d (currentBlockPosition h) remainingLength;
            Some (put_handle fd (h\<lparr>currentBlockPosition := currentBlockPosition h + remainingLength,
                                   h_pos := h_pos h + remainingLength\<rparr>) s, buffer @ bytes)}
          else do {
            bytes \<leftarrow> copy_out d (currentBlockPosition h) blockLen;
            read_loop fd (remainingLength - blockLen) (buffer @ bytes)
              (put_handle fd (h\<lparr>h_pos := h_pos h + blockLen, currentBlock := blk_next b, currentBlockPosition := 0\<rparr>) s)}}
        else read_loop fd remainingLength buffer (put_handle fd (h\<lparr>currentBlock := blk_next b, currentBlockPosition := 0\<rparr>) s)}
      else Some (s, buffer))"

declare read_loop.simps [code]

definition ramfs_read :: "u64 \<Rightarrow> int \<Rightarrow> ramfs \<Rightarrow> (ramfs \<times> u64 \<times> u8 list) option" where
  "ramfs_read len fd s =
     (if \<not> valid_fd fd s then Some (s, -1, [])
      else do {
        let h = fileHandles s ! nat fd;
        f \<leftarrow> deref (files s) (h_file h);
        let readLength = (if h_pos h + len > file_len f then file_len f - h_pos h else len);
        (s, buffer) \<leftarrow> read_loop fd readLength [] s;
        Some (s, readLength, buffer)})"

text \<open>
  One copy of \<open>n\<close> bytes from the rest of the buffer into the current block: the data, the position of the handle, and the
  lengths of the block and of the file.
\<close>

definition write_block :: "int \<Rightarrow> u64 \<Rightarrow> u8 list \<Rightarrow> ramfs \<Rightarrow> ramfs option" where
  "write_block fd n buffer s = do {
     let h = fileHandles s ! nat fd;
     b \<leftarrow> deref (blocks s) (currentBlock h);
     d \<leftarrow> deref (data s) (blk_block b);
     src \<leftarrow> (if unat n \<le> length buffer then Some (take (unat n) buffer) else None);
     d' \<leftarrow> copy_in d (currentBlockPosition h) src;
     f \<leftarrow> deref (files s) (h_file h);
     let oldDataLength = blk_len b;
     let newDataLength = currentBlockPosition h + n;
     Some (put_handle fd (h\<lparr>h_pos := h_pos h + n, currentBlockPosition := currentBlockPosition h + n\<rparr>)
       (s\<lparr>data := (data s)(blk_block b := Some d'),
          blocks := (blocks s)(currentBlock h := Some (b\<lparr>blk_len := newDataLength\<rparr>)),
          files := (files s)(h_file h := Some (f\<lparr>file_len := file_len f + (newDataLength - oldDataLength)\<rparr>))\<rparr>))}"

definition next_block :: "int \<Rightarrow> u64 \<Rightarrow> ramfs \<Rightarrow> ramfs option" where
  "next_block fd remainingLength s = do {
     let h = fileHandles s ! nat fd;
     b \<leftarrow> deref (blocks s) (currentBlock h);
     s \<leftarrow> (if blk_next b = 0 then do {
            let n = FILE_BLOCK_SIZE_ALIGNMENT * (1 + remainingLength div FILE_BLOCK_SIZE_ALIGNMENT);
            let newBlockSize = (if n < FILE_MIN_BLOCK_SIZE then FILE_MIN_BLOCK_SIZE else n);
            (s, e) \<leftarrow> new_block (currentBlock h) newBlockSize s;
            b \<leftarrow> deref (blocks s) (currentBlock h);
            f \<leftarrow> deref (files s) (h_file h);
            Some (s\<lparr>blocks := (blocks s)(currentBlock h := Some (b\<lparr>blk_next := e\<rparr>)),
                    files := (files s)(h_file h := Some (f\<lparr>lastBlock := e\<rparr>))\<rparr>)}
          else Some s);
     b \<leftarrow> deref (blocks s) (currentBlock h);
     Some (put_handle fd (h\<lparr>currentBlock := blk_next b, currentBlockPosition := 0\<rparr>) s)}"

partial_function (option) write_loop :: "int \<Rightarrow> u64 \<Rightarrow> u8 list \<Rightarrow> ramfs \<Rightarrow> ramfs option" where
  "write_loop fd remainingLength buffer s =
     (if remainingLength > 0 then do {
        let h = fileHandles s ! nat fd;
        b \<leftarrow> deref (blocks s) (currentBlock h);
        if currentBlockPosition h < blk_size b then do {
          let blockSpace = blk_size b - currentBlockPosition h;
          if blockSpace \<ge> remainingLength then write_block fd remainingLength buffer s
          else do {
            s \<leftarrow> write_block fd blockSpace buffer s;
            s \<leftarrow> next_block fd (remainingLength - blockSpace) s;
            write_loop fd (remainingLength - blockSpace) (drop (unat blockSpace) buffer) s}}
        else do {
          s \<leftarrow> next_block fd remainingLength s;
          write_loop fd remainingLength buffer s}}
      else Some s)"

declare write_loop.simps [code]

definition ramfs_write :: "u8 list \<Rightarrow> u64 \<Rightarrow> int \<Rightarrow> ramfs \<Rightarrow> (ramfs \<times> u64) option" where
  "ramfs_write buffer len fd s =
     (if \<not> valid_fd fd s then Some (s, -1)
      else do {
        s \<leftarrow> write_loop fd len buffer s;
        Some (s, len)})"

definition ramfs_tell :: "int \<Rightarrow> ramfs \<Rightarrow> u64" where
  "ramfs_tell fd s = (if \<not> valid_fd fd s then -1 else h_pos (fileHandles s ! nat fd))"

definition seek_target :: "u64 \<Rightarrow> ramfs_seek_whence \<Rightarrow> u64 \<Rightarrow> u64 \<Rightarrow> u64" where
  "seek_target offset whence pos len =
     (let position =
        (if whence = RAMFS_SEEK_START \<and> sint offset \<ge> 0 then offset
         else if whence = RAMFS_SEEK_CURRENT \<and> (sint offset \<ge> 0 \<or> sint pos \<ge> - sint offset) then pos + offset
         else if whence = RAMFS_SEEK_END \<and> sint offset \<le> 0 \<and> sint len \<ge> - sint offset then len + offset
         else 0)
      in if position > len then len else position)"

partial_function (option) seek_loop :: "ramfs \<Rightarrow> u64 \<Rightarrow> addr \<Rightarrow> (addr \<times> u64) option" where
  "seek_loop s skip currBlock =
     (if skip > 0 then do {
        b \<leftarrow> deref (blocks s) currBlock;
        if skip > blk_len b then seek_loop s (skip - blk_len b) (blk_next b) else Some (currBlock, skip)}
      else Some (currBlock, skip))"

declare seek_loop.simps [code]

definition ramfs_seek :: "u64 \<Rightarrow> ramfs_seek_whence \<Rightarrow> int \<Rightarrow> ramfs \<Rightarrow> ramfs option" where
  "ramfs_seek offset whence fd s =
     (if \<not> valid_fd fd s then Some s
      else do {
        let h = fileHandles s ! nat fd;
        f \<leftarrow> deref (files s) (h_file h);
        let position = seek_target offset whence (h_pos h) (file_len f);
        (currBlock, skip) \<leftarrow> seek_loop s position (firstBlock f);
        Some (put_handle fd (h\<lparr>currentBlock := currBlock, currentBlockPosition := skip, h_pos := position\<rparr>) s)})"

section \<open>Deleting files\<close>

partial_function (option) unlink_loop :: "addr \<Rightarrow> addr \<Rightarrow> addr \<Rightarrow> ramfs \<Rightarrow> ramfs option" where
  "unlink_loop directory file f s =
     (if f = 0 then Some s
      else if f = file then Some s
      else do {
        e \<leftarrow> files s f;
        if file_next e = file then do {
          fe \<leftarrow> deref (files s) file;
          let s = s\<lparr>files := (files s)(f := Some (e\<lparr>file_next := file_next fe\<rparr>))\<rparr>;
          d \<leftarrow> deref (dirs s) directory;
          Some (if lastFile d = file then s\<lparr>dirs := (dirs s)(directory := Some (d\<lparr>lastFile := f\<rparr>))\<rparr> else s)}
        else unlink_loop directory file (file_next e) s})"

declare unlink_loop.simps [code]

partial_function (option) free_blocks :: "addr \<Rightarrow> ramfs \<Rightarrow> ramfs option" where
  "free_blocks b s =
     (if b = 0 then Some s
      else do {
        e \<leftarrow> blocks s b;
        free_blocks (blk_next e) (s\<lparr>data := (data s)(blk_block e := None), blocks := (blocks s)(b := None)\<rparr>)})"

declare free_blocks.simps [code]

definition ramfs_delete :: "u8 list \<Rightarrow> ramfs \<Rightarrow> (ramfs \<times> ramfs_err) option" where
  "ramfs_delete path s = do {
     s \<leftarrow> acquire_lock s;
     (err, fileNameStart, file, directory) \<leftarrow> get_file_entry s path;
     if err \<noteq> RAMFS_ERR_OK then Some (release_lock s, err)
     else do {
       f \<leftarrow> deref (files s) file;
       if isOpen f then Some (release_lock s, RAMFS_ERR_FILE_ALREADY_OPEN)
       else do {
         d \<leftarrow> deref (dirs s) directory;
         s \<leftarrow> unlink_loop directory file (firstFile d) s;
         d \<leftarrow> deref (dirs s) directory;
         f \<leftarrow> deref (files s) file;
         let s = (if firstFile d = file then
                    s\<lparr>dirs := (dirs s)(directory := Some (d\<lparr>firstFile := file_next f,
                        lastFile := (if lastFile d = file then file_next f else lastFile d)\<rparr>))\<rparr>
                  else s);
         s \<leftarrow> free_blocks (firstBlock f) s;
         Some (release_lock (s\<lparr>files := (files s)(file := None)\<rparr>), RAMFS_ERR_OK)}}}"

section \<open>Listing a directory\<close>

text \<open>The bytes of the caller's buffer that have been written, by index; an index is a C integer.\<close>

type_synonym buffer = "int \<Rightarrow> u8 option"

fun put :: "u8 list \<Rightarrow> int \<Rightarrow> buffer \<Rightarrow> buffer" where
  "put [] pos buf = buf"
| "put (c # cs) pos buf = put cs (pos + 1) (buf(pos := Some c))"

definition fileSizeStringLength :: nat where
  "fileSizeStringLength = 4 + 1 + 1 + 1 + 2"

text \<open>The decimal string of \<^verbatim>\<open>itoa(n, s, 10)\<close>, see \<open>itoa_at\<close>.\<close>

definition decimal :: "nat \<Rightarrow> u8 list" where
  "decimal n = map (\<lambda>d. digit_char (of_nat d)) (rev (digits 10 n))"

definition fileSizeNames :: "nat \<Rightarrow> u8 list" where
  "fileSizeNames i = [[66, 32], [75, 66], [77, 66], [71, 66], [84, 66]] ! i"

definition fileSizeOrders :: "u64 \<Rightarrow> nat \<Rightarrow> nat" where
  "fileSizeOrders len i = unat (drop_bit (10 * i) len AND 1023)"

fun size_string_loop :: "u64 \<Rightarrow> nat \<Rightarrow> u8 list" where
  "size_string_loop len 0 = decimal (fileSizeOrders len 0) @ [32] @ fileSizeNames 0"
| "size_string_loop len (Suc i) =
     (if fileSizeOrders len (Suc i) \<noteq> 0 then
        decimal (fileSizeOrders len (Suc i))
          @ (if fileSizeOrders len i \<noteq> 0 then [dot, hd (decimal (fileSizeOrders len i * 1000 div 1024))] else [])
          @ [32] @ fileSizeNames (Suc i)
      else size_string_loop len i)"

definition size_string :: "u64 \<Rightarrow> u8 list" where
  "size_string len = size_string_loop len 4"

definition dir_line :: "ramfs_directory \<Rightarrow> u8 list" where
  "dir_line d = [32] @ replicate fileSizeStringLength 32 @ replicate 4 32 @ dir_name d @ [slash] @ [10]"

definition file_line :: "ramfs_file \<Rightarrow> u8 list" where
  "file_line f = (let str = size_string (file_len f) in
     [32] @ replicate (fileSizeStringLength - length str) 32 @ str @ replicate 4 32 @ file_name f @ [10])"

text \<open>The loops return the buffer, the position behind the last byte and the overflow flag.\<close>

partial_function (option) list_dirs :: "ramfs \<Rightarrow> int \<Rightarrow> addr \<Rightarrow> buffer \<Rightarrow> int \<Rightarrow> (buffer \<times> int \<times> bool) option" where
  "list_dirs s bufferLength p buf bufferPos =
     (if p = 0 then Some (buf, bufferPos, False)
      else do {
        d \<leftarrow> dirs s p;
        let lineLength = 1 + int fileSizeStringLength + 4 + int (length (dir_name d)) + 1 + 1;
        if bufferPos + lineLength > bufferLength then Some (buf, bufferPos, True)
        else list_dirs s bufferLength (dir_next d) (put (dir_line d) bufferPos buf) (bufferPos + int (length (dir_line d)))})"

declare list_dirs.simps [code]

partial_function (option) list_files :: "ramfs \<Rightarrow> int \<Rightarrow> addr \<Rightarrow> buffer \<Rightarrow> int \<Rightarrow> bool \<Rightarrow> (buffer \<times> int \<times> bool) option" where
  "list_files s bufferLength p buf bufferPos overflow =
     (if p = 0 then Some (buf, bufferPos, overflow)
      else do {
        f \<leftarrow> files s p;
        let lineLength = 1 + int fileSizeStringLength + 4 + int (length (file_name f)) + 1;
        if bufferPos + lineLength > bufferLength then Some (buf, bufferPos, True)
        else list_files s bufferLength (file_next f) (put (file_line f) bufferPos buf) (bufferPos + int (length (file_line f))) overflow})"

declare list_files.simps [code]

definition ramfs_list :: "u8 list \<Rightarrow> int \<Rightarrow> ramfs \<Rightarrow> (ramfs \<times> int \<times> buffer) option" where
  "ramfs_list path bufferLength s = do {
     s \<leftarrow> acquire_lock s;
     (err, directory) \<leftarrow> get_directory s path (length path);
     if err \<noteq> RAMFS_ERR_OK then Some (s, 0, Map.empty)
     else do {
       d \<leftarrow> deref (dirs s) directory;
       (buf, bufferPos, overflow) \<leftarrow> list_dirs s bufferLength (firstChild d) Map.empty 0;
       (buf, bufferPos, overflow) \<leftarrow> list_files s bufferLength (firstFile d) buf bufferPos overflow;
       let (buf, bufferPos) = (if overflow then
             let pos = (if bufferPos > bufferLength - 3 then bufferLength - 3 else bufferPos) in (put [126, 126, 126] pos buf, pos + 3)
           else (buf, bufferPos));
       Some (release_lock s, bufferPos, buf)}}"

end
