(* ===== verification/RamfsFile.thy ===== *)
theory RamfsFile
  imports Ramfs
begin

text \<open>
  The contents of files: a file represents the concatenation of the data of its blocks, and reading, writing and seeking
  are the operations on this sequence of bytes.
\<close>

section \<open>Representation\<close>

definition blk_data :: "ramfs \<Rightarrow> addr \<Rightarrow> addr" where
  "blk_data s x = blk_block (the (blocks s x))"

definition blk_cont :: "ramfs \<Rightarrow> addr \<Rightarrow> u8 list" where
  "blk_cont s x = take (unat (blk_len (the (blocks s x)))) (the (data s (blk_data s x)))"

definition content :: "ramfs \<Rightarrow> addr list \<Rightarrow> u8 list" where
  "content s bs = concat (map (blk_cont s) bs)"

definition block_ok :: "ramfs \<Rightarrow> addr \<Rightarrow> bool" where
  "block_ok s x \<longleftrightarrow> x \<noteq> 0 \<and> (\<exists>b d. blocks s x = Some b \<and> blk_block b \<noteq> 0 \<and> data s (blk_block b) = Some d
     \<and> length d = unat (blk_size b) \<and> blk_len b \<le> blk_size b)"

fun linked :: "ramfs \<Rightarrow> addr \<Rightarrow> addr \<Rightarrow> addr list \<Rightarrow> bool" where
  "linked s q p [] \<longleftrightarrow> p = 0"
| "linked s q p (x # xs) \<longleftrightarrow> p = x \<and> (\<exists>b. blocks s x = Some b \<and> blk_prev b = q \<and> linked s x (blk_next b) xs)"

definition file_rep :: "ramfs \<Rightarrow> addr \<Rightarrow> addr list \<Rightarrow> bool" where
  "file_rep s f bs \<longleftrightarrow> f \<noteq> 0 \<and> (\<exists>e. files s f = Some e \<and> linked s 0 (firstBlock e) bs \<and> bs \<noteq> [] \<and> lastBlock e = last bs
     \<and> unat (file_len e) = length (content s bs))
   \<and> (\<forall>x \<in> List.set bs. block_ok s x) \<and> distinct bs \<and> distinct (map (blk_data s) bs)"

text \<open>
  A handle stands between the blocks \<open>ys\<close> and \<open>zs\<close> of its file, inside the first of \<open>zs\<close>; \<open>zs\<close> is empty after a read up
  to the end of the file.
\<close>

definition handle_at :: "ramfs \<Rightarrow> ramfs_file_handle \<Rightarrow> addr list \<Rightarrow> addr list \<Rightarrow> bool" where
  "handle_at s h ys zs \<longleftrightarrow> currentBlock h = hd0 zs
     \<and> unat (currentBlockPosition h) \<le> (case zs of [] \<Rightarrow> 0 | z # _ \<Rightarrow> length (blk_cont s z))
     \<and> unat (h_pos h) = length (content s ys) + unat (currentBlockPosition h)"

lemma content_simps [simp]: "content s [] = []" "content s (x # xs) = blk_cont s x @ content s xs"
  "content s (xs @ ys) = content s xs @ content s ys"
  by (simp_all add: content_def)

lemma put_handle_simps [simp]: "blocks (put_handle fd h s) = blocks s" "data (put_handle fd h s) = data s"
  "files (put_handle fd h s) = files s" "dirs (put_handle fd h s) = dirs s" "heap (put_handle fd h s) = heap s"
  "mallocs (put_handle fd h s) = mallocs s" "junk (put_handle fd h s) = junk s" "root (put_handle fd h s) = root s"
  "ramfsLock (put_handle fd h s) = ramfsLock s" "totalEntryCount (put_handle fd h s) = totalEntryCount s"
  "put_handle fd h (put_handle fd h' s) = put_handle fd h s" "length (fileHandles (put_handle fd h s)) = length (fileHandles s)"
  "nat fd < length (fileHandles s) \<Longrightarrow> fileHandles (put_handle fd h s) ! nat fd = h"
  by (simp_all add: put_handle_def)

lemma fileHandles_put_handle: "fileHandles (put_handle fd h s) = (fileHandles s)[nat fd := h]"
  by (simp add: put_handle_def)

lemma blk_cong: "blocks s' x = blocks s x \<Longrightarrow> blk_data s' x = blk_data s x"
  by (simp add: blk_data_def)

lemma blk_cont_cong: "blocks s' x = blocks s x \<Longrightarrow> data s' (blk_data s x) = data s (blk_data s x) \<Longrightarrow> blk_cont s' x = blk_cont s x"
  by (simp add: blk_cont_def blk_data_def)

lemma block_ok_cong: "blocks s' x = blocks s x \<Longrightarrow> data s' (blk_data s x) = data s (blk_data s x) \<Longrightarrow> block_ok s' x = block_ok s x"
  by (cases "blocks s x") (simp_all add: block_ok_def blk_data_def)

lemma content_cong: "(\<And>x. x \<in> List.set xs \<Longrightarrow> blk_cont s' x = blk_cont s x) \<Longrightarrow> content s' xs = content s xs"
  unfolding content_def by (metis (mono_tags, lifting) map_cong)

lemma linked_cong: "(\<And>x. x \<in> List.set xs \<Longrightarrow> blocks s' x = blocks s x) \<Longrightarrow> linked s' q p xs = linked s q p xs"
  by (induction xs arbitrary: q p) auto

lemma put_handle_rep [simp]: "blk_cont (put_handle fd h s) = blk_cont s" "content (put_handle fd h s) = content s"
  "blk_data (put_handle fd h s) = blk_data s" "handle_at (put_handle fd h s) = handle_at s"
  "block_ok (put_handle fd h s) = block_ok s" "file_rep (put_handle fd h s) = file_rep s"
proof -
  show 1: "blk_data (put_handle fd h s) = blk_data s" by (simp add: fun_eq_iff blk_data_def)
  show 2: "blk_cont (put_handle fd h s) = blk_cont s" using 1 by (simp add: fun_eq_iff blk_cont_def)
  show 3: "content (put_handle fd h s) = content s" by (rule ext) (simp only: content_def 2)
  show "handle_at (put_handle fd h s) = handle_at s" by (intro ext) (simp only: handle_at_def 2 3)
  show 4: "block_ok (put_handle fd h s) = block_ok s" by (simp add: fun_eq_iff block_ok_def)
  have 5: "linked (put_handle fd h s) q p xs = linked s q p xs" for q p xs by (rule linked_cong) simp
  show "file_rep (put_handle fd h s) = file_rep s" by (intro ext) (simp only: file_rep_def 1 3 4 5 put_handle_simps)
qed

lemma linked_next: "linked s q p (ys @ z # zs) \<Longrightarrow> blk_next (the (blocks s z)) = hd0 zs"
proof (induction ys arbitrary: q p)
  case Nil
  then show ?case by (cases zs) auto
qed auto

lemma block_okD:
  assumes "block_ok s x"
  obtains b d where "blocks s x = Some b" "data s (blk_block b) = Some d" "x \<noteq> 0" "blk_block b \<noteq> 0"
    "length d = unat (blk_size b)" "unat (blk_len b) \<le> length d" "blk_cont s x = take (unat (blk_len b)) d" "blk_data s x = blk_block b"
  using assms by (auto simp: block_ok_def blk_cont_def blk_data_def word_le_nat_alt)

lemma length_blk_cont: "block_ok s x \<Longrightarrow> length (blk_cont s x) = unat (blk_len (the (blocks s x)))"
  by (erule block_okD) simp

section \<open>Reading\<close>

lemma read_loop_at:
  assumes "linked s 0 p (ys @ zs)" "\<forall>x \<in> List.set (ys @ zs). block_ok s x" "nat fd < length (fileHandles s)"
    "h = fileHandles s ! nat fd" "handle_at s h ys zs" "unat (h_pos h) + unat n \<le> length (content s (ys @ zs))"
    "length (content s (ys @ zs)) < 2 ^ 64"
  shows "\<exists>h' ys' zs'. read_loop fd n buf s = Some (put_handle fd h' s, buf @ take (unat n) (drop (unat (h_pos h)) (content s (ys @ zs))))
     \<and> ys' @ zs' = ys @ zs \<and> handle_at s h' ys' zs' \<and> h_file h' = h_file h \<and> active h' = active h \<and> h_pos h' = h_pos h + n
     \<and> (zs' = [] \<or> currentBlockPosition h' = 0 \<or> unat (currentBlockPosition h') < length (blk_cont s (hd zs')) \<or> h' = h)"
  using assms
proof (induction zs arbitrary: ys h s n buf)
  case Nil
  then have "n = 0" by (simp add: handle_at_def unat_eq_0)
  moreover have "put_handle fd h s = s" using Nil.prems(4) by (simp add: put_handle_def)
  ultimately show ?case using Nil.prems(5) by (intro exI [of _ h] exI [of _ ys] exI [of _ "[]"]) (simp add: read_loop.simps)
next
  case (Cons z zs)
  show ?case
  proof (cases "n = 0")
    case True
    moreover have "put_handle fd h s = s" using Cons.prems(4) by (simp add: put_handle_def)
    ultimately show ?thesis using Cons.prems(5) by (intro exI [of _ h] exI [of _ ys] exI [of _ "z # zs"]) (simp add: read_loop.simps)
  next
    case False
    have ok: "block_ok s z" using Cons.prems(2) by simp
    then obtain b d where b: "blocks s z = Some b" "data s (blk_block b) = Some d" "z \<noteq> 0" "blk_block b \<noteq> 0"
      "unat (blk_len b) \<le> length d" "blk_cont s z = take (unat (blk_len b)) d" by (rule block_okD)
    define k where "k = currentBlockPosition h"
    have h: "currentBlock h = z" "unat k \<le> unat (blk_len b)" "unat (h_pos h) = length (content s ys) + unat k"
      using Cons.prems(5) b(5,6) by (simp_all add: handle_at_def k_def)
    have kl: "unat (blk_len b - k) = unat (blk_len b) - unat k" using h(2) by (simp add: unat_sub word_le_nat_alt)
    have nx: "blk_next b = hd0 zs" using linked_next [OF Cons.prems(1)] b(1) by simp
    have drp: "drop (unat (h_pos h)) (content s (ys @ z # zs)) = drop (unat k) (take (unat (blk_len b)) d) @ content s zs"
      using h b(5,6) by simp
    have n0: "n > 0" using False by (simp add: word_neq_0_conv)
    show ?thesis
    proof (cases "n < blk_len b - k")
      case True
      then have lt: "unat n < unat (blk_len b) - unat k" by (simp add: word_less_nat_alt kl)
      then have "k < blk_len b" by (simp add: word_less_nat_alt)
      define h' where "h' = h\<lparr>currentBlockPosition := k + n, h_pos := h_pos h + n\<rparr>"
      have u: "unat (k + n) = unat k + unat n" "unat (h_pos h + n) = unat (h_pos h) + unat n"
        using lt b(5) Cons.prems(6,7) unsigned_less [of "blk_len b", where 'a = nat] by (simp_all add: unat_word_ariths)
      have "copy_out d k n = Some (take (unat n) (drop (unat k) d))" using lt b(5) by (simp add: copy_out_def)
      then have "read_loop fd n buf s = Some (put_handle fd h' s, buf @ take (unat n) (drop (unat k) d))"
        using n0 True \<open>k < blk_len b\<close> Cons.prems(4) [symmetric] h(1) b
        by (subst read_loop.simps) (simp add: Let_def deref_def k_def [symmetric] h'_def)
      moreover have "take (unat n) (drop (unat (h_pos h)) (content s (ys @ z # zs))) = take (unat n) (drop (unat k) d)"
        unfolding drp using lt b(5) by (auto simp: drop_take min_def)
      moreover have "handle_at s h' ys (z # zs)" using h u lt b(5,6) by (simp add: handle_at_def h'_def)
      moreover have "unat (currentBlockPosition h') < length (blk_cont s z)" using u lt b(5,6) by (simp add: h'_def)
      ultimately show ?thesis by (intro exI [of _ h'] exI [of _ ys] exI [of _ "z # zs"]) (simp add: h'_def)
    next
      case False
      then have ge: "unat (blk_len b) - unat k \<le> unat n" by (simp add: word_less_nat_alt kl not_less)
      define m where "m = blk_len b - k"
      define h1 where "h1 = h\<lparr>h_pos := h_pos h + m, currentBlock := blk_next b, currentBlockPosition := 0\<rparr>"
      have m: "unat m = unat (blk_len b) - unat k" "unat (n - m) = unat n - unat m"
        using ge kl by (simp_all add: m_def unat_sub word_le_nat_alt)
      have u: "unat (h_pos h + m) = unat (h_pos h) + unat m"
        using Cons.prems(6,7) ge m(1) by (simp add: unat_word_ariths)
      let ?bytes = "take (unat m) (drop (unat k) d)"
      have step: "read_loop fd n buf s = read_loop fd (n - m) (buf @ ?bytes) (put_handle fd h1 s)"
      proof (cases "k < blk_len b")
        case True
        have "copy_out d k m = Some ?bytes" using m b(5) h(2) by (simp add: copy_out_def)
        then show ?thesis using n0 True False Cons.prems(4) [symmetric] h(1) b
          by (subst read_loop.simps) (simp add: Let_def deref_def k_def [symmetric] h1_def m_def [symmetric])
      next
        case nk: False
        then have "m = 0" "?bytes = []" using h(2) m(1) by (simp_all add: word_less_nat_alt unat_eq_0)
        then show ?thesis using n0 nk Cons.prems(4) [symmetric] h(1) b
          by (subst read_loop.simps) (simp add: Let_def deref_def k_def [symmetric] h1_def)
      qed
      have pos: "unat (h_pos h1) = length (content s (ys @ [z]))" using u m(1) h b(5,6) by (simp add: h1_def)
      have "\<exists>h' ys' zs'. read_loop fd (n - m) (buf @ ?bytes) (put_handle fd h1 s)
          = Some (put_handle fd h' (put_handle fd h1 s), (buf @ ?bytes) @ take (unat (n - m)) (drop (unat (h_pos h1)) (content (put_handle fd h1 s) ((ys @ [z]) @ zs))))
        \<and> ys' @ zs' = (ys @ [z]) @ zs \<and> handle_at (put_handle fd h1 s) h' ys' zs' \<and> h_file h' = h_file h1 \<and> active h' = active h1 \<and> h_pos h' = h_pos h1 + (n - m)
        \<and> (zs' = [] \<or> currentBlockPosition h' = 0 \<or> unat (currentBlockPosition h') < length (blk_cont (put_handle fd h1 s) (hd zs')) \<or> h' = h1)"
      proof (rule Cons.IH)
        show "linked (put_handle fd h1 s) 0 p ((ys @ [z]) @ zs)"
          using Cons.prems(1) linked_cong [of "ys @ z # zs" "put_handle fd h1 s" s 0 p] by simp
        show "handle_at (put_handle fd h1 s) h1 (ys @ [z]) zs" using pos nx by (simp add: handle_at_def h1_def)
        show "unat (h_pos h1) + unat (n - m) \<le> length (content (put_handle fd h1 s) ((ys @ [z]) @ zs))"
          using Cons.prems(6) ge m u by (simp add: h1_def)
      qed (use Cons.prems in simp_all)
      then obtain h' ys' zs' where r: "read_loop fd n buf s = Some (put_handle fd h' s, buf @ ?bytes @ take (unat (n - m)) (content s zs))"
        "ys' @ zs' = ys @ z # zs" "handle_at s h' ys' zs'" "h_file h' = h_file h1" "active h' = active h1" "h_pos h' = h_pos h1 + (n - m)"
        "zs' = [] \<or> currentBlockPosition h' = 0 \<or> unat (currentBlockPosition h') < length (blk_cont s (hd zs')) \<or> h' = h1"
        unfolding step using pos by auto
      then have q: "zs' = [] \<or> currentBlockPosition h' = 0 \<or> unat (currentBlockPosition h') < length (blk_cont s (hd zs'))"
        by (auto simp: h1_def)
      have "take (unat n) (drop (unat (h_pos h)) (content s (ys @ z # zs))) = ?bytes @ take (unat (n - m)) (content s zs)"
        unfolding drp using ge m b(5) by (simp add: drop_take)
      then show ?thesis using r(1-6) q
        by - (rule exI [of _ h'], rule exI [of _ ys'], rule exI [of _ zs'], simp add: h1_def, blast)
    qed
  qed
qed

section \<open>Seeking\<close>

lemma seek_loop_at:
  assumes "linked s q p zs" "zs \<noteq> []" "\<forall>x \<in> List.set zs. block_ok s x" "unat skip \<le> length (content s zs)"
  shows "\<exists>ys' z' zs' k. seek_loop s skip p = Some (z', k) \<and> zs = ys' @ z' # zs' \<and> unat k \<le> length (blk_cont s z')
     \<and> unat skip = length (content s ys') + unat k"
  using assms
proof (induction zs arbitrary: q p skip)
  case (Cons z zs)
  have ok: "block_ok s z" using Cons.prems(3) by simp
  obtain b where b: "blocks s z = Some b" "p = z" "linked s z (blk_next b) zs" using Cons.prems(1) by auto
  have z: "z \<noteq> 0" "length (blk_cont s z) = unat (blk_len b)" using ok length_blk_cont [OF ok] b(1) by (auto simp: block_ok_def)
  show ?case
  proof (cases "skip > blk_len b")
    case False
    then have "seek_loop s skip p = Some (z, skip)" using b z by (subst seek_loop.simps) (simp add: deref_def)
    then show ?thesis using False z(2)
      by (intro exI [of _ "[]"] exI [of _ z] exI [of _ zs] exI [of _ skip]) (simp add: word_less_nat_alt)
  next
    case True
    then have u: "unat (skip - blk_len b) = unat skip - unat (blk_len b)" "unat (blk_len b) < unat skip"
      by (simp_all add: unat_sub word_le_nat_alt word_less_nat_alt)
    have "skip > 0" using u(2) by (simp add: word_less_nat_alt)
    then have e: "seek_loop s skip p = seek_loop s (skip - blk_len b) (blk_next b)"
      using True b z by (subst seek_loop.simps) (simp add: deref_def)
    have "zs \<noteq> []" "unat (skip - blk_len b) \<le> length (content s zs)" using Cons.prems(4) u z(2) by auto
    from Cons.IH [OF b(3) this(1) _ this(2)] Cons.prems(3) obtain ys' z' zs' k where
      "seek_loop s (skip - blk_len b) (blk_next b) = Some (z', k)" "zs = ys' @ z' # zs'" "unat k \<le> length (blk_cont s z')"
      "unat (skip - blk_len b) = length (content s ys') + unat k" by auto
    then show ?thesis using e u z(2)
      by (intro exI [of _ "z # ys'"] exI [of _ z'] exI [of _ zs'] exI [of _ k]) auto
  qed
qed simp

section \<open>Writing\<close>

text \<open>Only the file \<open>f\<close>, the blocks \<open>B\<close> and the data \<open>D\<close> may change.\<close>

definition kept :: "addr set \<Rightarrow> addr set \<Rightarrow> addr \<Rightarrow> ramfs \<Rightarrow> ramfs \<Rightarrow> bool" where
  "kept B D f s s' \<longleftrightarrow> dirs s' = dirs s \<and> root s' = root s \<and> ramfsLock s' = ramfsLock s \<and> totalEntryCount s' = totalEntryCount s
     \<and> (\<forall>g. g \<noteq> f \<longrightarrow> files s' g = files s g) \<and> (\<forall>x. x \<notin> B \<longrightarrow> blocks s' x = blocks s x) \<and> (\<forall>d. d \<notin> D \<longrightarrow> data s' d = data s d)"

lemma kept_refl [simp]: "kept B D f s s"
  by (simp add: kept_def)

lemma kept_trans: "kept B D f s s1 \<Longrightarrow> kept B D f s1 s2 \<Longrightarrow> kept B D f s s2"
  by (simp add: kept_def)

lemma kept_mono: "kept B D f s s' \<Longrightarrow> B \<subseteq> B' \<Longrightarrow> D \<subseteq> D' \<Longrightarrow> kept B' D' f s s'"
  by (auto simp: kept_def)

lemma kept_put_handle [simp]: "kept B D f s (put_handle fd h s') \<longleftrightarrow> kept B D f s s'"
  "kept B D f (put_handle fd h s) s' \<longleftrightarrow> kept B D f s s'"
  by (simp_all add: kept_def)

lemma file_rep_kept:
  assumes "file_rep s g cs" "kept B D f s s'" "g \<noteq> f" "List.set cs \<inter> B = {}" "blk_data s ` List.set cs \<inter> D = {}"
  shows "file_rep s' g cs \<and> content s' cs = content s cs"
proof -
  have b: "blocks s' x = blocks s x" "data s' (blk_data s x) = data s (blk_data s x)" if "x \<in> List.set cs" for x
    using assms(2,4,5) that by (auto simp: kept_def)
  have c: "content s' cs = content s cs" by (rule content_cong, rule blk_cont_cong) (simp_all add: b)
  have l: "linked s' q p cs = linked s q p cs" for q p by (rule linked_cong) (simp add: b)
  have ok: "(\<forall>x \<in> List.set cs. block_ok s' x) = (\<forall>x \<in> List.set cs. block_ok s x)"
    by (rule ball_cong [OF refl], rule block_ok_cong) (simp_all add: b)
  have d: "map (blk_data s') cs = map (blk_data s) cs" using b(1) by (auto simp: blk_data_def)
  have f: "files s' g = files s g" using assms(2,3) by (simp add: kept_def)
  show ?thesis using assms(1) c unfolding file_rep_def c l ok d f by blast
qed

text \<open>The length and the data of one block change.\<close>

definition set_block :: "addr \<Rightarrow> addr \<Rightarrow> u64 \<Rightarrow> u8 list \<Rightarrow> ramfs \<Rightarrow> ramfs" where
  "set_block f z m d' s = (let b = the (blocks s z); e = the (files s f) in
     s\<lparr>data := (data s)(blk_block b := Some d'), blocks := (blocks s)(z := Some (b\<lparr>blk_len := m\<rparr>)),
       files := (files s)(f := Some (e\<lparr>file_len := file_len e + (m - blk_len b)\<rparr>))\<rparr>)"

lemma linked_upd:
  assumes "blocks s z = Some b" "blk_prev b' = blk_prev b" "blk_next b' = blk_next b"
    "\<And>x. x \<noteq> z \<Longrightarrow> blocks s' x = blocks s x" "blocks s' z = Some b'"
  shows "linked s' q p xs \<longleftrightarrow> linked s q p xs"
proof (induction xs arbitrary: q p)
  case (Cons x xs)
  then show ?case using assms by (cases "x = z") auto
qed simp

lemma unat_replace:
  assumes "unat (e :: u64) = a + unat l + c" "a + unat m + c < 2 ^ 64"
  shows "unat (e + (m - l)) = a + unat m + c"
proof -
  have "e = of_nat (a + unat l + c)" using assms(1) by (metis of_nat_unat ucast_id)
  then have "e + (m - l) = of_nat (a + unat m + c)" by simp
  then show ?thesis using assms(2) by (simp only: unat_of_nat) simp
qed

lemma set_block_rep:
  assumes "file_rep s f (ys @ z # zs)" "blocks s z = Some b" "data s (blk_block b) = Some d" "length d' = length d" "m \<le> blk_size b"
    "length (content s ys) + unat m + length (content s zs) < 2 ^ 64"
  shows "file_rep (set_block f z m d' s) f (ys @ z # zs)" "blk_cont (set_block f z m d' s) z = take (unat m) d'"
    "x \<in> List.set (ys @ zs) \<Longrightarrow> blk_cont (set_block f z m d' s) x = blk_cont s x" "blk_data (set_block f z m d' s) = blk_data s"
    "kept {z} {blk_data s z} f s (set_block f z m d' s)"
proof -
  let ?s = "set_block f z m d' s"
  from assms(1) obtain e where e: "files s f = Some e" "linked s 0 (firstBlock e) (ys @ z # zs)" "lastBlock e = last (ys @ z # zs)"
    "unat (file_len e) = length (content s (ys @ z # zs))" and f: "f \<noteq> 0"
    and ok: "\<And>x. x \<in> List.set (ys @ z # zs) \<Longrightarrow> block_ok s x"
    and dist: "distinct (ys @ z # zs)" "distinct (map (blk_data s) (ys @ z # zs))" by (auto simp: file_rep_def)
  have sb: "blocks ?s = (blocks s)(z := Some (b\<lparr>blk_len := m\<rparr>))" "data ?s = (data s)(blk_block b := Some d')"
    "files ?s = (files s)(f := Some (e\<lparr>file_len := file_len e + (m - blk_len b)\<rparr>))"
    by (simp_all add: set_block_def assms e(1))
  show bd: "blk_data ?s = blk_data s" by (rule ext) (simp add: blk_data_def sb assms)
  have bz: "blk_data s z = blk_block b" by (simp add: blk_data_def assms(2))
  show cz: "blk_cont ?s z = take (unat m) d'" by (simp add: blk_cont_def bd bz sb)
  have ne: "x \<noteq> z" "blk_data s x \<noteq> blk_block b" if "x \<in> List.set (ys @ zs)" for x
    using dist that bz by (auto simp: image_iff)
  show cx: "blk_cont ?s x = blk_cont s x" if "x \<in> List.set (ys @ zs)" for x
    using ne [OF that] by (intro blk_cont_cong) (simp_all add: sb)
  have cont: "content ?s ys = content s ys" "content ?s zs = content s zs" by (rule content_cong, simp add: cx)+
  have "block_ok s z" using ok by simp
  then have len: "length (blk_cont s z) = unat (blk_len b)" "length d = unat (blk_size b)" "blk_block b \<noteq> 0" "z \<noteq> 0"
    using length_blk_cont [of s z] assms(2,3) by (auto simp: block_ok_def)
  have "unat (file_len e) = length (content s ys) + unat (blk_len b) + length (content s zs)" using e(4) len by simp
  then have "unat (file_len e + (m - blk_len b)) = length (content s ys) + unat m + length (content s zs)"
    using assms(6) by (rule unat_replace)
  moreover have "length (take (unat m) d') = unat m" using assms(4,5) len by (simp add: word_le_nat_alt)
  moreover have "linked ?s 0 (firstBlock e) (ys @ z # zs)"
    using e(2) linked_upd [of s z b "b\<lparr>blk_len := m\<rparr>" ?s] assms(2) sb(1) by simp
  moreover have "block_ok ?s z" using assms len by (simp add: block_ok_def sb)
  moreover have "block_ok ?s x" if "x \<in> List.set (ys @ zs)" for x
    using ok [of x] ne [OF that] that block_ok_cong [of ?s x s] by (simp add: sb)
  then have "\<forall>x \<in> List.set (ys @ z # zs). block_ok ?s x" using calculation(4) by auto
  ultimately show "file_rep ?s f (ys @ z # zs)"
    unfolding file_rep_def bd using f e(3) dist by (simp add: sb(3) cont cz)
  show "kept {z} {blk_data s z} f s ?s" using bz by (simp add: kept_def set_block_def Let_def assms(2))
qed

lemma write_block_at:
  assumes "file_rep s f (ys @ z # zs)" "nat fd < length (fileHandles s)" "h = fileHandles s ! nat fd" "h_file h = f"
    "handle_at s h ys (z # zs)" "unat (currentBlockPosition h) + unat n \<le> unat (blk_size (the (blocks s z)))"
    "unat n \<le> length buffer" "unat (h_pos h) + unat n + length (content s zs) < 2 ^ 64"
  shows "\<exists>s'. write_block fd n buffer s = Some s' \<and> file_rep s' f (ys @ z # zs)
    \<and> fileHandles s' = (fileHandles s)[nat fd := h\<lparr>h_pos := h_pos h + n, currentBlockPosition := currentBlockPosition h + n\<rparr>]
    \<and> blk_cont s' z = take (unat (currentBlockPosition h)) (blk_cont s z) @ take (unat n) buffer
    \<and> (\<forall>x \<in> List.set (ys @ zs). blk_cont s' x = blk_cont s x) \<and> blk_data s' = blk_data s
    \<and> kept {z} {blk_data s z} f s s' \<and> mallocs s' = mallocs s \<and> heap s' = heap s"
proof -
  let ?k = "currentBlockPosition h"
  have ok: "block_ok s z" using assms(1) by (simp add: file_rep_def)
  then obtain b d where b: "blocks s z = Some b" "data s (blk_block b) = Some d" "z \<noteq> 0" "blk_block b \<noteq> 0"
    "length d = unat (blk_size b)" "unat (blk_len b) \<le> length d" "blk_cont s z = take (unat (blk_len b)) d" "blk_data s z = blk_block b"
    by (rule block_okD)
  obtain e where e: "files s f = Some e" "f \<noteq> 0" using assms(1) by (auto simp: file_rep_def)
  have h: "currentBlock h = z" "unat ?k \<le> unat (blk_len b)" "unat (h_pos h) = length (content s ys) + unat ?k"
    using assms(5) b(6,7) by (simp_all add: handle_at_def)
  have le: "unat ?k + unat n \<le> unat (blk_size b)" using assms(6) b(1) by simp
  have u: "unat (?k + n) = unat ?k + unat n"
    using le unsigned_less [of "blk_size b", where 'a = nat] by (simp add: unat_word_ariths)
  define d' where "d' = take (unat ?k) d @ take (unat n) buffer @ drop (unat ?k + unat n) d"
  define s1 where "s1 = set_block f z (?k + n) d' s"
  define h' where "h' = h\<lparr>h_pos := h_pos h + n, currentBlockPosition := ?k + n\<rparr>"
  have ci: "copy_in d ?k (take (unat n) buffer) = Some d'" using le b(5) assms(7) by (simp add: copy_in_def d'_def)
  have "write_block fd n buffer s = Some (put_handle fd h' s1)"
    using assms(3) [symmetric] assms(4,7) h(1) b e ci
    by (simp add: write_block_def Let_def deref_def s1_def h'_def set_block_def put_handle_def)
  moreover have m: "length d' = length d" "?k + n \<le> blk_size b" "length (content s ys) + unat (?k + n) + length (content s zs) < 2 ^ 64"
    using le b(5) assms(7,8) h(3) u by (simp_all add: d'_def word_le_nat_alt)
  moreover have "take (unat (?k + n)) d' = take (unat ?k) (blk_cont s z) @ take (unat n) buffer"
    using le_trans [OF h(2) b(6)] h(2) b(7) assms(7) u by (simp add: d'_def min_absorb2 min_absorb1)
  moreover have "fileHandles (put_handle fd h' s1) = (fileHandles s)[nat fd := h']" "mallocs s1 = mallocs s" "heap s1 = heap s"
    by (simp_all add: s1_def set_block_def Let_def put_handle_def)
  ultimately show ?thesis
    using set_block_rep [OF assms(1) b(1,2) m] by (intro exI [of _ "put_handle fd h' s1"]) (simp add: s1_def h'_def)
qed

text \<open>The next two results of the allocator are not in use.\<close>

definition fresh :: "ramfs \<Rightarrow> bool" where
  "fresh s \<longleftrightarrow> heap s (mallocs s) \<noteq> 0 \<and> blocks s (heap s (mallocs s)) = None
     \<and> heap s (mallocs s + 1) \<noteq> 0 \<and> data s (heap s (mallocs s + 1)) = None"

definition append_block :: "addr \<Rightarrow> addr \<Rightarrow> u64 \<Rightarrow> ramfs \<Rightarrow> ramfs" where
  "append_block f z n s = (let e = heap s (mallocs s); d = heap s (mallocs s + 1); b = the (blocks s z); fl = the (files s f) in
     s\<lparr>mallocs := mallocs s + 2, data := (data s)(d := Some (map (junk s (mallocs s + 1)) [0..<unat n])),
       blocks := (blocks s)(e := Some \<lparr>blk_prev = z, blk_next = 0, blk_block = d, blk_size = n, blk_len = 0\<rparr>, z := Some (b\<lparr>blk_next := e\<rparr>)),
       files := (files s)(f := Some (fl\<lparr>lastBlock := e\<rparr>))\<rparr>)"

lemma linked_snoc:
  assumes "linked s q p (ys @ [z])" "distinct (ys @ [z])" "blocks s z = Some b" "e \<notin> List.set (ys @ [z])"
    "\<And>x. x \<in> List.set ys \<Longrightarrow> blocks s' x = blocks s x" "blocks s' z = Some (b\<lparr>blk_next := e\<rparr>)"
    "blocks s' e = Some c" "blk_prev c = z" "blk_next c = 0"
  shows "linked s' q p (ys @ [z, e])"
  using assms
proof (induction ys arbitrary: q p)
  case Nil
  then show ?case by auto
qed auto

lemma append_block_rep:
  fixes n :: u64
  assumes "file_rep s f (ys @ [z])" "fresh s"
  defines "e \<equiv> heap s (mallocs s)" and "d \<equiv> heap s (mallocs s + 1)" and "s' \<equiv> append_block f z n s"
  shows "file_rep s' f (ys @ [z, e])" "blk_cont s' e = []" "blk_size (the (blocks s' e)) = n"
    "x \<in> List.set (ys @ [z]) \<Longrightarrow> blk_cont s' x = blk_cont s x \<and> blk_data s' x = blk_data s x" "blk_data s' e = d"
    "kept {z, e} {d} f s s'"
proof -
  from assms(1) obtain fl where fl: "files s f = Some fl" "linked s 0 (firstBlock fl) (ys @ [z])"
    "unat (file_len fl) = length (content s (ys @ [z]))" and f: "f \<noteq> 0"
    and ok: "\<And>x. x \<in> List.set (ys @ [z]) \<Longrightarrow> block_ok s x"
    and dist: "distinct (ys @ [z])" "distinct (map (blk_data s) (ys @ [z]))" by (auto simp: file_rep_def)
  have "block_ok s z" using ok by simp
  then obtain b db where b: "blocks s z = Some b" "data s (blk_block b) = Some db" "z \<noteq> 0" "blk_block b \<noteq> 0"
    "length db = unat (blk_size b)" "unat (blk_len b) \<le> length db" "blk_data s z = blk_block b" by (rule block_okD)
  have fr: "e \<noteq> 0" "blocks s e = None" "d \<noteq> 0" "data s d = None" using assms(2) by (simp_all add: fresh_def e_def d_def)
  have ne: "x \<noteq> e" "blk_data s x \<noteq> d" if "x \<in> List.set (ys @ [z])" for x
    using ok [OF that] fr by (auto simp: block_ok_def blk_data_def)
  have sb: "blocks s' = (blocks s)(e := Some \<lparr>blk_prev = z, blk_next = 0, blk_block = d, blk_size = n, blk_len = 0\<rparr>, z := Some (b\<lparr>blk_next := e\<rparr>))"
    "data s' = (data s)(d := Some (map (junk s (mallocs s + 1)) [0..<unat n]))" "files s' = (files s)(f := Some (fl\<lparr>lastBlock := e\<rparr>))"
    by (simp_all add: s'_def append_block_def Let_def e_def d_def b fl)
  have ez: "e \<noteq> z" using ne [of z] by simp
  have bd: "blk_data s' x = blk_data s x" if "x \<in> List.set (ys @ [z])" for x
    using ne [OF that] b(1) by (simp add: blk_data_def sb)
  show de: "blk_data s' e = d" using ez by (simp add: blk_data_def sb)
  show ce: "blk_cont s' e = []" using ez by (simp add: blk_cont_def sb)
  show "blk_size (the (blocks s' e)) = n" using ez by (simp add: sb)
  have cx: "blk_cont s' x = blk_cont s x" if "x \<in> List.set (ys @ [z])" for x
    using ne [OF that] b(1) bd [OF that] by (simp add: blk_cont_def sb)
  show "blk_cont s' x = blk_cont s x \<and> blk_data s' x = blk_data s x" if "x \<in> List.set (ys @ [z])" for x
    using cx bd that by blast
  have "content s' (ys @ [z]) = content s (ys @ [z])" by (rule content_cong) (rule cx)
  then have c: "content s' (ys @ [z, e]) = content s (ys @ [z])" using ce by simp
  have l: "linked s' 0 (firstBlock fl) (ys @ [z, e])"
    by (rule linked_snoc [OF fl(2) dist(1) b(1)]) (use ne dist ez in \<open>auto simp: sb\<close>)
  have ok_ys: "block_ok s' x" if "x \<in> List.set ys" for x
  proof -
    have "x \<noteq> z" using that dist(1) by auto
    then show ?thesis using ok [of x] ne [of x] that block_ok_cong [of s' x s] by (simp add: sb)
  qed
  have ok_z: "block_ok s' z" "block_ok s' e" using b ne [of z] fr ez by (auto simp: block_ok_def sb word_le_nat_alt)
  have m: "map (blk_data s') (ys @ [z, e]) = map (blk_data s) (ys @ [z]) @ [d]" using bd de by simp
  show "file_rep s' f (ys @ [z, e])" unfolding file_rep_def m
  proof (intro conjI exI [of _ "fl\<lparr>lastBlock := e\<rparr>"])
    show "\<forall>x \<in> List.set (ys @ [z, e]). block_ok s' x" using ok_ys ok_z by simp
    show "distinct (ys @ [z, e])" using dist(1) ne ez by auto
    show "distinct (map (blk_data s) (ys @ [z]) @ [d])" using dist(2) ne by auto
  qed (use f l c fl(3) in \<open>simp_all add: sb(3)\<close>)
  show "kept {z, e} {d} f s s'" by (simp add: kept_def s'_def append_block_def Let_def e_def d_def)
qed

definition new_size :: "u64 \<Rightarrow> u64" where
  "new_size r = (let n = FILE_BLOCK_SIZE_ALIGNMENT * (1 + r div FILE_BLOCK_SIZE_ALIGNMENT) in if n < FILE_MIN_BLOCK_SIZE then FILE_MIN_BLOCK_SIZE else n)"

lemma new_size_enough:
  assumes "unat r + 64 < 2 ^ 64"
  shows "unat r < unat (new_size r)"
proof -
  have d: "unat (r div 64) = unat r div 64" by (simp add: unat_div)
  have b: "64 * (1 + unat r div 64) < 2 ^ 64" using assms by simp
  then have "unat (1 + r div 64) = 1 + unat r div 64" using d by (simp add: unat_word_ariths)
  then have "unat (64 * (1 + r div 64)) = 64 * (1 + unat r div 64)" using b by (subst unat_mult_lem [THEN iffD1]) simp_all
  then have "unat r < unat (64 * (1 + r div 64))" by simp
  then show ?thesis by (auto simp: new_size_def FILE_BLOCK_SIZE_ALIGNMENT_def FILE_MIN_BLOCK_SIZE_def Let_def word_less_nat_alt)
qed

lemma next_block_new:
  assumes "file_rep s f (ys @ [z])" "h = fileHandles s ! nat fd" "h_file h = f" "currentBlock h = z" "fresh s"
  shows "next_block fd r s = Some (put_handle fd (h\<lparr>currentBlock := heap s (mallocs s), currentBlockPosition := 0\<rparr>) (append_block f z (new_size r) s))"
proof -
  obtain fl where fl: "files s f = Some fl" "f \<noteq> 0" "linked s 0 (firstBlock fl) (ys @ [z])" and "block_ok s z"
    using assms(1) by (auto simp: file_rep_def)
  then obtain b where b: "blocks s z = Some b" "z \<noteq> 0" "blk_next b = 0"
    using linked_next [OF fl(3)] by (auto simp: block_ok_def)
  have "heap s (mallocs s) \<noteq> z" using assms(5) b(1) by (auto simp: fresh_def)
  then show ?thesis
    using assms(2) [symmetric] assms(3,4,5) b fl
    by (simp add: next_block_def new_block_def malloc_def malloc_data_def Let_def deref_def fresh_def append_block_def put_handle_def
        new_size_def [unfolded Let_def, symmetric] fun_upd_twist)
qed

lemma next_block_old:
  assumes "file_rep s f (ys @ z # z' # zs)" "h = fileHandles s ! nat fd" "currentBlock h = z"
  shows "next_block fd r s = Some (put_handle fd (h\<lparr>currentBlock := z', currentBlockPosition := 0\<rparr>) s)"
proof -
  obtain fl :: ramfs_file where fl: "linked s 0 (firstBlock fl) (ys @ z # z' # zs)" and "block_ok s z" "block_ok s z'"
    using assms(1) by (auto simp: file_rep_def)
  then obtain b where b: "blocks s z = Some b" "z \<noteq> 0" "z' \<noteq> 0" "blk_next b = z'"
    using linked_next [OF fl(1)] by (auto simp: block_ok_def)
  then show ?thesis using assms(2) [symmetric] assms(3) by (simp add: next_block_def Let_def deref_def)
qed

text \<open>The copy into the block of the handle, up to the end of the block.\<close>

lemma fill_block:
  assumes "file_rep s f (ys @ z # zs)" "nat fd < length (fileHandles s)" "h = fileHandles s ! nat fd" "h_file h = f"
    "handle_at s h ys (z # zs)" "unat (blk_size (the (blocks s z))) < unat (currentBlockPosition h) + unat n"
    "unat n \<le> length buffer" "length (content s (ys @ z # zs)) + unat n < 2 ^ 64"
  defines "m \<equiv> blk_size (the (blocks s z)) - currentBlockPosition h"
  shows "\<exists>s' h'. write_loop fd n buffer s = Option.bind (next_block fd (n - m) s') (write_loop fd (n - m) (drop (unat m) buffer))
    \<and> unat m < unat n \<and> file_rep s' f (ys @ z # zs) \<and> fileHandles s' = (fileHandles s)[nat fd := h'] \<and> h_file h' = f
    \<and> active h' = active h \<and> currentBlock h' = z \<and> h_pos h' = h_pos h + m \<and> unat (h_pos h') = unat (h_pos h) + unat m
    \<and> blk_cont s' z = take (unat (currentBlockPosition h)) (blk_cont s z) @ take (unat m) buffer
    \<and> (\<forall>x \<in> List.set (ys @ zs). blk_cont s' x = blk_cont s x) \<and> blk_data s' = blk_data s
    \<and> kept {z} {blk_data s z} f s s' \<and> mallocs s' = mallocs s \<and> heap s' = heap s"
proof -
  let ?k = "currentBlockPosition h"
  have ok: "block_ok s z" using assms(1) by (simp add: file_rep_def)
  then obtain b d where b: "blocks s z = Some b" "z \<noteq> 0" "length d = unat (blk_size b)" "unat (blk_len b) \<le> length d"
    "blk_cont s z = take (unat (blk_len b)) d" by (rule block_okD)
  have h: "currentBlock h = z" "unat ?k \<le> unat (blk_len b)" "unat (h_pos h) = length (content s ys) + unat ?k"
    using assms(5) b(4,5) by (simp_all add: handle_at_def)
  have m: "m = blk_size b - ?k" "unat m = unat (blk_size b) - unat ?k" "unat ?k \<le> unat (blk_size b)"
    using h(2) b(1,3,4) by (simp_all add: m_def unat_sub word_le_nat_alt)
  have lt: "unat m < unat n" using assms(6) b(1) m by simp
  then have n0: "n > 0" "\<not> blk_size b - ?k \<ge> n" by (simp_all add: word_less_nat_alt word_le_nat_alt flip: m(1))
  have hp: "unat (h_pos h) \<le> length (content s ys) + length (blk_cont s z)" using h b(4,5) by simp
  then have u: "unat (h_pos h + m) = unat (h_pos h) + unat m" using assms(8) lt by (simp add: unat_word_ariths)
  show ?thesis
  proof (cases "?k < blk_size b")
    case True
    have "unat (h_pos h) + unat m + length (content s zs) < 2 ^ 64" using hp lt assms(8) by simp
    moreover have "unat ?k + unat m \<le> unat (blk_size (the (blocks s z)))" "unat m \<le> length buffer" using m b(1) lt assms(7) by simp_all
    ultimately obtain s' where s': "write_block fd m buffer s = Some s'" "file_rep s' f (ys @ z # zs)"
      "fileHandles s' = (fileHandles s)[nat fd := h\<lparr>h_pos := h_pos h + m, currentBlockPosition := ?k + m\<rparr>]"
      "blk_cont s' z = take (unat ?k) (blk_cont s z) @ take (unat m) buffer" "\<forall>x \<in> List.set (ys @ zs). blk_cont s' x = blk_cont s x"
      "blk_data s' = blk_data s" "kept {z} {blk_data s z} f s s'" "mallocs s' = mallocs s" "heap s' = heap s"
      using write_block_at [OF assms(1-5), of m buffer] by blast
    have "write_loop fd n buffer s = Option.bind (next_block fd (n - m) s') (write_loop fd (n - m) (drop (unat m) buffer))"
      using True n0 assms(3) [symmetric] h(1) b s'(1) by (subst write_loop.simps) (simp add: Let_def deref_def flip: m(1))
    then show ?thesis using s' lt u assms(4) h(1)
      by (intro exI [of _ s'] exI [of _ "h\<lparr>h_pos := h_pos h + m, currentBlockPosition := ?k + m\<rparr>"]) simp
  next
    case False
    then have "unat m = 0" "unat ?k = unat (blk_len b)" using m h(2) b(3,4) by (simp_all add: word_less_nat_alt)
    then have k: "m = 0" "take (unat ?k) (blk_cont s z) = blk_cont s z" using b(5) by (simp_all add: unat_eq_0)
    have "write_loop fd n buffer s = Option.bind (next_block fd (n - m) s) (write_loop fd (n - m) (drop (unat m) buffer))"
      using False n0 assms(3) [symmetric] h(1) b k(1) by (subst write_loop.simps) (simp add: Let_def deref_def)
    moreover have "(fileHandles s)[nat fd := h] = fileHandles s" using assms(3) by simp
    ultimately show ?thesis using k lt u assms(1,4) h(1) by (intro exI [of _ s] exI [of _ h]) simp
  qed
qed

text \<open>
  The result of a write through the handle \<open>h\<close>: the file has the content \<open>c\<close>, the handle stands \<open>n\<close> bytes further inside a
  block, and only the blocks \<open>B\<close> and the data \<open>D\<close> changed.
\<close>

definition written :: "int \<Rightarrow> addr \<Rightarrow> ramfs_file_handle \<Rightarrow> u64 \<Rightarrow> addr set \<Rightarrow> addr set \<Rightarrow> ramfs \<Rightarrow> ramfs \<Rightarrow> u8 list \<Rightarrow> bool" where
  "written fd f h n B D s s' c \<longleftrightarrow> (\<exists>ys z zs h'. file_rep s' f (ys @ z # zs) \<and> content s' (ys @ z # zs) = c
     \<and> fileHandles s' = (fileHandles s)[nat fd := h'] \<and> handle_at s' h' ys (z # zs) \<and> h_pos h' = h_pos h + n \<and> h_file h' = f
     \<and> active h' = active h \<and> kept B D f s s')"

lemma write_fits:
  assumes "file_rep s f (ys @ z # zs)" "nat fd < length (fileHandles s)" "h = fileHandles s ! nat fd" "h_file h = f"
    "handle_at s h ys (z # zs)" "unat (currentBlockPosition h) + unat n \<le> unat (blk_size (the (blocks s z)))" "n > 0"
    "unat n \<le> length buffer" "length (content s (ys @ z # zs)) + unat n < 2 ^ 64"
  shows "\<exists>s'. write_loop fd n buffer s = Some s' \<and> written fd f h n {z} {blk_data s z} s s'
    (content s ys @ take (unat (currentBlockPosition h)) (blk_cont s z) @ take (unat n) buffer @ content s zs)"
proof -
  let ?k = "currentBlockPosition h"
  have ok: "block_ok s z" using assms(1) by (simp add: file_rep_def)
  then obtain b d where b: "blocks s z = Some b" "z \<noteq> 0" "length d = unat (blk_size b)" "unat (blk_len b) \<le> length d"
    "blk_cont s z = take (unat (blk_len b)) d" by (rule block_okD)
  have h: "currentBlock h = z" "unat ?k \<le> unat (blk_len b)" "unat (h_pos h) = length (content s ys) + unat ?k"
    using assms(5) b(4,5) by (simp_all add: handle_at_def)
  have hp: "unat (h_pos h) \<le> length (content s ys) + length (blk_cont s z)" using h b(4,5) by simp
  then have "unat (h_pos h) + unat n + length (content s zs) < 2 ^ 64" using assms(9) by simp
  from write_block_at [OF assms(1-6,8) this] obtain s' where s': "write_block fd n buffer s = Some s'" "file_rep s' f (ys @ z # zs)"
    "fileHandles s' = (fileHandles s)[nat fd := h\<lparr>h_pos := h_pos h + n, currentBlockPosition := ?k + n\<rparr>]"
    "blk_cont s' z = take (unat ?k) (blk_cont s z) @ take (unat n) buffer" "\<forall>x \<in> List.set (ys @ zs). blk_cont s' x = blk_cont s x"
    "kept {z} {blk_data s z} f s s'" by blast
  have n: "0 < unat n" using assms(7) by (simp add: word_less_nat_alt)
  have sp: "unat (blk_size b - ?k) = unat (blk_size b) - unat ?k" using assms(6) b(1) by (simp add: unat_sub word_le_nat_alt)
  have "?k < blk_size b" "blk_size b - ?k \<ge> n" using assms(6) b(1) n by (simp_all add: word_less_nat_alt word_le_nat_alt sp)
  then have "write_loop fd n buffer s = Some s'"
    using assms(3) [symmetric] assms(7) h(1) b s'(1) by (subst write_loop.simps) (simp add: Let_def deref_def)
  moreover have "content s' ys = content s ys" "content s' zs = content s zs" using s'(5) by (auto intro: content_cong)
  moreover have "unat (?k + n) = unat ?k + unat n"
    using assms(6) unsigned_less [of "blk_size b", where 'a = nat] b(1) by (simp add: unat_word_ariths)
  moreover have "unat (h_pos h + n) = unat (h_pos h) + unat n" using hp assms(9) by (simp add: unat_word_ariths)
  ultimately show ?thesis using s' h b(4,5) assms(4,8)
    by (intro exI [of _ s'] conjI, simp, unfold written_def, intro exI [of _ ys] exI [of _ z] exI [of _ zs]
        exI [of _ "h\<lparr>h_pos := h_pos h + n, currentBlockPosition := ?k + n\<rparr>"]) (simp add: handle_at_def)
qed

lemma write_step:
  assumes "written fd f h1 n2 B2 D2 s2 s' c" "h_pos h1 = h_pos h + n1" "active h1 = active h" "fileHandles s2 = (fileHandles s)[nat fd := h2]"
    "kept B2 D2 f s s2" "n = n1 + n2"
  shows "written fd f h n B2 D2 s s' c"
proof -
  from assms(1) obtain ys z zs h' where w: "file_rep s' f (ys @ z # zs)" "content s' (ys @ z # zs) = c"
    "fileHandles s' = (fileHandles s2)[nat fd := h']" "handle_at s' h' ys (z # zs)" "h_pos h' = h_pos h1 + n2" "h_file h' = f"
    "active h' = active h1" "kept B2 D2 f s2 s'" by (auto simp: written_def)
  have "kept B2 D2 f s s'" using kept_trans assms(5) w(8) by blast
  then show ?thesis using w assms(2,3,4,6)
    by (unfold written_def, intro exI [of _ ys] exI [of _ z] exI [of _ zs] exI [of _ h']) (simp add: algebra_simps)
qed

lemma written_mono: "written fd f h n B D s s' c \<Longrightarrow> B \<subseteq> B' \<Longrightarrow> D \<subseteq> D' \<Longrightarrow> written fd f h n B' D' s s' c"
  unfolding written_def using kept_mono by blast

lemma handle_next:
  assumes "unat (h_pos h) = length (content s (ys @ [z]))" "h' = h\<lparr>currentBlock := z', currentBlockPosition := 0\<rparr>"
  shows "handle_at s h' (ys @ [z]) (z' # zs)"
  using assms by (simp add: handle_at_def)

lemma fresh_kept:
  assumes "kept {z} {blk_data s z} f s s'" "block_ok s z" "fresh s" "mallocs s' = mallocs s" "heap s' = heap s"
  shows "fresh s'"
proof -
  obtain b d where "blocks s z = Some b" "data s (blk_block b) = Some d" "blk_data s z = blk_block b" using assms(2) by (rule block_okD)
  then have "heap s (mallocs s) \<noteq> z" "heap s (mallocs s + 1) \<noteq> blk_data s z" using assms(3) by (auto simp: fresh_def)
  then show ?thesis using assms(1,3,4,5) by (simp add: fresh_def kept_def)
qed

lemma fileHandles_append_block [simp]: "fileHandles (append_block f z n s) = fileHandles s"
  by (simp add: append_block_def Let_def)

lemma take_take_drop: "m \<le> n \<Longrightarrow> take m xs @ take (n - m) (drop m xs) = take n xs"
  by (metis le_add_diff_inverse take_add)

lemma write_loop_at:
  assumes "file_rep s f (ys @ z # zs)" "nat fd < length (fileHandles s)" "h = fileHandles s ! nat fd" "h_file h = f"
    "handle_at s h ys (z # zs)" "fresh s" "n > 0" "unat n \<le> length buffer" "length (content s (ys @ z # zs)) + unat n + 64 < 2 ^ 64"
  shows "\<exists>s' j. write_loop fd n buffer s = Some s'
    \<and> written fd f h n (List.set (ys @ z # zs) \<union> {heap s (mallocs s)}) (blk_data s ` List.set (ys @ z # zs) \<union> {heap s (mallocs s + 1)}) s s'
        (content s ys @ take (unat (currentBlockPosition h)) (blk_cont s z) @ take (unat n) buffer @ content s (drop j zs))"
  using assms
proof (induction zs arbitrary: ys z s h n buffer)
  case (Nil ys z s h n buffer)
  let ?k = "unat (currentBlockPosition h)"
  have len: "length (content s (ys @ [z])) + unat n < 2 ^ 64" using Nil.prems(9) by simp
  show ?case
  proof (cases "?k + unat n \<le> unat (blk_size (the (blocks s z)))")
    case True
    from write_fits [OF Nil.prems(1-5) True Nil.prems(7,8) len] obtain s' where
      "write_loop fd n buffer s = Some s'" "written fd f h n {z} {blk_data s z} s s' (content s ys @ take ?k (blk_cont s z) @ take (unat n) buffer @ content s [])" by blast
    then show ?thesis by (intro exI [of _ s'] exI [of _ 0]) (auto elim: written_mono)
  next
    case False
    define m where "m = blk_size (the (blocks s z)) - currentBlockPosition h"
    from fill_block [OF Nil.prems(1-5) _ Nil.prems(8) len] False obtain s1 h1 where s1:
      "write_loop fd n buffer s = Option.bind (next_block fd (n - m) s1) (write_loop fd (n - m) (drop (unat m) buffer))"
      "unat m < unat n" "file_rep s1 f (ys @ [z])" "fileHandles s1 = (fileHandles s)[nat fd := h1]" "h_file h1 = f"
      "active h1 = active h" "currentBlock h1 = z" "h_pos h1 = h_pos h + m" "unat (h_pos h1) = unat (h_pos h) + unat m"
      "blk_cont s1 z = take ?k (blk_cont s z) @ take (unat m) buffer"
      "\<forall>x \<in> List.set ys. blk_cont s1 x = blk_cont s x" "blk_data s1 = blk_data s"
      "kept {z} {blk_data s z} f s s1" "mallocs s1 = mallocs s" "heap s1 = heap s"
      unfolding m_def by auto
    define e d where "e = heap s (mallocs s)" and "d = heap s (mallocs s + 1)"
    define h2 where "h2 = h1\<lparr>currentBlock := e, currentBlockPosition := 0\<rparr>"
    define s2 where "s2 = append_block f z (new_size (n - m)) s1"
    have ok: "block_ok s z" using Nil.prems(1) by (simp add: file_rep_def)
    have fr: "fresh s1" by (rule fresh_kept [OF s1(13) ok Nil.prems(6) s1(14,15)])
    have h1: "h1 = fileHandles s1 ! nat fd" using s1(4) Nil.prems(2) by simp
    have "next_block fd (n - m) s1 = Some (put_handle fd h2 s2)"
      using next_block_new [OF s1(3) h1 s1(5,7) fr] by (simp add: h2_def s2_def e_def s1(14,15))
    then have w: "write_loop fd n buffer s = write_loop fd (n - m) (drop (unat m) buffer) (put_handle fd h2 s2)" using s1(1) by simp
    note rep = append_block_rep [OF s1(3) fr, where n = "new_size (n - m)", folded s2_def, unfolded s1(14,15), folded e_def d_def]
    have nm: "unat (n - m) = unat n - unat m" "0 < n - m"
      using s1(2) by (simp_all add: unat_sub word_le_nat_alt word_less_nat_alt)
    have c: "content s2 (ys @ [z]) = content s ys @ take ?k (blk_cont s z) @ take (unat m) buffer"
    proof -
      have "content s2 (ys @ [z]) = content s1 (ys @ [z])" using rep(4) by (intro content_cong) blast
      moreover have "content s1 ys = content s ys" using s1(11) by (intro content_cong) blast
      ultimately show ?thesis using s1(10) by simp
    qed
    have kz: "?k \<le> length (blk_cont s z)" "unat (h_pos h) = length (content s ys) + ?k" using Nil.prems(5) by (simp_all add: handle_at_def)
    have nm64: "unat (n - m) + 64 < 2 ^ 64" using nm(1) Nil.prems(9) by linarith
    have lc: "length (content s2 (ys @ [z])) = unat (h_pos h) + unat m" using c kz s1(2) Nil.prems(8) by simp
    have "\<exists>s'. write_loop fd (n - m) (drop (unat m) buffer) (put_handle fd h2 s2) = Some s' \<and>
      written fd f h2 (n - m) {e} {blk_data (put_handle fd h2 s2) e} (put_handle fd h2 s2) s'
        (content (put_handle fd h2 s2) (ys @ [z]) @ take (unat (currentBlockPosition h2)) (blk_cont (put_handle fd h2 s2) e) @ take (unat (n - m)) (drop (unat m) buffer) @ content (put_handle fd h2 s2) [])"
    proof (rule write_fits)
      show "file_rep (put_handle fd h2 s2) f ((ys @ [z]) @ [e])" using rep(1) by simp
      show "handle_at (put_handle fd h2 s2) h2 (ys @ [z]) [e]"
        using lc s1(9) by (simp add: handle_next [of h1, OF _ h2_def])
      show "unat (currentBlockPosition h2) + unat (n - m) \<le> unat (blk_size (the (blocks (put_handle fd h2 s2) e)))"
        using new_size_enough [OF nm64] rep(3) by (simp add: h2_def)
      show "length (content (put_handle fd h2 s2) ((ys @ [z]) @ [e])) + unat (n - m) < 2 ^ 64"
        using lc rep(2) nm len kz s1(2) by simp
    qed (use nm s1(2,4,5) Nil.prems(2,8) in \<open>simp_all add: s2_def h2_def\<close>)
    then obtain s' where s': "write_loop fd n buffer s = Some s'" "written fd f h2 (n - m) {e} {d} (put_handle fd h2 s2) s'
        (content s ys @ take ?k (blk_cont s z) @ take (unat m) buffer @ take (unat n - unat m) (drop (unat m) buffer))"
      unfolding w by (simp only: put_handle_rep c rep(2,5) take_Nil append_Nil append_assoc nm(1) content_simps(1) append_Nil2) blast
    have "written fd f h n {z, e} {blk_data s z, d} s s'
       (content s ys @ take ?k (blk_cont s z) @ take (unat m) buffer @ take (unat n - unat m) (drop (unat m) buffer))"
    proof (rule write_step)
      show "written fd f h2 (n - m) {z, e} {blk_data s z, d} (put_handle fd h2 s2) s'
       (content s ys @ take ?k (blk_cont s z) @ take (unat m) buffer @ take (unat n - unat m) (drop (unat m) buffer))"
        using s'(2) by (rule written_mono) auto
      have "kept {z, e} {blk_data s z, d} f s s1" by (rule kept_mono [OF s1(13)]) auto
      moreover have "kept {z, e} {blk_data s z, d} f s1 s2" by (rule kept_mono [OF rep(6)]) auto
      ultimately have "kept {z, e} {blk_data s z, d} f s s2" by (rule kept_trans)
      then show "kept {z, e} {blk_data s z, d} f s (put_handle fd h2 s2)" by simp
      show "fileHandles (put_handle fd h2 s2) = (fileHandles s)[nat fd := h2]" by (simp add: put_handle_def s2_def s1(4))
    qed (simp_all add: h2_def s1(6,8))
    then have "written fd f h n {z, e} {blk_data s z, d} s s' (content s ys @ take ?k (blk_cont s z) @ take (unat n) buffer)"
      using s1(2) by (simp add: take_take_drop)
    then show ?thesis using s'(1) by (intro exI [of _ s'] exI [of _ 0]) (auto elim!: written_mono simp: e_def d_def)
  qed
next
  case (Cons z' zs ys z s h n buffer)
  let ?k = "unat (currentBlockPosition h)"
  have len: "length (content s (ys @ z # z' # zs)) + unat n < 2 ^ 64" using Cons.prems(9) by simp
  show ?case
  proof (cases "?k + unat n \<le> unat (blk_size (the (blocks s z)))")
    case True
    from write_fits [OF Cons.prems(1-5) True Cons.prems(7,8) len] obtain s' where
      "write_loop fd n buffer s = Some s'" "written fd f h n {z} {blk_data s z} s s' (content s ys @ take ?k (blk_cont s z) @ take (unat n) buffer @ content s (z' # zs))" by blast
    then show ?thesis by (intro exI [of _ s'] exI [of _ 0]) (auto elim: written_mono)
  next
    case False
    define m where "m = blk_size (the (blocks s z)) - currentBlockPosition h"
    from fill_block [OF Cons.prems(1-5) _ Cons.prems(8) len] False obtain s1 h1 where s1:
      "write_loop fd n buffer s = Option.bind (next_block fd (n - m) s1) (write_loop fd (n - m) (drop (unat m) buffer))"
      "unat m < unat n" "file_rep s1 f (ys @ z # z' # zs)" "fileHandles s1 = (fileHandles s)[nat fd := h1]" "h_file h1 = f"
      "active h1 = active h" "currentBlock h1 = z" "h_pos h1 = h_pos h + m" "unat (h_pos h1) = unat (h_pos h) + unat m"
      "blk_cont s1 z = take ?k (blk_cont s z) @ take (unat m) buffer"
      "\<forall>x \<in> List.set (ys @ z' # zs). blk_cont s1 x = blk_cont s x" "blk_data s1 = blk_data s"
      "kept {z} {blk_data s z} f s s1" "mallocs s1 = mallocs s" "heap s1 = heap s"
      unfolding m_def by auto
    define h2 where "h2 = h1\<lparr>currentBlock := z', currentBlockPosition := 0\<rparr>"
    define s2 where "s2 = put_handle fd h2 s1"
    have ok: "block_ok s z" using Cons.prems(1) by (simp add: file_rep_def)
    have "fresh s1" by (rule fresh_kept [OF s1(13) ok Cons.prems(6) s1(14,15)])
    then have fr: "fresh s2" by (simp add: fresh_def s2_def)
    have h1: "h1 = fileHandles s1 ! nat fd" using s1(4) Cons.prems(2) by simp
    have w: "write_loop fd n buffer s = write_loop fd (n - m) (drop (unat m) buffer) s2"
      using next_block_old [OF s1(3) h1 s1(7), of "n - m"] s1(1) by (simp add: h2_def s2_def)
    have nm: "unat (n - m) = unat n - unat m" "0 < n - m"
      using s1(2) by (simp_all add: unat_sub word_le_nat_alt word_less_nat_alt)
    have kz: "?k \<le> length (blk_cont s z)" "unat (h_pos h) = length (content s ys) + ?k" using Cons.prems(5) by (simp_all add: handle_at_def)
    have c: "content s1 (ys @ [z]) = content s ys @ take ?k (blk_cont s z) @ take (unat m) buffer"
      using content_cong [of ys s1 s] s1(10,11) by simp
    have c': "content s1 xs = content s xs" if "List.set xs \<subseteq> List.set (z' # zs)" for xs
      using content_cong [of xs s1 s] s1(11) that by auto
    have lc: "length (content s1 (ys @ [z])) = unat (h_pos h) + unat m" using c kz s1(2) Cons.prems(8) by simp
    let ?B = "List.set (ys @ z # z' # zs) \<union> {heap s (mallocs s)}" and ?D = "blk_data s ` List.set (ys @ z # z' # zs) \<union> {heap s (mallocs s + 1)}"
    have "\<exists>s' j. write_loop fd (n - m) (drop (unat m) buffer) s2 = Some s' \<and> written fd f h2 (n - m)
        (List.set ((ys @ [z]) @ z' # zs) \<union> {heap s2 (mallocs s2)}) (blk_data s2 ` List.set ((ys @ [z]) @ z' # zs) \<union> {heap s2 (mallocs s2 + 1)}) s2 s'
        (content s2 (ys @ [z]) @ take (unat (currentBlockPosition h2)) (blk_cont s2 z') @ take (unat (n - m)) (drop (unat m) buffer) @ content s2 (drop j zs))"
    proof (rule Cons.IH)
      show "file_rep s2 f ((ys @ [z]) @ z' # zs)" using s1(3) by (simp add: s2_def)
      show "handle_at s2 h2 (ys @ [z]) (z' # zs)" using lc s1(9) by (simp add: s2_def handle_next [of h1, OF _ h2_def])
      have "length (content s1 ((ys @ [z]) @ z' # zs)) = unat (h_pos h) + unat m + length (content s (z' # zs))" using lc c' [of "z' # zs"] by simp
      then show "length (content s2 ((ys @ [z]) @ z' # zs)) + unat (n - m) + 64 < 2 ^ 64" using nm kz Cons.prems(9) s1(2) by (simp add: s2_def)
    qed (use nm s1(2,4,5) Cons.prems(2,8) fr in \<open>simp_all add: s2_def h2_def\<close>)
    then obtain s' j where s': "write_loop fd n buffer s = Some s'" and W: "written fd f h2 (n - m)
        (List.set ((ys @ [z]) @ z' # zs) \<union> {heap s2 (mallocs s2)}) (blk_data s2 ` List.set ((ys @ [z]) @ z' # zs) \<union> {heap s2 (mallocs s2 + 1)}) s2 s'
        (content s2 (ys @ [z]) @ take (unat (currentBlockPosition h2)) (blk_cont s2 z') @ take (unat (n - m)) (drop (unat m) buffer) @ content s2 (drop j zs))"
      unfolding w by blast
    have "content s2 (ys @ [z]) = content s ys @ take ?k (blk_cont s z) @ take (unat m) buffer" "content s2 (drop j zs) = content s (drop j zs)"
      "unat (currentBlockPosition h2) = 0" "blk_data s2 = blk_data s" "heap s2 = heap s" "mallocs s2 = mallocs s"
      using c c' [of "drop j zs"] set_drop_subset [of j zs] s1(12,14,15) by (auto simp: s2_def h2_def)
    then have s'': "written fd f h2 (n - m) ?B ?D s2 s'
        (content s ys @ take ?k (blk_cont s z) @ take (unat m) buffer @ take (unat n - unat m) (drop (unat m) buffer) @ content s (drop j zs))"
      using W by (simp only: take_0 append_Nil append_assoc append_Cons nm(1))
    have "kept ?B ?D f s s2" unfolding s2_def using kept_mono [OF s1(13)] by simp
    then have "written fd f h n ?B ?D s s'
        (content s ys @ take ?k (blk_cont s z) @ take (unat m) buffer @ take (unat n - unat m) (drop (unat m) buffer) @ content s (drop j zs))"
      by (intro write_step [OF s'']) (simp_all add: h2_def s1(4,6,8) s2_def put_handle_def)
    then have "written fd f h n ?B ?D s s' (content s ys @ take ?k (blk_cont s z) @ take (unat n) buffer @ content s (drop (Suc j) (z' # zs)))"
      using s1(2) take_take_drop [of "unat m" "unat n" buffer] by (metis append_assoc drop_Suc_Cons less_imp_le)
    then show ?thesis using s' by blast
  qed
qed

section \<open>Operations on open files\<close>

definition open_file :: "ramfs \<Rightarrow> int \<Rightarrow> addr \<Rightarrow> addr list \<Rightarrow> addr list \<Rightarrow> bool" where
  "open_file s fd f ys zs \<longleftrightarrow> valid_fd fd s \<and> length (fileHandles s) = FILE_HANDLE_COUNT \<and> h_file (fileHandles s ! nat fd) = f
     \<and> file_rep s f (ys @ zs) \<and> handle_at s (fileHandles s ! nat fd) ys zs"

lemma open_fileD:
  assumes "open_file s fd f ys zs"
  shows "nat fd < length (fileHandles s)" "valid_fd fd s" "h_file (fileHandles s ! nat fd) = f" "file_rep s f (ys @ zs)"
    "handle_at s (fileHandles s ! nat fd) ys zs" "ramfs_tell fd s = h_pos (fileHandles s ! nat fd)"
    "unat (ramfs_tell fd s) \<le> length (content s (ys @ zs))" "length (content s (ys @ zs)) < 2 ^ 64"
proof -
  show 1: "nat fd < length (fileHandles s)" "valid_fd fd s" "h_file (fileHandles s ! nat fd) = f" "file_rep s f (ys @ zs)"
    "handle_at s (fileHandles s ! nat fd) ys zs" "ramfs_tell fd s = h_pos (fileHandles s ! nat fd)"
    using assms by (auto simp: open_file_def valid_fd_def FILE_HANDLE_COUNT_def ramfs_tell_def)
  show "unat (ramfs_tell fd s) \<le> length (content s (ys @ zs))" unfolding 1(6) using 1(5) by (auto simp: handle_at_def split: list.splits)
  obtain e :: ramfs_file where "unat (file_len e) = length (content s (ys @ zs))" using 1(4) by (auto simp: file_rep_def)
  then show "length (content s (ys @ zs)) < 2 ^ 64" using unsigned_less [of "file_len e", where 'a = nat] by simp
qed

lemma open_file_put:
  assumes "open_file s fd f ys zs" "file_rep s' f (ys' @ zs')" "handle_at s' h' ys' zs'" "fileHandles s' = (fileHandles s)[nat fd := h']"
    "h_file h' = f" "active h'"
  shows "open_file s' fd f ys' zs'" "ramfs_tell fd s' = h_pos h'"
proof -
  have "nat fd < length (fileHandles s)" by (rule open_fileD [OF assms(1)])
  then show "open_file s' fd f ys' zs'" using assms by (simp add: open_file_def valid_fd_def)
  then show "ramfs_tell fd s' = h_pos h'" using open_fileD(6) \<open>nat fd < _\<close> assms(4) by simp
qed

lemma take_min_drop: "take (min a (length c - p)) (drop p c) = take a (drop p c)"
  by (simp add: min_def)

lemma ramfs_read_at:
  assumes "open_file s fd f ys zs" "unat (ramfs_tell fd s) + unat len < 2 ^ 64"
  defines "n \<equiv> min (unat len) (length (content s (ys @ zs)) - unat (ramfs_tell fd s))"
  shows "\<exists>h' ys' zs'. ramfs_read len fd s = Some (put_handle fd h' s, of_nat n, take (unat len) (drop (unat (ramfs_tell fd s)) (content s (ys @ zs))))
    \<and> open_file (put_handle fd h' s) fd f ys' zs' \<and> ys' @ zs' = ys @ zs \<and> unat (h_pos h') = unat (ramfs_tell fd s) + n
    \<and> (zs' = [] \<or> currentBlockPosition h' = 0 \<or> unat (currentBlockPosition h') < length (blk_cont s (hd zs')) \<or> h' = fileHandles s ! nat fd)"
proof -
  note o = open_fileD [OF assms(1)]
  let ?h = "fileHandles s ! nat fd" and ?c = "content s (ys @ zs)"
  obtain e where e: "files s f = Some e" "f \<noteq> 0" "linked s 0 (firstBlock e) (ys @ zs)" "unat (file_len e) = length ?c"
    "\<forall>x \<in> List.set (ys @ zs). block_ok s x" using o(4) by (auto simp: file_rep_def)
  define r where "r = (if h_pos ?h + len > file_len e then file_len e - h_pos ?h else len)"
  have "unat (h_pos ?h + len) = unat (h_pos ?h) + unat len" using assms(2) o(6) by (simp add: unat_word_ariths)
  then have r: "unat r = n" using o(6,7) e(4) by (auto simp: r_def n_def word_less_nat_alt unat_sub word_le_nat_alt)
  then have rn: "r = of_nat n" by (metis of_nat_unat ucast_id)
  have "unat (h_pos ?h) + unat r \<le> length ?c" using r o(6,7) by (simp add: n_def)
  from read_loop_at [OF e(3,5) o(1) refl o(5) this o(8), of "[]"] obtain h' ys' zs' where h': "read_loop fd r [] s = Some (put_handle fd h' s, take n (drop (unat (h_pos ?h)) ?c))"
    "ys' @ zs' = ys @ zs" "handle_at s h' ys' zs'" "h_file h' = f" "active h' = active ?h" "h_pos h' = h_pos ?h + r"
    "zs' = [] \<or> currentBlockPosition h' = 0 \<or> unat (currentBlockPosition h') < length (blk_cont s (hd zs')) \<or> h' = ?h"
    using o(3) r by auto
  have "take n (drop (unat (h_pos ?h)) ?c) = take (unat len) (drop (unat (ramfs_tell fd s)) ?c)" unfolding n_def o(6) by (rule take_min_drop)
  then have "ramfs_read len fd s = Some (put_handle fd h' s, of_nat n, take (unat len) (drop (unat (ramfs_tell fd s)) ?c))"
    using o(2,3) e(1,2) h'(1) rn by (simp add: ramfs_read_def deref_def Let_def r_def [symmetric])
  moreover have "unat (h_pos h') = unat (ramfs_tell fd s) + n"
    using h'(6) r o(6,7,8) by (simp add: unat_word_ariths n_def)
  moreover have "open_file (put_handle fd h' s) fd f ys' zs'"
    by (rule open_file_put [OF assms(1), of _ _ _ h']) (use h'(2-5) o(2,4) in \<open>simp_all add: fileHandles_put_handle valid_fd_def\<close>)
  ultimately show ?thesis using h'(2,7) by - (rule exI [of _ h'], rule exI [of _ ys'], rule exI [of _ zs'], simp)
qed

lemma ramfs_seek_at:
  assumes "open_file s fd f ys zs" "sint offset \<ge> 0" "unat offset \<le> length (content s (ys @ zs))"
  shows "\<exists>h' ys' z' zs'. ramfs_seek offset RAMFS_SEEK_START fd s = Some (put_handle fd h' s)
    \<and> open_file (put_handle fd h' s) fd f ys' (z' # zs') \<and> ys' @ z' # zs' = ys @ zs \<and> h_pos h' = offset"
proof -
  note o = open_fileD [OF assms(1)]
  obtain e where e: "files s f = Some e" "f \<noteq> 0" "linked s 0 (firstBlock e) (ys @ zs)" "unat (file_len e) = length (content s (ys @ zs))"
    "\<forall>x \<in> List.set (ys @ zs). block_ok s x" "ys @ zs \<noteq> []" using o(4) by (auto simp: file_rep_def)
  from seek_loop_at [OF e(3,6,5) assms(3)] obtain ys' z' zs' k where k: "seek_loop s offset (firstBlock e) = Some (z', k)"
    "ys @ zs = ys' @ z' # zs'" "unat k \<le> length (blk_cont s z')" "unat offset = length (content s ys') + unat k" by blast
  define h' where "h' = (fileHandles s ! nat fd)\<lparr>currentBlock := z', currentBlockPosition := k, h_pos := offset\<rparr>"
  have "seek_target offset RAMFS_SEEK_START (h_pos (fileHandles s ! nat fd)) (file_len e) = offset"
    using assms(2,3) e(4) by (simp add: seek_target_def word_less_nat_alt)
  then have "ramfs_seek offset RAMFS_SEEK_START fd s = Some (put_handle fd h' s)"
    using o(2,3) e(1,2) k(1) by (simp add: ramfs_seek_def Let_def deref_def h'_def)
  moreover have "open_file (put_handle fd h' s) fd f ys' (z' # zs')"
    by (rule open_file_put [OF assms(1), of _ _ _ h'])
      (use k o(2,3,4) in \<open>simp_all add: fileHandles_put_handle valid_fd_def h'_def handle_at_def\<close>)
  ultimately show ?thesis using k(2) by - (rule exI [of _ h'], rule exI [of _ ys'], rule exI [of _ z'], rule exI [of _ zs'], simp add: h'_def)
qed

lemma ramfs_write_at:
  assumes "open_file s fd f ys (z # zs)" "fresh s" "0 < len" "unat len \<le> length buffer"
    "length (content s (ys @ z # zs)) + unat len + 64 < 2 ^ 64"
  shows "\<exists>s' ys' z' zs' j. ramfs_write buffer len fd s = Some (s', len) \<and> open_file s' fd f ys' (z' # zs')
    \<and> content s' (ys' @ z' # zs') = take (unat (ramfs_tell fd s)) (content s (ys @ z # zs)) @ take (unat len) buffer @ content s (drop j zs)
    \<and> ramfs_tell fd s' = ramfs_tell fd s + len
    \<and> kept (List.set (ys @ z # zs) \<union> {heap s (mallocs s)}) (blk_data s ` List.set (ys @ z # zs) \<union> {heap s (mallocs s + 1)}) f s s'"
proof -
  note o = open_fileD [OF assms(1)]
  let ?h = "fileHandles s ! nat fd"
  from write_loop_at [OF o(4,1) refl o(3,5) assms(2-5)] obtain s' j where s': "write_loop fd len buffer s = Some s'"
    and w: "written fd f ?h len (List.set (ys @ z # zs) \<union> {heap s (mallocs s)}) (blk_data s ` List.set (ys @ z # zs) \<union> {heap s (mallocs s + 1)}) s s'
      (content s ys @ take (unat (currentBlockPosition ?h)) (blk_cont s z) @ take (unat len) buffer @ content s (drop j zs))" by blast
  from w obtain ys' z' zs' h' where w: "file_rep s' f (ys' @ z' # zs')"
    "content s' (ys' @ z' # zs') = content s ys @ take (unat (currentBlockPosition ?h)) (blk_cont s z) @ take (unat len) buffer @ content s (drop j zs)"
    "fileHandles s' = (fileHandles s)[nat fd := h']" "handle_at s' h' ys' (z' # zs')" "h_pos h' = h_pos ?h + len" "h_file h' = f" "active h' = active ?h"
    "kept (List.set (ys @ z # zs) \<union> {heap s (mallocs s)}) (blk_data s ` List.set (ys @ z # zs) \<union> {heap s (mallocs s + 1)}) f s s'"
    unfolding written_def by blast
  have "active h'" using w(7) o(2) by (simp add: valid_fd_def)
  note p = open_file_put [OF assms(1) w(1,4,3,6) this]
  have "take (unat (ramfs_tell fd s)) (content s (ys @ z # zs)) = content s ys @ take (unat (currentBlockPosition ?h)) (blk_cont s z)"
    using o(5,6) by (simp add: handle_at_def)
  moreover have "ramfs_write buffer len fd s = Some (s', len)" using o(2) s' by (simp add: ramfs_write_def)
  ultimately show ?thesis using p w(2,5,8) o(6) by auto
qed

section \<open>Properties\<close>

text \<open>
  C26. \<^verbatim>\<open>ramfs_write\<close> returns the full length and puts exactly the bytes of the buffer at the position of the handle, which moves
  behind them; the bytes before stay, and behind the new ones stay those of whole blocks \<open>drop j zs\<close> that were not reached.
  Files that share no block with it keep their content.
\<close>

theorem ramfs_write_correct:
  assumes "open_file s fd f ys (z # zs)" "fresh s" "0 < len" "unat len \<le> length buffer"
    "length (content s (ys @ z # zs)) + unat len + 64 < 2 ^ 64"
  shows "\<exists>s' ys' z' zs' j. ramfs_write buffer len fd s = Some (s', len) \<and> open_file s' fd f ys' (z' # zs')
    \<and> content s' (ys' @ z' # zs') = take (unat (ramfs_tell fd s)) (content s (ys @ z # zs)) @ take (unat len) buffer @ content s (drop j zs)
    \<and> ramfs_tell fd s' = ramfs_tell fd s + len
    \<and> (\<forall>g cs. g \<noteq> f \<and> file_rep s g cs \<and> List.set cs \<inter> List.set (ys @ z # zs) = {}
          \<and> blk_data s ` List.set cs \<inter> blk_data s ` List.set (ys @ z # zs) = {} \<longrightarrow> file_rep s' g cs \<and> content s' cs = content s cs)"
proof -
  obtain s' ys' z' zs' j where w: "ramfs_write buffer len fd s = Some (s', len)" "open_file s' fd f ys' (z' # zs')"
    "content s' (ys' @ z' # zs') = take (unat (ramfs_tell fd s)) (content s (ys @ z # zs)) @ take (unat len) buffer @ content s (drop j zs)"
    "ramfs_tell fd s' = ramfs_tell fd s + len"
    and k: "kept (List.set (ys @ z # zs) \<union> {heap s (mallocs s)}) (blk_data s ` List.set (ys @ z # zs) \<union> {heap s (mallocs s + 1)}) f s s'"
    using ramfs_write_at [OF assms] by blast
  have "file_rep s' g cs \<and> content s' cs = content s cs" if "g \<noteq> f" "file_rep s g cs" "List.set cs \<inter> List.set (ys @ z # zs) = {}"
    "blk_data s ` List.set cs \<inter> blk_data s ` List.set (ys @ z # zs) = {}" for g cs
  proof (rule file_rep_kept [OF that(2) k that(1)])
    have ok: "block_ok s x" if "x \<in> List.set cs" for x using \<open>file_rep s g cs\<close> that by (simp add: file_rep_def)
    then have "heap s (mallocs s) \<notin> List.set cs" using assms(2) by (fastforce simp: fresh_def block_ok_def)
    then show "List.set cs \<inter> (List.set (ys @ z # zs) \<union> {heap s (mallocs s)}) = {}" using that(3) by auto
    have "heap s (mallocs s + 1) \<notin> blk_data s ` List.set cs" using ok assms(2) by (force simp: fresh_def block_ok_def blk_data_def)
    then show "blk_data s ` List.set cs \<inter> (blk_data s ` List.set (ys @ z # zs) \<union> {heap s (mallocs s + 1)}) = {}" using that(4) by auto
  qed
  then show ?thesis using w by blast
qed

text \<open>A file with three bytes in a block of four, opened and positioned at its end.\<close>

definition file_example :: ramfs where
  "file_example = \<lparr>root = 1, totalEntryCount = 2, ramfsLock = False,
     fileHandles = \<lparr>active = True, h_file = 10, h_pos = 3, currentBlock = 20, currentBlockPosition = 3\<rparr>
       # replicate 63 \<lparr>active = False, h_file = 0, h_pos = 0, currentBlock = 0, currentBlockPosition = 0\<rparr>,
     dirs = [1 \<mapsto> \<lparr>dir_name = [], dir_next = 0, firstChild = 0, lastChild = 0, firstFile = 10, lastFile = 10\<rparr>],
     files = [10 \<mapsto> \<lparr>file_name = [97], isOpen = True, firstBlock = 20, lastBlock = 20, file_len = 3, file_next = 0\<rparr>],
     blocks = [20 \<mapsto> \<lparr>blk_prev = 0, blk_next = 0, blk_block = 30, blk_size = 4, blk_len = 3\<rparr>],
     data = [30 \<mapsto> [1, 2, 3, 9]], mallocs = 0, heap = (\<lambda>i. 40 + of_nat i), junk = (\<lambda>_ _. 0)\<rparr>"

lemma file_example_open: "open_file file_example 0 10 [] [20]" "fresh file_example" "ramfs_tell 0 file_example = 3"
  "content file_example [20] = [1, 2, 3]"
  by (simp_all add: open_file_def file_example_def valid_fd_def FILE_HANDLE_COUNT_def file_rep_def handle_at_def blk_cont_def blk_data_def
      block_ok_def fresh_def ramfs_tell_def)

theorem ramfs_write_correct_witness:
  "\<exists>s' ys' z' zs'. ramfs_write [7, 8] 2 0 file_example = Some (s', 2) \<and> open_file s' 0 10 ys' (z' # zs') \<and> content s' (ys' @ z' # zs') = [1, 2, 3, 7, 8]"
  using ramfs_write_correct [of file_example 0 10 "[]" 20 "[]" 2 "[7, 8]"] file_example_open by fastforce

text \<open>
  C27. What was written is read back: writing, seeking to the old position and reading the same length gives the bytes that
  were written, whatever blocks they were spread over.
\<close>

theorem ramfs_write_read_roundtrip:
  assumes "open_file s fd f ys (z # zs)" "fresh s" "0 < len" "unat len \<le> length buffer"
    "length (content s (ys @ z # zs)) + unat len + 64 < 2 ^ 64" "sint (ramfs_tell fd s) \<ge> 0"
  shows "\<exists>s1 s2 s3. ramfs_write buffer len fd s = Some (s1, len) \<and> ramfs_seek (ramfs_tell fd s) RAMFS_SEEK_START fd s1 = Some s2
    \<and> ramfs_read len fd s2 = Some (s3, len, take (unat len) buffer) \<and> ramfs_tell fd s3 = ramfs_tell fd s + len"
proof -
  obtain s1 ys1 z1 zs1 j where w: "ramfs_write buffer len fd s = Some (s1, len)" "open_file s1 fd f ys1 (z1 # zs1)"
    "content s1 (ys1 @ z1 # zs1) = take (unat (ramfs_tell fd s)) (content s (ys @ z # zs)) @ take (unat len) buffer @ content s (drop j zs)"
    using ramfs_write_at [OF assms(1-5)] by blast
  note p = open_fileD(7) [OF assms(1)]
  have "unat (ramfs_tell fd s) \<le> length (content s1 (ys1 @ z1 # zs1))" unfolding w(3) using p by simp
  from ramfs_seek_at [OF w(2) assms(6) this] obtain h2 ys2 z2 zs2 where r: "ramfs_seek (ramfs_tell fd s) RAMFS_SEEK_START fd s1 = Some (put_handle fd h2 s1)"
    "open_file (put_handle fd h2 s1) fd f ys2 (z2 # zs2)" "ys2 @ z2 # zs2 = ys1 @ z1 # zs1" "h_pos h2 = ramfs_tell fd s" by blast
  let ?s2 = "put_handle fd h2 s1"
  have t: "ramfs_tell fd ?s2 = ramfs_tell fd s"
    using open_fileD(6) [OF r(2)] open_fileD(1) [OF w(2)] r(4) by simp
  have c: "content ?s2 (ys2 @ z2 # zs2) = take (unat (ramfs_tell fd s)) (content s (ys @ z # zs)) @ take (unat len) buffer @ content s (drop j zs)"
    using w(3) r(3) by (simp only: put_handle_rep)
  have b: "unat (ramfs_tell fd ?s2) + unat len < 2 ^ 64" unfolding t using p assms(5) by linarith
  have n: "min (unat len) (length (content ?s2 (ys2 @ z2 # zs2)) - unat (ramfs_tell fd ?s2)) = unat len"
    unfolding t c using p assms(4) by simp
  have d: "take (unat len) (drop (unat (ramfs_tell fd ?s2)) (content ?s2 (ys2 @ z2 # zs2))) = take (unat len) buffer"
    unfolding t c using p assms(4) by simp
  from ramfs_read_at [OF r(2) b, unfolded n d] obtain h3 ys3 zs3 where r3: "ramfs_read len fd ?s2 = Some (put_handle fd h3 ?s2, len, take (unat len) buffer)"
    "open_file (put_handle fd h3 ?s2) fd f ys3 zs3" "unat (h_pos h3) = unat (ramfs_tell fd s) + unat len" unfolding t by auto
  have "ramfs_tell fd (put_handle fd h3 ?s2) = h_pos h3"
    using open_fileD(6) [OF r3(2)] open_fileD(1) [OF w(2)] by simp
  moreover have "h_pos h3 = ramfs_tell fd s + len" using r3(3) b t by (simp add: word_unat_eq_iff unat_word_ariths)
  ultimately show ?thesis using w(1) r(1) r3(1) by auto
qed

theorem ramfs_write_read_roundtrip_witness:
  "\<exists>s1 s2 s3. ramfs_write [7, 8] 2 0 file_example = Some (s1, 2) \<and> ramfs_seek 3 RAMFS_SEEK_START 0 s1 = Some s2
     \<and> ramfs_read 2 0 s2 = Some (s3, 2, [7, 8])"
  using ramfs_write_read_roundtrip [of file_example 0 10 "[]" 20 "[]" 2 "[7, 8]"] file_example_open by auto

text \<open>
  C28. Reading up to the end of a file leaves the handle without a block, so the next write through it dereferences a null
  pointer: it does not append, it faults.
\<close>

theorem ramfs_read_end_write_faults:
  assumes "open_file s fd f ys (z # zs)" "blk_cont s (last (z # zs)) \<noteq> []" "unat (ramfs_tell fd s) < length (content s (ys @ z # zs))"
    "length (content s (ys @ z # zs)) \<le> unat (ramfs_tell fd s) + unat len" "unat (ramfs_tell fd s) + unat len < 2 ^ 64" "0 < n"
  shows "\<exists>s' r bytes. ramfs_read len fd s = Some (s', r, bytes) \<and> ramfs_write buffer n fd s' = None"
proof -
  let ?bs = "ys @ z # zs"
  have mn: "min (unat len) (length (content s ?bs) - unat (ramfs_tell fd s)) = length (content s ?bs) - unat (ramfs_tell fd s)"
    using assms(4) by simp
  from ramfs_read_at [OF assms(1,5), unfolded mn] obtain h' ys' zs' r bytes where r: "ramfs_read len fd s = Some (put_handle fd h' s, r, bytes)"
    "open_file (put_handle fd h' s) fd f ys' zs'" "ys' @ zs' = ?bs" "unat (h_pos h') = length (content s ?bs)"
    "zs' = [] \<or> currentBlockPosition h' = 0 \<or> unat (currentBlockPosition h') < length (blk_cont s (hd zs')) \<or> h' = fileHandles s ! nat fd"
    using assms(3) by auto
  have fd: "nat fd < length (fileHandles s)" by (rule open_fileD [OF assms(1)])
  then have at: "handle_at s h' ys' zs'" using open_fileD(5) [OF r(2)] by simp
  have "zs' = []"
  proof (rule ccontr)
    assume "zs' \<noteq> []"
    then obtain z' ws where z': "zs' = z' # ws" by (cases zs') auto
    then have p: "unat (currentBlockPosition h') \<le> length (blk_cont s z')" "unat (h_pos h') = length (content s ys') + unat (currentBlockPosition h')"
      using at by (simp_all add: handle_at_def)
    have "content s ?bs = content s ys' @ blk_cont s z' @ content s ws" using z' by (simp flip: r(3))
    then have "length (content s ys') + (length (blk_cont s z') + length (content s ws)) = unat (h_pos h')" using r(4) by simp
    then have "unat (currentBlockPosition h') = length (blk_cont s z')" "length (content s ws) = 0" using p by linarith+
    then have e: "unat (currentBlockPosition h') = length (blk_cont s z')" "content s ws = []" by simp_all
    have "last (z # zs) = last (z' # ws)" using r(3) z' by (metis last_appendR list.distinct(1))
    then have "blk_cont s z' \<noteq> []" using assms(2) e(2) by (cases "ws = []") (auto simp: content_def)
    moreover have "h' \<noteq> fileHandles s ! nat fd" using r(4) assms(3) open_fileD(6) [OF assms(1)] by auto
    ultimately show False using r(5) e(1) z' by (auto simp: unat_eq_0)
  qed
  then have "currentBlock h' = 0" using at by (simp add: handle_at_def)
  then have "write_loop fd n buffer (put_handle fd h' s) = None" using assms(6) fd by (subst write_loop.simps) (simp add: Let_def deref_def)
  then have "ramfs_write buffer n fd (put_handle fd h' s) = None" using open_fileD(2) [OF r(2)] by (simp add: ramfs_write_def)
  then show ?thesis using r(1) by blast
qed

theorem ramfs_read_end_write_faults_witness:
  "\<exists>s0 s' r bytes. ramfs_seek 0 RAMFS_SEEK_START 0 file_example = Some s0 \<and> ramfs_read 3 0 s0 = Some (s', r, bytes) \<and> ramfs_write [7] 1 0 s' = None"
proof -
  from ramfs_seek_at [OF file_example_open(1), of 0] obtain h ys z zs where h: "ramfs_seek 0 RAMFS_SEEK_START 0 file_example = Some (put_handle 0 h file_example)"
    "open_file (put_handle 0 h file_example) 0 10 ys (z # zs)" "ys @ z # zs = [20]" "h_pos h = 0" by auto
  then have "ys = []" "z = 20" "zs = []" by (cases ys; auto)+
  moreover have "ramfs_tell 0 (put_handle 0 h file_example) = 0"
    using open_fileD(6) [OF h(2)] open_fileD(1) [OF file_example_open(1)] h(4) by (simp add: fileHandles_put_handle)
  moreover have "blk_cont file_example 20 = [1, 2, 3]" using file_example_open(4) by simp
  ultimately show ?thesis using ramfs_read_end_write_faults [of "put_handle 0 h file_example" 0 10 ys z zs 3 1 "[7]"] h by auto
qed

end
