(* ===== verification/RamfsDir.thy ===== *)
theory RamfsDir
  imports RamfsFile "HOL-Library.Sublist"
begin

text \<open>
  The directory tree of the file system: the children and the files of a directory are the sequences \<open>K d\<close> and \<open>F d\<close>, and
  the operations on paths search, extend and shorten them.
\<close>

section \<open>Chains\<close>

fun chain :: "(addr \<Rightarrow> addr option) \<Rightarrow> addr \<Rightarrow> addr list \<Rightarrow> bool" where
  "chain nx p [] \<longleftrightarrow> p = 0"
| "chain nx p (x # xs) \<longleftrightarrow> p = x \<and> x \<noteq> 0 \<and> (\<exists>n. nx x = Some n \<and> chain nx n xs)"

lemma fchain_cong: "(\<And>x. x \<in> List.set xs \<Longrightarrow> nx' x = nx x) \<Longrightarrow> chain nx' p xs = chain nx p xs"
  by (induction xs arbitrary: p) auto

lemma chain_mem: "chain nx p xs \<Longrightarrow> x \<in> List.set xs \<Longrightarrow> x \<noteq> 0 \<and> nx x \<noteq> None"
  by (induction xs arbitrary: p) auto

lemma chain_hd: "chain nx p xs \<Longrightarrow> p = hd0 xs"
  by (cases xs) auto

lemma chain_snoc:
  assumes "chain nx p xs" "xs \<noteq> []" "distinct xs" "e \<notin> List.set xs" "e \<noteq> 0"
  shows "chain (nx(last xs := Some e, e := Some 0)) p (xs @ [e])"
  using assms
proof (induction xs arbitrary: p)
  case (Cons x xs)
  show ?case
  proof (cases "xs = []")
    case True
    then show ?thesis using Cons.prems by auto
  next
    case False
    then have "x \<noteq> last xs" "x \<noteq> e" using Cons.prems by auto
    then show ?thesis using Cons False by auto
  qed
qed simp

lemma find_entry_chain:
  assumes "chain (\<lambda>x. map_option nx (h x)) p xs"
  shows "find_entry h nx c p = Some (case List.find (\<lambda>x. c (the (h x))) xs of None \<Rightarrow> 0 | Some x \<Rightarrow> x)"
  using assms
proof (induction xs arbitrary: p)
  case Nil
  then show ?case by (subst find_entry.simps) simp
next
  case (Cons x xs)
  then obtain e where "p = x" "x \<noteq> 0" "h x = Some e" "chain (\<lambda>x. map_option nx (h x)) (nx e) xs" by auto
  then show ?case using Cons.IH by (subst find_entry.simps) simp
qed

section \<open>The tree\<close>

definition dnext :: "ramfs \<Rightarrow> addr \<Rightarrow> addr option" where
  "dnext s = (\<lambda>x. map_option dir_next (dirs s x))"

definition fnext :: "ramfs \<Rightarrow> addr \<Rightarrow> addr option" where
  "fnext s = (\<lambda>x. map_option file_next (files s x))"

definition dname :: "ramfs \<Rightarrow> addr \<Rightarrow> u8 list" where
  "dname s x = dir_name (the (dirs s x))"

definition fname :: "ramfs \<Rightarrow> addr \<Rightarrow> u8 list" where
  "fname s x = file_name (the (files s x))"

definition entry_ok :: "ramfs \<Rightarrow> addr list \<Rightarrow> addr list \<Rightarrow> ramfs_directory \<Rightarrow> bool" where
  "entry_ok s ks fs D \<longleftrightarrow> chain (dnext s) (firstChild D) ks \<and> lastChild D = last0 ks
     \<and> chain (fnext s) (firstFile D) fs \<and> lastFile D = last0 fs"

definition disjoint_fam :: "(addr \<Rightarrow> addr list) \<Rightarrow> bool" where
  "disjoint_fam K \<longleftrightarrow> (\<forall>d. distinct (K d)) \<and> (\<forall>d d'. d \<noteq> d' \<longrightarrow> List.set (K d) \<inter> List.set (K d') = {})"

definition fs_inv :: "ramfs \<Rightarrow> (addr \<Rightarrow> addr list) \<Rightarrow> (addr \<Rightarrow> addr list) \<Rightarrow> bool" where
  "fs_inv s K F \<longleftrightarrow> dirs s (root s) \<noteq> None \<and> dirs s 0 = None \<and> files s 0 = None
     \<and> (\<forall>d. case dirs s d of None \<Rightarrow> K d = [] \<and> F d = [] | Some D \<Rightarrow> entry_ok s (K d) (F d) D)
     \<and> disjoint_fam K \<and> disjoint_fam F"

lemma fs_inv_entry: "fs_inv s K F \<Longrightarrow> dirs s d = Some D \<Longrightarrow> entry_ok s (K d) (F d) D \<and> d \<noteq> 0"
  unfolding fs_inv_def by (metis option.distinct(1) option.simps(5))

lemma fs_inv_mem:
  assumes "fs_inv s K F"
  shows "x \<in> List.set (K d) \<Longrightarrow> x \<noteq> 0 \<and> dirs s x \<noteq> None" "x \<in> List.set (F d) \<Longrightarrow> x \<noteq> 0 \<and> files s x \<noteq> None"
proof -
  show "x \<noteq> 0 \<and> dirs s x \<noteq> None" if "x \<in> List.set (K d)"
  proof (cases "dirs s d")
    case None
    then have "K d = []" using assms unfolding fs_inv_def by (metis option.simps(4))
    then show ?thesis using that by simp
  next
    case (Some D)
    then show ?thesis using fs_inv_entry [OF assms Some] chain_mem [of "dnext s" _ "K d" x] that by (auto simp: entry_ok_def dnext_def)
  qed
  show "x \<noteq> 0 \<and> files s x \<noteq> None" if "x \<in> List.set (F d)"
  proof (cases "dirs s d")
    case None
    then have "F d = []" using assms unfolding fs_inv_def by (metis option.simps(4))
    then show ?thesis using that by simp
  next
    case (Some D)
    then show ?thesis using fs_inv_entry [OF assms Some] chain_mem [of "fnext s" _ "F d" x] that by (auto simp: entry_ok_def fnext_def)
  qed
qed

text \<open>Searches for a directory or a file by its name return the first match.\<close>

definition found :: "(addr \<Rightarrow> bool) \<Rightarrow> addr list \<Rightarrow> addr" where
  "found c xs = (case List.find c xs of None \<Rightarrow> 0 | Some x \<Rightarrow> x)"

lemma found_0: "0 \<notin> List.set xs \<Longrightarrow> found c xs = 0 \<longleftrightarrow> (\<forall>x \<in> List.set xs. \<not> c x)"
  by (induction xs) (auto simp: found_def)

lemma found_mem: "found c xs \<noteq> 0 \<Longrightarrow> found c xs \<in> List.set xs \<and> c (found c xs)"
  by (induction xs) (auto simp: found_def)

lemma case_find:
  assumes "0 \<notin> List.set xs"
  shows "(case List.find c xs of None \<Rightarrow> a | Some x \<Rightarrow> b x) = (if found c xs = 0 then a else b (found c xs))"
proof (cases "List.find c xs")
  case (Some x)
  then have "x \<in> List.set xs" by (auto simp: find_Some_iff)
  then show ?thesis using assms Some by (auto simp: found_def)
qed (simp add: found_def)

lemma found_append: "found c xs \<noteq> 0 \<Longrightarrow> found c (xs @ ys) = found c xs"
  by (induction xs) (auto simp: found_def)

lemma found_snoc: "\<forall>x \<in> List.set xs. \<not> c x \<Longrightarrow> c y \<Longrightarrow> found c (xs @ [y]) = y"
  by (induction xs) (auto simp: found_def)

lemma found_cong: "(\<And>x. x \<in> List.set xs \<Longrightarrow> c x = c' x) \<Longrightarrow> found c xs = found c' xs"
  unfolding found_def by (metis find_cong)

lemma find_dir:
  assumes "fs_inv s K F" "dirs s d = Some D"
  shows "find_entry (dirs s) dir_next c (firstChild D) = Some (found (\<lambda>x. c (the (dirs s x))) (K d))"
  using fs_inv_entry [OF assms] find_entry_chain [of dir_next "dirs s"] by (simp add: entry_ok_def dnext_def found_def)

lemma find_file:
  assumes "fs_inv s K F" "dirs s d = Some D"
  shows "find_entry (files s) file_next c (firstFile D) = Some (found (\<lambda>x. c (the (files s x))) (F d))"
  using fs_inv_entry [OF assms] find_entry_chain [of file_next "files s"] by (simp add: entry_ok_def fnext_def found_def)

section \<open>Paths\<close>

text \<open>The directory of a path, on the tree: each component selects the first child whose name starts with it.\<close>

function walk :: "(addr \<Rightarrow> addr list) \<Rightarrow> (addr \<Rightarrow> u8 list) \<Rightarrow> u8 list \<Rightarrow> addr \<Rightarrow> addr" where
  "walk K nm rest d =
     (let rest = dropWhile (\<lambda>c. c = slash) rest in
      if rest = [] then d
      else let x = found (\<lambda>x. prefix (takeWhile (\<lambda>c. c \<noteq> slash) rest) (nm x)) (K d);
               rest' = dropWhile (\<lambda>c. c \<noteq> slash) rest
           in if x = 0 \<or> length rest' \<le> 1 then x else walk K nm (tl rest') x)"
  by pat_completeness auto

termination
proof (relation "measure (\<lambda>(K, nm, rest, d). length rest)", simp, clarsimp)
  fix rest :: "u8 list"
  let ?r = "dropWhile (\<lambda>c. c \<noteq> slash) (dropWhile (\<lambda>c. c = slash) rest)"
  assume "\<not> length ?r \<le> Suc 0"
  moreover have "length ?r \<le> length rest" using length_dropWhile_le le_trans by metis
  ultimately show "length ?r - Suc 0 < length rest" by linarith
qed

declare walk.simps [simp del]

lemmas walk_unfold = walk.simps [unfolded Let_def]

lemmas get_directory_loop_unfold = get_directory_loop.simps [unfolded Let_def]

lemma take_eq_prefix: "take (length xs) xs = take (length xs) ys \<longleftrightarrow> prefix xs ys"
  by (metis append_eq_conv_conj append_take_drop_id prefix_def take_all order_refl)

lemma get_directory_loop_walk:
  assumes "fs_inv s K F" "dirs s d \<noteq> None"
  shows "get_directory_loop s rest d
    = Some (let x = walk K (dname s) rest d in if x = 0 then (RAMFS_ERR_DIRECTORY_DOES_NOT_EXIST, 0) else (RAMFS_ERR_OK, x))
   \<and> (walk K (dname s) rest d \<noteq> 0 \<longrightarrow> dirs s (walk K (dname s) rest d) \<noteq> None)"
  using assms(2)
proof (induction "length rest" arbitrary: rest d rule: less_induct)
  case less
  obtain D where D: "dirs s d = Some D" "d \<noteq> 0" using less.prems fs_inv_entry [OF assms(1)] by auto
  let ?r = "dropWhile (\<lambda>c. c = slash) rest"
  let ?n = "takeWhile (\<lambda>c. c \<noteq> slash) ?r" and ?r' = "dropWhile (\<lambda>c. c \<noteq> slash) ?r"
  let ?x = "found (\<lambda>x. prefix ?n (dname s x)) (K d)"
  have f: "find_entry (dirs s) dir_next (\<lambda>e. take (length ?n) ?n = take (length ?n) (dir_name e)) (firstChild D) = Some ?x"
    unfolding find_dir [OF assms(1) D(1)] take_eq_prefix dname_def ..
  show ?case
  proof (cases "?r = []")
    case True
    then show ?thesis using D by (subst get_directory_loop.simps, subst walk.simps) (simp add: walk.simps)
  next
    case r: False
    show ?thesis
    proof (cases "?x = 0 \<or> length ?r' \<le> 1")
      case True
      have "walk K (dname s) rest d = ?x" using True by (simp only: walk_unfold [of K _ rest d] r if_False if_True)
      moreover have "get_directory_loop s rest d = Some (if ?x = 0 then (RAMFS_ERR_DIRECTORY_DOES_NOT_EXIST, 0) else (RAMFS_ERR_OK, ?x))"
        using True by (simp only: get_directory_loop_unfold [of s rest d] r if_False deref_def D Option.bind.simps f) auto
      moreover have "?x \<noteq> 0 \<longrightarrow> dirs s ?x \<noteq> None" using found_mem fs_inv_mem(1) [OF assms(1)] by metis
      ultimately show ?thesis by simp
    next
      case False
      then have x: "dirs s ?x \<noteq> None" using found_mem fs_inv_mem(1) [OF assms(1)] by metis
      have lt: "length (tl ?r') < length rest"
        using False length_dropWhile_le [of "\<lambda>c. c \<noteq> slash" ?r] length_dropWhile_le [of "\<lambda>c. c = slash" rest] by auto
      have "walk K (dname s) rest d = walk K (dname s) (tl ?r') ?x" using False by (simp only: walk_unfold [of K _ rest d] r if_False)
      moreover have "get_directory_loop s rest d = get_directory_loop s (tl ?r') ?x"
        using False by (simp only: get_directory_loop_unfold [of s rest d] r if_False deref_def D Option.bind.simps f de_Morgan_disj)
      ultimately show ?thesis using less.hyps [OF lt x] by simp
    qed
  qed
qed

section \<open>Creating directories\<close>

text \<open>The state after a directory was linked behind the children \<open>ks\<close> of \<open>p\<close>.\<close>

definition link_dir :: "addr \<Rightarrow> addr list \<Rightarrow> addr \<Rightarrow> u8 list \<Rightarrow> ramfs \<Rightarrow> ramfs" where
  "link_dir p ks e name s = s\<lparr>mallocs := mallocs s + 1, totalEntryCount := totalEntryCount s + 1,
     dirs := (\<lambda>d. if d = e then Some \<lparr>dir_name = stored_name name, dir_next = 0, firstChild = 0, lastChild = 0, firstFile = 0, lastFile = 0\<rparr>
       else map_option (\<lambda>D. D\<lparr>dir_next := (if ks \<noteq> [] \<and> d = last ks then e else dir_next D),
              firstChild := (if d = p \<and> ks = [] then e else firstChild D), lastChild := (if d = p then e else lastChild D)\<rparr>) (dirs s d))\<rparr>"

lemma add_directory_link:
  assumes "fs_inv s K F" "dirs s p = Some P" "e = heap s (mallocs s)" "e \<noteq> 0" "dirs s e = None"
  shows "add_directory p name s = Some (link_dir p (K p) e name s)"
proof -
  have P: "lastChild P = last0 (K p)" "p \<noteq> 0" "p \<noteq> e" using fs_inv_entry [OF assms(1,2)] assms(2,5) by (auto simp: entry_ok_def)
  show ?thesis
  proof (cases "K p = []")
    case True
    then have "lastChild P = 0" using P(1) by simp
    then show ?thesis using True assms(2,3,4,5) P(2,3)
      by (auto simp: add_directory_def malloc_def Let_def deref_def link_dir_def fun_eq_iff option.map_ident intro!: ramfs.equality split: option.splits)
  next
    case False
    then have l: "lastChild P = last (K p)" "last (K p) \<noteq> 0" "dirs s (last (K p)) \<noteq> None"
      using P(1) fs_inv_mem(1) [OF assms(1), of "last (K p)" p] by (auto simp: last0_def)
    then obtain L where L: "dirs s (last (K p)) = Some L" by blast
    have "last (K p) \<noteq> e" using L assms(5) by auto
    then show ?thesis using False l(1,2) L assms(2,3,4,5) P(2,3)
      by (auto simp: add_directory_def malloc_def Let_def deref_def link_dir_def fun_eq_iff option.map_ident intro!: ramfs.equality split: option.splits)
  qed
qed

lemma disjoint_fam_snoc: "disjoint_fam K \<Longrightarrow> (\<And>d. e \<notin> List.set (K d)) \<Longrightarrow> disjoint_fam (K(p := K p @ [e]))"
  unfolding disjoint_fam_def by auto

lemma link_dir_inv:
  assumes "fs_inv s K F" "dirs s p = Some P" "e \<noteq> 0" "dirs s e = None"
  shows "fs_inv (link_dir p (K p) e name s) (K(p := K p @ [e])) F"
proof -
  let ?s = "link_dir p (K p) e name s" and ?K = "K(p := K p @ [e])"
  have ne: "p \<noteq> e" "e \<noteq> root s" using assms(1,2,4) by (auto simp: fs_inv_def)
  have eK: "e \<notin> List.set (K d)" for d using fs_inv_mem(1) [OF assms(1), of e d] assms(4) by auto
  have dj: "disjoint_fam K" "disjoint_fam F" using assms(1) by (simp_all add: fs_inv_def)
  have fn: "fnext ?s = fnext s" by (simp add: fnext_def link_dir_def)
  have dn: "dnext ?s = (if K p = [] then (dnext s)(e := Some 0) else (dnext s)(last (K p) := Some e, e := Some 0))"
  proof (cases "K p = []")
    case False
    then have "dirs s (last (K p)) \<noteq> None" using fs_inv_mem(1) [OF assms(1), of "last (K p)" p] by simp
    then show ?thesis using False by (auto simp: dnext_def link_dir_def fun_eq_iff option.map_comp o_def)
  qed (auto simp: dnext_def link_dir_def fun_eq_iff option.map_comp o_def)
  have dne: "dnext ?s e = Some 0" by (simp add: dn)
  have ch: "chain (dnext ?s) q (K d) \<longleftrightarrow> chain (dnext s) q (K d)" if "d \<noteq> p" for q d
  proof (rule fchain_cong)
    fix x assume "x \<in> List.set (K d)"
    moreover have "List.set (K d) \<inter> List.set (K p) = {}" using dj(1) that by (simp add: disjoint_fam_def)
    ultimately have "x \<noteq> e" "K p = [] \<or> x \<noteq> last (K p)" using eK by auto
    then show "dnext ?s x = dnext s x" by (auto simp: dn)
  qed
  have "case dirs ?s d of None \<Rightarrow> ?K d = [] \<and> F d = [] | Some D \<Rightarrow> entry_ok ?s (?K d) (F d) D" for d
  proof (cases "d = e")
    case True
    moreover have "K e = []" "F e = []" using assms(1,4) unfolding fs_inv_def by (metis option.simps(4))+
    ultimately show ?thesis using ne by (simp add: link_dir_def entry_ok_def)
  next
    case de: False
    show ?thesis
    proof (cases "dirs s d")
      case None
      then have "K d = [] \<and> F d = []" using assms(1) unfolding fs_inv_def by (metis option.simps(4))
      then show ?thesis using None de assms(2) by (auto simp: link_dir_def)
    next
      case (Some D)
      have D: "entry_ok s (K d) (F d) D" using fs_inv_entry [OF assms(1) Some] by simp
      let ?D = "D\<lparr>dir_next := (if K p \<noteq> [] \<and> d = last (K p) then e else dir_next D), firstChild := (if d = p \<and> K p = [] then e else firstChild D), lastChild := (if d = p then e else lastChild D)\<rparr>"
      have D': "dirs ?s d = Some ?D" using Some de by (simp add: link_dir_def)
      show ?thesis
      proof (cases "d = p")
        case False
        then show ?thesis using D D' ch [OF False] by (simp add: entry_ok_def fn)
      next
        case True
        have "chain (dnext ?s) (firstChild ?D) (K p @ [e])"
        proof (cases "K p = []")
          case False
          have "distinct (K p)" using dj(1) by (simp add: disjoint_fam_def)
          from chain_snoc [OF _ False this eK assms(3), of "dnext s" "firstChild D"] show ?thesis
            using D True False by (simp add: dn entry_ok_def)
        qed (use True assms(3) dne in simp)
        then show ?thesis using D D' True by (simp add: entry_ok_def fn)
      qed
    qed
  qed
  moreover have "disjoint_fam ?K" using disjoint_fam_snoc [OF dj(1) eK] .
  ultimately show ?thesis unfolding fs_inv_def using assms ne dj(2) by (auto simp: link_dir_def fs_inv_def)
qed

lemma dname_link_dir: "e \<noteq> x \<Longrightarrow> dirs s x \<noteq> None \<Longrightarrow> dname (link_dir p ks e name s) x = dname s x"
  "dname (link_dir p ks e name s) e = stored_name name"
  by (auto simp: dname_def link_dir_def)

text \<open>More children do not change where a path leads that was found before.\<close>

lemma walk_extend:
  assumes "walk K nm rest d \<noteq> 0" "\<And>d. prefix (K d) (K' d)" "\<And>d x. x \<in> List.set (K d) \<Longrightarrow> nm' x = nm x"
  shows "walk K' nm' rest d = walk K nm rest d"
  using assms(1)
proof (induction "length rest" arbitrary: rest d rule: less_induct)
  case less
  let ?r = "dropWhile (\<lambda>c. c = slash) rest"
  let ?n = "takeWhile (\<lambda>c. c \<noteq> slash) ?r" and ?r' = "dropWhile (\<lambda>c. c \<noteq> slash) ?r"
  let ?x = "found (\<lambda>x. prefix ?n (nm x)) (K d)" and ?x' = "found (\<lambda>x. prefix ?n (nm' x)) (K' d)"
  show ?case
  proof (cases "?r = []")
    case True
    then show ?thesis by (simp only: walk_unfold [of _ _ rest d] if_True simp_thms)
  next
    case r: False
    have x: "?x \<noteq> 0"
    proof
      assume "?x = 0"
      then have "walk K nm rest d = 0" by (simp only: walk_unfold [of K nm rest d] r if_False if_True simp_thms)
      then show False using less.prems by simp
    qed
    obtain zs where "K' d = K d @ zs" using assms(2) by (auto simp: prefix_def)
    moreover have "found (\<lambda>x. prefix ?n (nm' x)) (K d) = ?x" by (rule found_cong) (simp add: assms(3))
    ultimately have e: "?x' = ?x" using found_append x by metis
    have u: "walk K nm rest d = (if length ?r' \<le> 1 then ?x else walk K nm (tl ?r') ?x)"
      "walk K' nm' rest d = (if length ?r' \<le> 1 then ?x else walk K' nm' (tl ?r') ?x)"
      using x e by (simp_all only: walk_unfold [of _ _ rest d] r if_False simp_thms)
    show ?thesis
    proof (cases "length ?r' \<le> 1")
      case False
      have lt: "length (tl ?r') < length rest"
        using False length_dropWhile_le [of "\<lambda>c. c \<noteq> slash" ?r] length_dropWhile_le [of "\<lambda>c. c = slash" rest] by auto
      have "walk K nm (tl ?r') ?x \<noteq> 0" using less.prems u(1) False by (simp only: if_False simp_thms)
      from less.hyps [OF lt this] show ?thesis using u False by (simp only: if_False)
    qed (simp only: u if_True)
  qed
qed

definition resolve :: "ramfs \<Rightarrow> (addr \<Rightarrow> addr list) \<Rightarrow> u8 list \<Rightarrow> addr" where
  "resolve s K path = (if path = [] \<or> hd path \<noteq> slash then 0 else walk K (dname s) (tl path) (root s))"

lemma get_directory_resolve:
  assumes "fs_inv s K F" "n \<le> length path"
  shows "get_directory s path n = Some (
      if n = 0 \<or> hd path \<noteq> slash then (RAMFS_ERR_INVALID_PATH_FORMAT, 0)
      else if resolve s K (take n path) = 0 then (RAMFS_ERR_DIRECTORY_DOES_NOT_EXIST, 0) else (RAMFS_ERR_OK, resolve s K (take n path)))"
proof -
  have r: "dirs s (root s) \<noteq> None" using assms(1) by (simp add: fs_inv_def)
  note w = get_directory_loop_walk [OF assms(1) r]
  show "get_directory s path n = Some (
      if n = 0 \<or> hd path \<noteq> slash then (RAMFS_ERR_INVALID_PATH_FORMAT, 0)
      else if resolve s K (take n path) = 0 then (RAMFS_ERR_DIRECTORY_DOES_NOT_EXIST, 0) else (RAMFS_ERR_OK, resolve s K (take n path)))"
    using assms(2) w [of "tl (take n path)"] by (cases path; cases n) (auto simp: get_directory_def resolve_def Let_def)
qed

lemma resolve_dir:
  assumes "fs_inv s K F" "resolve s K path \<noteq> 0"
  shows "dirs s (resolve s K path) \<noteq> None"
proof -
  have "dirs s (root s) \<noteq> None" using assms(1) by (simp add: fs_inv_def)
  from get_directory_loop_walk [OF assms(1) this, of "tl path"] show ?thesis using assms(2) by (auto simp: resolve_def split: if_splits)
qed

lemma lock_simps [simp]: "fs_inv (s\<lparr>ramfsLock := b\<rparr>) = fs_inv s" "dname (s\<lparr>ramfsLock := b\<rparr>) = dname s" "fname (s\<lparr>ramfsLock := b\<rparr>) = fname s"
  "resolve (s\<lparr>ramfsLock := b\<rparr>) = resolve s"
proof -
  have "entry_ok (s\<lparr>ramfsLock := b\<rparr>) = entry_ok s" by (intro ext) (simp add: entry_ok_def dnext_def fnext_def)
  moreover have "dirs (s\<lparr>ramfsLock := b\<rparr>) = dirs s" "files (s\<lparr>ramfsLock := b\<rparr>) = files s" "root (s\<lparr>ramfsLock := b\<rparr>) = root s" by simp_all
  ultimately show "fs_inv (s\<lparr>ramfsLock := b\<rparr>) = fs_inv s" by (intro ext) (simp only: fs_inv_def)
  show "dname (s\<lparr>ramfsLock := b\<rparr>) = dname s" "fname (s\<lparr>ramfsLock := b\<rparr>) = fname s" by (intro ext, simp add: dname_def fname_def)+
  then show "resolve (s\<lparr>ramfsLock := b\<rparr>) = resolve s" by (intro ext) (simp add: resolve_def)
qed

lemma unlock_same: "\<not> ramfsLock s \<Longrightarrow> s\<lparr>ramfsLock := False\<rparr> = s"
  by simp

lemma link_dir_lock [simp]: "link_dir p ks e name (s\<lparr>ramfsLock := b\<rparr>) = (link_dir p ks e name s)\<lparr>ramfsLock := b\<rparr>"
  by (rule ramfs.equality) (simp_all add: link_dir_def cong: if_cong)

lemma link_dir_simps [simp]: "ramfsLock (link_dir p ks e name s) = ramfsLock s" "root (link_dir p ks e name s) = root s"
  "files (link_dir p ks e name s) = files s" "fileHandles (link_dir p ks e name s) = fileHandles s"
  "blocks (link_dir p ks e name s) = blocks s" "data (link_dir p ks e name s) = data s"
  by (simp_all add: link_dir_def)

lemma resolve_link_dir:
  assumes "fs_inv s K F" "resolve s K path \<noteq> 0" "dirs s e = None"
  shows "resolve (link_dir p (K p) e name s) (K(p := K p @ [e])) path = resolve s K path"
proof -
  have "dname (link_dir p (K p) e name s) x = dname s x" if "x \<in> List.set (K d)" for x d
    using fs_inv_mem(1) [OF assms(1) that] assms(3) by (intro dname_link_dir) auto
  then show ?thesis using assms(2) unfolding resolve_def by (auto intro!: walk_extend split: if_splits)
qed

lemma test_directory_at:
  assumes "fs_inv s K F" "\<not> ramfsLock s" "legal_dir_name name" "path \<noteq> []" "hd path = slash"
  shows "ramfs_test_directory path name s = Some (s, if resolve s K path = 0 then RAMFS_ERR_DIRECTORY_DOES_NOT_EXIST
     else if \<exists>x \<in> List.set (K (resolve s K path)). dname s x = name then RAMFS_ERR_DIRECTORY_EXISTS else RAMFS_ERR_DIRECTORY_DOES_NOT_EXIST)"
proof -
  let ?s = "s\<lparr>ramfsLock := True\<rparr>" and ?d = "resolve s K path"
  have i: "fs_inv ?s K F" using assms(1) by simp
  have g: "get_directory ?s path (length path) = Some (if ?d = 0 then (RAMFS_ERR_DIRECTORY_DOES_NOT_EXIST, 0) else (RAMFS_ERR_OK, ?d))"
    using get_directory_resolve [OF i order_refl, of path] assms(4,5) by simp
  show ?thesis
  proof (cases "?d = 0")
    case True
    then show ?thesis using g assms(2,3) by (simp add: ramfs_test_directory_def acquire_lock_def release_lock_def)
  next
    case False
    then obtain D where D: "dirs ?s ?d = Some D" using resolve_dir [OF i, of path] by auto
    have z: "0 \<notin> List.set (K ?d)" using fs_inv_mem(1) [OF assms(1), of 0 ?d] by auto
    have "find_entry (dirs ?s) dir_next (\<lambda>e. dir_name e = name) (firstChild D) = Some (found (\<lambda>x. dname s x = name) (K ?d))"
      using find_dir [OF i D] by (simp add: dname_def)
    then show ?thesis using g False D assms(2,3) found_0 [OF z, of "\<lambda>x. dname s x = name"]
      by (auto simp: ramfs_test_directory_def acquire_lock_def release_lock_def deref_def)
  qed
qed

lemma create_directory_at:
  assumes "fs_inv s K F" "\<not> ramfsLock s" "legal_dir_name name" "path \<noteq> []" "hd path = slash"
    "heap s (mallocs s) \<noteq> 0" "dirs s (heap s (mallocs s)) = None"
  shows "ramfs_create_directory path name s = Some (if resolve s K path = 0 then (s, RAMFS_ERR_DIRECTORY_DOES_NOT_EXIST)
     else if \<exists>x \<in> List.set (K (resolve s K path)). dname s x = name then (s, RAMFS_ERR_DIRECTORY_EXISTS)
     else (link_dir (resolve s K path) (K (resolve s K path)) (heap s (mallocs s)) name s, RAMFS_ERR_OK))"
proof -
  let ?s = "s\<lparr>ramfsLock := True\<rparr>" and ?d = "resolve s K path"
  have i: "fs_inv ?s K F" using assms(1) by simp
  have g: "get_directory ?s path (length path) = Some (if ?d = 0 then (RAMFS_ERR_DIRECTORY_DOES_NOT_EXIST, 0) else (RAMFS_ERR_OK, ?d))"
    using get_directory_resolve [OF i order_refl, of path] assms(4,5) by simp
  show ?thesis
  proof (cases "?d = 0")
    case True
    then show ?thesis using g assms(2,3) by (simp add: ramfs_create_directory_def acquire_lock_def release_lock_def)
  next
    case False
    then obtain D where D: "dirs ?s ?d = Some D" using resolve_dir [OF i, of path] by auto
    have z: "0 \<notin> List.set (K ?d)" using fs_inv_mem(1) [OF assms(1), of 0 ?d] by auto
    have f: "find_entry (dirs ?s) dir_next (\<lambda>e. dir_name e = name) (firstChild D) = Some (found (\<lambda>x. dname s x = name) (K ?d))"
      using find_dir [OF i D] by (simp add: dname_def)
    have a: "add_directory ?d name ?s = Some (link_dir ?d (K ?d) (heap s (mallocs s)) name ?s)"
      by (rule add_directory_link [OF i D]) (use assms(6,7) in simp_all)
    have "\<not> ramfsLock (link_dir ?d (K ?d) (heap s (mallocs s)) name s)" using assms(2) by simp
    then show ?thesis using g False D f a assms(2,3) found_0 [OF z, of "\<lambda>x. dname s x = name"]
      by (auto simp: ramfs_create_directory_def acquire_lock_def release_lock_def deref_def)
  qed
qed


lemma file_example_inv: "fs_inv file_example (\<lambda>_. []) ((\<lambda>_. [])(1 := [10]))"
  unfolding fs_inv_def
proof (intro conjI allI)
  fix d
  show "case dirs file_example d of None \<Rightarrow> [] = [] \<and> ((\<lambda>_. [])(1 := [10])) d = [] | Some D \<Rightarrow> entry_ok file_example [] (((\<lambda>_. [])(1 := [10])) d) D"
    by (cases "d = 1") (simp_all add: file_example_def entry_ok_def fnext_def)
qed (auto simp: file_example_def disjoint_fam_def)


text \<open>
  A component of a path is matched against the names of the children only in its own length: the path of one component
  leads to the first child whose name starts with it, even when another child has exactly this name.
\<close>

theorem get_directory_prefix:
  assumes "fs_inv s K F" "p \<noteq> []" "slash \<notin> List.set p"
  shows "get_directory s (slash # p) (Suc (length p)) = Some (case List.find (\<lambda>x. prefix p (dname s x)) (K (root s)) of
     None \<Rightarrow> (RAMFS_ERR_DIRECTORY_DOES_NOT_EXIST, 0) | Some x \<Rightarrow> (RAMFS_ERR_OK, x))"
proof -
  have d: "dropWhile (\<lambda>c. c = slash) p = p" "takeWhile (\<lambda>c. c \<noteq> slash) p = p" "dropWhile (\<lambda>c. c \<noteq> slash) p = []"
    using assms(2,3) by (cases p; auto simp: takeWhile_eq_all_conv)+
  have "walk K (dname s) p (root s) = found (\<lambda>x. prefix p (dname s x)) (K (root s))"
    using assms(2) by (simp add: walk_unfold [of K _ p] d)
  then have r: "resolve s K (slash # p) = found (\<lambda>x. prefix p (dname s x)) (K (root s))" by (simp add: resolve_def)
  have z: "0 \<notin> List.set (K (root s))" using fs_inv_mem(1) [OF assms(1), of 0] by auto
  show ?thesis unfolding case_find [OF z]
    using get_directory_resolve [OF assms(1), of "Suc (length p)" "slash # p"] by (simp add: r)
qed

text \<open>Two directories, of which the first has the name of the second as a prefix.\<close>

definition prefix_example :: ramfs where
  "prefix_example = file_example\<lparr>dirs :=
     [1 \<mapsto> \<lparr>dir_name = [], dir_next = 0, firstChild = 2, lastChild = 3, firstFile = 10, lastFile = 10\<rparr>,
      2 \<mapsto> \<lparr>dir_name = [97, 98], dir_next = 3, firstChild = 0, lastChild = 0, firstFile = 0, lastFile = 0\<rparr>,
      3 \<mapsto> \<lparr>dir_name = [97], dir_next = 0, firstChild = 0, lastChild = 0, firstFile = 0, lastFile = 0\<rparr>]\<rparr>"

lemma prefix_example_inv: "fs_inv prefix_example ((\<lambda>_. [])(1 := [2, 3])) ((\<lambda>_. [])(1 := [10]))"
  unfolding fs_inv_def
proof (intro conjI allI)
  fix d :: addr
  consider "d = 1" | "d = 2" | "d = 3" | "d \<noteq> 1" "d \<noteq> 2" "d \<noteq> 3" by blast
  then show "case dirs prefix_example d of None \<Rightarrow> ((\<lambda>_. [])(1 := [2, 3])) d = [] \<and> ((\<lambda>_. [])(1 := [10])) d = []
    | Some D \<Rightarrow> entry_ok prefix_example (((\<lambda>_. [])(1 := [2, 3])) d) (((\<lambda>_. [])(1 := [10])) d) D"
    by cases (simp_all add: prefix_example_def file_example_def entry_ok_def fnext_def dnext_def)
qed (auto simp: prefix_example_def file_example_def disjoint_fam_def)

theorem get_directory_prefix_witness:
  "get_directory prefix_example [47, 97] 2 = Some (RAMFS_ERR_OK, 2) \<and> dname prefix_example 2 = [97, 98] \<and> dname prefix_example 3 = [97]"
proof -
  have n: "dname prefix_example 2 = [97, 98]" "dname prefix_example 3 = [97]" "root prefix_example = 1"
    by (simp_all add: dname_def prefix_example_def file_example_def)
  have "get_directory prefix_example [47, 97] (Suc (length [97 :: u8])) = Some (RAMFS_ERR_OK, 2)"
    by (subst get_directory_prefix [OF prefix_example_inv]) (simp_all add: n)
  then show ?thesis using n by (simp add: numeral_2_eq_2)
qed

section \<open>Creating files\<close>

text \<open>The name and the directory of the path of a file, and the file that they lead to.\<close>

definition base_name :: "u8 list \<Rightarrow> u8 list" where
  "base_name path = rev (takeWhile (\<lambda>c. c \<noteq> slash) (rev path))"

definition parent_path :: "u8 list \<Rightarrow> u8 list" where
  "parent_path path = take (length path - length (base_name path)) path"

definition file_path :: "u8 list \<Rightarrow> bool" where
  "file_path path \<longleftrightarrow> path \<noteq> [] \<and> last path \<noteq> slash \<and> hd path = slash"

lemma file_path_parent: "file_path path \<Longrightarrow> length (base_name path) < length path \<and> path = parent_path path @ base_name path \<and> slash \<notin> List.set (base_name path)"
proof -
  assume a: "file_path path"
  have p: "path = rev (dropWhile (\<lambda>c. c \<noteq> slash) (rev path)) @ base_name path"
    unfolding base_name_def by (metis rev_append rev_rev_ident takeWhile_dropWhile_id)
  have "slash \<in> List.set (rev path)" using a by (cases path) (auto simp: file_path_def)
  then have "dropWhile (\<lambda>c. c \<noteq> slash) (rev path) \<noteq> []" by auto
  then have "length (base_name path) < length path" using arg_cong [OF p, of length] by auto
  moreover have "parent_path path = rev (dropWhile (\<lambda>c. c \<noteq> slash) (rev path))"
    unfolding parent_path_def by (subst (3) p) (use arg_cong [OF p, of length] in simp)
  moreover have "slash \<notin> List.set (base_name path)" by (auto simp: base_name_def dest: set_takeWhileD)
  ultimately show ?thesis using p by simp
qed

lemma get_file_entry_at:
  assumes "fs_inv s K F" "file_path path"
  defines "d \<equiv> resolve s K (parent_path path)"
  shows "get_file_entry s path = Some (if d = 0 then (RAMFS_ERR_DIRECTORY_DOES_NOT_EXIST, base_name path, 0, 0)
     else let f = found (\<lambda>x. fname s x = base_name path) (F d) in
       if f \<noteq> 0 then (RAMFS_ERR_OK, base_name path, f, d) else (RAMFS_ERR_FILE_DOES_NOT_EXIST, base_name path, 0, d))"
proof -
  note b = file_path_parent [OF assms(2)]
  have p: "path \<noteq> []" "last path \<noteq> slash" "hd path = slash" using assms(2) by (simp_all add: file_path_def)
  have g: "get_directory s path (length path - length (base_name path))
      = Some (if d = 0 then (RAMFS_ERR_DIRECTORY_DOES_NOT_EXIST, 0) else (RAMFS_ERR_OK, d))"
    using get_directory_resolve [OF assms(1), of "length path - length (base_name path)" path] b p by (simp add: d_def parent_path_def)
  show ?thesis
  proof (cases "d = 0")
    case True
    then show ?thesis using g p b by (simp add: get_file_entry_def Let_def base_name_def [symmetric])
  next
    case False
    then obtain D where D: "dirs s d = Some D" using resolve_dir [OF assms(1), of "parent_path path"] by (auto simp: d_def)
    have "find_entry (files s) file_next (\<lambda>f. file_name f = base_name path) (firstFile D) = Some (found (\<lambda>x. fname s x = base_name path) (F d))"
      using find_file [OF assms(1) D] by (simp add: fname_def)
    then show ?thesis using g p b False D by (simp add: get_file_entry_def Let_def base_name_def [symmetric] deref_def)
  qed
qed

end
