(* ===== verification/RamfsOpen.thy ===== *)
theory RamfsOpen
  imports RamfsDir
begin

text \<open>Opening, creating and deleting files through their paths.\<close>

section \<open>Creating files\<close>

text \<open>The state after a file with an empty block was linked behind the files \<open>fs\<close> of the directory \<open>d\<close>.\<close>

definition link_file :: "addr \<Rightarrow> addr list \<Rightarrow> u8 list \<Rightarrow> ramfs \<Rightarrow> ramfs" where
  "link_file d fs name s = (let e = heap s (mallocs s); b = heap s (mallocs s + 1); f = heap s (mallocs s + 2); D = the (dirs s d) in
     s\<lparr>mallocs := mallocs s + 3, totalEntryCount := totalEntryCount s + 1,
       data := (data s)(b := Some (map (junk s (mallocs s + 1)) [0..<4096])),
       blocks := (blocks s)(e := Some \<lparr>blk_prev = 0, blk_next = 0, blk_block = b, blk_size = 4096, blk_len = 0\<rparr>),
       files := (\<lambda>x. if x = f then Some \<lparr>file_name = stored_name name, isOpen = False, firstBlock = e, lastBlock = e, file_len = 0, file_next = 0\<rparr>
         else map_option (\<lambda>E. E\<lparr>file_next := (if fs \<noteq> [] \<and> x = last fs then f else file_next E)\<rparr>) (files s x)),
       dirs := (dirs s)(d := Some (D\<lparr>firstFile := (if fs = [] then f else firstFile D), lastFile := f\<rparr>))\<rparr>)"

definition fresh_file :: "ramfs \<Rightarrow> bool" where
  "fresh_file s \<longleftrightarrow> fresh s \<and> heap s (mallocs s + 2) \<noteq> 0 \<and> files s (heap s (mallocs s + 2)) = None"

lemma create_file_link:
  assumes "fs_inv s K F" "dirs s d = Some D" "fresh_file s" "slash \<notin> List.set name" "\<forall>x \<in> List.set (F d). fname s x \<noteq> name"
  shows "create_file d name s = Some (link_file d (F d) name s, RAMFS_ERR_OK, heap s (mallocs s + 2))"
proof -
  have D: "lastFile D = last0 (F d)" "d \<noteq> 0" using fs_inv_entry [OF assms(1,2)] by (auto simp: entry_ok_def)
  have "0 \<notin> List.set (F d)" using fs_inv_mem(2) [OF assms(1), of 0 d] by auto
  then have f: "find_entry (files s) file_next (\<lambda>e. file_name e = name) (firstFile D) = Some 0"
    using find_file [OF assms(1,2), of "\<lambda>e. file_name e = name"] found_0 [of "F d" "\<lambda>x. fname s x = name"] assms(5) by (simp add: fname_def)
  have fr: "heap s (mallocs s) \<noteq> 0" "heap s (mallocs s + 1) \<noteq> 0" "heap s (mallocs s + 2) \<noteq> 0" "files s (heap s (mallocs s + 2)) = None"
    using assms(3) by (simp_all add: fresh_file_def fresh_def)
  let ?s = "s\<lparr>mallocs := mallocs s + 2, data := (data s)(heap s (mallocs s + 1) := Some (map (junk s (mallocs s + 1)) [0..<4096])),
    blocks := (blocks s)(heap s (mallocs s) := Some \<lparr>blk_prev = 0, blk_next = 0, blk_block = heap s (mallocs s + 1), blk_size = 4096, blk_len = 0\<rparr>)\<rparr>"
  have nb: "new_block 0 FILE_MIN_BLOCK_SIZE s = Some (?s, heap s (mallocs s))"
    using fr(1,2) by (simp add: new_block_def malloc_def malloc_data_def Let_def FILE_MIN_BLOCK_SIZE_def del: upt_rec_numeral)
  show ?thesis
  proof (cases "F d = []")
    case True
    then have "lastFile D = 0" using D(1) by simp
    then have "create_file d name s = Some (?s\<lparr>mallocs := mallocs s + 3,
        files := (files s)(heap s (mallocs s + 2) := Some \<lparr>file_name = stored_name name, isOpen = False,
           firstBlock = heap s (mallocs s), lastBlock = heap s (mallocs s), file_len = 0, file_next = 0\<rparr>),
        dirs := (dirs s)(d := Some (D\<lparr>firstFile := heap s (mallocs s + 2), lastFile := heap s (mallocs s + 2)\<rparr>)),
        totalEntryCount := totalEntryCount s + 1\<rparr>, RAMFS_ERR_OK, heap s (mallocs s + 2))"
      using assms(2,4) f D(2) fr(3) by (simp add: create_file_def deref_def nb malloc_def Let_def numeral_3_eq_3 del: upt_rec_numeral)
    then show ?thesis using True assms(2) fr(4)
      by (simp add: link_file_def Let_def del: upt_rec_numeral) (rule ramfs.equality; simp add: fun_eq_iff option.map_ident del: upt_rec_numeral)
  next
    case False
    then have l: "lastFile D = last (F d)" "last (F d) \<noteq> 0" "files s (last (F d)) \<noteq> None"
      using D(1) fs_inv_mem(2) [OF assms(1), of "last (F d)" d] by (auto simp: last0_def)
    then obtain L where L: "files s (last (F d)) = Some L" by blast
    have ne: "last (F d) \<noteq> heap s (mallocs s + 2)" using L fr(4) by auto
    then have "create_file d name s = Some (?s\<lparr>mallocs := mallocs s + 3,
        files := (files s)(heap s (mallocs s + 2) := Some \<lparr>file_name = stored_name name, isOpen = False,
           firstBlock = heap s (mallocs s), lastBlock = heap s (mallocs s), file_len = 0, file_next = 0\<rparr>, last (F d) := Some (L\<lparr>file_next := heap s (mallocs s + 2)\<rparr>)),
        dirs := (dirs s)(d := Some (D\<lparr>lastFile := heap s (mallocs s + 2)\<rparr>)),
        totalEntryCount := totalEntryCount s + 1\<rparr>, RAMFS_ERR_OK, heap s (mallocs s + 2))"
      using l(1,2) L assms(2,4) f D(2) fr(3) by (simp add: create_file_def deref_def nb malloc_def Let_def numeral_3_eq_3 del: upt_rec_numeral)
    then show ?thesis using False assms(2) fr(4) L ne
      by (simp add: link_file_def Let_def del: upt_rec_numeral) (rule ramfs.equality; simp add: fun_eq_iff option.map_ident del: upt_rec_numeral)
  qed
qed

lemma link_file_inv:
  assumes "fs_inv s K F" "dirs s d = Some D" "fresh_file s"
  defines "f \<equiv> heap s (mallocs s + 2)"
  shows "fs_inv (link_file d (F d) name s) K (F(d := F d @ [f]))"
proof -
  let ?s = "link_file d (F d) name s" and ?F = "F(d := F d @ [f])"
  have fr: "f \<noteq> 0" "files s f = None" using assms(3) by (simp_all add: fresh_file_def f_def)
  have fF: "f \<notin> List.set (F x)" for x using fs_inv_mem(2) [OF assms(1), of f x] fr(2) by auto
  have dj: "disjoint_fam K" "disjoint_fam F" using assms(1) by (simp_all add: fs_inv_def)
  have dn: "dnext ?s = dnext s" using assms(2) by (auto simp: dnext_def link_file_def Let_def)
  have fn: "fnext ?s = (if F d = [] then (fnext s)(f := Some 0) else (fnext s)(last (F d) := Some f, f := Some 0))"
  proof (cases "F d = []")
    case False
    then have "files s (last (F d)) \<noteq> None" using fs_inv_mem(2) [OF assms(1), of "last (F d)" d] by simp
    then show ?thesis using False by (auto simp: fnext_def link_file_def Let_def f_def fun_eq_iff option.map_comp o_def)
  qed (auto simp: fnext_def link_file_def Let_def f_def fun_eq_iff option.map_comp o_def)
  have fne: "fnext ?s f = Some 0" by (simp add: fn)
  have ch: "chain (fnext ?s) q (F x) \<longleftrightarrow> chain (fnext s) q (F x)" if "x \<noteq> d" for q x
  proof (rule fchain_cong)
    fix y assume "y \<in> List.set (F x)"
    moreover have "List.set (F x) \<inter> List.set (F d) = {}" using dj(2) that by (simp add: disjoint_fam_def)
    ultimately have "y \<noteq> f" "F d = [] \<or> y \<noteq> last (F d)" using fF by auto
    then show "fnext ?s y = fnext s y" by (auto simp: fn)
  qed
  have "case dirs ?s x of None \<Rightarrow> K x = [] \<and> ?F x = [] | Some E \<Rightarrow> entry_ok ?s (K x) (?F x) E" for x
  proof (cases "x = d")
    case True
    have D: "entry_ok s (K d) (F d) D" using fs_inv_entry [OF assms(1,2)] by simp
    let ?D = "D\<lparr>firstFile := (if F d = [] then f else firstFile D), lastFile := f\<rparr>"
    have D': "dirs ?s d = Some ?D" using assms(2) by (simp add: link_file_def Let_def f_def)
    have "chain (fnext ?s) (firstFile ?D) (F d @ [f])"
    proof (cases "F d = []")
      case False
      have "distinct (F d)" using dj(2) by (simp add: disjoint_fam_def)
      from chain_snoc [OF _ False this fF fr(1), of "fnext s" "firstFile D"] show ?thesis
        using D False by (simp add: fn entry_ok_def)
    qed (use fr(1) fne in simp)
    then show ?thesis using D D' True by (simp add: entry_ok_def dn)
  next
    case False
    have "dirs ?s x = dirs s x" using False by (simp add: link_file_def Let_def)
    then show ?thesis using False assms(1) ch [OF False] unfolding fs_inv_def
      by (cases "dirs s x") (auto simp: entry_ok_def dn dest!: spec [of _ x])
  qed
  moreover have "disjoint_fam ?F" using disjoint_fam_snoc [OF dj(2) fF] .
  ultimately show ?thesis unfolding fs_inv_def using assms(1,2) fr dj(1) by (auto simp: link_file_def Let_def fs_inv_def f_def)
qed

section \<open>Handles\<close>

definition mark :: "addr \<Rightarrow> bool \<Rightarrow> ramfs \<Rightarrow> ramfs" where
  "mark f b s = s\<lparr>files := (files s)(f := map_option (\<lambda>E. E\<lparr>isOpen := b\<rparr>) (files s f))\<rparr>"

text \<open>States that agree on the tree and the structure of the files.\<close>

definition same_tree :: "ramfs \<Rightarrow> ramfs \<Rightarrow> bool" where
  "same_tree s s' \<longleftrightarrow> dirs s' = dirs s \<and> root s' = root s \<and> (\<exists>b. \<forall>x. files s' x = map_option (\<lambda>E. E\<lparr>isOpen := b x E\<rparr>) (files s x))
     \<and> blocks s' = blocks s \<and> data s' = data s \<and> heap s' = heap s \<and> mallocs s' = mallocs s"

lemma same_tree_inv:
  assumes "same_tree s s'"
  shows "fs_inv s' = fs_inv s" "resolve s' = resolve s" "fname s' = fname s" "file_rep s' = file_rep s" "content s' = content s"
    "handle_at s' = handle_at s" "fresh s' = fresh s" "fresh_file s' = fresh_file s" "dname s' = dname s"
proof -
  from assms obtain b where t: "dirs s' = dirs s" "root s' = root s" "\<And>x. files s' x = map_option (\<lambda>E. E\<lparr>isOpen := b x E\<rparr>) (files s x)"
    "blocks s' = blocks s" "data s' = data s" "heap s' = heap s" "mallocs s' = mallocs s" unfolding same_tree_def by metis
  have n: "dnext s' = dnext s" "fnext s' = fnext s" "dname s' = dname s"
    by (auto simp: dnext_def fnext_def dname_def t option.map_comp o_def)
  have "entry_ok s' = entry_ok s" by (intro ext) (simp only: entry_ok_def n)
  moreover have "files s' 0 = None \<longleftrightarrow> files s 0 = None" by (simp add: t)
  ultimately show "fs_inv s' = fs_inv s" by (intro ext) (simp only: fs_inv_def t)
  show "resolve s' = resolve s" by (intro ext) (simp only: resolve_def n t)
  show "dname s' = dname s" by (rule n)
  show "fname s' = fname s"
  proof
    fix x
    show "fname s' x = fname s x"
    proof (cases "files s x")
      case None
      then have "files s' x = files s x" by (simp add: t(3))
      then show ?thesis by (simp only: fname_def)
    qed (simp add: fname_def t(3))
  qed
  have d: "blk_data s' = blk_data s" by (intro ext) (simp only: blk_data_def t)
  have c: "blk_cont s' = blk_cont s" by (intro ext) (simp only: blk_cont_def d t)
  show e: "content s' = content s" by (intro ext) (simp only: content_def c)
  show "handle_at s' = handle_at s" by (intro ext) (simp only: handle_at_def e c)
  have l: "linked s' q p xs = linked s q p xs" for q p xs by (rule linked_cong) (simp add: t)
  have o: "block_ok s' = block_ok s" by (intro ext) (simp only: block_ok_def t)
  show "file_rep s' = file_rep s"
  proof (intro ext)
    fix f bs
    show "file_rep s' f bs = file_rep s f bs" unfolding file_rep_def l o d e t(3) by (cases "files s f") auto
  qed
  show f: "fresh s' = fresh s" by (simp add: fresh_def t)
  show "fresh_file s' = fresh_file s" by (simp add: fresh_file_def f t)
qed

lemma same_tree_refl [simp]: "same_tree s s"
  by (auto simp: same_tree_def option.map_ident intro!: exI [of _ "\<lambda>_. isOpen"])

lemma same_tree_trans: "same_tree s s1 \<Longrightarrow> same_tree s1 s2 \<Longrightarrow> same_tree s s2"
proof -
  assume a: "same_tree s s1" "same_tree s1 s2"
  obtain b where b: "\<forall>x. files s1 x = map_option (\<lambda>E. E\<lparr>isOpen := b x E\<rparr>) (files s x)" using a(1) unfolding same_tree_def by blast
  obtain c where c: "\<forall>x. files s2 x = map_option (\<lambda>E. E\<lparr>isOpen := c x E\<rparr>) (files s1 x)" using a(2) unfolding same_tree_def by blast
  have "\<forall>x. files s2 x = map_option (\<lambda>E. E\<lparr>isOpen := c x (E\<lparr>isOpen := b x E\<rparr>)\<rparr>) (files s x)"
    by (simp add: b c option.map_comp o_def)
  then have "\<exists>b. \<forall>x. files s2 x = map_option (\<lambda>E. E\<lparr>isOpen := b x E\<rparr>) (files s x)" by (rule exI [of _ "\<lambda>x E. c x (E\<lparr>isOpen := b x E\<rparr>)"])
  then show ?thesis using a by (simp add: same_tree_def)
qed

lemma same_tree_mark [simp]: "same_tree s (mark f b s)"
  by (auto simp: same_tree_def mark_def option.map_ident intro!: exI [of _ "\<lambda>x E. if x = f then b else isOpen E"])

lemma same_tree_put [simp]: "same_tree s (put_handle fd h s)" "same_tree s (s\<lparr>ramfsLock := l\<rparr>)"
  by (auto simp: same_tree_def option.map_ident intro!: exI [of _ "\<lambda>_. isOpen"])

lemma find_free_cases:
  "find_free hs i = -1 \<and> (\<forall>h \<in> List.set hs. active h)
   \<or> (\<exists>k < length hs. find_free hs i = int (i + k) \<and> \<not> active (hs ! k) \<and> (\<forall>j < k. active (hs ! j)))"
proof (induction hs arbitrary: i)
  case (Cons h hs)
  show ?case
  proof (cases "active h")
    case True
    from Cons.IH [of "i + 1"] show ?thesis
    proof
      assume "\<exists>k < length hs. find_free hs (i + 1) = int (i + 1 + k) \<and> \<not> active (hs ! k) \<and> (\<forall>j < k. active (hs ! j))"
      then obtain k where "k < length hs" "find_free hs (i + 1) = int (i + 1 + k)" "\<not> active (hs ! k)" "\<forall>j < k. active (hs ! j)" by blast
      then show ?thesis using True by (intro disjI2 exI [of _ "Suc k"]) (auto simp: nth_Cons split: nat.splits)
    qed (use True in simp)
  qed simp
qed simp

lemma find_free_some:
  assumes "h \<in> List.set hs" "\<not> active h"
  shows "\<exists>k < length hs. find_free hs 0 = int k \<and> \<not> active (hs ! k) \<and> (\<forall>j < k. active (hs ! j))"
proof -
  have "\<not> (\<forall>h \<in> List.set hs. active h)" using assms by blast
  then show ?thesis using find_free_cases [of hs 0] by (simp, blast)
qed

definition open_handle :: "addr \<Rightarrow> ramfs_file \<Rightarrow> ramfs_file_handle" where
  "open_handle f E = \<lparr>active = True, h_file = f, h_pos = 0, currentBlock = firstBlock E, currentBlockPosition = 0\<rparr>"

lemma open_existing:
  assumes "fs_inv s K F" "\<not> ramfsLock s" "file_path path" "resolve s K (parent_path path) = d" "d \<noteq> 0"
    "found (\<lambda>x. fname s x = base_name path) (F d) = f" "f \<noteq> 0" "find_free (fileHandles s) 0 = int k"
  shows "\<exists>E. files s f = Some E \<and> ramfs_open path c s = Some (put_handle (int k) (open_handle f E) (mark f True s), RAMFS_ERR_OK, int k)"
proof -
  let ?s = "s\<lparr>ramfsLock := True\<rparr>"
  have i: "fs_inv ?s K F" using assms(1) by simp
  have g: "get_file_entry ?s path = Some (RAMFS_ERR_OK, base_name path, f, d)"
    using get_file_entry_at [OF i assms(3)] assms(4-7) by (simp add: Let_def)
  have "f \<in> List.set (F d)" using found_mem assms(6,7) by metis
  then obtain E where E: "files s f = Some E" using fs_inv_mem(2) [OF assms(1), of f d] by auto
  have "ramfs_open path c s = Some (put_handle (int k) (open_handle f E) (mark f True s), RAMFS_ERR_OK, int k)"
    using assms(2,7,8) g E by (simp add: ramfs_open_def acquire_lock_def release_lock_def deref_def put_handle_def mark_def open_handle_def)
  then show ?thesis using E by blast
qed

lemma open_new:
  assumes "fs_inv s K F" "\<not> ramfsLock s" "file_path path" "resolve s K (parent_path path) = d" "d \<noteq> 0"
    "\<forall>x \<in> List.set (F d). fname s x \<noteq> base_name path" "fresh_file s" "find_free (fileHandles s) 0 = int k"
  defines "s1 \<equiv> link_file d (F d) (base_name path) s" and "f \<equiv> heap s (mallocs s + 2)"
  shows "ramfs_open path True s = Some (put_handle (int k) (open_handle f (the (files s1 f))) (mark f True s1), RAMFS_ERR_OK, int k)"
proof -
  let ?s = "s\<lparr>ramfsLock := True\<rparr>"
  have i: "fs_inv ?s K F" using assms(1) by simp
  have z: "0 \<notin> List.set (F d)" using fs_inv_mem(2) [OF assms(1), of 0 d] by auto
  then have "found (\<lambda>x. fname s x = base_name path) (F d) = 0" using found_0 [OF z, of "\<lambda>x. fname s x = base_name path"] assms(6) by simp
  then have g: "get_file_entry ?s path = Some (RAMFS_ERR_FILE_DOES_NOT_EXIST, base_name path, 0, d)"
    using get_file_entry_at [OF i assms(3)] assms(4,5) by (simp add: Let_def)
  obtain D where D: "dirs ?s d = Some D" using resolve_dir [OF assms(1), of "parent_path path"] assms(4,5) by auto
  have ff: "fresh_file ?s" using same_tree_inv(8) [OF same_tree_put(2)] assms(7) by blast
  have c: "create_file d (base_name path) ?s = Some (link_file d (F d) (base_name path) ?s, RAMFS_ERR_OK, f)"
    using create_file_link [OF i D ff] file_path_parent [OF assms(3)] assms(6) by (simp add: f_def)
  have l: "link_file d (F d) (base_name path) ?s = s1\<lparr>ramfsLock := True\<rparr>" "ramfsLock s1 = False" "fileHandles s1 = fileHandles s" "files s1 f \<noteq> None"
    unfolding s1_def using assms(2) by (simp_all add: link_file_def Let_def f_def del: upt_rec_numeral cong: if_cong)
  then obtain E where E: "files s1 f = Some E" by blast
  have "f \<noteq> 0" using assms(7) by (simp add: fresh_file_def f_def)
  then show ?thesis
    using assms(2,8) g c l E by (simp add: ramfs_open_def acquire_lock_def release_lock_def deref_def put_handle_def mark_def open_handle_def)
qed

lemma opened_file:
  assumes "file_rep s f bs" "files s f = Some E" "k < length (fileHandles s)" "length (fileHandles s) = FILE_HANDLE_COUNT"
  shows "open_file (put_handle (int k) (open_handle f E) (mark f True s)) (int k) f [] bs"
proof -
  have t: "same_tree s (mark f True s)" by simp
  have "linked s 0 (firstBlock E) bs" using assms(1,2) by (auto simp: file_rep_def)
  then have "firstBlock E = hd0 bs" by (cases bs) auto
  then have "handle_at s (open_handle f E) [] bs" by (cases bs) (auto simp: handle_at_def open_handle_def)
  then show ?thesis using assms(1,3,4)
    by (simp add: open_file_def valid_fd_def fileHandles_put_handle same_tree_inv(4,6) [OF t]) (simp add: mark_def open_handle_def)
qed

lemma link_file_simps [simp]: "root (link_file d fs name s) = root s" "ramfsLock (link_file d fs name s) = ramfsLock s"
  "fileHandles (link_file d fs name s) = fileHandles s"
  by (simp_all add: link_file_def Let_def del: upt_rec_numeral)

lemma link_file_resolve:
  assumes "dirs s d = Some D"
  shows "dname (link_file d fs name s) = dname s" "resolve (link_file d fs name s) = resolve s"
proof -
  show d: "dname (link_file d fs name s) = dname s" using assms by (auto simp: dname_def link_file_def Let_def)
  show "resolve (link_file d fs name s) = resolve s" by (intro ext) (simp only: resolve_def d link_file_simps)
qed

lemma link_file_fname:
  assumes "fresh_file s"
  shows "fname (link_file d fs name s) (heap s (mallocs s + 2)) = stored_name name"
    "files s x \<noteq> None \<Longrightarrow> fname (link_file d fs name s) x = fname s x"
  using assms by (auto simp: fname_def link_file_def Let_def fresh_file_def)

lemma link_file_rep:
  fixes d :: addr and fs :: "addr list" and name :: "u8 list"
  assumes "fresh_file s"
  defines "s1 \<equiv> link_file d fs name s"
  shows "file_rep s1 (heap s (mallocs s + 2)) [heap s (mallocs s)]" "content s1 [heap s (mallocs s)] = []"
    "file_rep s g cs \<Longrightarrow> file_rep s1 g cs \<and> content s1 cs = content s cs"
proof -
  let ?e = "heap s (mallocs s)" and ?b = "heap s (mallocs s + 1)" and ?f = "heap s (mallocs s + 2)"
  have fr: "?e \<noteq> 0" "blocks s ?e = None" "?b \<noteq> 0" "data s ?b = None" "?f \<noteq> 0" "files s ?f = None"
    using assms(1) by (simp_all add: fresh_file_def fresh_def)
  show c: "content s1 [?e] = []" by (simp add: s1_def link_file_def Let_def blk_cont_def del: upt_rec_numeral)
  show "file_rep s1 ?f [?e]"
    using fr c by (simp add: file_rep_def s1_def link_file_def Let_def block_ok_def del: upt_rec_numeral)
  assume g: "file_rep s g cs"
  then obtain E where E: "files s g = Some E" by (auto simp: file_rep_def)
  define l where "l = (if fs \<noteq> [] \<and> g = last fs then ?f else file_next E)"
  have gl: "files s1 g = Some (E\<lparr>file_next := l\<rparr>)" using E fr(6) by (auto simp: s1_def link_file_def Let_def l_def simp del: upt_rec_numeral)
  have ok: "block_ok s x" if "x \<in> List.set cs" for x using g that by (simp add: file_rep_def)
  have k: "blocks s1 x = blocks s x" "data s1 (blk_data s x) = data s (blk_data s x)" if "x \<in> List.set cs" for x
    using ok [OF that] fr(2,4) by (auto simp: block_ok_def blk_data_def s1_def link_file_def Let_def simp del: upt_rec_numeral)
  have c: "content s1 cs = content s cs" by (rule content_cong, rule blk_cont_cong) (simp_all add: k)
  have li: "linked s1 q p cs = linked s q p cs" for q p by (rule linked_cong) (simp add: k)
  have o: "(\<forall>x \<in> List.set cs. block_ok s1 x) = (\<forall>x \<in> List.set cs. block_ok s x)"
    by (rule ball_cong [OF refl], rule block_ok_cong) (simp_all add: k)
  have d: "map (blk_data s1) cs = map (blk_data s) cs" using k(1) by (auto simp: blk_data_def)
  show "file_rep s1 g cs \<and> content s1 cs = content s cs" using g unfolding file_rep_def c li o d gl E by simp
qed

text \<open>
  C30. Opening a file that does not exist with \<^verbatim>\<open>create\<close> set, in an existing directory and with a free handle, never faults: it
  adds one empty file as the last one of the directory, keeps the tree well formed, all paths and the contents of all
  other files, and returns the first free handle at position 0 of the new file; the path then leads to this file.
\<close>

theorem ramfs_open_creates:
  fixes path :: "u8 list"
  assumes "fs_inv s K F" "\<not> ramfsLock s" "length (fileHandles s) = FILE_HANDLE_COUNT" "\<exists>h \<in> List.set (fileHandles s). \<not> active h"
    "file_path path" "resolve s K (parent_path path) = d" "d \<noteq> 0" "\<forall>x \<in> List.set (F d). fname s x \<noteq> base_name path"
    "length (base_name path) \<le> 63" "fresh_file s"
  shows "\<exists>s' k f b. ramfs_open path True s = Some (s', RAMFS_ERR_OK, int k)
    \<and> \<not> active (fileHandles s ! k) \<and> (\<forall>j < k. active (fileHandles s ! j))
    \<and> fs_inv s' K (F(d := F d @ [f])) \<and> resolve s' = resolve s \<and> \<not> ramfsLock s'
    \<and> open_file s' (int k) f [] [b] \<and> content s' [b] = [] \<and> ramfs_tell (int k) s' = 0
    \<and> get_file_entry s' path = Some (RAMFS_ERR_OK, base_name path, f, d)
    \<and> (\<forall>g cs. file_rep s g cs \<longrightarrow> file_rep s' g cs \<and> content s' cs = content s cs)"
proof -
  let ?f = "heap s (mallocs s + 2)" and ?b = "heap s (mallocs s)"
  let ?s1 = "link_file d (F d) (base_name path) s" and ?F = "F(d := F d @ [?f])"
  obtain k where k: "find_free (fileHandles s) 0 = int k" "k < length (fileHandles s)" "\<not> active (fileHandles s ! k)" "\<forall>j < k. active (fileHandles s ! j)"
    using find_free_some assms(4) by blast
  obtain D where D: "dirs s d = Some D" using resolve_dir [OF assms(1), of "parent_path path"] assms(6,7) by auto
  define E where "E = the (files ?s1 ?f)"
  define s' where "s' = put_handle (int k) (open_handle ?f E) (mark ?f True ?s1)"
  have o: "ramfs_open path True s = Some (s', RAMFS_ERR_OK, int k)"
    using open_new [OF assms(1,2,5,6,7,8,10) k(1)] by (simp add: s'_def E_def)
  have t: "same_tree ?s1 s'" unfolding s'_def by (rule same_tree_trans [OF same_tree_mark same_tree_put(1)])
  note rep = link_file_rep [OF assms(10), where d = d and fs = "F d" and name = "base_name path"]
  have E: "files ?s1 ?f = Some E" using rep(1) by (auto simp: file_rep_def E_def)
  have i: "fs_inv s' K ?F" using link_file_inv [OF assms(1) D assms(10)] same_tree_inv(1) [OF t] by simp
  have r: "resolve s' = resolve s" using same_tree_inv(2) [OF t] link_file_resolve(2) [OF D] by simp
  have n: "fname s' ?f = base_name path" "\<forall>x \<in> List.set (F d). fname s' x \<noteq> base_name path"
    using same_tree_inv(3) [OF t] link_file_fname [OF assms(10)] assms(8,9) fs_inv_mem(2) [OF assms(1)] by (simp_all add: stored_name_def)
  have "found (\<lambda>x. fname s' x = base_name path) (F d @ [?f]) = ?f"
    using n by (intro found_snoc) auto
  then have g: "get_file_entry s' path = Some (RAMFS_ERR_OK, base_name path, ?f, d)"
    using get_file_entry_at [OF i assms(5)] r assms(6,7,10) by (simp add: fresh_file_def Let_def)
  have op: "open_file s' (int k) ?f [] [?b]" unfolding s'_def by (rule opened_file [OF rep(1) E]) (use k(2) assms(3) in simp_all)
  have tl: "ramfs_tell (int k) s' = 0" using open_fileD(6) [OF op] k(2) by (simp add: s'_def fileHandles_put_handle mark_def open_handle_def)
  have lk: "\<not> ramfsLock s'" using assms(2) by (simp add: s'_def mark_def)
  have rest: "file_rep s' g cs \<and> content s' cs = content s cs" if "file_rep s g cs" for g cs
    using rep(3) [OF that] same_tree_inv(4,5) [OF t] by simp
  have ct: "content s' [?b] = []" using rep(2) same_tree_inv(5) [OF t] by simp
  show ?thesis using o k(3,4) i r lk op ct tl g rest by blast
qed

section \<open>Deleting files\<close>

lemma chain_append: "chain nx p (xs @ ys) \<Longrightarrow> p = hd0 (xs @ ys) \<and> chain nx (hd0 ys) ys"
proof (induction xs arbitrary: p)
  case Nil
  then show ?case using chain_hd [of nx p ys] by auto
qed auto

lemma chain_next: "chain nx p (xs @ f # ys) \<Longrightarrow> nx f = Some (hd0 ys)"
  by (induction xs arbitrary: p) (auto dest: chain_hd)

lemma chain_remove:
  assumes "chain nx p (xs @ f # ys)" "distinct (xs @ f # ys)"
  shows "chain (if xs = [] then nx(f := None) else nx(last xs := Some (hd0 ys), f := None)) (hd0 (xs @ ys)) (xs @ ys)"
  using assms
proof (induction xs arbitrary: p)
  case Nil
  then have "chain nx (hd0 ys) ys" using chain_append [of nx p "[f]" ys] by simp
  moreover have "chain (nx(f := None)) (hd0 ys) ys = chain nx (hd0 ys) ys" by (rule fchain_cong) (use Nil.prems(2) in auto)
  ultimately show ?case by (simp only: append_Nil if_True simp_thms)
next
  case (Cons x xs)
  obtain n where n: "nx x = Some n" "x \<noteq> 0" "chain nx n (xs @ f # ys)" using Cons.prems(1) by auto
  show ?case
  proof (cases "xs = []")
    case True
    have "chain nx (hd0 ys) ys" using n(3) True chain_append [of nx n "[f]" ys] by simp
    moreover have "chain (nx(x := Some (hd0 ys), f := None)) (hd0 ys) ys = chain nx (hd0 ys) ys"
      by (rule fchain_cong) (use Cons.prems(2) in auto)
    moreover have "x \<noteq> f" using Cons.prems(2) by auto
    ultimately show ?thesis using True n by (simp add: fun_upd_def)
  next
    case False
    have "n = hd0 xs" using chain_append [OF n(3)] False by (cases xs) auto
    moreover have "x \<noteq> last xs" "x \<noteq> f" using Cons.prems(2) False by auto
    ultimately show ?thesis using Cons.IH [OF n(3)] Cons.prems(2) False n by (cases xs) (auto simp: fun_upd_def)
  qed
qed

definition unlinked :: "addr \<Rightarrow> addr list \<Rightarrow> addr list \<Rightarrow> ramfs \<Rightarrow> ramfs" where
  "unlinked d xs ys s = s\<lparr>files := (if xs = [] then files s else (files s)(last xs := map_option (\<lambda>E. E\<lparr>file_next := hd0 ys\<rparr>) (files s (last xs)))),
     dirs := (dirs s)(d := map_option (\<lambda>D. D\<lparr>firstFile := hd0 (xs @ ys), lastFile := last0 (xs @ ys)\<rparr>) (dirs s d))\<rparr>"

lemma unlink_loop_at:
  assumes "chain (fnext s) p (xs @ f # ys)" "distinct (xs @ f # ys)" "dirs s d = Some D" "d \<noteq> 0" "xs \<noteq> []" "files s f = Some E"
  shows "unlink_loop d f p s = Some (s\<lparr>files := (files s)(last xs := map_option (\<lambda>G. G\<lparr>file_next := file_next E\<rparr>) (files s (last xs))),
     dirs := (dirs s)(d := Some (D\<lparr>lastFile := (if lastFile D = f then last xs else lastFile D)\<rparr>))\<rparr>)"
  using assms(1,2,5)
proof (induction xs arbitrary: p)
  case (Cons x xs)
  have f: "f \<noteq> 0" using chain_mem [OF Cons.prems(1), of f] by simp
  obtain X where X: "p = x" "x \<noteq> 0" "files s x = Some X" "chain (fnext s) (file_next X) (xs @ f # ys)" using Cons.prems(1) by (auto simp: fnext_def)
  have ne: "x \<noteq> f" using Cons.prems(2) by auto
  show ?case
  proof (cases "xs = []")
    case True
    then have "file_next X = f" using X(4) by simp
    then show ?thesis using X ne True assms(3,4,6) f by (subst unlink_loop.simps) (auto simp: deref_def Let_def fun_upd_idem intro!: ramfs.equality)
  next
    case False
    have "file_next X = hd0 xs" using chain_append [OF X(4)] False by (cases xs) auto
    moreover have "hd0 xs \<noteq> f" using Cons.prems(2) False hd0_in_set [OF False] by auto
    ultimately have "unlink_loop d f p s = unlink_loop d f (file_next X) s" using X ne by (subst unlink_loop.simps) simp
    moreover have "distinct (xs @ f # ys)" using Cons.prems(2) by simp
    ultimately show ?thesis using Cons.IH [OF X(4) _ False] by (simp only: last_ConsR [OF False])
  qed
qed simp

lemma free_blocks_at:
  assumes "linked s q p bs" "distinct bs" "0 \<notin> List.set bs"
  shows "free_blocks p s = Some (s\<lparr>data := (\<lambda>x. if x \<in> blk_data s ` List.set bs then None else data s x),
     blocks := (\<lambda>x. if x \<in> List.set bs then None else blocks s x)\<rparr>)"
  using assms
proof (induction bs arbitrary: s q p)
  case Nil
  then show ?case by (subst free_blocks.simps) simp
next
  case (Cons x xs)
  obtain b where b: "p = x" "x \<noteq> 0" "blocks s x = Some b" "linked s x (blk_next b) xs" using Cons.prems by auto
  let ?s = "s\<lparr>data := (data s)(blk_block b := None), blocks := (blocks s)(x := None)\<rparr>"
  have "linked ?s x (blk_next b) xs = linked s x (blk_next b) xs" by (rule linked_cong) (use Cons.prems(2) in auto)
  then have "linked ?s x (blk_next b) xs" using b(4) by simp
  then have "free_blocks (blk_next b) ?s = Some (?s\<lparr>data := (\<lambda>y. if y \<in> blk_data ?s ` List.set xs then None else data ?s y), blocks := (\<lambda>y. if y \<in> List.set xs then None else blocks ?s y)\<rparr>)"
    using Cons.IH [of ?s x "blk_next b"] Cons.prems by simp
  moreover have "blk_data ?s ` List.set xs = blk_data s ` List.set xs" using Cons.prems(2) by (intro image_cong) (auto simp: blk_data_def)
  moreover have "blk_data s x = blk_block b" using b(3) by (simp add: blk_data_def)
  ultimately show ?case using b by (subst free_blocks.simps) (auto simp: fun_eq_iff intro!: ramfs.equality)
qed

text \<open>The state after a file with the blocks \<open>bs\<close> was removed from between \<open>xs\<close> and \<open>ys\<close>.\<close>

definition deleted :: "addr \<Rightarrow> addr list \<Rightarrow> addr \<Rightarrow> addr list \<Rightarrow> addr list \<Rightarrow> ramfs \<Rightarrow> ramfs" where
  "deleted d xs f ys bs s = (let s1 = unlinked d xs ys s in
     s1\<lparr>data := (\<lambda>x. if x \<in> blk_data s ` List.set bs then None else data s x),
        blocks := (\<lambda>x. if x \<in> List.set bs then None else blocks s x), files := (files s1)(f := None)\<rparr>)"

lemma found_split: "found c xs = x \<Longrightarrow> x \<noteq> 0 \<Longrightarrow> distinct xs \<Longrightarrow> \<exists>ys zs. xs = ys @ x # zs"
  using found_mem split_list by metis

lemma delete_at:
  assumes "fs_inv s K F" "\<not> ramfsLock s" "file_path path" "resolve s K (parent_path path) = d" "d \<noteq> 0"
    "found (\<lambda>x. fname s x = base_name path) (F d) = f" "f \<noteq> 0" "files s f = Some E" "\<not> isOpen E" "file_rep s f bs" "F d = xs @ f # ys"
  shows "ramfs_delete path s = Some (deleted d xs f ys bs s, RAMFS_ERR_OK)"
proof -
  let ?s = "s\<lparr>ramfsLock := True\<rparr>"
  have i: "fs_inv ?s K F" using assms(1) by simp
  have g: "get_file_entry ?s path = Some (RAMFS_ERR_OK, base_name path, f, d)"
    using get_file_entry_at [OF i assms(3)] assms(4-7) by (simp add: Let_def)
  obtain D where D: "dirs s d = Some D" using resolve_dir [OF assms(1), of "parent_path path"] assms(4,5) by auto
  have e: "chain (fnext s) (firstFile D) (xs @ f # ys)" "lastFile D = last0 (xs @ f # ys)"
    using fs_inv_entry [OF assms(1) D] assms(11) by (auto simp: entry_ok_def)
  have dist: "distinct (xs @ f # ys)" using assms(1,11) by (metis disjoint_fam_def fs_inv_def)
  have nx: "file_next E = hd0 ys"
    using chain_next [OF e(1)] assms(8) by (simp add: fnext_def)
  have li: "linked s 0 (firstBlock E) bs" "distinct bs" "0 \<notin> List.set bs" using assms(8,10) by (auto simp: file_rep_def block_ok_def)
  have fb: "free_blocks (firstBlock E) t = Some (t\<lparr>data := (\<lambda>x. if x \<in> blk_data s ` List.set bs then None else data s x),
     blocks := (\<lambda>x. if x \<in> List.set bs then None else blocks s x)\<rparr>)" if "blocks t = blocks s" "data t = data s" for t
  proof -
    have "linked t 0 (firstBlock E) bs = linked s 0 (firstBlock E) bs" by (rule linked_cong) (simp add: that)
    moreover have "blk_data t = blk_data s" by (intro ext) (simp add: blk_data_def that)
    ultimately show ?thesis using free_blocks_at [of t 0 "firstBlock E" bs] li that by (simp cong: if_cong)
  qed
  show ?thesis
  proof (cases "xs = []")
    case True
    then have f: "firstFile D = f" using e(1) by simp
    then have u: "unlink_loop d f (firstFile D) ?s = Some ?s" using assms(7) by (subst unlink_loop.simps) simp
    have l: "(if lastFile D = f then hd0 ys else lastFile D) = last0 ys"
      using e(2) dist True last0_in_set [of ys] by (cases "ys = []") (auto simp: last0_Cons)
    show ?thesis
      using assms(2,5,7,8,9) g D u f l nx True
      by (simp add: ramfs_delete_def acquire_lock_def release_lock_def deref_def Let_def fb deleted_def unlinked_def) (auto intro!: ramfs.equality ramfs_directory.equality split: if_splits)
  next
    case False
    have "chain (fnext ?s) (firstFile D) (xs @ f # ys)" using e(1) by (simp add: fnext_def)
    from unlink_loop_at [OF this dist _ assms(5) False, of D E]
    have u: "unlink_loop d f (firstFile D) ?s = Some (?s\<lparr>files := (files s)(last xs := map_option (\<lambda>G. G\<lparr>file_next := hd0 ys\<rparr>) (files s (last xs))),
      dirs := (dirs s)(d := Some (D\<lparr>lastFile := (if lastFile D = f then last xs else lastFile D)\<rparr>))\<rparr>)" using D assms(8) nx by simp
    have "firstFile D = hd0 xs" using chain_append [OF e(1)] False by (simp add: hd0_append)
    then have f: "firstFile D \<noteq> f" "firstFile D = hd0 (xs @ ys)" "f \<noteq> last xs" using dist False hd0_in_set [OF False] by (auto simp: hd0_append)
    have l: "(if lastFile D = f then last xs else lastFile D) = last0 (xs @ ys)"
      using e(2) dist False last0_in_set [of ys] by (cases "ys = []") (auto simp: last0_append last0_Cons last0_def)
    show ?thesis
      using assms(2,5,7,8,9) g D u f l False
      by (simp add: ramfs_delete_def acquire_lock_def release_lock_def deref_def Let_def fb deleted_def unlinked_def) (auto intro!: ramfs.equality ramfs_directory.equality split: if_splits)
  qed
qed

lemma disjoint_fam_shrink: "disjoint_fam K \<Longrightarrow> distinct zs \<Longrightarrow> List.set zs \<subseteq> List.set (K d) \<Longrightarrow> disjoint_fam (K(d := zs))"
  unfolding disjoint_fam_def by (simp add: disjoint_iff) blast

lemma deleted_inv:
  assumes "fs_inv s K F" "dirs s d = Some D" "F d = xs @ f # ys"
  shows "fs_inv (deleted d xs f ys bs s) K (F(d := xs @ ys))"
proof -
  let ?s = "deleted d xs f ys bs s" and ?F = "F(d := xs @ ys)"
  have dj: "disjoint_fam K" "disjoint_fam F" using assms(1) by (simp_all add: fs_inv_def)
  have dist: "distinct (xs @ f # ys)" using dj(2) assms(3) by (metis disjoint_fam_def)
  have dn: "dnext ?s = dnext s" using assms(2) by (auto simp: dnext_def deleted_def unlinked_def Let_def)
  have fn: "fnext ?s = (if xs = [] then (fnext s)(f := None) else (fnext s)(last xs := Some (hd0 ys), f := None))"
  proof (cases "xs = []")
    case False
    then have "files s (last xs) \<noteq> None" using fs_inv_mem(2) [OF assms(1), of "last xs" d] assms(3) by simp
    then show ?thesis using False by (auto simp: fnext_def deleted_def unlinked_def Let_def)
  qed (auto simp: fnext_def deleted_def unlinked_def Let_def)
  have D: "entry_ok s (K d) (xs @ f # ys) D" using fs_inv_entry [OF assms(1,2)] assms(3) by simp
  have ch: "chain (fnext ?s) (hd0 (xs @ ys)) (xs @ ys)" unfolding fn by (rule chain_remove) (use D dist in \<open>auto simp: entry_ok_def\<close>)
  have oth: "chain (fnext ?s) q (F x) \<longleftrightarrow> chain (fnext s) q (F x)" if "x \<noteq> d" for q x
  proof (rule fchain_cong)
    fix y assume "y \<in> List.set (F x)"
    moreover have "List.set (F x) \<inter> List.set (F d) = {}" using dj(2) that by (simp add: disjoint_fam_def)
    ultimately have "y \<noteq> f" "xs = [] \<or> y \<noteq> last xs" using assms(3) by auto
    then show "fnext ?s y = fnext s y" by (auto simp: fn)
  qed
  have "case dirs ?s x of None \<Rightarrow> K x = [] \<and> ?F x = [] | Some E \<Rightarrow> entry_ok ?s (K x) (?F x) E" for x
  proof (cases "x = d")
    case True
    then show ?thesis using D assms(2) ch dn by (simp add: deleted_def unlinked_def Let_def entry_ok_def)
  next
    case False
    have "dirs ?s x = dirs s x" using False by (simp add: deleted_def unlinked_def Let_def)
    then show ?thesis using False assms(1) oth [OF False] unfolding fs_inv_def
      by (cases "dirs s x") (auto simp: entry_ok_def dn dest!: spec [of _ x])
  qed
  moreover have "disjoint_fam ?F" by (rule disjoint_fam_shrink [OF dj(2)]) (use dist assms(3) in auto)
  ultimately show ?thesis unfolding fs_inv_def using assms(1,2) dj(1)
    by (auto simp: deleted_def unlinked_def Let_def fs_inv_def)
qed

lemma deleted_simps [simp]: "fileHandles (deleted d xs f ys bs s) = fileHandles s" "files (deleted d xs f ys bs s) f = None"
  by (simp_all add: deleted_def unlinked_def Let_def)

lemma close_at:
  assumes "k < length (fileHandles s)" "length (fileHandles s) = FILE_HANDLE_COUNT" "active (fileHandles s ! k)" "h_file (fileHandles s ! k) = f"
    "f \<noteq> 0" "files s f = Some E"
  shows "ramfs_close (int k) s = Some (put_handle (int k) ((fileHandles s ! k)\<lparr>active := False\<rparr>) (mark f False s))"
  using assms by (simp add: ramfs_close_def valid_fd_def deref_def put_handle_def mark_def)

text \<open>
  C31. A file can be opened twice, since \<^verbatim>\<open>ramfs_open\<close> does not look at the flag that says whether it is open; closing one of
  the two handles clears the flag, so the file can be deleted while the other handle is active, and every read through this
  handle uses the freed file.
\<close>

theorem ramfs_double_open_dangles:
  fixes path :: "u8 list"
  assumes "fs_inv s K F" "\<not> ramfsLock s" "length (fileHandles s) = FILE_HANDLE_COUNT"
    "i < length (fileHandles s)" "j < length (fileHandles s)" "i \<noteq> j" "\<not> active (fileHandles s ! i)" "\<not> active (fileHandles s ! j)"
    "file_path path" "get_file_entry s path = Some (RAMFS_ERR_OK, name, f, d)" "file_rep s f bs"
  shows "\<exists>s1 s2 s3 s4 fd1 fd2. ramfs_open path create s = Some (s1, RAMFS_ERR_OK, fd1) \<and> ramfs_open path create s1 = Some (s2, RAMFS_ERR_OK, fd2)
    \<and> fd1 \<noteq> fd2 \<and> ramfs_close fd1 s2 = Some s3 \<and> ramfs_delete path s3 = Some (s4, RAMFS_ERR_OK) \<and> valid_fd fd2 s4
    \<and> (\<forall>len. ramfs_read len fd2 s4 = None)"
proof -
  have rd: "resolve s K (parent_path path) = d" "d \<noteq> 0" and fd: "found (\<lambda>x. fname s x = base_name path) (F d) = f" "f \<noteq> 0"
    using get_file_entry_at [OF assms(1,9)] assms(10) by (simp_all add: Let_def split: if_splits)
  obtain k where k: "find_free (fileHandles s) 0 = int k" "k < length (fileHandles s)"
    using find_free_some [OF nth_mem [OF assms(4)] assms(7)] by blast
  obtain E where E: "files s f = Some E" and o1: "ramfs_open path create s = Some (put_handle (int k) (open_handle f E) (mark f True s), RAMFS_ERR_OK, int k)"
    using open_existing [OF assms(1,2,9) rd fd k(1)] by blast
  define s1 where "s1 = put_handle (int k) (open_handle f E) (mark f True s)"
  have t1: "same_tree s s1" unfolding s1_def by (rule same_tree_trans [OF same_tree_mark same_tree_put(1)])
  have h1: "fileHandles s1 = (fileHandles s)[k := open_handle f E]" "\<not> ramfsLock s1" using assms(2) by (simp_all add: s1_def fileHandles_put_handle mark_def)
  define i' where "i' = (if i = k then j else i)"
  have i': "i' < length (fileHandles s1)" "\<not> active (fileHandles s1 ! i')" using assms(4-8) by (auto simp: i'_def h1)
  then obtain l where l: "find_free (fileHandles s1) 0 = int l" "l < length (fileHandles s1)" "\<not> active (fileHandles s1 ! l)"
    using find_free_some [OF nth_mem] by blast
  have kl: "k \<noteq> l" using l(3) k(2) by (auto simp: h1 open_handle_def)
  note i1 = same_tree_inv [OF t1]
  obtain E1 where o2: "ramfs_open path create s1 = Some (put_handle (int l) (open_handle f E1) (mark f True s1), RAMFS_ERR_OK, int l)"
    using open_existing [of s1 K F path d f l create] assms(1,9) h1(2) rd fd l(1) i1(1,2,3) by auto
  define s2 where "s2 = put_handle (int l) (open_handle f E1) (mark f True s1)"
  have t2: "same_tree s s2" unfolding s2_def by (rule same_tree_trans [OF t1 same_tree_trans [OF same_tree_mark same_tree_put(1)]])
  have h2: "fileHandles s2 = (fileHandles s)[k := open_handle f E, l := open_handle f E1]" "\<not> ramfsLock s2"
    using h1 by (simp_all add: s2_def fileHandles_put_handle mark_def)
  obtain E2 where E2: "files s2 f = Some E2" using E t2 by (auto simp: same_tree_def)
  define s3 where "s3 = put_handle (int k) ((fileHandles s2 ! k)\<lparr>active := False\<rparr>) (mark f False s2)"
  have c: "ramfs_close (int k) s2 = Some s3"
    unfolding s3_def by (rule close_at [OF _ _ _ _ fd(2) E2]) (use k(2) kl assms(3) in \<open>simp_all add: h2 open_handle_def\<close>)
  have t3: "same_tree s s3" unfolding s3_def by (rule same_tree_trans [OF t2 same_tree_trans [OF same_tree_mark same_tree_put(1)]])
  note i3 = same_tree_inv [OF t3]
  have s3: "\<not> ramfsLock s3" "files s3 f = Some (E2\<lparr>isOpen := False\<rparr>)" "fileHandles s3 ! l = open_handle f E1" "length (fileHandles s3) = length (fileHandles s)"
    using h2 E2 kl l(2) by (simp_all add: s3_def mark_def fileHandles_put_handle h1(1))
  have "distinct (F d)" using assms(1) by (simp add: fs_inv_def disjoint_fam_def)
  then obtain xs ys where xy: "F d = xs @ f # ys" using found_split fd by metis
  have del: "ramfs_delete path s3 = Some (deleted d xs f ys bs s3, RAMFS_ERR_OK)"
    by (rule delete_at [of s3 K F path d f "E2\<lparr>isOpen := False\<rparr>", OF _ s3(1) assms(9)]) (use assms(1,11) i3 rd fd s3(2) xy in simp_all)
  have v: "valid_fd (int l) (deleted d xs f ys bs s3)" using l(2) assms(3) s3(3) by (simp add: valid_fd_def h1(1) open_handle_def)
  then have "ramfs_read len (int l) (deleted d xs f ys bs s3) = None" for len
    using s3(3) by (simp add: ramfs_read_def deref_def open_handle_def Let_def)
  moreover have "ramfs_open path create s = Some (s1, RAMFS_ERR_OK, int k)" "ramfs_open path create s1 = Some (s2, RAMFS_ERR_OK, int l)" "int k \<noteq> int l"
    using o1 o2 kl by (simp_all add: s1_def s2_def)
  ultimately show ?thesis using c del v by blast
qed

theorem ramfs_double_open_dangles_witness:
  "\<exists>s1 s2 s3 s4 fd1 fd2. ramfs_open [47, 97] False file_example = Some (s1, RAMFS_ERR_OK, fd1) \<and> ramfs_open [47, 97] False s1 = Some (s2, RAMFS_ERR_OK, fd2)
    \<and> ramfs_close fd1 s2 = Some s3 \<and> ramfs_delete [47, 97] s3 = Some (s4, RAMFS_ERR_OK) \<and> ramfs_read 1 fd2 s4 = None"
proof -
  have p: "file_path [47, 97]" "parent_path [47, 97] = [47]" "base_name [47, 97] = [97]" by (simp_all add: file_path_def parent_path_def base_name_def)
  have r: "resolve file_example (\<lambda>_. []) [47] = 1" by (simp add: resolve_def walk.simps) (simp add: file_example_def)
  have "fname file_example 10 = [97]" by (simp add: fname_def file_example_def)
  then have "get_file_entry file_example [47, 97] = Some (RAMFS_ERR_OK, [97], 10, 1)"
    using get_file_entry_at [OF file_example_inv p(1)] by (simp add: p r found_def)
  moreover have "file_rep file_example 10 [20]" using open_fileD(4) [OF file_example_open(1)] by simp
  moreover have "length (fileHandles file_example) = FILE_HANDLE_COUNT" "\<not> ramfsLock file_example"
    "\<not> active (fileHandles file_example ! 1)" "\<not> active (fileHandles file_example ! 2)"
    by (simp_all add: file_example_def FILE_HANDLE_COUNT_def)
  ultimately show ?thesis
    using ramfs_double_open_dangles [OF file_example_inv, of 1 2 "[47, 97]" "[97]" 10 1 "[20]" False] p(1) by (auto simp: FILE_HANDLE_COUNT_def)
qed

theorem ramfs_open_creates_witness:
  "\<exists>s' f b. ramfs_open [47, 98] True file_example = Some (s', RAMFS_ERR_OK, 1) \<and> open_file s' 1 f [] [b]
     \<and> get_file_entry s' [47, 98] = Some (RAMFS_ERR_OK, [98], f, 1)"
proof -
  have p: "file_path [47, 98]" "parent_path [47, 98] = [47]" "base_name [47, 98] = [98]" by (simp_all add: file_path_def parent_path_def base_name_def)
  have r: "resolve file_example (\<lambda>_. []) [47] = 1" by (simp add: resolve_def walk.simps) (simp add: file_example_def)
  have "fname file_example 10 = [97]" "fresh_file file_example" by (simp_all add: fname_def file_example_def fresh_file_def fresh_def)
  moreover have h: "length (fileHandles file_example) = FILE_HANDLE_COUNT" "\<not> ramfsLock file_example"
    "\<not> active (fileHandles file_example ! 1)" "active (fileHandles file_example ! 0)"
    by (simp_all add: file_example_def FILE_HANDLE_COUNT_def)
  moreover have "\<exists>h \<in> List.set (fileHandles file_example). \<not> active h" by (simp add: file_example_def)
  ultimately obtain s' k f b where k: "ramfs_open [47, 98] True file_example = Some (s', RAMFS_ERR_OK, int k)"
    "\<not> active (fileHandles file_example ! k)" "\<forall>j < k. active (fileHandles file_example ! j)" "open_file s' (int k) f [] [b]"
    "get_file_entry s' [47, 98] = Some (RAMFS_ERR_OK, [98], f, 1)"
    using ramfs_open_creates [OF file_example_inv, of "[47, 98]" 1] p r by auto
  have "k = 1" using h(3,4) k(2,3) by (metis less_one linorder_neqE_nat)
  then show ?thesis using k by auto
qed

end
