(* ===== verification/RamfsList.thy ===== *)
theory RamfsList
  imports RamfsOpen
begin

text \<open>The listing of a directory stays inside of the caller's buffer.\<close>

lemma dom_put: "dom (put cs pos buf) = dom buf \<union> {pos..<pos + int (length cs)}"
proof (induction cs arbitrary: pos buf)
  case (Cons c cs)
  have "{pos..<pos + int (length (c # cs))} = insert pos {pos + 1..<pos + 1 + int (length cs)}" by auto
  then show ?case unfolding put.simps Cons.IH dom_fun_upd by auto
qed simp

lemma length_digits_power: "1 < b \<Longrightarrow> v < b ^ Suc k \<Longrightarrow> length (digits b v) \<le> Suc k"
proof (induction k arbitrary: v)
  case 0
  then show ?case by (subst digits.simps) simp
next
  case (Suc k)
  have "v div b < b ^ Suc k" using Suc.prems by (simp add: less_mult_imp_div_less mult.commute)
  then show ?case using Suc.IH [of "v div b"] Suc.prems(1) by (subst digits.simps) simp
qed

lemma decimal_length: "n < 10 ^ Suc k \<Longrightarrow> length (decimal n) \<le> Suc k"
  using length_digits_power [of 10 n k] by (simp add: decimal_def)

lemma fileSizeOrders_less: "fileSizeOrders len i < 1024"
proof -
  have "drop_bit (10 * i) len AND 1023 \<le> (1023 :: u64)" by (rule word_and_le1)
  then show ?thesis by (simp add: fileSizeOrders_def word_le_nat_alt)
qed

lemma fileSizeNames_length: "i < 5 \<Longrightarrow> length (fileSizeNames i) = 2"
proof -
  assume "i < 5"
  then have "i \<in> {0, 1, 2, 3, 4}" by auto
  then show ?thesis by (auto simp: fileSizeNames_def)
qed

lemma size_string_loop_length: "i < 5 \<Longrightarrow> length (size_string_loop len i) \<le> 9"
proof (induction i)
  case 0
  then show ?case using decimal_length [of "fileSizeOrders len 0" 3] fileSizeOrders_less [of len 0] fileSizeNames_length [of 0] by simp
next
  case (Suc i)
  have "length (decimal (fileSizeOrders len (Suc i))) \<le> 4"
    using decimal_length [of "fileSizeOrders len (Suc i)" 3] fileSizeOrders_less [of len "Suc i"] by simp
  then show ?case using Suc fileSizeNames_length [of "Suc i"] by auto
qed

lemma line_lengths: "length (dir_line d) = 1 + fileSizeStringLength + 4 + length (dir_name d) + 1 + 1"
  "length (file_line f) = 1 + fileSizeStringLength + 4 + length (file_name f) + 1"
proof -
  show "length (dir_line d) = 1 + fileSizeStringLength + 4 + length (dir_name d) + 1 + 1" by (simp add: dir_line_def)
  have "length (size_string (file_len f)) \<le> fileSizeStringLength"
    using size_string_loop_length [of 4 "file_len f"] by (simp add: size_string_def fileSizeStringLength_def)
  then show "length (file_line f) = 1 + fileSizeStringLength + 4 + length (file_name f) + 1" by (simp add: file_line_def Let_def)
qed

lemma list_dirs_at:
  assumes "chain (dnext s) p ks" "dom buf \<subseteq> {0..<pos}" "0 \<le> pos" "pos \<le> n"
  shows "\<exists>buf' pos' ov. list_dirs s n p buf pos = Some (buf', pos', ov) \<and> dom buf' \<subseteq> {0..<pos'} \<and> 0 \<le> pos' \<and> pos' \<le> n"
  using assms
proof (induction ks arbitrary: p buf pos)
  case Nil
  then show ?case by (subst list_dirs.simps) auto
next
  case (Cons x xs)
  obtain d where d: "p = x" "x \<noteq> 0" "dirs s x = Some d" "chain (dnext s) (dir_next d) xs" using Cons.prems(1) by (auto simp: dnext_def)
  let ?l = "int (length (dir_line d))"
  show ?case
  proof (cases "pos + ?l > n")
    case True
    then have "list_dirs s n p buf pos = Some (buf, pos, True)" using d by (subst list_dirs.simps) (simp add: Let_def line_lengths)
    then show ?thesis using Cons.prems by blast
  next
    case False
    have "dom (put (dir_line d) pos buf) \<subseteq> {0..<pos + ?l}" using Cons.prems(2,3) by (auto simp: dom_put)
    from Cons.IH [OF d(4) this] show ?thesis using False Cons.prems(3) d by (subst list_dirs.simps) (simp add: Let_def line_lengths)
  qed
qed

lemma list_files_at:
  assumes "chain (fnext s) p ks" "dom buf \<subseteq> {0..<pos}" "0 \<le> pos" "pos \<le> n"
  shows "\<exists>buf' pos' ov'. list_files s n p buf pos ov = Some (buf', pos', ov') \<and> dom buf' \<subseteq> {0..<pos'} \<and> 0 \<le> pos' \<and> pos' \<le> n"
  using assms
proof (induction ks arbitrary: p buf pos)
  case Nil
  then show ?case by (subst list_files.simps) auto
next
  case (Cons x xs)
  obtain f where f: "p = x" "x \<noteq> 0" "files s x = Some f" "chain (fnext s) (file_next f) xs" using Cons.prems(1) by (auto simp: fnext_def)
  let ?l = "int (length (file_line f))"
  show ?case
  proof (cases "pos + ?l > n")
    case True
    then have "list_files s n p buf pos ov = Some (buf, pos, True)" using f by (subst list_files.simps) (simp add: Let_def line_lengths)
    then show ?thesis using Cons.prems by blast
  next
    case False
    have "dom (put (file_line f) pos buf) \<subseteq> {0..<pos + ?l}" using Cons.prems(2,3) by (auto simp: dom_put)
    from Cons.IH [OF f(4) this] show ?thesis using False Cons.prems(3) f by (subst list_files.simps) (simp add: Let_def line_lengths)
  qed
qed



end
