(* ===== verification/Vbe.thy ===== *)
theory Vbe
  imports Font MmMapInit "HOL-Library.Monad_Syntax"
begin

text \<open>
  The drawing contexts of the screen, \<^verbatim>\<open>kernel/vbe/vbe.c\<close>.  Pixel buffers are lists at addresses; an access outside of a buffer
  or of the array of contexts is a fault, the result \<open>None\<close>, as is a panic and a lock that is never released.  The results of
  the kernel heap are a parameter: the sequence \<open>v_heap\<close> of the addresses that \<^verbatim>\<open>heap_alloc\<close> returns and the contents
  \<open>v_junk\<close> found there.
\<close>

section \<open>Data\<close>

definition VBE_CONTEXT_COUNT :: nat where "VBE_CONTEXT_COUNT = 12"
definition VBE_KERNEL_CONTEXT :: int where "VBE_KERNEL_CONTEXT = 0"
definition MULTIBOOT_TAG_VBE :: u32 where "MULTIBOOT_TAG_VBE = 7"
definition MULTIBOOT_TAG_FRAMEBUF :: u32 where "MULTIBOOT_TAG_FRAMEBUF = 8"

record vbe_context =
  inUse :: bool
  ctx_previous :: addr
  ctx_current :: addr
  ctx_height :: u32
  ctx_scrollY :: u32
  ctx_front :: u32
  ctx_back :: u32

record vbe =
  colorFront :: u32
  colorBack :: u32
  renderBufferWidth :: u32
  renderBufferHeight :: u32
  renderBuffer :: addr
  contexts :: "vbe_context list"
  currentContext :: int
  previousBuffer :: addr
  currentBuffer :: addr
  currentBufferHeight :: u32
  scrollY :: u32
  buffersAllocated :: bool
  vbeContextLock :: bool
  buffers :: "addr \<Rightarrow> u32 list option"
  text_memory :: bytes
  v_allocs :: nat
  v_heap :: "nat \<Rightarrow> addr"
  v_junk :: "nat \<Rightarrow> u32"

definition vbe_lock :: "vbe \<Rightarrow> vbe option" where
  "vbe_lock s = (if vbeContextLock s then None else Some (s\<lparr>vbeContextLock := True\<rparr>))"

definition vbe_unlock :: "vbe \<Rightarrow> vbe" where
  "vbe_unlock s = s\<lparr>vbeContextLock := False\<rparr>"

definition context_at :: "int \<Rightarrow> vbe \<Rightarrow> vbe_context option" where
  "context_at i s = (if 0 \<le> i \<and> i < int (length (contexts s)) then Some (contexts s ! nat i) else None)"

definition put_context :: "int \<Rightarrow> vbe_context \<Rightarrow> vbe \<Rightarrow> vbe" where
  "put_context i c s = s\<lparr>contexts := (contexts s)[nat i := c]\<rparr>"

definition get_px :: "addr \<Rightarrow> nat \<Rightarrow> vbe \<Rightarrow> u32 option" where
  "get_px b i s = do {
     l \<leftarrow> buffers s b;
     if i < length l then Some (l ! i) else None}"

definition set_px :: "addr \<Rightarrow> nat \<Rightarrow> u32 \<Rightarrow> vbe \<Rightarrow> vbe option" where
  "set_px b i v s = do {
     l \<leftarrow> buffers s b;
     if i < length l then Some (s\<lparr>buffers := (buffers s)(b := Some (l[i := v]))\<rparr>) else None}"

text \<open>An allocation on the kernel heap: the size in bytes is rounded up to pages of 1024 pixels.\<close>

definition px_alloc :: "u32 \<Rightarrow> vbe \<Rightarrow> vbe \<times> addr" where
  "px_alloc sz s = (let p = v_heap s (v_allocs s) in
     (s\<lparr>v_allocs := v_allocs s + 1,
        buffers := (if p = 0 then buffers s else (buffers s)(p := Some (map (v_junk s) [0..<(unat sz + 4095) div 4096 * 1024])))\<rparr>, p))"

section \<open>Transfer to the screen\<close>

definition blit_pixel :: "nat \<Rightarrow> nat \<Rightarrow> nat \<Rightarrow> vbe \<Rightarrow> vbe option" where
  "blit_pixel r c p s = do {
     pixelCurrentVal \<leftarrow> get_px (currentBuffer s) c s;
     pixelPreviousVal \<leftarrow> get_px (previousBuffer s) p s;
     if pixelPreviousVal \<noteq> pixelCurrentVal then do {
       s \<leftarrow> set_px (previousBuffer s) p pixelCurrentVal s;
       set_px (renderBuffer s) r pixelCurrentVal s}
     else Some s}"

definition blit_row :: "u32 \<Rightarrow> u32 \<Rightarrow> u32 \<Rightarrow> u32 \<Rightarrow> vbe \<Rightarrow> nat \<Rightarrow> vbe option" where
  "blit_row posY renderBufferX renderBufferY xSteps s y =
     (let r = unat ((renderBufferY + of_nat y) * renderBufferWidth s) + unat renderBufferX;
          c = unat ((posY + of_nat y) * renderBufferWidth s) + unat renderBufferX;
          p = unat ((renderBufferY + of_nat y) * renderBufferWidth s) + unat renderBufferX
      in iter (\<lambda>s x. blit_pixel (r + x) (c + x) (p + x) s) [0..<unat xSteps] s)"

definition vbe_blit_to_video_memory :: "int \<Rightarrow> u32 \<Rightarrow> u32 \<Rightarrow> u32 \<Rightarrow> u32 \<Rightarrow> vbe \<Rightarrow> vbe option" where
  "vbe_blit_to_video_memory contextId posX posY width height s =
     (if \<not> buffersAllocated s then Some s
      else do {
        s \<leftarrow> vbe_lock s;
        if contextId \<noteq> currentContext s then Some (vbe_unlock s)
        else if posY < scrollY s \<or> posY \<ge> scrollY s + renderBufferHeight s then Some (vbe_unlock s)
        else do {
          let renderBufferX = posX;
          let renderBufferY = posY - scrollY s;
          let renderBufferXMax = renderBufferX + width;
          let renderBufferYMax = renderBufferY + height;
          let renderBufferYMax = (if renderBufferYMax > renderBufferHeight s then renderBufferHeight s else renderBufferYMax);
          let xSteps = renderBufferXMax - renderBufferX;
          let ySteps = renderBufferYMax - renderBufferY;
          s \<leftarrow> iter (blit_row posY renderBufferX renderBufferY xSteps) [0..<unat ySteps] s;
          Some (vbe_unlock s)}})"

section \<open>Contexts\<close>

definition vbe_debug_get_render_buffer :: "int \<Rightarrow> vbe \<Rightarrow> addr option" where
  "vbe_debug_get_render_buffer contextId s = map_option ctx_current (context_at contextId s)"

definition find_unused :: "vbe \<Rightarrow> nat option" where
  "find_unused s = find (\<lambda>i. \<not> inUse (contexts s ! i)) [0..<VBE_CONTEXT_COUNT]"

definition vbe_create_context :: "vbe \<Rightarrow> (vbe \<times> int) option" where
  "vbe_create_context s = do {
     s \<leftarrow> vbe_lock s;
     case find_unused s of None \<Rightarrow> Some (vbe_unlock s, -1)
     | Some i \<Rightarrow> do {
         let s = vbe_unlock (put_context (int i) ((contexts s ! i)\<lparr>inUse := True\<rparr>) s);
         let (s, pb) = px_alloc (4 * renderBufferWidth s * renderBufferHeight s) s;
         let (s, cb) = px_alloc (4 * renderBufferWidth s * renderBufferHeight s) s;
         let s = put_context (int i) ((contexts s ! i)\<lparr>ctx_previous := pb, ctx_current := cb, ctx_height := renderBufferHeight s, ctx_scrollY := 0,
           ctx_front := 0x00FFFFFF, ctx_back := 0x00000000\<rparr>) s;
         if pb = 0 \<or> cb = 0 then None else Some (s, int i)}}"

definition redraw_pixel :: "vbe \<Rightarrow> nat \<Rightarrow> vbe option" where
  "redraw_pixel s i = do {
     pixel \<leftarrow> get_px (currentBuffer s) (unat (scrollY s * renderBufferWidth s) + i) s;
     s \<leftarrow> set_px (previousBuffer s) i pixel s;
     set_px (renderBuffer s) i pixel s}"

definition vbe_show_context :: "int \<Rightarrow> vbe \<Rightarrow> vbe option" where
  "vbe_show_context contextId s =
     (case context_at contextId s of None \<Rightarrow> Some s
      | Some c \<Rightarrow> if \<not> inUse c then Some s
        else do {
          s \<leftarrow> vbe_lock s;
          let s = s\<lparr>previousBuffer := ctx_previous c, currentBuffer := ctx_current c, currentBufferHeight := ctx_height c,
            scrollY := ctx_scrollY c, colorFront := ctx_front c, colorBack := ctx_back c, currentContext := contextId\<rparr>;
          s \<leftarrow> (if buffersAllocated s
                then iter redraw_pixel [0..<unat (renderBufferWidth s * renderBufferHeight s)] s else Some s);
          Some (vbe_unlock s)})"

section \<open>Drawing\<close>

definition rect_row :: "vbe_context \<Rightarrow> u32 \<Rightarrow> u32 \<Rightarrow> vbe \<Rightarrow> nat \<Rightarrow> vbe option" where
  "rect_row c posX xMax s y =
     iter (\<lambda>s x. set_px (ctx_current c) (unat (of_nat y * renderBufferWidth s) + x) (ctx_front c) s) [unat posX..<unat xMax] s"

definition vbe_rectangle :: "int \<Rightarrow> u32 \<Rightarrow> u32 \<Rightarrow> u32 \<Rightarrow> u32 \<Rightarrow> vbe \<Rightarrow> (vbe \<times> int) option" where
  "vbe_rectangle contextId posX posY width height s =
     (if posX \<ge> renderBufferWidth s \<or> posX + width > renderBufferWidth s then Some (s, -1)
      else do {
       c \<leftarrow> context_at contextId s;
       if posY \<ge> ctx_height c \<or> posY + height > ctx_height c then Some (s, -2)
       else do {
         s \<leftarrow> iter (rect_row c posX (posX + width)) [unat posY..<unat (posY + height)] s;
         s \<leftarrow> vbe_blit_to_video_memory contextId posX posY width height s;
         Some (s, 0)}})"

text \<open>The copy of one row of the caller's pixels; the caller's buffer is a list.\<close>

definition draw_row :: "vbe_context \<Rightarrow> u32 list \<Rightarrow> u32 \<Rightarrow> u32 \<Rightarrow> u32 \<Rightarrow> vbe \<Rightarrow> nat \<Rightarrow> vbe option" where
  "draw_row c pixels posX posY width s i =
     iter (\<lambda>s x. let src = unat (of_nat i * width) + x in
         if src < length pixels
         then set_px (ctx_current c) (unat ((posY + of_nat i) * renderBufferWidth s) + unat posX + x) (pixels ! src) s else None)
       [0..<unat width] s"

definition vbe_draw :: "int \<Rightarrow> u32 list \<Rightarrow> u32 \<Rightarrow> u32 \<Rightarrow> u32 \<Rightarrow> u32 \<Rightarrow> vbe \<Rightarrow> (vbe \<times> int) option" where
  "vbe_draw contextId pixels posX posY width height s =
     (if posX \<ge> renderBufferWidth s \<or> posX + width > renderBufferWidth s then Some (s, -1)
      else do {
       c \<leftarrow> context_at contextId s;
       if posY \<ge> ctx_height c \<or> posY + height > ctx_height c then Some (s, -2)
       else do {
         s \<leftarrow> iter (draw_row c pixels posX posY width) [0..<unat height] s;
         s \<leftarrow> vbe_blit_to_video_memory contextId posX posY width height s;
         Some (s, 0)}})"

definition char_row :: "vbe_context \<Rightarrow> nat \<Rightarrow> u32 \<Rightarrow> u32 \<Rightarrow> vbe \<Rightarrow> nat \<Rightarrow> vbe option" where
  "char_row c charIndex posX posY s i =
     (let bitmap = font_data ! charIndex ! i; p = unat ((posY + of_nat i) * renderBufferWidth s) + unat posX in
      iter (\<lambda>s j. set_px (ctx_current c) (p + j) (if bitmap AND drop_bit j 0x80 \<noteq> 0 then ctx_front c else ctx_back c) s) [0..<8] s)"

definition vbe_render_char :: "int \<Rightarrow> u32 \<Rightarrow> u32 \<Rightarrow> u8 \<Rightarrow> vbe \<Rightarrow> (vbe \<times> int) option" where
  "vbe_render_char contextId posX posY ch s =
     (if posX \<ge> renderBufferWidth s then Some (s, -1)
      else do {
       c \<leftarrow> context_at contextId s;
       if posY \<ge> ctx_height c then Some (s, -2)
       else if ch < 0x20 \<or> ch > 0x7E then Some (s, -3)
       else do {
         s \<leftarrow> iter (char_row c (unat ch - 0x20) posX posY) [0..<unat VBE_FONT_CHARACTER_HEIGHT] s;
         s \<leftarrow> vbe_blit_to_video_memory contextId posX posY VBE_FONT_CHARACTER_WIDTH VBE_FONT_CHARACTER_HEIGHT s;
         Some (s, 0)}})"

definition rgb :: "u8 \<Rightarrow> u8 \<Rightarrow> u8 \<Rightarrow> u32" where
  "rgb r g b = push_bit 16 (ucast r) OR push_bit 8 (ucast g) OR ucast b"

definition vbe_set_front_color :: "int \<Rightarrow> u8 \<Rightarrow> u8 \<Rightarrow> u8 \<Rightarrow> vbe \<Rightarrow> vbe option" where
  "vbe_set_front_color contextId r g b s = do {
     c \<leftarrow> context_at contextId s;
     let s = put_context contextId (c\<lparr>ctx_front := rgb r g b\<rparr>) s;
     s \<leftarrow> vbe_lock s;
     Some (vbe_unlock (if contextId = currentContext s then s\<lparr>colorFront := rgb r g b\<rparr> else s))}"

definition vbe_set_back_color :: "int \<Rightarrow> u8 \<Rightarrow> u8 \<Rightarrow> u8 \<Rightarrow> vbe \<Rightarrow> vbe option" where
  "vbe_set_back_color contextId r g b s = do {
     c \<leftarrow> context_at contextId s;
     let s = put_context contextId (c\<lparr>ctx_back := rgb r g b\<rparr>) s;
     s \<leftarrow> vbe_lock s;
     Some (vbe_unlock (if contextId = currentContext s then s\<lparr>colorBack := rgb r g b\<rparr> else s))}"

section \<open>Scrolling\<close>

definition vbe_allocate_scroll_buffer :: "int \<Rightarrow> u32 \<Rightarrow> vbe \<Rightarrow> (vbe \<times> bool) option" where
  "vbe_allocate_scroll_buffer contextId height s =
     (if contextId = VBE_KERNEL_CONTEXT then Some (s, False)
      else do {
        s \<leftarrow> vbe_lock s;
        let (s, newBuffer) = px_alloc (4 * renderBufferWidth s * height) s;
        if newBuffer = 0 then Some (vbe_unlock s, False)
        else do {
          c \<leftarrow> context_at contextId s;
          let s = s\<lparr>buffers := (buffers s)(ctx_current c := None)\<rparr>;
          let s = put_context contextId (c\<lparr>ctx_current := newBuffer, ctx_height := height, ctx_scrollY := 0\<rparr>) s;
          let s = (if currentContext s = contextId then s\<lparr>currentBuffer := newBuffer, currentBufferHeight := height, scrollY := 0\<rparr> else s);
          Some (vbe_unlock s, True)}})"

definition vbe_set_scroll_position :: "int \<Rightarrow> u32 \<Rightarrow> vbe \<Rightarrow> vbe option" where
  "vbe_set_scroll_position contextId y s = do {
     c \<leftarrow> context_at contextId s;
     let y = (if y \<ge> ctx_height c - renderBufferHeight s then ctx_height c - renderBufferHeight s - 1 else y);
     let s = put_context contextId (c\<lparr>ctx_scrollY := y\<rparr>) s;
     s \<leftarrow> vbe_lock s;
     let s = vbe_unlock (if contextId = currentContext s then s\<lparr>scrollY := y\<rparr> else s);
     vbe_blit_to_video_memory contextId 0 y (renderBufferWidth s) (renderBufferHeight s) s}"

definition vbe_clear :: "int \<Rightarrow> vbe \<Rightarrow> vbe option" where
  "vbe_clear contextId s = do {
     c \<leftarrow> context_at contextId s;
     s \<leftarrow> iter (\<lambda>s i. set_px (ctx_current c) i (ctx_back c) s) [0..<unat (renderBufferWidth s * ctx_height c)] s;
     vbe_blit_to_video_memory contextId 0 (ctx_scrollY c) (renderBufferWidth s) (renderBufferHeight s) s}"

section \<open>Initialisation\<close>

definition mode_Xres :: "bytes \<Rightarrow> addr \<Rightarrow> u16" where "mode_Xres m tag = rd16 m (tag + 546)"
definition mode_Yres :: "bytes \<Rightarrow> addr \<Rightarrow> u16" where "mode_Yres m tag = rd16 m (tag + 548)"
definition mode_physbase :: "bytes \<Rightarrow> addr \<Rightarrow> u32" where "mode_physbase m tag = rd32 m (tag + 568)"
definition framebuffer_addr :: "bytes \<Rightarrow> addr \<Rightarrow> u64" where "framebuffer_addr m tag = rd64 m (tag + 8)"

definition no_vbe_tag :: "u8 list" where
  "no_vbe_tag = map of_char ''Error: No VBE tag''"

definition vbe_init :: "bytes \<Rightarrow> addr \<Rightarrow> vbe \<Rightarrow> vbe option" where
  "vbe_init m multiboot s = do {
     vbeTag \<leftarrow> multiboot_get m multiboot MULTIBOOT_TAG_VBE;
     if vbeTag \<noteq> 0 then do {
       let rb = aphy32_to_virt (ucast (mode_physbase m vbeTag));
       let s = s\<lparr>renderBuffer := rb, renderBufferWidth := ucast (mode_Xres m vbeTag), renderBufferHeight := ucast (mode_Yres m vbeTag)\<rparr>;
       let s = s\<lparr>contexts := map (\<lambda>c. c\<lparr>inUse := False\<rparr>) (contexts s)\<rparr>;
       c \<leftarrow> context_at VBE_KERNEL_CONTEXT s;
       let s = put_context VBE_KERNEL_CONTEXT (c\<lparr>inUse := True, ctx_previous := rb, ctx_current := rb, ctx_height := renderBufferHeight s,
         ctx_scrollY := 0, ctx_front := 0x00FFFFFF, ctx_back := 0x00000000\<rparr>) s;
       vbe_show_context VBE_KERNEL_CONTEXT s}
     else do {
       tag \<leftarrow> multiboot_get m multiboot MULTIBOOT_TAG_FRAMEBUF;
       if tag = 0 then None
       else do {
         let framebuffer = aphy32_to_virt (framebuffer_addr m tag);
         Some (s\<lparr>text_memory := fold (\<lambda>i t. t(framebuffer + 2 * of_nat i + 1 := 0x0F, framebuffer + 2 * of_nat i := no_vbe_tag ! i))
           [0..<17] (text_memory s)\<rparr>)}}}"

definition init_pixel :: "vbe \<Rightarrow> nat \<Rightarrow> vbe option" where
  "init_pixel s i = do {
     k \<leftarrow> context_at VBE_KERNEL_CONTEXT s;
     currentPixel \<leftarrow> get_px (renderBuffer s) i s;
     s \<leftarrow> set_px (ctx_previous k) i currentPixel s;
     set_px (ctx_current k) i currentPixel s}"

definition vbe_init_back_buffers :: "vbe \<Rightarrow> vbe option" where
  "vbe_init_back_buffers s = do {
     k \<leftarrow> context_at VBE_KERNEL_CONTEXT s;
     let (s, pb) = px_alloc (4 * renderBufferWidth s * renderBufferHeight s) s;
     let (s, cb) = px_alloc (4 * renderBufferWidth s * renderBufferHeight s) s;
     let s = put_context VBE_KERNEL_CONTEXT (k\<lparr>ctx_previous := pb, ctx_current := cb\<rparr>) s;
     if pb = 0 \<or> cb = 0 then None
     else do {
       s \<leftarrow> iter init_pixel [0..<unat (renderBufferWidth s * renderBufferHeight s)] s;
       vbe_show_context VBE_KERNEL_CONTEXT (s\<lparr>buffersAllocated := True\<rparr>)}}"

definition vbe_get_screen_width :: "vbe \<Rightarrow> u32" where "vbe_get_screen_width s = renderBufferWidth s"
definition vbe_get_screen_height :: "vbe \<Rightarrow> u32" where "vbe_get_screen_height s = renderBufferHeight s"

section \<open>Painting sets of pixels\<close>

definition fill :: "nat set \<Rightarrow> (nat \<Rightarrow> 'v) \<Rightarrow> 'v list \<Rightarrow> 'v list" where
  "fill D w l = map (\<lambda>i. if i \<in> D then w i else l ! i) [0..<length l]"

lemma fill_length [simp]: "length (fill D w l) = length l"
  by (simp add: fill_def)

lemma fill_nth [simp]: "i < length l \<Longrightarrow> fill D w l ! i = (if i \<in> D then w i else l ! i)"
  by (simp add: fill_def)

lemma fill_empty [simp]: "fill {} w l = l"
  by (rule nth_equalityI) simp_all

lemma fill_update: "(fill D w l)[i := w i] = fill (insert i D) w l"
proof (rule nth_equalityI)
  fix j
  assume "j < length ((fill D w l)[i := w i])"
  then show "(fill D w l)[i := w i] ! j = fill (insert i D) w l ! j" by (cases "j = i") auto
qed simp

lemma fill_same: "i < length l \<Longrightarrow> fill D w l ! i = w i \<Longrightarrow> fill (insert i D) w l = fill D w l"
  by (rule nth_equalityI) auto

lemma iter_fill:
  assumes "\<And>x D. x \<in> set xs \<Longrightarrow> f (S D) x = Some (S (D \<union> h x))"
  shows "iter f xs (S D) = Some (S (D \<union> (\<Union>x \<in> set xs. h x)))"
  using assms by (induction xs arbitrary: D) (auto simp: Un_assoc)

definition painted :: "addr \<Rightarrow> (nat \<Rightarrow> u32) \<Rightarrow> vbe \<Rightarrow> nat set \<Rightarrow> vbe" where
  "painted b w s D = s\<lparr>buffers := (buffers s)(b := map_option (fill D w) (buffers s b))\<rparr>"

lemma painted_empty: "painted b w s {} = s"
  by (cases "buffers s b") (auto simp: painted_def fun_upd_idem)

lemma painted_sel [simp]: "renderBufferWidth (painted b w s D) = renderBufferWidth s" "renderBufferHeight (painted b w s D) = renderBufferHeight s"
  "renderBuffer (painted b w s D) = renderBuffer s" "contexts (painted b w s D) = contexts s" "currentContext (painted b w s D) = currentContext s"
  "previousBuffer (painted b w s D) = previousBuffer s" "currentBuffer (painted b w s D) = currentBuffer s"
  "currentBufferHeight (painted b w s D) = currentBufferHeight s" "scrollY (painted b w s D) = scrollY s"
  "buffersAllocated (painted b w s D) = buffersAllocated s" "vbeContextLock (painted b w s D) = vbeContextLock s"
  "buffers (painted b w s D) = (buffers s)(b := map_option (fill D w) (buffers s b))"
  by (simp_all add: painted_def)

lemma context_at_painted [simp]: "context_at i (painted b w s D) = context_at i s"
  by (simp add: context_at_def)

lemma set_px_painted:
  assumes "buffers s b = Some l" "i < length l"
  shows "set_px b i (w i) (painted b w s D) = Some (painted b w s (insert i D))"
  using assms by (simp add: set_px_def painted_def fill_update)

text \<open>The pixels \<open>x0 \<le> x < x1\<close>, \<open>y0 \<le> y < y1\<close> of an image of width \<open>w\<close>.\<close>

definition rect :: "nat \<Rightarrow> nat \<Rightarrow> nat \<Rightarrow> nat \<Rightarrow> nat \<Rightarrow> nat set" where
  "rect w x0 x1 y0 y1 = (\<Union>y \<in> {y0..<y1}. (\<lambda>x. y * w + x) ` {x0..<x1})"

lemma rect_mem: "x1 \<le> w \<Longrightarrow> i \<in> rect w x0 x1 y0 y1 \<longleftrightarrow> x0 \<le> i mod w \<and> i mod w < x1 \<and> y0 \<le> i div w \<and> i div w < y1"
proof
  assume a: "x1 \<le> w" "i \<in> rect w x0 x1 y0 y1"
  then obtain x y where "y0 \<le> y" "y < y1" "x0 \<le> x" "x < x1" "i = y * w + x" unfolding rect_def UN_iff image_iff Bex_def atLeastLessThan_iff by blast
  with a show "x0 \<le> i mod w \<and> i mod w < x1 \<and> y0 \<le> i div w \<and> i div w < y1" by simp
next
  assume "x0 \<le> i mod w \<and> i mod w < x1 \<and> y0 \<le> i div w \<and> i div w < y1"
  moreover have "i = i div w * w + i mod w" by simp
  ultimately show "i \<in> rect w x0 x1 y0 y1" unfolding rect_def UN_iff image_iff Bex_def atLeastLessThan_iff by blast
qed

lemma rect_bound: "x1 \<le> w \<Longrightarrow> x < x1 \<Longrightarrow> y < y1 \<Longrightarrow> y * w + x < w * (y1 :: nat)"
proof -
  assume "x1 \<le> w" "x < x1" "y < y1"
  then have "y * w + x < (y + 1) * w" "(y + 1) * w \<le> y1 * w" by (simp, intro mult_le_mono1) simp
  then show ?thesis by (simp add: mult.commute)
qed

section \<open>Well-formed states\<close>

definition context_buffers :: "vbe \<Rightarrow> addr list" where
  "context_buffers s = concat (map (\<lambda>c. [ctx_previous c, ctx_current c]) (filter inUse (contexts s)))"

definition context_ok :: "vbe \<Rightarrow> vbe_context \<Rightarrow> bool" where
  "context_ok s c \<longleftrightarrow> (let W = unat (renderBufferWidth s); H = unat (renderBufferHeight s); h = unat (ctx_height c) in
     W * h < 2 ^ 32 \<and> unat (ctx_scrollY c) + H \<le> h
     \<and> (case buffers s (ctx_previous c) of None \<Rightarrow> False | Some l \<Rightarrow> W * H \<le> length l)
     \<and> (case buffers s (ctx_current c) of None \<Rightarrow> False | Some l \<Rightarrow> W * h \<le> length l))"

definition vbe_wf :: "vbe \<Rightarrow> bool" where
  "vbe_wf s \<longleftrightarrow> length (contexts s) = VBE_CONTEXT_COUNT \<and> buffersAllocated s \<and> \<not> vbeContextLock s
     \<and> (\<forall>c \<in> set (contexts s). inUse c \<longrightarrow> context_ok s c) \<and> distinct (renderBuffer s # context_buffers s)
     \<and> (case buffers s (renderBuffer s) of None \<Rightarrow> False
        | Some l \<Rightarrow> unat (renderBufferWidth s) * unat (renderBufferHeight s) \<le> length l)
     \<and> (case context_at (currentContext s) s of None \<Rightarrow> False
        | Some c \<Rightarrow> inUse c \<and> previousBuffer s = ctx_previous c \<and> currentBuffer s = ctx_current c
            \<and> currentBufferHeight s = ctx_height c \<and> scrollY s = ctx_scrollY c)
     \<and> (\<forall>p < unat (renderBufferWidth s) * unat (renderBufferHeight s).
          the (buffers s (previousBuffer s)) ! p = the (buffers s (renderBuffer s)) ! p)"

text \<open>The screen shows the visible part of the image of the current context.\<close>

definition in_sync :: "vbe \<Rightarrow> bool" where
  "in_sync s \<longleftrightarrow> (\<forall>p < unat (renderBufferWidth s) * unat (renderBufferHeight s).
     the (buffers s (renderBuffer s)) ! p = the (buffers s (currentBuffer s)) ! (p + unat (scrollY s) * unat (renderBufferWidth s)))"

section \<open>The transfer copies the rectangle\<close>

definition shown :: "vbe \<Rightarrow> nat set \<Rightarrow> vbe" where
  "shown s D = (let w = \<lambda>p. the (buffers s (currentBuffer s)) ! (p + unat (scrollY s) * unat (renderBufferWidth s)) in
     s\<lparr>buffers := (buffers s)(previousBuffer s := map_option (fill D w) (buffers s (previousBuffer s)),
        renderBuffer s := map_option (fill D w) (buffers s (renderBuffer s)))\<rparr>)"

lemma shown_sel [simp]: "renderBufferWidth (shown s D) = renderBufferWidth s" "renderBufferHeight (shown s D) = renderBufferHeight s"
  "renderBuffer (shown s D) = renderBuffer s" "contexts (shown s D) = contexts s" "currentContext (shown s D) = currentContext s"
  "previousBuffer (shown s D) = previousBuffer s" "currentBuffer (shown s D) = currentBuffer s"
  "currentBufferHeight (shown s D) = currentBufferHeight s" "scrollY (shown s D) = scrollY s"
  "buffersAllocated (shown s D) = buffersAllocated s" "vbeContextLock (shown s D) = vbeContextLock s"
  by (simp_all add: shown_def Let_def)

lemma shown_empty: "shown s {} = s"
  by (cases "buffers s (previousBuffer s)"; cases "buffers s (renderBuffer s)") (auto simp: shown_def Let_def fun_upd_idem)

lemma blit_pixel_shown:
  assumes b: "buffers s (previousBuffer s) = Some pl" "buffers s (renderBuffer s) = Some rl" "buffers s (currentBuffer s) = Some cl"
    and d: "previousBuffer s \<noteq> renderBuffer s" "currentBuffer s \<noteq> previousBuffer s" "currentBuffer s \<noteq> renderBuffer s"
    and l: "p < length pl" "p < length rl" "c < length cl" "c = p + unat (scrollY s) * unat (renderBufferWidth s)" "pl ! p = rl ! p"
  shows "blit_pixel p c p (shown s D) = Some (shown s (insert p D))"
proof -
  let ?w = "\<lambda>p. cl ! (p + unat (scrollY s) * unat (renderBufferWidth s))"
  have bs: "buffers (shown s D) = (buffers s)(previousBuffer s := Some (fill D ?w pl), renderBuffer s := Some (fill D ?w rl))" for D
    using b by (simp add: shown_def Let_def)
  show ?thesis
  proof (cases "fill D ?w pl ! p = ?w p")
    case True
    then have r: "fill D ?w rl ! p = ?w p" using l by (auto split: if_splits)
    have "fill (insert p D) ?w pl = fill D ?w pl" "fill (insert p D) ?w rl = fill D ?w rl" using True r l by (simp_all add: fill_same)
    then have "shown s (insert p D) = shown s D" using b by (simp add: shown_def Let_def)
    then show ?thesis using True b d l by (simp add: blit_pixel_def get_px_def bs)
  next
    case False
    have "shown s (insert p D) = s\<lparr>buffers := (buffers s)(previousBuffer s := Some ((fill D ?w pl)[p := ?w p]), renderBuffer s := Some ((fill D ?w rl)[p := ?w p]))\<rparr>"
      using b fill_update [of D ?w pl p] fill_update [of D ?w rl p] by (simp add: shown_def Let_def)
    moreover have "shown s D = s\<lparr>buffers := (buffers s)(previousBuffer s := Some (fill D ?w pl), renderBuffer s := Some (fill D ?w rl))\<rparr>"
      using b by (simp add: shown_def Let_def)
    ultimately show ?thesis using False d l b by (auto simp: blit_pixel_def get_px_def set_px_def fun_upd_twist)
  qed
qed

lemma unat_index:
  assumes "(unat a + y) * unat w < 2 ^ 32"
  shows "unat ((a + of_nat y) * w) = (unat a + y) * unat (w :: u32)"
proof (cases "w = 0")
  case False
  then have "1 \<le> unat w" by (simp add: Suc_leI unat_gt_0)
  then have "(unat a + y) * 1 \<le> (unat a + y) * unat w" by (rule mult_le_mono2)
  then have y: "unat a + y < 2 ^ 32" unfolding mult_1_right using assms by (rule le_less_trans)
  then have "unat (of_nat y :: u32) = y" by (simp add: unsigned_of_nat take_bit_nat_eq_self)
  then have "unat (a + of_nat y) = unat a + y" using y unat_add_lem [of a "of_nat y"] by simp
  then show ?thesis using assms unat_mult_lem [of "a + of_nat y" w] by simp
qed simp

lemma blit_row_shown:
  assumes b: "buffers s (previousBuffer s) = Some pl" "buffers s (renderBuffer s) = Some rl" "buffers s (currentBuffer s) = Some cl"
    and d: "previousBuffer s \<noteq> renderBuffer s" "currentBuffer s \<noteq> previousBuffer s" "currentBuffer s \<noteq> renderBuffer s"
    and W: "W = unat (renderBufferWidth s)" "unat x0 + unat n \<le> W" "unat y1 = unat y0 + unat (scrollY s)"
    and l: "unat y0 + y < H" "H + unat (scrollY s) \<le> h" "W * H \<le> length pl" "W * H \<le> length rl" "W * h \<le> length cl" "W * h < 2 ^ 32"
    and e: "\<And>p. p < W * H \<Longrightarrow> pl ! p = rl ! p"
  shows "blit_row y1 x0 y0 n (shown s D) y = Some (shown s (D \<union> (\<lambda>x. (unat y0 + y) * W + x) ` {unat x0..<unat x0 + unat n}))"
proof -
  have "(unat y0 + y) * W \<le> H * W" "(unat y1 + y) * W \<le> h * W" "H * W \<le> h * W" using l W(3) by (auto intro!: mult_le_mono1)
  then have "(unat y0 + y) * unat (renderBufferWidth s) < 2 ^ 32" "(unat y1 + y) * unat (renderBufferWidth s) < 2 ^ 32"
    unfolding W(1) [symmetric] using l(6) mult.commute [of W h] by linarith+
  then have u: "unat ((y0 + of_nat y) * renderBufferWidth s) = (unat y0 + y) * W" "unat ((y1 + of_nat y) * renderBufferWidth s) = (unat y1 + y) * W"
    by (simp_all only: unat_index W(1))
  have "blit_pixel ((unat y0 + y) * W + unat x0 + x) ((unat y1 + y) * W + unat x0 + x) ((unat y0 + y) * W + unat x0 + x) (shown s D)
    = Some (shown s (D \<union> {(unat y0 + y) * W + (unat x0 + x)}))" if "x < unat n" for x D
  proof -
    have p: "(unat y0 + y) * W + (unat x0 + x) < W * H" using rect_bound [OF W(2)] that l(1) by simp
    have "(unat y1 + y) * W + (unat x0 + x) < W * h" using rect_bound [OF W(2), of "unat x0 + x" "unat y1 + y" h] that l(1,2) W(3) by simp
    moreover have "(unat y1 + y) * W + (unat x0 + x) = (unat y0 + y) * W + (unat x0 + x) + unat (scrollY s) * W" by (simp add: W(3) algebra_simps)
    ultimately show ?thesis using blit_pixel_shown [OF b d, of "(unat y0 + y) * W + (unat x0 + x)" "(unat y1 + y) * W + (unat x0 + x)" D] p l(3-5) e [OF p]
      by (simp add: W(1) [symmetric] add.assoc)
  qed
  then have "iter (\<lambda>s x. blit_pixel ((unat y0 + y) * W + unat x0 + x) ((unat y1 + y) * W + unat x0 + x) ((unat y0 + y) * W + unat x0 + x) s) [0..<unat n] (shown s D)
    = Some (shown s (D \<union> (\<Union>x \<in> set [0..<unat n]. {(unat y0 + y) * W + (unat x0 + x)})))"
    by (intro iter_fill) simp
  moreover have "(\<Union>x \<in> set [0..<unat n]. {(unat y0 + y) * W + (unat x0 + x)}) = (\<lambda>x. (unat y0 + y) * W + x) ` {unat x0..<unat x0 + unat n}"
  proof -
    have "{unat x0..<unat x0 + unat n} = (\<lambda>x. unat x0 + x) ` {0..<unat n}" by (simp add: add.commute)
    then show ?thesis by (auto simp del: image_add_atLeastLessThan)
  qed
  ultimately show ?thesis by (simp add: blit_row_def u Let_def)
qed

lemma shown_lock: "vbe_unlock (shown (s\<lparr>vbeContextLock := True\<rparr>) D) = shown s D" if "\<not> vbeContextLock s"
  using that by (simp add: shown_def vbe_unlock_def Let_def)

lemma current_context:
  assumes "vbe_wf s" "context_at (currentContext s) s = Some c"
  obtains pl cl rl where "c \<in> set (contexts s)" "inUse c" "context_ok s c"
    "previousBuffer s = ctx_previous c" "currentBuffer s = ctx_current c" "currentBufferHeight s = ctx_height c" "scrollY s = ctx_scrollY c"
    "buffers s (previousBuffer s) = Some pl" "buffers s (renderBuffer s) = Some rl" "buffers s (currentBuffer s) = Some cl"
    "previousBuffer s \<noteq> renderBuffer s" "currentBuffer s \<noteq> previousBuffer s" "currentBuffer s \<noteq> renderBuffer s"
    "unat (renderBufferWidth s) * unat (renderBufferHeight s) \<le> length pl"
    "unat (renderBufferWidth s) * unat (renderBufferHeight s) \<le> length rl"
    "unat (renderBufferWidth s) * unat (ctx_height c) \<le> length cl" "unat (renderBufferWidth s) * unat (ctx_height c) < 2 ^ 32"
    "unat (ctx_scrollY c) + unat (renderBufferHeight s) \<le> unat (ctx_height c)"
    "\<forall>p < unat (renderBufferWidth s) * unat (renderBufferHeight s). pl ! p = rl ! p"
proof -
  from assms have c: "context_at (currentContext s) s = Some c" "inUse c" "previousBuffer s = ctx_previous c" "currentBuffer s = ctx_current c"
    "currentBufferHeight s = ctx_height c" "scrollY s = ctx_scrollY c" by (auto simp: vbe_wf_def split: option.splits)
  then have m: "c \<in> set (contexts s)" by (auto simp: context_at_def split: if_splits)
  then have ok: "context_ok s c" using assms c(2) by (simp add: vbe_wf_def)
  obtain as bs where sp: "contexts s = as @ c # bs" using m by (meson split_list)
  have "distinct (renderBuffer s # context_buffers s)" using assms by (simp add: vbe_wf_def)
  then have "ctx_previous c \<noteq> renderBuffer s" "ctx_current c \<noteq> ctx_previous c" "ctx_current c \<noteq> renderBuffer s"
    using c(2) by (auto simp: context_buffers_def sp)
  then show ?thesis using that [OF m c(2) ok c(3-6)] ok assms c
    by (auto simp: context_ok_def vbe_wf_def Let_def split: option.splits)
qed

lemma unat_u32: "unat (a :: u32) < 2 ^ 32"
  using unsigned_less [of a] by simp

lemma unat_add_bound: "unat (a :: u32) + unat b < 2 ^ 32 \<Longrightarrow> unat (a + b) = unat a + unat b"
  by (simp add: unat_add_lem [symmetric])

lemma vbe_blit_ok:
  assumes wf: "vbe_wf s" and c: "context_at (currentContext s) s = Some c"
    and a: "scrollY s \<le> posY" "unat posX + unat width \<le> unat (renderBufferWidth s)" "unat posY + unat height \<le> unat (ctx_height c)"
  shows "vbe_blit_to_video_memory (currentContext s) posX posY width height s
    = Some (shown s (rect (unat (renderBufferWidth s)) (unat posX) (unat posX + unat width) (unat posY - unat (scrollY s))
        (min (unat posY - unat (scrollY s) + unat height) (unat (renderBufferHeight s)))))"
proof -
  let ?H = "unat (renderBufferHeight s)" and ?y0 = "unat posY - unat (scrollY s)" and ?W = "unat (renderBufferWidth s)"
  obtain pl cl rl where w: "scrollY s = ctx_scrollY c" "buffers s (previousBuffer s) = Some pl" "buffers s (renderBuffer s) = Some rl" "buffers s (currentBuffer s) = Some cl"
    "previousBuffer s \<noteq> renderBuffer s" "currentBuffer s \<noteq> previousBuffer s" "currentBuffer s \<noteq> renderBuffer s"
    "?W * ?H \<le> length pl" "?W * ?H \<le> length rl" "?W * unat (ctx_height c) \<le> length cl" "?W * unat (ctx_height c) < 2 ^ 32"
    "unat (ctx_scrollY c) + ?H \<le> unat (ctx_height c)" "\<forall>p < ?W * ?H. pl ! p = rl ! p"
    by (rule current_context [OF wf c]) (rule that; assumption)
  have nl: "\<not> vbeContextLock s" "buffersAllocated s" using wf by (auto simp: vbe_wf_def)
  have h: "unat (ctx_height c) < 2 ^ 32" by (rule unat_u32)
  have sh: "unat (scrollY s + renderBufferHeight s) = unat (scrollY s) + ?H" using w(1,12) h by (intro unat_add_bound) simp
  have y0: "unat (posY - scrollY s) = ?y0" using a(1) by (simp add: unat_sub)
  show ?thesis
  proof (cases "?y0 < ?H")
    case False
    then have "posY \<ge> scrollY s + renderBufferHeight s" using sh a(1) by (simp add: word_le_nat_alt)
    moreover have "rect ?W (unat posX) (unat posX + unat width) ?y0 (min (?y0 + unat height) ?H) = {}" using False by (simp add: rect_def)
    moreover have "vbe_unlock (s\<lparr>vbeContextLock := True\<rparr>) = s" using nl by (simp add: vbe_unlock_def)
    ultimately show ?thesis using nl by (simp add: vbe_blit_to_video_memory_def vbe_lock_def shown_empty)
  next
    case True
    define ym where "ym = (if posY - scrollY s + height > renderBufferHeight s then renderBufferHeight s else posY - scrollY s + height)"
    have "unat (posY - scrollY s + height) = ?y0 + unat height" using a(3) h y0 by (subst unat_add_bound) simp_all
    then have ym: "unat ym = min (?y0 + unat height) ?H" by (auto simp: ym_def word_less_nat_alt)
    moreover have "posY - scrollY s \<le> ym" using ym y0 True by (simp add: word_le_nat_alt)
    ultimately have n: "unat (ym - (posY - scrollY s)) = min (?y0 + unat height) ?H - ?y0" by (simp add: unat_sub y0)
    let ?s = "s\<lparr>vbeContextLock := True\<rparr>"
    have "iter (blit_row posY posX (posY - scrollY s) width) [0..<unat (ym - (posY - scrollY s))] (shown ?s {})
      = Some (shown ?s ({} \<union> (\<Union>y \<in> set [0..<unat (ym - (posY - scrollY s))]. (\<lambda>x. (?y0 + y) * ?W + x) ` {unat posX..<unat posX + unat width})))"
    proof (rule iter_fill)
      fix y D
      assume y: "y \<in> set [0..<unat (ym - (posY - scrollY s))]"
      then have "?y0 + y < ?H" using n by simp
      then show "blit_row posY posX (posY - scrollY s) width (shown ?s D) y
        = Some (shown ?s (D \<union> (\<lambda>x. (?y0 + y) * ?W + x) ` {unat posX..<unat posX + unat width}))"
        using blit_row_shown [of ?s pl rl cl ?W posX width posY "posY - scrollY s" y ?H "unat (ctx_height c)" D] w a y0 by (simp add: word_le_nat_alt add.commute)
    qed
    moreover have "(\<Union>y \<in> set [0..<unat (ym - (posY - scrollY s))]. (\<lambda>x. (?y0 + y) * ?W + x) ` {unat posX..<unat posX + unat width})
      = rect ?W (unat posX) (unat posX + unat width) ?y0 (min (?y0 + unat height) ?H)"
    proof -
      have "?y0 \<le> min (?y0 + unat height) ?H" using True by simp
      then have "{?y0..<min (?y0 + unat height) ?H} = (\<lambda>y. ?y0 + y) ` {0..<min (?y0 + unat height) ?H - ?y0}" by (simp add: add.commute)
      then show ?thesis unfolding rect_def n by (simp del: image_add_atLeastLessThan add: image_image)
    qed
    moreover have "posY < scrollY s + renderBufferHeight s" "\<not> posY < scrollY s" using sh True a(1) by (simp_all add: word_less_nat_alt word_le_nat_alt)
    ultimately show ?thesis using nl
      by (cases "renderBufferHeight s < posY - scrollY s + height")
        (simp_all add: vbe_blit_to_video_memory_def vbe_lock_def shown_empty ym_def Let_def shown_lock not_le)
  qed
qed

lemma vbe_blit_other:
  assumes "vbe_wf s" "contextId \<noteq> currentContext s"
  shows "vbe_blit_to_video_memory contextId posX posY width height s = Some s"
  using assms by (simp add: vbe_blit_to_video_memory_def vbe_lock_def vbe_unlock_def vbe_wf_def)

lemma vbe_blit_above:
  assumes "vbe_wf s" "posY < scrollY s"
  shows "vbe_blit_to_video_memory contextId posX posY width height s = Some s"
  using assms by (simp add: vbe_blit_to_video_memory_def vbe_lock_def vbe_unlock_def vbe_wf_def)

lemma shown_buffers:
  assumes "vbe_wf s" "context_at (currentContext s) s = Some c"
  shows "buffers (shown s D) = (buffers s)
    (previousBuffer s := map_option (fill D (\<lambda>p. the (buffers s (currentBuffer s)) ! (p + unat (scrollY s) * unat (renderBufferWidth s)))) (buffers s (previousBuffer s)),
     renderBuffer s := map_option (fill D (\<lambda>p. the (buffers s (currentBuffer s)) ! (p + unat (scrollY s) * unat (renderBufferWidth s)))) (buffers s (renderBuffer s)))"
  by (simp add: shown_def Let_def)

text \<open>Well-formedness depends on the buffers only through their lengths, apart from the copy of the screen.\<close>

definition same_shape :: "vbe \<Rightarrow> vbe \<Rightarrow> bool" where
  "same_shape s s' \<longleftrightarrow> s' = s\<lparr>buffers := buffers s'\<rparr> \<and> (\<forall>b. map_option length (buffers s' b) = map_option length (buffers s b))"

lemma same_shape_sel:
  assumes "same_shape s s'"
  shows "renderBufferWidth s' = renderBufferWidth s" "renderBufferHeight s' = renderBufferHeight s" "renderBuffer s' = renderBuffer s"
    "contexts s' = contexts s" "currentContext s' = currentContext s" "previousBuffer s' = previousBuffer s" "currentBuffer s' = currentBuffer s"
    "currentBufferHeight s' = currentBufferHeight s" "scrollY s' = scrollY s" "buffersAllocated s' = buffersAllocated s" "vbeContextLock s' = vbeContextLock s"
proof -
  have e: "s' = s\<lparr>buffers := buffers s'\<rparr>" using assms by (simp add: same_shape_def)
  show "renderBufferWidth s' = renderBufferWidth s" "renderBufferHeight s' = renderBufferHeight s" "renderBuffer s' = renderBuffer s"
    "contexts s' = contexts s" "currentContext s' = currentContext s" "previousBuffer s' = previousBuffer s" "currentBuffer s' = currentBuffer s"
    "currentBufferHeight s' = currentBufferHeight s" "scrollY s' = scrollY s" "buffersAllocated s' = buffersAllocated s" "vbeContextLock s' = vbeContextLock s"
    by (subst e, simp)+
qed

lemma same_shape_length:
  assumes "same_shape s s'"
  shows "(case buffers s' b of None \<Rightarrow> False | Some l \<Rightarrow> n \<le> length l) = (case buffers s b of None \<Rightarrow> False | Some l \<Rightarrow> n \<le> length l)"
proof -
  have "map_option length (buffers s' b) = map_option length (buffers s b)" using assms by (simp add: same_shape_def)
  then show ?thesis by (cases "buffers s b"; cases "buffers s' b") simp_all
qed

lemma same_shape_wf:
  assumes "vbe_wf s" "same_shape s s'"
    "\<forall>p < unat (renderBufferWidth s) * unat (renderBufferHeight s). the (buffers s' (previousBuffer s)) ! p = the (buffers s' (renderBuffer s)) ! p"
  shows "vbe_wf s'"
proof -
  have c: "context_ok s' c = context_ok s c" for c
    by (simp add: context_ok_def same_shape_sel [OF assms(2)] same_shape_length [OF assms(2)])
  have "context_at i s' = context_at i s" for i by (simp add: context_at_def same_shape_sel [OF assms(2)])
  then show ?thesis using assms(1,3)
    unfolding vbe_wf_def c context_buffers_def same_shape_sel [OF assms(2)] same_shape_length [OF assms(2)] by simp
qed

lemma same_shape_painted: "same_shape s (painted b w s D)"
  by (simp add: same_shape_def painted_def option.map_comp o_def)

lemma same_shape_shown: "same_shape s (shown s D)"
  by (simp add: same_shape_def shown_def Let_def option.map_comp o_def)

lemma same_shape_trans: "same_shape r s \<Longrightarrow> same_shape s t \<Longrightarrow> same_shape r t"
  unfolding same_shape_def by (metis vbe.update_convs(14) vbe.surjective)

section \<open>Rectangles\<close>

lemma rect_row_painted:
  assumes "buffers s (ctx_current c) = Some l" "unat (renderBufferWidth s) * h \<le> length l" "unat (renderBufferWidth s) * h < 2 ^ 32"
    "unat xMax \<le> unat (renderBufferWidth s)" "y < h"
  shows "rect_row c posX xMax (painted (ctx_current c) (\<lambda>_. ctx_front c) s D) y
    = Some (painted (ctx_current c) (\<lambda>_. ctx_front c) s (D \<union> (\<lambda>x. y * unat (renderBufferWidth s) + x) ` {unat posX..<unat xMax}))"
proof -
  let ?W = "unat (renderBufferWidth s)"
  have "y * ?W \<le> h * ?W" using assms(5) by (intro mult_le_mono1) simp
  then have "(unat (0 :: u32) + y) * ?W < 2 ^ 32" unfolding unsigned_0 add_0 using assms(3) mult.commute [of ?W h] by linarith
  then have u: "unat (of_nat y * renderBufferWidth s) = y * ?W" using unat_index [of 0 y "renderBufferWidth s"] by simp
  have "rect_row c posX xMax (painted (ctx_current c) (\<lambda>_. ctx_front c) s D) y
    = Some (painted (ctx_current c) (\<lambda>_. ctx_front c) s (D \<union> (\<Union>x \<in> set [unat posX..<unat xMax]. {y * ?W + x})))"
    unfolding rect_row_def
  proof (rule iter_fill)
    fix x D
    assume "x \<in> set [unat posX..<unat xMax]"
    then have "y * ?W + x < ?W * h" using rect_bound [OF assms(4), of x y h] assms(5) by simp
    then show "set_px (ctx_current c) (unat (of_nat y * renderBufferWidth (painted (ctx_current c) (\<lambda>_. ctx_front c) s D)) + x) (ctx_front c)
        (painted (ctx_current c) (\<lambda>_. ctx_front c) s D) = Some (painted (ctx_current c) (\<lambda>_. ctx_front c) s (D \<union> {y * ?W + x}))"
      using set_px_painted [OF assms(1), of "y * ?W + x" "\<lambda>_. ctx_front c" D] assms(2) by (simp add: u)
  qed
  moreover have "(\<Union>x \<in> set [unat posX..<unat xMax]. {y * ?W + x}) = (\<lambda>x. y * ?W + x) ` {unat posX..<unat xMax}"
    by (simp only: UNION_singleton_eq_range set_upt)
  ultimately show ?thesis by simp
qed

lemma rect_rows_painted:
  assumes "buffers s (ctx_current c) = Some l" "unat (renderBufferWidth s) * h \<le> length l" "unat (renderBufferWidth s) * h < 2 ^ 32"
    "unat xMax \<le> unat (renderBufferWidth s)" "unat yMax \<le> h"
  shows "iter (rect_row c posX xMax) [unat posY..<unat yMax] s
    = Some (painted (ctx_current c) (\<lambda>_. ctx_front c) s (rect (unat (renderBufferWidth s)) (unat posX) (unat xMax) (unat posY) (unat yMax)))"
proof -
  have "iter (rect_row c posX xMax) [unat posY..<unat yMax] (painted (ctx_current c) (\<lambda>_. ctx_front c) s {})
    = Some (painted (ctx_current c) (\<lambda>_. ctx_front c) s ({} \<union> (\<Union>y \<in> set [unat posY..<unat yMax]. (\<lambda>x. y * unat (renderBufferWidth s) + x) ` {unat posX..<unat xMax})))"
    using assms by (intro iter_fill rect_row_painted [where h = h]) simp_all
  then show ?thesis by (simp add: painted_empty rect_def)
qed

text \<open>The pixel at \<open>(x, y)\<close> of the image of a context, and of the screen.\<close>

definition pixel :: "vbe \<Rightarrow> addr \<Rightarrow> nat \<Rightarrow> nat \<Rightarrow> u32" where
  "pixel s b x y = the (buffers s b) ! (y * unat (renderBufferWidth s) + x)"

lemma concat_disjoint:
  assumes "distinct (concat (map f (filter P xs)))" "i < length xs" "j < length xs" "i \<noteq> j" "P (xs ! i)" "P (xs ! j)"
  shows "set (f (xs ! i)) \<inter> set (f (xs ! j)) = {}"
proof -
  have *: "set (f (xs ! i)) \<inter> set (f (xs ! j)) = {}" if "i < j" "j < length xs" "P (xs ! i)" "P (xs ! j)" for i j
  proof -
    define ys x zs where "ys = take j xs" and "x = xs ! j" and "zs = drop (Suc j) xs"
    have "xs = ys @ x # zs" unfolding ys_def x_def zs_def using that by (simp add: id_take_nth_drop)
    then have "distinct (concat (map f (filter P (ys @ x # zs))))" using assms(1) by simp
    moreover have "xs ! i \<in> set ys" using that by (auto simp: ys_def in_set_conv_nth intro!: exI [of _ i])
    ultimately show ?thesis using that(3,4) by (auto simp: x_def)
  qed
  from assms(4) consider "i < j" | "j < i" by linarith
  then show ?thesis using * [of i j] * [of j i] assms by cases auto
qed

lemma context_atD: "context_at i s = Some c \<Longrightarrow> 0 \<le> i \<and> nat i < length (contexts s) \<and> c = contexts s ! nat i \<and> c \<in> set (contexts s)"
  by (auto simp: context_at_def split: if_splits)

lemma context_buffers_apart:
  assumes "vbe_wf s" "context_at i s = Some c" "inUse c" "context_at (currentContext s) s = Some cc"
  shows "ctx_current c \<noteq> previousBuffer s" "ctx_current c \<noteq> renderBuffer s" "i \<noteq> currentContext s \<Longrightarrow> ctx_current c \<noteq> currentBuffer s"
proof -
  have cc: "inUse cc" "previousBuffer s = ctx_previous cc" "currentBuffer s = ctx_current cc" using assms(1,4) by (auto simp: vbe_wf_def)
  have d: "distinct (renderBuffer s # context_buffers s)" using assms(1) by (simp add: vbe_wf_def)
  show "ctx_current c \<noteq> renderBuffer s" using d context_atD [OF assms(2)] assms(3) by (auto simp: context_buffers_def)
  have x: "ctx_current c \<notin> {ctx_previous cc, ctx_current cc}" if "i \<noteq> currentContext s"
  proof -
    have "nat i \<noteq> nat (currentContext s)" using that context_atD [OF assms(2)] context_atD [OF assms(4)] by auto
    then have "set [ctx_previous c, ctx_current c] \<inter> set [ctx_previous cc, ctx_current cc] = {}"
      using concat_disjoint [of "\<lambda>c. [ctx_previous c, ctx_current c]" inUse "contexts s" "nat i" "nat (currentContext s)"] d
        context_atD [OF assms(2)] context_atD [OF assms(4)] assms(3) cc(1) by (simp add: context_buffers_def)
    then show ?thesis by auto
  qed
  show "i \<noteq> currentContext s \<Longrightarrow> ctx_current c \<noteq> currentBuffer s" using x cc by simp
  show "ctx_current c \<noteq> previousBuffer s"
  proof (cases "i = currentContext s")
    case True
    then have "c = cc" using assms by simp
    moreover obtain as bs where "contexts s = as @ c # bs" using context_atD [OF assms(2)] by (meson split_list)
    ultimately show ?thesis using d assms(3) cc by (auto simp: context_buffers_def)
  next
    case False
    then show ?thesis using x cc by simp
  qed
qed

lemma painted_wf:
  assumes "vbe_wf s" "b \<noteq> previousBuffer s" "b \<noteq> renderBuffer s"
  shows "vbe_wf (painted b w s D)"
  using assms by (intro same_shape_wf [OF assms(1) same_shape_painted]) (simp add: vbe_wf_def)

lemma shown_wf:
  assumes "vbe_wf s" shows "vbe_wf (shown s D)"
proof -
  obtain c where c: "context_at (currentContext s) s = Some c" using assms by (auto simp: vbe_wf_def split: option.splits)
  obtain pl cl rl where b: "buffers s (previousBuffer s) = Some pl" "buffers s (renderBuffer s) = Some rl" "previousBuffer s \<noteq> renderBuffer s"
    "unat (renderBufferWidth s) * unat (renderBufferHeight s) \<le> length pl" "unat (renderBufferWidth s) * unat (renderBufferHeight s) \<le> length rl"
    "\<forall>p < unat (renderBufferWidth s) * unat (renderBufferHeight s). pl ! p = rl ! p"
    by (rule current_context [OF assms c]) (rule that; assumption)
  then show ?thesis by (intro same_shape_wf [OF assms same_shape_shown]) (auto simp: shown_def Let_def)
qed

lemma rect_shift:
  assumes "x1 \<le> w" "0 < w"
  shows "p + d * w \<in> rect w x0 x1 y0 y1 \<longleftrightarrow> p \<in> rect w x0 x1 (y0 - d) (y1 - d) \<and> y0 \<le> p div w + d"
  using assms by (auto simp: rect_mem)

definition visible_part :: "int \<Rightarrow> u32 \<Rightarrow> u32 \<Rightarrow> u32 \<Rightarrow> u32 \<Rightarrow> vbe \<Rightarrow> nat set" where
  "visible_part contextId posX posY width height s =
     (if contextId = currentContext s \<and> scrollY s \<le> posY
      then rect (unat (renderBufferWidth s)) (unat posX) (unat posX + unat width) (unat posY - unat (scrollY s))
        (min (unat posY - unat (scrollY s) + unat height) (unat (renderBufferHeight s)))
      else {})"

lemma vbe_blit_shown:
  assumes "vbe_wf s" "context_at contextId s = Some c" "unat posX + unat width \<le> unat (renderBufferWidth s)" "unat posY + unat height \<le> unat (ctx_height c)"
  shows "vbe_blit_to_video_memory contextId posX posY width height s = Some (shown s (visible_part contextId posX posY width height s))"
proof (cases "contextId = currentContext s \<and> scrollY s \<le> posY")
  case True
  then show ?thesis using vbe_blit_ok [OF assms(1), of c posY posX width height] assms by (simp add: visible_part_def)
next
  case False
  then have "vbe_blit_to_video_memory contextId posX posY width height s = Some s"
    using vbe_blit_other [OF assms(1)] vbe_blit_above [OF assms(1)] by (metis not_le)
  then show ?thesis using False by (auto simp: visible_part_def shown_empty)
qed

lemma context_okD:
  assumes "vbe_wf s" "context_at i s = Some c" "inUse c"
  obtains l where "buffers s (ctx_current c) = Some l" "unat (renderBufferWidth s) * unat (ctx_height c) \<le> length l"
    "unat (renderBufferWidth s) * unat (ctx_height c) < 2 ^ 32" "unat (ctx_scrollY c) + unat (renderBufferHeight s) \<le> unat (ctx_height c)"
proof -
  have "context_ok s c" using assms context_atD [OF assms(2)] by (simp add: vbe_wf_def)
  then show ?thesis using that by (auto simp: context_ok_def Let_def split: option.splits)
qed

lemma vbe_rectangle_run:
  assumes wf: "vbe_wf s" and c: "context_at contextId s = Some c" "inUse c"
    and x: "posX < renderBufferWidth s" "unat posX + unat width \<le> unat (renderBufferWidth s)"
    and y: "posY < ctx_height c" "unat posY + unat height \<le> unat (ctx_height c)"
  shows "vbe_rectangle contextId posX posY width height s = Some (shown
    (painted (ctx_current c) (\<lambda>_. ctx_front c) s
      (rect (unat (renderBufferWidth s)) (unat posX) (unat posX + unat width) (unat posY) (unat posY + unat height)))
    (visible_part contextId posX posY width height s), 0)"
proof -
  obtain cc where cc: "context_at (currentContext s) s = Some cc" using wf by (auto simp: vbe_wf_def split: option.splits)
  obtain l where l: "buffers s (ctx_current c) = Some l" "unat (renderBufferWidth s) * unat (ctx_height c) \<le> length l"
    "unat (renderBufferWidth s) * unat (ctx_height c) < 2 ^ 32" using context_okD [OF wf c] by blast
  have ux: "unat (posX + width) = unat posX + unat width" using x(2) unat_u32 [of "renderBufferWidth s"] by (intro unat_add_bound) linarith
  have uy: "unat (posY + height) = unat posY + unat height" using y(2) unat_u32 [of "ctx_height c"] by (intro unat_add_bound) linarith
  let ?s = "painted (ctx_current c) (\<lambda>_. ctx_front c) s (rect (unat (renderBufferWidth s)) (unat posX) (unat posX + unat width) (unat posY) (unat posY + unat height))"
  have rows: "iter (rect_row c posX (posX + width)) [unat posY..<unat (posY + height)] s = Some ?s"
    using rect_rows_painted [of s c l "unat (ctx_height c)" "posX + width" "posY + height" posX posY] l x y by (simp add: ux uy)
  have "vbe_wf ?s" using context_buffers_apart [OF wf c cc] by (intro painted_wf wf)
  then have "vbe_blit_to_video_memory contextId posX posY width height ?s = Some (shown ?s (visible_part contextId posX posY width height ?s))"
    using x(2) y(2) c(1) by (intro vbe_blit_shown [where c = c]) simp_all
  moreover have "visible_part contextId posX posY width height ?s = visible_part contextId posX posY width height s" by (simp add: visible_part_def)
  moreover have "\<not> (posX \<ge> renderBufferWidth s \<or> posX + width > renderBufferWidth s)" "\<not> (posY \<ge> ctx_height c \<or> posY + height > ctx_height c)"
    using x y ux uy by (simp_all add: word_le_nat_alt word_less_nat_alt)
  ultimately show ?thesis using c rows by (simp add: vbe_rectangle_def)
qed

lemma shown_in_sync:
  assumes wf: "vbe_wf s" and c: "context_at contextId s = Some c" "inUse c"
    and x: "unat posX + unat width \<le> unat (renderBufferWidth s)" and sync: "in_sync s" and top: "contextId = currentContext s \<Longrightarrow> scrollY s \<le> posY"
    and R: "R = rect (unat (renderBufferWidth s)) (unat posX) (unat posX + unat width) (unat posY) (unat posY + unat height)"
  shows "in_sync (shown (painted (ctx_current c) w s R) (visible_part contextId posX posY width height s))"
proof -
  let ?W = "unat (renderBufferWidth s)" and ?H = "unat (renderBufferHeight s)" and ?d = "unat (scrollY s)"
  obtain cc where cc: "context_at (currentContext s) s = Some cc" using wf by (auto simp: vbe_wf_def split: option.splits)
  obtain pl cl rl where b: "scrollY s = ctx_scrollY cc" "buffers s (previousBuffer s) = Some pl" "buffers s (renderBuffer s) = Some rl" "buffers s (currentBuffer s) = Some cl"
    "previousBuffer s \<noteq> renderBuffer s" "currentBuffer s \<noteq> previousBuffer s" "currentBuffer s \<noteq> renderBuffer s" "?W * ?H \<le> length rl" "?W * unat (ctx_height cc) \<le> length cl"
    "unat (ctx_scrollY cc) + ?H \<le> unat (ctx_height cc)" "currentBuffer s = ctx_current cc" by (rule current_context [OF wf cc]) (rule that; assumption)
  note ap = context_buffers_apart [OF wf c cc]
  have old: "rl ! p = cl ! (p + ?d * ?W)" if "p < ?W * ?H" for p using sync that b by (simp add: in_sync_def)
  have "(?d + ?H) * ?W \<le> unat (ctx_height cc) * ?W" using b(1,10) by (intro mult_le_mono1) simp
  then have len: "p + ?d * ?W < length cl" if "p < ?W * ?H" for p using that b(9) by (simp add: algebra_simps)
  show ?thesis
  proof (cases "contextId = currentContext s")
    case False
    then have "visible_part contextId posX posY width height s = {}" by (simp add: visible_part_def)
    then show ?thesis using False ap b old by (simp add: in_sync_def shown_empty)
  next
    case True
    then have e: "cc = c" using c cc by simp
    have v: "p \<in> visible_part contextId posX posY width height s \<longleftrightarrow> p + ?d * ?W \<in> R" if "p < ?W * ?H" for p
    proof -
      have w: "0 < ?W" "p div ?W < ?H" using that by (auto simp: less_mult_imp_div_less mult.commute intro: Nat.gr0I)
      have "scrollY s \<le> posY" using True top by simp
      then show ?thesis using w True unfolding visible_part_def R rect_shift [OF x w(1)] by (auto simp: rect_mem [OF x] word_le_nat_alt)
    qed
    then show ?thesis using True ap b old e len by (auto simp: in_sync_def shown_def Let_def)
  qed
qed


definition vbe_example :: vbe where
  "vbe_example = (let c = \<lparr>inUse = True, ctx_previous = 0x1000, ctx_current = 0x2000, ctx_height = 3, ctx_scrollY = 1, ctx_front = 7, ctx_back = 0\<rparr> in
     \<lparr>colorFront = 7, colorBack = 0, renderBufferWidth = 2, renderBufferHeight = 2, renderBuffer = 0x3000,
      contexts = c # replicate 11 (c\<lparr>inUse := False\<rparr>), currentContext = 0, previousBuffer = 0x1000, currentBuffer = 0x2000,
      currentBufferHeight = 3, scrollY = 1, buffersAllocated = True, vbeContextLock = False,
      buffers = [0x1000 \<mapsto> [3, 4, 5, 6], 0x2000 \<mapsto> [1, 2, 3, 4, 5, 6], 0x3000 \<mapsto> [3, 4, 5, 6]],
      text_memory = (\<lambda>_. 0), v_allocs = 0, v_heap = (\<lambda>_. 0), v_junk = (\<lambda>_. 0)\<rparr>)"

lemma all_less_4: "(\<forall>p < (4 :: nat). P p) \<longleftrightarrow> P 0 \<and> P 1 \<and> P 2 \<and> P 3"
proof -
  have "{..<4 :: nat} = {0, 1, 2, 3}" by auto
  then show ?thesis by (metis insert_iff lessThan_iff singletonD)
qed

lemma vbe_example_wf: "vbe_wf vbe_example" "in_sync vbe_example"
  "context_at 0 vbe_example = Some \<lparr>inUse = True, ctx_previous = 0x1000, ctx_current = 0x2000, ctx_height = 3, ctx_scrollY = 1, ctx_front = 7, ctx_back = 0\<rparr>"
proof -
  show c: "context_at 0 vbe_example = Some \<lparr>inUse = True, ctx_previous = 0x1000, ctx_current = 0x2000, ctx_height = 3, ctx_scrollY = 1, ctx_front = 7, ctx_back = 0\<rparr>"
    by (simp add: context_at_def vbe_example_def Let_def)
  have e: "set (contexts vbe_example) = {\<lparr>inUse = True, ctx_previous = 0x1000, ctx_current = 0x2000, ctx_height = 3, ctx_scrollY = 1, ctx_front = 7, ctx_back = 0\<rparr>,
    \<lparr>inUse = False, ctx_previous = 0x1000, ctx_current = 0x2000, ctx_height = 3, ctx_scrollY = 1, ctx_front = 7, ctx_back = 0\<rparr>}"
    by (auto simp: vbe_example_def Let_def)
  have "currentContext vbe_example = 0" by (simp add: vbe_example_def Let_def)
  then show "vbe_wf vbe_example" using c e
    by (simp add: vbe_wf_def context_ok_def Let_def all_less_4) (simp add: vbe_example_def Let_def context_buffers_def VBE_CONTEXT_COUNT_def all_less_4)
  show "in_sync vbe_example" by (simp add: in_sync_def vbe_example_def Let_def all_less_4)
qed


section \<open>Showing a context\<close>

definition load_context :: "int \<Rightarrow> vbe_context \<Rightarrow> vbe \<Rightarrow> vbe" where
  "load_context i c s = s\<lparr>previousBuffer := ctx_previous c, currentBuffer := ctx_current c, currentBufferHeight := ctx_height c,
     scrollY := ctx_scrollY c, colorFront := ctx_front c, colorBack := ctx_back c, currentContext := i\<rparr>"

lemma load_context_sel [simp]: "renderBufferWidth (load_context i c s) = renderBufferWidth s" "renderBufferHeight (load_context i c s) = renderBufferHeight s"
  "renderBuffer (load_context i c s) = renderBuffer s" "contexts (load_context i c s) = contexts s" "currentContext (load_context i c s) = i"
  "previousBuffer (load_context i c s) = ctx_previous c" "currentBuffer (load_context i c s) = ctx_current c"
  "currentBufferHeight (load_context i c s) = ctx_height c" "scrollY (load_context i c s) = ctx_scrollY c"
  "buffersAllocated (load_context i c s) = buffersAllocated s" "vbeContextLock (load_context i c s) = vbeContextLock s"
  "buffers (load_context i c s) = buffers s"
  by (simp_all add: load_context_def)

lemma redraw_pixel_shown:
  assumes b: "buffers s (previousBuffer s) = Some pl" "buffers s (renderBuffer s) = Some rl" "buffers s (currentBuffer s) = Some cl"
    and d: "previousBuffer s \<noteq> renderBuffer s" "currentBuffer s \<noteq> previousBuffer s" "currentBuffer s \<noteq> renderBuffer s"
    and l: "p < length pl" "p < length rl" "p + unat (scrollY s) * unat (renderBufferWidth s) < length cl"
      "unat (scrollY s * renderBufferWidth s) = unat (scrollY s) * unat (renderBufferWidth s)"
  shows "redraw_pixel (shown s D) p = Some (shown s (insert p D))"
proof -
  let ?w = "\<lambda>p. cl ! (p + unat (scrollY s) * unat (renderBufferWidth s))"
  have "shown s (insert p D) = s\<lparr>buffers := (buffers s)(previousBuffer s := Some ((fill D ?w pl)[p := ?w p]), renderBuffer s := Some ((fill D ?w rl)[p := ?w p]))\<rparr>"
    using b fill_update [of D ?w pl p] fill_update [of D ?w rl p] by (simp add: shown_def Let_def)
  moreover have "shown s D = s\<lparr>buffers := (buffers s)(previousBuffer s := Some (fill D ?w pl), renderBuffer s := Some (fill D ?w rl))\<rparr>"
    using b by (simp add: shown_def Let_def)
  ultimately show ?thesis using d l b by (simp add: redraw_pixel_def get_px_def set_px_def fun_upd_twist add.commute)
qed

lemma vbe_show_context_run:
  assumes wf: "vbe_wf s" and c: "context_at i s = Some c" "inUse c"
  shows "vbe_show_context i s = Some (shown (load_context i c s) {0..<unat (renderBufferWidth s) * unat (renderBufferHeight s)})"
proof -
  let ?s = "load_context i c (s\<lparr>vbeContextLock := True\<rparr>)" and ?W = "unat (renderBufferWidth s)" and ?H = "unat (renderBufferHeight s)"
  have ok: "context_ok s c" using assms context_atD [OF c(1)] by (simp add: vbe_wf_def)
  then obtain pl cl where b: "buffers s (ctx_previous c) = Some pl" "buffers s (ctx_current c) = Some cl" "?W * ?H \<le> length pl" "?W * unat (ctx_height c) \<le> length cl"
    "?W * unat (ctx_height c) < 2 ^ 32" "unat (ctx_scrollY c) + ?H \<le> unat (ctx_height c)" by (auto simp: context_ok_def Let_def split: option.splits)
  obtain rl where rl: "buffers s (renderBuffer s) = Some rl" "?W * ?H \<le> length rl" using wf by (auto simp: vbe_wf_def split: option.splits)
  have d: "distinct (renderBuffer s # context_buffers s)" and nl: "\<not> vbeContextLock s" "buffersAllocated s" using wf by (simp_all add: vbe_wf_def)
  obtain as bs where "contexts s = as @ c # bs" using context_atD [OF c(1)] by (meson split_list)
  then have ne: "ctx_previous c \<noteq> renderBuffer s" "ctx_current c \<noteq> ctx_previous c" "ctx_current c \<noteq> renderBuffer s" using d c(2) by (auto simp: context_buffers_def)
  have "(unat (ctx_scrollY c) + ?H) * ?W \<le> unat (ctx_height c) * ?W" using b(6) by (rule mult_le_mono1)
  then have m: "unat (ctx_scrollY c) * ?W + ?W * ?H \<le> ?W * unat (ctx_height c)" by (simp add: algebra_simps)
  have "(unat (ctx_scrollY c) + 0) * ?W < 2 ^ 32" using m b(5) unfolding add_0_right by linarith
  then have u: "unat (ctx_scrollY c * renderBufferWidth s) = unat (ctx_scrollY c) * ?W" using unat_index [of "ctx_scrollY c" 0] by simp
  have "(unat (0 :: u32) + ?H) * ?W < 2 ^ 32" using m b(5) mult.commute [of ?W ?H] unfolding unsigned_0 add_0 by linarith
  then have h: "unat (renderBufferWidth s * renderBufferHeight s) = ?W * ?H" using unat_index [of 0 ?H "renderBufferWidth s"] by (simp add: mult.commute)
  have "iter redraw_pixel [0..<?W * ?H] (shown ?s {}) = Some (shown ?s ({} \<union> (\<Union>p \<in> set [0..<?W * ?H]. {p})))"
  proof (rule iter_fill)
    fix p D
    assume "p \<in> set [0..<?W * ?H]"
    then show "redraw_pixel (shown ?s D) p = Some (shown ?s (D \<union> {p}))"
      using redraw_pixel_shown [of ?s pl rl cl p D] b rl ne u m by simp
  qed
  then have "iter redraw_pixel [0..<?W * ?H] ?s = Some (shown ?s {0..<?W * ?H})" by (simp add: shown_empty)
  moreover have "vbe_unlock (shown ?s D) = shown (load_context i c s) D" for D using nl by (simp add: shown_def load_context_def vbe_unlock_def Let_def)
  ultimately show ?thesis using c nl by (simp add: vbe_show_context_def vbe_lock_def load_context_def [symmetric] h Let_def)
qed

text \<open>
  C39. Showing a context that is in use makes it the displayed one: the screen then shows exactly the visible part of its image, for
  every scroll position, the images of all contexts are unchanged, and the state stays well formed.
\<close>

theorem vbe_show_context_correct:
  assumes "vbe_wf s" "context_at i s = Some c" "inUse c"
  shows "\<exists>s'. vbe_show_context i s = Some s' \<and> vbe_wf s' \<and> in_sync s' \<and> currentContext s' = i \<and> contexts s' = contexts s
    \<and> (\<forall>b. b \<noteq> ctx_previous c \<and> b \<noteq> renderBuffer s \<longrightarrow> buffers s' b = buffers s b)"
proof -
  let ?W = "unat (renderBufferWidth s)" and ?H = "unat (renderBufferHeight s)" and ?s = "load_context i c s"
  let ?t = "shown ?s {0..<?W * ?H}"
  have ok: "context_ok s c" using assms context_atD [OF assms(2)] by (simp add: vbe_wf_def)
  then obtain pl where b: "buffers s (ctx_previous c) = Some pl" "?W * ?H \<le> length pl" by (auto simp: context_ok_def Let_def split: option.splits)
  obtain rl where rl: "buffers s (renderBuffer s) = Some rl" "?W * ?H \<le> length rl" using assms by (auto simp: vbe_wf_def split: option.splits)
  obtain as bs where sp: "contexts s = as @ c # bs" using context_atD [OF assms(2)] by (meson split_list)
  have d: "distinct (renderBuffer s # context_buffers s)" using assms by (simp add: vbe_wf_def)
  then have ne: "ctx_previous c \<noteq> renderBuffer s" "ctx_current c \<noteq> ctx_previous c" "ctx_current c \<noteq> renderBuffer s" using sp assms(3) by (auto simp: context_buffers_def)
  have sh: "same_shape ?s ?t" by (rule same_shape_shown)
  have "context_ok ?t c' = context_ok s c'" for c' using same_shape_length [OF sh] by (simp add: context_ok_def)
  moreover have "context_at i ?t = Some c" using assms(2) by (auto simp: context_at_def split: if_splits)
  moreover have "the (buffers ?t (ctx_previous c)) ! p = the (buffers ?t (renderBuffer s)) ! p" if "p < ?W * ?H" for p
    using that b rl ne by (simp add: shown_def Let_def)
  ultimately have "vbe_wf ?t" using assms(1,3) d same_shape_length [OF sh, where b = "renderBuffer s" and n = "?W * ?H"]
    by (simp add: vbe_wf_def context_buffers_def split: option.splits)
  moreover have "in_sync ?t" using b rl ne by (simp add: in_sync_def shown_def Let_def)
  moreover have "buffers ?t b = buffers s b" if "b \<noteq> ctx_previous c" "b \<noteq> renderBuffer s" for b using that by (simp add: shown_def Let_def)
  ultimately show ?thesis using vbe_show_context_run [OF assms] by auto
qed

theorem vbe_show_context_correct_witness: "\<exists>s'. vbe_show_context 0 vbe_example = Some s' \<and> in_sync s' \<and> currentContext s' = 0"
  using vbe_show_context_correct [OF vbe_example_wf(1,3)] by auto

section \<open>Wrap-around of the checks\<close>

lemma iter_None:
  assumes "\<And>x s s'. I s \<Longrightarrow> f s x = Some s' \<Longrightarrow> I s'" "\<And>s. I s \<Longrightarrow> f s x = None" "x \<in> set xs" "I s"
  shows "iter f xs s = None"
  using assms(3,4)
proof (induction xs arbitrary: s)
  case (Cons y ys)
  then show ?case using assms(1,2) by (cases "y = x"; cases "f s y") auto
qed simp

definition buffer_size :: "addr \<Rightarrow> nat \<Rightarrow> vbe \<Rightarrow> bool" where
  "buffer_size b n s \<longleftrightarrow> map_option length (buffers s b) = Some n"

lemma set_px_size: "buffer_size b n s \<Longrightarrow> set_px b' i v s = Some s' \<Longrightarrow> buffer_size b n s'"
  by (auto simp: buffer_size_def set_px_def split: Option.bind_splits if_splits)

lemma set_px_outside: "buffer_size b n s \<Longrightarrow> n \<le> i \<Longrightarrow> set_px b i v s = None"
  by (auto simp: buffer_size_def set_px_def split: Option.bind_splits)

text \<open>
  C40. The check of \<^verbatim>\<open>vbe_draw\<close> is done in 32 bits.  A width for which \<^verbatim>\<open>posX + width\<close> wraps around to a number inside of the screen
  passes it, and the copy of the first row then leaves the memory of the buffer (or of the caller's pixels).
\<close>

theorem vbe_draw_wraps:
  assumes "context_at contextId s = Some c" "buffers s (ctx_current c) = Some l" "length l < 2 ^ 32"
    "posX < renderBufferWidth s" "posX + width \<le> renderBufferWidth s" "2 ^ 32 \<le> unat posX + unat width"
    "posY < ctx_height c" "posY + height \<le> ctx_height c" "0 < height"
  shows "vbe_draw contextId pixels posX posY width height s = None"
proof -
  let ?I = "buffer_size (ctx_current c) (length l)"
  let ?f = "\<lambda>s x. let src = unat (of_nat 0 * width) + x in if src < length pixels
    then set_px (ctx_current c) (unat ((posY + of_nat 0) * renderBufferWidth s) + unat posX + x) (pixels ! src) s else None"
  have "draw_row c pixels posX posY width s 0 = None"
    unfolding draw_row_def
  proof (rule iter_None [where x = "unat width - 1" and I = ?I])
    show "?I s' \<Longrightarrow> ?f s' x = Some s'' \<Longrightarrow> ?I s''" for x s' s'' by (auto simp: Let_def split: if_splits elim: set_px_size)
    show "unat width - 1 \<in> set [0..<unat width]" using assms(6) unat_u32 [of posX] by (cases "unat width") auto
    show "?I s" using assms(2) by (simp add: buffer_size_def)
    show "?f s' (unat width - 1) = None" if "?I s'" for s'
      using set_px_outside [OF that] assms(3,6) unat_u32 [of posX] by (simp add: Let_def)
  qed
  moreover have "[0..<unat height] = 0 # [1..<unat height]" using assms(9) by (simp add: upt_conv_Cons word_less_nat_alt)
  ultimately show ?thesis using assms by (simp add: vbe_draw_def not_le not_less)
qed

theorem vbe_draw_wraps_witness: "vbe_draw 0 [8, 9] 1 1 0xFFFFFFFF 1 vbe_example = None"
  by (rule vbe_draw_wraps [OF vbe_example_wf(3), where l = "[1, 2, 3, 4, 5, 6]"]) (simp_all add: vbe_example_def Let_def)

end
