(* ===== verification/Spec2Isabelle.thy ===== *)
theory Spec2Isabelle
  imports Klist_Sort PmmRegion MmMapInit Msg RamfsList Vbe
begin

text \<open>
  A verification library for \<^verbatim>\<open>itskernel\<close>, a kernel for x86-64 machines with several processors.  Paths below are relative to
  \<^verbatim>\<open>src/code/\<close>.

  \<^bold>\<open>The parts and how they interact.\<close>  At start-up the kernel reads the boot information (\<^verbatim>\<open>kernel/init/multiboot.c\<close>), builds a map of
  the physical memory from it (\<^verbatim>\<open>kernel/mm/map.c\<close>) and hands the available regions to the physical memory manager
  (\<^verbatim>\<open>kernel/mm/pmm.c\<close>).  The virtual memory manager (\<^verbatim>\<open>kernel/mm/vmm.c\<close>) takes frames from it for the page tables and for mapped
  pages, and collects stale translations in transactions that are sent to all processors (\<^verbatim>\<open>kernel/mm/tlb.c\<close>).  Ranges
  (\<^verbatim>\<open>kernel/mm/range.c\<close>) map many pages at once, and the segments of a process (\<^verbatim>\<open>kernel/mm/seg.c\<close>) divide its address space into
  such ranges.  Threads (\<^verbatim>\<open>kernel/proc/thread.c\<close>) get a stack as a segment and are run by the scheduler (\<^verbatim>\<open>kernel/proc/sched.c\<close>) from
  a queue that all processors share.  The timer interrupt also polls the keyboard (\<^verbatim>\<open>kernel/io/keyboard.c\<close>), which sends messages
  to processes (\<^verbatim>\<open>kernel/proc/msg.c\<close>, \<^verbatim>\<open>proc.c\<close>).  Processes draw into contexts, one of which is on the screen (\<^verbatim>\<open>kernel/vbe/vbe.c\<close>).  Programs and data lie in a file system in memory (\<^verbatim>\<open>kernel/fs/ramfs.c\<close>).
  Queues and lists of all parts are the intrusive lists of \<^verbatim>\<open>kernel/util/list.c\<close>.

  \<^bold>\<open>Conventions.\<close>  Integers of the C sources are words of their width, so that wrap-around is that of the machine; the few
  \<^verbatim>\<open>int\<close> variables are \<open>int\<close> or \<open>nat\<close> where they are loop counters or small codes.  A structure is a record, a global variable
  or a static one a field of the state record of its component, and an operation a function from states to states.  A
  pointer is a word, and memory of one type a function from addresses, with \<open>None\<close> for memory that is not allocated where the
  code can free it.  The result \<open>None\<close> of an operation stands for what never returns normally: a fault, a failed assertion, a panic, an
  endless loop, or a lock that is taken twice.  Every theorem about results shows that the result is \<open>Some\<close>.  The
  operations of one component exclude each other by its lock and are single steps; where interleaving matters (ticks of
  several processors, requests of several clients) a theorem quantifies over sequences of steps.

  \<^bold>\<open>Theories.\<close>
  \<^item> \<open>Prelude\<close>: the machine types, counting loops (\<open>iter\<close>) and facts on words and lists.  \<open>MmCommon\<close>: the constants of
    \<^verbatim>\<open>kernel/mm/common.h\<close> and \<^verbatim>\<open>align.h\<close>.
  \<^item> \<open>Klist\<close>, \<open>Klist_Sort\<close> model \<^verbatim>\<open>kernel/util/list.c\<close>.  \<open>dll m l xs\<close> says that the links represent the sequence \<open>xs\<close>.  Every operation
    refines the one on sequences and leaves other nodes alone; these laws are the locale \<open>node_list\<close>, which the clients use
    through its interpretation \<open>kl\<close>.  Merge sort returns a sorted permutation for lists of two or more nodes, for every order
    of the locale \<open>comparator\<close>; for one node it loses the tail.
  \<^item> \<open>Kstring\<close> models \<^verbatim>\<open>kernel/stdlib/string.c\<close> and the differing functions of \<^verbatim>\<open>lib/string.c\<close> on byte memory: overlapping copies,
    comparison, and the round trip of numbers through text.
  \<^item> \<open>Multiboot\<close>, \<open>MmMap\<close>, \<open>MmMapInit\<close> model the tag search and the memory map: sanitizing ends and gives each address the highest type
    that covered it, and after start-up the available addresses are those of the firmware without the reserved areas.
  \<^item> \<open>Pmm\<close> models \<^verbatim>\<open>kernel/mm/pmm.c\<close>: nine stacks of frames in linked pages and the list of frames for such pages.  \<open>PmmRep\<close> says
    what a state represents, \<open>PmmAlloc\<close> proves the three mutually recursive functions, \<open>PmmIface\<close> states the contract as the
    locale \<open>frame_allocator\<close> with all sequences of requests of its clients, and \<open>PmmInit\<close>, \<open>PmmRegion\<close> the division of the regions
    at start-up.
  \<^item> \<open>Tlb\<close> models \<^verbatim>\<open>kernel/mm/tlb.c\<close>; after a commit no processor holds a translation of a queued address.
  \<^item> \<open>Vmm\<close> models \<^verbatim>\<open>kernel/mm/vmm.c\<close> with its window on the page tables (entry 510 of the top table refers to the top table).
    \<open>VmmRep\<close> and \<open>VmmTree\<close> read the tables as a tree, \<open>VmmInv\<close> holds the invariant, \<open>VmmMap\<close> the creation of tables with its rollback,
    and \<open>VmmOps\<close> the effect of each operation on the translation of every address as the hardware performs it.
  \<^item> \<open>Range\<close> models \<^verbatim>\<open>kernel/mm/range.c\<close> and \<^verbatim>\<open>validate.c\<close>, \<open>Seg\<close> models \<^verbatim>\<open>seg.c\<close>: allocation is first fit on a partition of the user
    address space, and release joins free neighbours.
  \<^item> \<open>Sched\<close> models \<^verbatim>\<open>kernel/proc/sched.c\<close>: all interleavings of ticks keep the scheduler well formed, every queued thread gets its
    processor, and it continues with the registers it had.  \<open>Thread\<close> extends the state for \<^verbatim>\<open>thread.c\<close> and its system calls.
  \<^item> \<open>Keycodes\<close> and \<open>Msg\<close> model the key tables, the keyboard handler and the message queues: keys arrive in order.
  \<^item> \<open>Font\<close> and \<open>Vbe\<close> model the font and \<^verbatim>\<open>kernel/vbe/vbe.c\<close>: images of contexts, the transfer of changed pixels to the screen, and the
    display of a context, which makes the screen show the visible part of its image.
  \<^item> \<open>Ramfs\<close> models \<^verbatim>\<open>kernel/fs/ramfs.c\<close>; \<open>RamfsFile\<close> proves reading, writing and seeking against the sequence of bytes of a
    file, \<open>RamfsDir\<close> and \<open>RamfsOpen\<close> the directory tree and the handles, \<open>RamfsList\<close> the bounds of the listing.

  \<^bold>\<open>Errors in the code\<close> are theorems as well: the lost tail of \<^verbatim>\<open>list_sort\<close>, the swapped arguments that make \<^verbatim>\<open>vmm_unmap_range\<close>
  idle, the panic in the clean-up of \<^verbatim>\<open>range_alloc\<close>, writing after reading to the end of a file, files deleted while a second
  handle is open, directories found by a prefix of their name, the lock that \<^verbatim>\<open>ramfs_list\<close> keeps, the stack that
  \<^verbatim>\<open>thread_kill\<close> does not release, the threads that \<^verbatim>\<open>sys_exit\<close> loses, and the wrap-around in the check of \<^verbatim>\<open>vbe_draw\<close>.

  \<^bold>\<open>Bounds.\<close>  The functions of \<^verbatim>\<open>pmm.c\<close> that call each other take a bound on their depth, \<open>PMM_DEPTH = 64\<close>; \<open>PmmAlloc\<close> proves
  that no call in a well-formed state reaches it, because every nested call works on a smaller frame size or after another
  frame was reserved.  Loops are structural recursions, or \<open>partial_function (option)\<close>, and the theorems show that they return.

  \<^bold>\<open>Parameters.\<close>  \<^verbatim>\<open>malloc\<close> and \<^verbatim>\<open>memalign\<close> (\<^verbatim>\<open>dlmalloc.c\<close>, third-party code) and \<^verbatim>\<open>heap_alloc\<close> for drawing are sequences of the addresses that their
  calls return, with 0 for failure; theorems assume that fresh addresses differ from those in use.  Boot information and the
  scan codes of the keyboard controller are arguments.

  \<^bold>\<open>Not modelled.\<close>  The kernel heap \<^verbatim>\<open>kernel/mm/heap.c\<close>; contiguous allocation and the defragmentation of the physical memory that it starts; the
  creation and destruction of processes and the loading of programs; the locks below the components (single flags here);
  code that programs devices
  (\<^verbatim>\<open>acpi\<close>, \<^verbatim>\<open>intr\<close>, \<^verbatim>\<open>smp\<close>, \<^verbatim>\<open>pci\<close>, \<^verbatim>\<open>net\<close>, \<^verbatim>\<open>time\<close>, \<^verbatim>\<open>trace\<close>), since its effect is that of the hardware behind it;
  assembly entry points; third-party code (\<^verbatim>\<open>dlmalloc\<close>, \<^verbatim>\<open>lwip\<close>, \<^verbatim>\<open>printf\<close>); the user library, the user interface and the
  applications.
\<close>

end
